(* ===== verification/Path64_Prelude.thy ===== *)
theory Path64_Prelude
  imports Main "HOL-Library.Word"
begin

text \<open>
  The vocabulary every component of the development shares.

  The C sources report a broken assumption by \<^verbatim>\<open>FmtAssert\<close> (always) and by
  \<^verbatim>\<open>Is_True\<close> (in a build with \<^verbatim>\<open>Is_True_On\<close>); both are modelled, and both are
  modelled as present, as values of the sum type \<open>c_error + 'a\<close>.  Reading or writing an
  array outside its allocation has no result in C; it is the error \<open>Out_Of_Bounds\<close> here,
  so that a theorem that an operation returns a value is also a theorem that it stays
  inside its arrays.

  The theory holds the error type with its bind, the two shapes of \<^verbatim>\<open>for\<close> loop the
  sources use (a loop that updates a state, and a search loop that leaves the function by
  \<^verbatim>\<open>return\<close>), the predicate \<open>returnsE\<close> for total correctness with its rules, the
  conversion to \<^verbatim>\<open>INT32\<close>, and lemmas on lists, words and bits.
\<close>

unbundle bit_operations_syntax

section \<open>Errors\<close>

datatype c_error =
    Assertion string    \<comment> \<open>a failing \<^verbatim>\<open>FmtAssert\<close> or \<^verbatim>\<open>Is_True\<close>, with its message\<close>
  | Fatal string        \<comment> \<open>a call that reports an error and ends the process\<close>
  | Out_Of_Bounds       \<comment> \<open>an access outside the allocated array\<close>
  | Null_Pointer        \<comment> \<open>an access through the null pointer\<close>
  | Diverges            \<comment> \<open>a loop that never ends\<close>

type_synonym 'a outcome = "c_error + 'a"

definition bindE :: "'e + 'a \<Rightarrow> ('a \<Rightarrow> 'e + 'b) \<Rightarrow> 'e + 'b" where
  "bindE m f = (case m of Inl e \<Rightarrow> Inl e | Inr x \<Rightarrow> f x)"

definition FmtAssert :: "bool \<Rightarrow> string \<Rightarrow> unit outcome" where
  "FmtAssert cond msg = (if cond then Inr () else Inl (Assertion msg))"

definition Is_True :: "bool \<Rightarrow> string \<Rightarrow> unit outcome" where
  "Is_True = FmtAssert"

definition returnsE :: "'e + 'a \<Rightarrow> ('a \<Rightarrow> bool) \<Rightarrow> bool" where
  "returnsE m P = (case m of Inl e \<Rightarrow> False | Inr x \<Rightarrow> P x)"

section \<open>Loops\<close>

text \<open>\<^verbatim>\<open>for (; i < n; ++i) s = body(i, s);\<close>\<close>

function for_loop :: "int \<Rightarrow> int \<Rightarrow> (int \<Rightarrow> 's \<Rightarrow> 'e + 's) \<Rightarrow> 's \<Rightarrow> 'e + 's" where
  "for_loop i n body s =
     (if i < n then (case body i s of Inl e \<Rightarrow> Inl e | Inr s' \<Rightarrow> for_loop (i + 1) n body s')
      else Inr s)"
  by pat_completeness auto
termination
  by (relation "measure (\<lambda>(i, n, body, s). nat (n - i))") auto

text \<open>
  \<^verbatim>\<open>for (; i < n; ++i) { ... if (...) return r; }\<close>: the body gives \<open>Some r\<close> to leave with
  \<open>r\<close>, \<open>None\<close> to go on.
\<close>

function search_loop :: "int \<Rightarrow> int \<Rightarrow> (int \<Rightarrow> 'e + 'r option) \<Rightarrow> 'e + 'r option" where
  "search_loop i n body =
     (if i < n then
        (case body i of Inl e \<Rightarrow> Inl e | Inr (Some r) \<Rightarrow> Inr (Some r)
                      | Inr None \<Rightarrow> search_loop (i + 1) n body)
      else Inr None)"
  by pat_completeness auto
termination
  by (relation "measure (\<lambda>(i, n, body). nat (n - i))") auto

declare for_loop.simps [simp del]
declare search_loop.simps [simp del]

text \<open>Two such searches one after the other, and an expression that reads two operands.\<close>

definition or_elseE :: "'e + 'r option \<Rightarrow> 'e + 'r option \<Rightarrow> 'e + 'r option" where
  "or_elseE m k = bindE m (\<lambda>r. case r of Some v \<Rightarrow> Inr (Some v) | None \<Rightarrow> k)"

definition andE :: "'e + 'w \<Rightarrow> 'e + 'w \<Rightarrow> 'e + 'w :: semiring_bit_operations" where
  "andE m1 m2 = bindE m1 (\<lambda>x. bindE m2 (\<lambda>y. Inr (x AND y)))"

section \<open>Machine integers\<close>

text \<open>
  The conversions to a signed 32-bit integer (by two's complement), to an unsigned 32-bit
  integer and to \<^verbatim>\<open>size_t\<close> (64 bits on the hosts the compiler runs on).
\<close>

definition INT32 :: "int \<Rightarrow> int" where
  "INT32 x = signed_take_bit 31 x"

definition UINT32 :: "int \<Rightarrow> int" where
  "UINT32 x = take_bit 32 x"

definition SIZE_T :: "int \<Rightarrow> int" where
  "SIZE_T x = take_bit 64 x"

text \<open>Division of signed integers truncates towards 0, and the remainder fits it.\<close>

definition cdiv :: "int \<Rightarrow> int \<Rightarrow> int" where
  "cdiv a b = sgn a * sgn b * (\<bar>a\<bar> div \<bar>b\<bar>)"

definition crem :: "int \<Rightarrow> int \<Rightarrow> int" where
  "crem a b = a - b * cdiv a b"

section \<open>Printing\<close>

text \<open>\<^verbatim>\<open>%d\<close>, and a format with one \<^verbatim>\<open>%s\<close>.\<close>

fun print_nat :: "nat \<Rightarrow> string" where
  "print_nat n = (if n < 10 then [char_of (48 + n)] else print_nat (n div 10) @ [char_of (48 + n mod 10)])"

declare print_nat.simps [simp del]

definition print_int :: "int \<Rightarrow> string" where
  "print_int x = (if x < 0 then ''-'' @ print_nat (nat (- x)) else print_nat (nat x))"

fun printf_s :: "string \<Rightarrow> string \<Rightarrow> string" where
  "printf_s [] s = []"
| "printf_s [c] s = [c]"
| "printf_s (c # d # cs) s = (if c = CHR ''%'' \<and> d = CHR ''s'' then s @ cs else c # printf_s (d # cs) s)"

definition NL :: string where "NL = [CHR 0x0A]"
definition TAB :: string where "TAB = [CHR 0x09]"
definition QUOTE :: string where "QUOTE = [CHR 0x22]"

section \<open>Lemmas on outcomes\<close>

lemma bindE_Inr [simp]: "bindE (Inr x) f = f x"
  and bindE_Inl [simp]: "bindE (Inl e) f = Inl e"
  by (simp_all add: bindE_def)

lemma bindE_cong [fundef_cong]:
  "m = m' \<Longrightarrow> (\<And>x. m' = Inr x \<Longrightarrow> f x = g x) \<Longrightarrow> bindE m f = bindE m' g"
  by (simp add: bindE_def split: sum.splits)

lemma bindE_assoc: "bindE (bindE m f) g = bindE m (\<lambda>x. bindE (f x) g)"
  by (simp add: bindE_def split: sum.splits)

lemma bindE_eq_Inr: "bindE m f = Inr y \<longleftrightarrow> (\<exists>x. m = Inr x \<and> f x = Inr y)"
  by (simp add: bindE_def split: sum.splits)

lemma returnsE_Inr [simp]: "returnsE (Inr x) P = P x"
  and returnsE_Inl [simp]: "returnsE (Inl e) P = False"
  by (simp_all add: returnsE_def)

lemma returnsE_iff: "returnsE m P \<longleftrightarrow> (\<exists>x. m = Inr x \<and> P x)"
  by (auto simp: returnsE_def split: sum.splits)

lemma returnsE_E:
  assumes "returnsE m P"
  obtains x where "m = Inr x" and "P x"
  using assms by (auto simp: returnsE_iff)

lemma returnsE_bindE [simp]: "returnsE (bindE m f) P = returnsE m (\<lambda>x. returnsE (f x) P)"
  by (simp add: returnsE_def bindE_def split: sum.splits)

lemma returnsE_mono: "returnsE m P \<Longrightarrow> (\<And>x. P x \<Longrightarrow> Q x) \<Longrightarrow> returnsE m Q"
  by (auto simp: returnsE_iff)

lemma returnsE_conj: "returnsE m P \<Longrightarrow> returnsE m Q \<Longrightarrow> returnsE m (\<lambda>x. P x \<and> Q x)"
  by (auto simp: returnsE_iff)

text \<open>An outcome other than an endless loop.\<close>

definition halts :: "'a outcome \<Rightarrow> bool" where
  "halts m \<longleftrightarrow> m \<noteq> Inl Diverges"

lemma halts_simps [simp]: "halts (Inr x)" "halts (Inl e) \<longleftrightarrow> e \<noteq> Diverges"
  "halts (bindE m f) \<longleftrightarrow> halts m \<and> (\<forall>x. m = Inr x \<longrightarrow> halts (f x))"
  by (auto simp: halts_def bindE_def split: sum.splits)

lemma or_elseE_simps [simp]:
  "or_elseE (Inr None) k = k" "or_elseE (Inr (Some v)) k = Inr (Some v)"
  by (simp_all add: or_elseE_def)

lemma returnsE_or_elseE:
  assumes "returnsE m P" "\<And>v. P (Some v) \<Longrightarrow> Q (Some v)" "P None \<Longrightarrow> returnsE k Q"
  shows "returnsE (or_elseE m k) Q"
  using assms by (auto simp: or_elseE_def returnsE_iff bindE_def split: option.splits)

lemma returnsE_andE:
  assumes "returnsE m1 P1" "returnsE m2 P2" "\<And>x y. P1 x \<Longrightarrow> P2 y \<Longrightarrow> Q (x AND y)"
  shows "returnsE (andE m1 m2) Q"
  using assms by (auto simp: andE_def returnsE_iff bindE_def)

lemma FmtAssert_holds [simp]: "cond \<Longrightarrow> FmtAssert cond msg = Inr ()"
  and FmtAssert_fails [simp]: "\<not> cond \<Longrightarrow> FmtAssert cond msg = Inl (Assertion msg)"
  and Is_True_holds [simp]: "cond \<Longrightarrow> Is_True cond msg = Inr ()"
  and Is_True_fails [simp]: "\<not> cond \<Longrightarrow> Is_True cond msg = Inl (Assertion msg)"
  by (simp_all add: FmtAssert_def Is_True_def)

lemma returnsE_Is_True: "returnsE (Is_True cond msg) P \<longleftrightarrow> cond \<and> P ()"
  and returnsE_FmtAssert: "returnsE (FmtAssert cond msg) P \<longleftrightarrow> cond \<and> P ()"
  by (simp_all add: FmtAssert_def Is_True_def)

section \<open>Lemmas on loops\<close>

lemma for_loop_done [simp]: "n \<le> i \<Longrightarrow> for_loop i n body s = Inr s"
  by (simp add: for_loop.simps)

lemma for_loop_step: "i < n \<Longrightarrow> for_loop i n body s = bindE (body i s) (for_loop (i + 1) n body)"
  by (subst for_loop.simps) (simp add: bindE_def split: sum.splits)

lemma search_loop_done [simp]: "n \<le> i \<Longrightarrow> search_loop i n body = Inr None"
  by (simp add: search_loop.simps)

text \<open>An invariant that the body keeps holds after the loop, and the loop ends.\<close>

lemma for_loop_invariant:
  assumes body: "\<And>i s. lo \<le> i \<Longrightarrow> i < hi \<Longrightarrow> I i s \<Longrightarrow> returnsE (body i s) (I (i + 1))"
    and "lo \<le> hi" and "I lo s"
  shows "returnsE (for_loop lo hi body s) (I hi)"
proof -
  have "returnsE (for_loop i hi body s) (I hi)"
    if "lo \<le> i" "i \<le> hi" "I i s" "k = nat (hi - i)" for i s k
    using that
  proof (induction k arbitrary: i s)
    case 0
    then show ?case by simp
  next
    case (Suc k)
    then have "returnsE (body i s) (I (i + 1))" by (intro body) auto
    with Suc show ?case
      by (simp add: for_loop_step) (erule returnsE_mono, rule Suc.IH, auto)
  qed
  with assms(2,3) show ?thesis by simp
qed

text \<open>A loop whose body fails at index \<open>k\<close> fails.\<close>

lemma for_loop_fails:
  assumes body: "\<And>i s. lo \<le> i \<Longrightarrow> i < k \<Longrightarrow> I i s \<Longrightarrow> returnsE (body i s) (I (i + 1))"
    and fail: "\<And>s. I k s \<Longrightarrow> body k s = Inl e" and "lo \<le> k" "k < hi" "I lo s"
  shows "for_loop lo hi body s = Inl e"
proof -
  have "for_loop i hi body s = Inl e" if "lo \<le> i" "i \<le> k" "I i s" "n = nat (k - i)" for i s n
    using that
  proof (induction n arbitrary: i s)
    case 0
    with assms(4) fail show ?case by (simp add: for_loop_step)
  next
    case (Suc n)
    then have "i < k" by simp
    with Suc.prems obtain s' where s': "body i s = Inr s'" "I (i + 1) s'"
      using body by (blast elim: returnsE_E)
    have "for_loop (i + 1) hi body s' = Inl e"
      using Suc.prems \<open>i < k\<close> s'(2) by (intro Suc.IH) simp_all
    with s'(1) \<open>i < k\<close> assms(4) show ?case by (simp add: for_loop_step [of i])
  qed
  with assms(3,5) show ?thesis by simp
qed

text \<open>
  A search loop whose body gives \<open>h i\<close> for every index in range returns the first \<open>h i\<close>
  that is not \<open>None\<close>.
\<close>

definition first_hit :: "int \<Rightarrow> int \<Rightarrow> (int \<Rightarrow> 'r option) \<Rightarrow> 'r option \<Rightarrow> bool" where
  "first_hit lo hi h r = (case r of
      None \<Rightarrow> (\<forall>i \<in> {lo..<hi}. h i = None)
    | Some v \<Rightarrow> (\<exists>i \<in> {lo..<hi}. h i = Some v \<and> (\<forall>j \<in> {lo..<i}. h j = None)))"

lemma first_hit_None_step:
  assumes "h i = None" and "first_hit (i + 1) hi h r"
  shows "first_hit i hi h r"
proof (cases r)
  case None
  have "h j = None" if "j \<in> {i..<hi}" for j
    using that assms None by (cases "j = i") (auto simp: first_hit_def)
  with None show ?thesis by (simp add: first_hit_def)
next
  case (Some v)
  with assms(2) obtain k where k: "i + 1 \<le> k" "k < hi" "h k = Some v"
    and before: "\<forall>j \<in> {i + 1..<k}. h j = None"
    by (auto simp: first_hit_def)
  have "h j = None" if "j \<in> {i..<k}" for j
    using that before assms(1) by (cases "j = i") auto
  with k Some show ?thesis by (auto simp: first_hit_def)
qed

lemma search_loop_spec:
  assumes body: "\<And>i. lo \<le> i \<Longrightarrow> i < hi \<Longrightarrow> body i = Inr (h i)"
  shows "returnsE (search_loop lo hi body) (first_hit lo hi h)"
proof -
  have "returnsE (search_loop i hi body) (first_hit i hi h)" if "lo \<le> i" "k = nat (hi - i)" for i k
    using that
  proof (induction k arbitrary: i)
    case 0
    then show ?case by (simp add: first_hit_def)
  next
    case (Suc k)
    then have i: "i < hi" by linarith
    show ?case
    proof (cases "h i")
      case None
      from Suc have "returnsE (search_loop (i + 1) hi body) (first_hit (i + 1) hi h)" by simp
      then have "returnsE (search_loop (i + 1) hi body) (first_hit i hi h)"
        by (rule returnsE_mono) (rule first_hit_None_step [of h, OF None])
      with None i Suc.prems show ?thesis
        by (subst search_loop.simps) (simp add: body)
    next
      case (Some v)
      with i Suc.prems show ?thesis
        by (subst search_loop.simps) (auto simp: body first_hit_def)
    qed
  qed
  then show ?thesis by simp
qed

section \<open>Lemmas on machine integers\<close>

lemma INT32_id: "- (2 ^ 31) \<le> x \<Longrightarrow> x < 2 ^ 31 \<Longrightarrow> INT32 x = x"
  by (simp add: INT32_def signed_take_bit_int_eq_self)

lemma INT32_range: "- (2 ^ 31) \<le> INT32 x" "INT32 x < 2 ^ 31"
  using signed_take_bit_int_greater_eq_minus_exp [of 31 x] signed_take_bit_int_less_exp [of 31 x]
  by (simp_all add: INT32_def)

lemma INT32_wrap:
  assumes "2 ^ 31 \<le> x" "x < 2 ^ 31 + 2 ^ 32"
  shows "INT32 x = x - 2 ^ 32"
proof -
  have "INT32 x = INT32 (x - 2 ^ 32)"
    by (simp add: INT32_def signed_take_bit_eq_iff_take_bit_eq take_bit_eq_mod)
  also have "\<dots> = x - 2 ^ 32" using assms by (intro INT32_id) simp_all
  finally show ?thesis .
qed

lemma UINT32_id: "0 \<le> x \<Longrightarrow> x < 2 ^ 32 \<Longrightarrow> UINT32 x = x"
  and SIZE_T_id: "0 \<le> x \<Longrightarrow> x < 2 ^ 64 \<Longrightarrow> SIZE_T x = x"
  by (simp_all add: UINT32_def SIZE_T_def take_bit_int_eq_self)

lemma cdiv_nonneg: "0 \<le> a \<Longrightarrow> 0 < b \<Longrightarrow> cdiv a b = a div b"
  by (cases "a = 0") (simp_all add: cdiv_def)

lemma cdiv_neg: "a \<le> 0 \<Longrightarrow> b < 0 \<Longrightarrow> cdiv a b = - a div - b"
  by (cases "a = 0") (simp_all add: cdiv_def)

lemma cdiv_mult [simp]: "b \<noteq> 0 \<Longrightarrow> cdiv (k * b) b = k"
proof -
  assume b: "b \<noteq> 0"
  then have "sgn (k * b) * sgn b = sgn k" by (simp add: sgn_mult mult.assoc)
  moreover have "\<bar>k * b\<bar> div \<bar>b\<bar> = \<bar>k\<bar>" using b by (simp add: abs_mult)
  ultimately show ?thesis by (simp only: cdiv_def mult_sgn_abs)
qed

lemma crem_mult [simp]: "b \<noteq> 0 \<Longrightarrow> crem (k * b) b = 0"
  by (simp add: crem_def)

lemma cdiv_numeral_le: "cdiv a (numeral n) \<le> \<bar>a\<bar> div numeral n"
proof -
  have "0 \<le> \<bar>a\<bar> div (numeral n :: int)" by (simp add: pos_imp_zdiv_nonneg_iff)
  then show ?thesis by (cases a "0 :: int" rule: linorder_cases) (simp_all add: cdiv_def)
qed

lemma le_div_int: "0 < c \<Longrightarrow> k \<le> x div c \<longleftrightarrow> k * c \<le> x" for k x c :: int
proof
  assume "0 < c" "k \<le> x div c"
  then have "k * c \<le> x div c * c" by (intro mult_right_mono) simp_all
  also have "\<dots> \<le> x" using minus_div_mult_eq_mod [of x c] pos_mod_sign [OF \<open>0 < c\<close>, of x] by linarith
  finally show "k * c \<le> x" .
next
  assume "0 < c" "k * c \<le> x"
  then show "k \<le> x div c" using zdiv_mono1 [of "k * c" x c] by simp
qed

lemma div_numeral_nonneg [simp]: "0 \<le> x div numeral k \<longleftrightarrow> 0 \<le> x" for x :: int
  by (simp add: pos_imp_zdiv_nonneg_iff)

lemma nat_mod_numeral_less [simp]: "nat (x mod numeral k) < numeral k"
  by (simp add: nat_less_iff)

section \<open>Lemmas on bits\<close>

lemma bit_255_int: "bit (255 :: int) n \<longleftrightarrow> n < 8"
proof -
  have "(255 :: int) = mask 8" by (simp add: mask_eq_exp_minus_1)
  then show ?thesis by (simp only: bit_mask_iff possible_bit_int simp_thms)
qed

lemma word_eq_0_iff_bit: "w = 0 \<longleftrightarrow> (\<forall>j. \<not> bit w j)" for w :: "'a::len word"
  by (auto simp: bit_eq_iff dest: bit_imp_le_length)

end
