(* ===== verification/Mempool.thy ===== *)
theory Mempool
  imports Path64_Prelude
begin

text \<open>
  Memory pools (\<^verbatim>\<open>src/src/common/util/mempool.h\<close>) as their clients see them.  The block
  management of \<^verbatim>\<open>memory.c\<close> is behind the interface and not modelled: a pool is what
  the interface promises of it, a flag that says whether new memory is zeroed and, for a pool
  that does not zero, arbitrary contents.  The contents are a field of the pool, so a theorem
  about any pool holds whatever the uninitialised memory happens to hold.

  A pool that was never initialised (such as \<^verbatim>\<open>bad_pool\<close> of \<^verbatim>\<open>bitset.c\<close>) is
  \<open>Bad_Pool\<close>; allocating from it fails.
\<close>

datatype 'w MEM_POOL = Bad_Pool | Mem_Pool (pool_bz: bool) (pool_fill: "nat \<Rightarrow> 'w")

definition MEM_POOL_Zeroed :: "'w MEM_POOL \<Rightarrow> bool" where
  "MEM_POOL_Zeroed pool = (case pool of Bad_Pool \<Rightarrow> False | Mem_Pool z fill \<Rightarrow> z)"

text \<open>The contents of \<open>n\<close> new objects at offset \<open>k\<close> of a block; \<open>zero\<close> is the object whose bytes are 0.\<close>

definition pool_memory :: "'w \<Rightarrow> 'w MEM_POOL \<Rightarrow> nat \<Rightarrow> nat \<Rightarrow> 'w list" where
  "pool_memory zero pool k n =
     map (\<lambda>i. if MEM_POOL_Zeroed pool then zero else pool_fill pool (k + i)) [0..<n]"

definition TYPE_MEM_POOL_ALLOC_N :: "'w \<Rightarrow> 'w MEM_POOL \<Rightarrow> nat \<Rightarrow> 'w list outcome" where
  "TYPE_MEM_POOL_ALLOC_N zero pool n =
     (if pool = Bad_Pool then Inl (Assertion ''Alloc from un-initialized MEM_POOL'')
      else Inr (pool_memory zero pool 0 n))"

definition TYPE_MEM_POOL_REALLOC_N ::
    "'w \<Rightarrow> 'w MEM_POOL \<Rightarrow> 'w list \<Rightarrow> nat \<Rightarrow> nat \<Rightarrow> 'w list outcome" where
  "TYPE_MEM_POOL_REALLOC_N zero pool old_block old_n new_n =
     (if pool = Bad_Pool then Inl (Assertion ''Realloc from un-initialized MEM_POOL'')
      else Inr (take new_n (take old_n old_block @ pool_memory zero pool old_n (new_n - old_n))))"

lemma length_pool_memory [simp]: "length (pool_memory zero pool k n) = n"
  by (simp add: pool_memory_def)

lemma nth_pool_memory:
  "i < n \<Longrightarrow> pool_memory zero pool k n ! i =
     (if MEM_POOL_Zeroed pool then zero else pool_fill pool (k + i))"
  by (simp add: pool_memory_def)

lemma MEM_POOL_Zeroed_simps [simp]:
  "MEM_POOL_Zeroed (Mem_Pool z fill) = z" "MEM_POOL_Zeroed Bad_Pool = False"
  by (simp_all add: MEM_POOL_Zeroed_def)

end
