(* ===== verification/Bitset_Rep.thy ===== *)
theory Bitset_Rep
  imports Mempool
begin

text \<open>
  The representation of bit sets (\<^verbatim>\<open>src/src/common/util/bitset.h\<close> and the allocation
  routines of \<^verbatim>\<open>bitset.c\<close>): the set structure with its word and byte accessors, the
  index arithmetic, the set of integers a structure stands for, the invariant, and the
  equations that the loops over words rest on.

  A \<^verbatim>\<open>BS\<close> is one array: a word with the number of member words, then those words.  The
  accessors \<^verbatim>\<open>BS_word\<close> and \<^verbatim>\<open>BS_byte\<close> are lvalues in C; each is a read and a write here.
  The byte order is that of the x86-64 and little-endian MIPS hosts.
\<close>

section \<open>Types and index arithmetic\<close>

type_synonym BS_WORD = "32 word"
type_synonym BS_BYTE = "8 word"
type_synonym BS_ELT = int

record BS =
  BS_word_count :: int            \<comment> \<open>the first word: how many words hold members\<close>
  BS_words :: "BS_WORD list"      \<comment> \<open>the words after it\<close>

definition bs_PBPW :: "int \<Rightarrow> BS_ELT" where "bs_PBPW x = INT32 (x * 32)"
definition bs_QBPW :: "int \<Rightarrow> BS_ELT" where "bs_QBPW x = INT32 (x div 32)"
definition bs_RBPW :: "int \<Rightarrow> BS_ELT" where "bs_RBPW x = INT32 (x mod 32)"
definition bs_PBPB :: "int \<Rightarrow> BS_ELT" where "bs_PBPB x = INT32 (x * 8)"
definition bs_QBPB :: "int \<Rightarrow> BS_ELT" where "bs_QBPB x = INT32 (x div 8)"
definition bs_RBPB :: "int \<Rightarrow> BS_ELT" where "bs_RBPB x = INT32 (x mod 8)"
definition bs_PBytesPW :: "int \<Rightarrow> BS_ELT" where "bs_PBytesPW x = INT32 (x * 4)"

definition bs_ZEROS :: BS_WORD where "bs_ZEROS = 0"
definition bs_ONES :: BS_WORD where "bs_ONES = NOT 0"
definition bs_ONE :: BS_WORD where "bs_ONE = 1"

definition BS_CHOOSE_FAILURE :: BS_ELT where "BS_CHOOSE_FAILURE = - 1"

section \<open>Access to words and bytes\<close>

definition BS_word :: "BS \<Rightarrow> int \<Rightarrow> BS_WORD outcome" where
  "BS_word bs i =
     (if 0 \<le> i \<and> i < int (length (BS_words bs)) then Inr (BS_words bs ! nat i)
      else Inl Out_Of_Bounds)"

definition BS_set_word :: "BS \<Rightarrow> int \<Rightarrow> BS_WORD \<Rightarrow> BS outcome" where
  "BS_set_word bs i w =
     (if 0 \<le> i \<and> i < int (length (BS_words bs))
      then Inr (bs\<lparr>BS_words := (BS_words bs)[nat i := w]\<rparr>)
      else Inl Out_Of_Bounds)"

definition BS_byte :: "BS \<Rightarrow> int \<Rightarrow> BS_BYTE outcome" where
  "BS_byte bs i =
     (if 0 \<le> i \<and> i < 4 * int (length (BS_words bs))
      then Inr (ucast (drop_bit (8 * nat (i mod 4)) (BS_words bs ! nat (i div 4))))
      else Inl Out_Of_Bounds)"

definition put_byte :: "BS_WORD \<Rightarrow> nat \<Rightarrow> BS_BYTE \<Rightarrow> BS_WORD" where
  "put_byte w k b = (w AND NOT (push_bit (8 * k) 255)) OR push_bit (8 * k) (ucast b)"

definition BS_set_byte :: "BS \<Rightarrow> int \<Rightarrow> BS_BYTE \<Rightarrow> BS outcome" where
  "BS_set_byte bs i b =
     (if 0 \<le> i \<and> i < 4 * int (length (BS_words bs))
      then Inr (bs\<lparr>BS_words := (BS_words bs)
                     [nat (i div 4) := put_byte (BS_words bs ! nat (i div 4)) (nat (i mod 4)) b]\<rparr>)
      else Inl Out_Of_Bounds)"

section \<open>Allocation\<close>

definition bs_Malloc :: "int \<Rightarrow> BS_WORD MEM_POOL \<Rightarrow> BS outcome" where
  "bs_Malloc len pool =
     bindE (Is_True (pool \<noteq> Bad_Pool) ''Shouldn't be allocating.'') (\<lambda>_.
     bindE (TYPE_MEM_POOL_ALLOC_N 0 pool (nat (len + 1))) (\<lambda>block.
     Inr \<lparr>BS_word_count = UINT32 len, BS_words = tl block\<rparr>))"

text \<open>\<^verbatim>\<open>for (new_length = 2; new_length < length; new_length <<= 1);\<close> with \<open>new_length = 2 ^ k\<close>\<close>

function bs_new_length :: "nat \<Rightarrow> int \<Rightarrow> int" where
  "bs_new_length k len = (if 2 ^ k < len then bs_new_length (Suc k) len else 2 ^ k)"
  by pat_completeness auto
termination
proof (relation "measure (\<lambda>(k, len). nat len - k)")
  fix k :: nat and len :: int
  assume "2 ^ k < len"
  moreover have "int k < 2 ^ k"
    using less_exp [of k] by (metis of_nat_less_iff of_nat_numeral of_nat_power)
  ultimately have "int k < len" by linarith
  then show "((Suc k, len), k, len) \<in> measure (\<lambda>(k, len). nat len - k)" by auto
qed auto

declare bs_new_length.simps [simp del]

text \<open>
  For a length above \<open>2 ^ 63\<close> the doubling of the 64-bit \<^verbatim>\<open>new_length\<close> reaches 0 and stays
  there: that loop never ends.
\<close>

definition bs_Realloc :: "BS \<Rightarrow> int \<Rightarrow> BS_WORD MEM_POOL \<Rightarrow> BS outcome" where
  "bs_Realloc bs len pool =
     (let old_length = INT32 (BS_word_count bs) in
      bindE (Is_True (pool \<noteq> Bad_Pool) ''Shouldn't be allocating.'') (\<lambda>_.
      if len \<le> SIZE_T old_length then Inr bs
      else if len > 2 ^ 63 then Inl Diverges
      else
        let len = bs_new_length 1 len in
        bindE (TYPE_MEM_POOL_REALLOC_N 0 pool (of_int (BS_word_count bs) # BS_words bs)
                 (nat (old_length + 1)) (nat (len + 1))) (\<lambda>block.
        let new_set = \<lparr>BS_word_count = BS_word_count bs, BS_words = tl block\<rparr> in
        bindE (if \<not> MEM_POOL_Zeroed pool
               then for_loop old_length len (\<lambda>i s. BS_set_word s i bs_ZEROS) new_set
               else Inr new_set) (\<lambda>new_set.
        Inr (new_set\<lparr>BS_word_count := UINT32 len\<rparr>)))))"

section \<open>The set a structure stands for, and the invariant\<close>

definition word_elems :: "BS_WORD list \<Rightarrow> BS_ELT set" where
  "word_elems ws = {x. 0 \<le> x \<and> x div 32 < int (length ws) \<and> bit (ws ! nat (x div 32)) (nat (x mod 32))}"

definition BS_elems :: "BS \<Rightarrow> BS_ELT set" where
  "BS_elems bs = word_elems (BS_words bs)"

text \<open>
  The word count is the number of words, and every bit position and one more
  fits a \<^verbatim>\<open>BS_ELT\<close>.
\<close>

definition BS_ok :: "BS \<Rightarrow> bool" where
  "BS_ok bs \<longleftrightarrow> BS_word_count bs = int (length (BS_words bs)) \<and> BS_word_count bs < 2 ^ 26"

section \<open>Index arithmetic in range\<close>

lemma bs_QBPW_id: "0 \<le> x \<Longrightarrow> x < 2 ^ 31 \<Longrightarrow> bs_QBPW x = x div 32"
  and bs_QBPB_id: "0 \<le> x \<Longrightarrow> x < 2 ^ 31 \<Longrightarrow> bs_QBPB x = x div 8"
  and bs_PBPW_id: "0 \<le> x \<Longrightarrow> x < 2 ^ 26 \<Longrightarrow> bs_PBPW x = x * 32"
  and bs_PBPB_id: "0 \<le> x \<Longrightarrow> x < 2 ^ 28 \<Longrightarrow> bs_PBPB x = x * 8"
  and bs_PBytesPW_id: "0 \<le> x \<Longrightarrow> x < 2 ^ 29 \<Longrightarrow> bs_PBytesPW x = x * 4"
  by (simp_all add: bs_QBPW_def bs_QBPB_def bs_PBPW_def bs_PBPB_def bs_PBytesPW_def INT32_id)

lemma bs_RBPB_id [simp]: "bs_RBPB x = x mod 8"
  and bs_RBPW_id [simp]: "bs_RBPW x = x mod 32"
proof -
  have "0 \<le> x mod 8" "x mod 8 < 8" "0 \<le> x mod 32" "x mod 32 < 32" by simp_all
  then show "bs_RBPB x = x mod 8" "bs_RBPW x = x mod 32"
    by (simp_all add: bs_RBPB_def bs_RBPW_def INT32_id)
qed

lemmas bs_index = bs_QBPW_id bs_QBPB_id bs_PBPW_id bs_PBPB_id bs_PBytesPW_id

lemma bs_constants [simp]: "bs_ZEROS = 0" "bs_ONES = - 1" "bs_ONE = 1"
  by (simp_all add: bs_ZEROS_def bs_ONES_def bs_ONE_def)

section \<open>Words, bytes and elements\<close>

lemma BS_word_in [simp]: "0 \<le> i \<Longrightarrow> i < int (length (BS_words bs)) \<Longrightarrow> BS_word bs i = Inr (BS_words bs ! nat i)"
  by (simp add: BS_word_def)

lemma BS_set_word_in [simp]:
  "0 \<le> i \<Longrightarrow> i < int (length (BS_words bs)) \<Longrightarrow>
     BS_set_word bs i w = Inr (bs\<lparr>BS_words := (BS_words bs)[nat i := w]\<rparr>)"
  by (simp add: BS_set_word_def)

lemma BS_elems_nonneg: "x \<in> BS_elems bs \<Longrightarrow> 0 \<le> x"
  and BS_elems_bound: "x \<in> BS_elems bs \<Longrightarrow> x < 32 * int (length (BS_words bs))"
  by (auto simp: BS_elems_def word_elems_def)

lemma finite_BS_elems: "finite (BS_elems bs)"
proof (rule finite_subset)
  show "BS_elems bs \<subseteq> {0..<32 * int (length (BS_words bs))}"
    by (auto dest: BS_elems_nonneg BS_elems_bound)
qed simp

lemma BS_elems_select [simp]:
  "BS_elems (bs\<lparr>BS_word_count := n\<rparr>) = BS_elems bs"
  "BS_elems (bs\<lparr>BS_words := ws\<rparr>) = word_elems ws"
  "BS_elems \<lparr>BS_word_count = n, BS_words = ws\<rparr> = word_elems ws"
  by (simp_all add: BS_elems_def)

lemma BS_word_elems:
  assumes "0 \<le> i" "i < int (length (BS_words bs))"
  shows "bit (BS_words bs ! nat i) k \<longleftrightarrow> k < 32 \<and> 32 * i + int k \<in> BS_elems bs"
proof (cases "k < 32")
  case True
  then have "(32 * i + int k) div 32 = i" "(32 * i + int k) mod 32 = int k" by simp_all
  with True assms show ?thesis by (simp add: BS_elems_def word_elems_def)
next
  case False
  then show ?thesis by (auto dest: bit_imp_le_length)
qed

lemma BS_word_zero_iff:
  assumes "0 \<le> i" "i < int (length (BS_words bs))"
  shows "BS_words bs ! nat i = 0 \<longleftrightarrow> (\<forall>x \<in> BS_elems bs. x div 32 \<noteq> i)"
proof -
  have "(\<exists>k < 32. 32 * i + int k \<in> BS_elems bs) \<longleftrightarrow> (\<exists>x \<in> BS_elems bs. x div 32 = i)"
  proof
    assume "\<exists>k < 32. 32 * i + int k \<in> BS_elems bs"
    then obtain k where "k < 32" "32 * i + int k \<in> BS_elems bs" by blast
    moreover from \<open>k < 32\<close> have "(32 * i + int k) div 32 = i" by simp
    ultimately show "\<exists>x \<in> BS_elems bs. x div 32 = i" by blast
  next
    assume "\<exists>x \<in> BS_elems bs. x div 32 = i"
    then obtain x where x: "x \<in> BS_elems bs" "x div 32 = i" by blast
    then have "32 * i + int (nat (x mod 32)) = x" "nat (x mod 32) < 32"
      using mult_div_mod_eq [of 32 x] by simp_all
    with x show "\<exists>k < 32. 32 * i + int k \<in> BS_elems bs" by metis
  qed
  with assms show ?thesis by (auto simp: word_eq_0_iff_bit BS_word_elems)
qed

text \<open>The byte addressed view: byte \<open>i\<close> holds the elements \<open>8 * i .. 8 * i + 7\<close>.\<close>

lemma byte_word_position:
  assumes "0 \<le> i" "k < 8"
  shows "(8 * i + int k) div 32 = i div 4"
    and "nat ((8 * i + int k) mod 32) = 8 * nat (i mod 4) + k"
proof -
  have i: "i = 4 * (i div 4) + i mod 4" "0 \<le> i mod 4" "i mod 4 < 4" by simp_all
  then have eq: "8 * i + int k = 32 * (i div 4) + (8 * (i mod 4) + int k)" by linarith
  have r: "0 \<le> 8 * (i mod 4) + int k" "8 * (i mod 4) + int k < 32"
    using i(2,3) assms(2) by linarith+
  show "(8 * i + int k) div 32 = i div 4"
    unfolding eq using r by simp
  have "(8 * i + int k) mod 32 = 8 * (i mod 4) + int k"
    unfolding eq using r by simp
  then show "nat ((8 * i + int k) mod 32) = 8 * nat (i mod 4) + k"
    using i(2) by (simp add: nat_add_distrib nat_mult_distrib)
qed

lemma bit_BS_byte:
  assumes "0 \<le> i" "i < 4 * int (length (BS_words bs))"
  shows "returnsE (BS_byte bs i) (\<lambda>b. \<forall>k. bit b k \<longleftrightarrow> k < 8 \<and> 8 * i + int k \<in> BS_elems bs)"
proof -
  have "i div 4 < int (length (BS_words bs))" using assms by linarith
  with assms show ?thesis
    by (auto simp: BS_byte_def BS_elems_def word_elems_def bit_simps byte_word_position)
qed

lemma bit_put_byte:
  assumes "k < 4" "j < 32"
  shows "bit (put_byte w k b) j =
     (if 8 * k \<le> j \<and> j < 8 * k + 8 then bit b (j - 8 * k) else bit w j)"
proof -
  show ?thesis
  proof (cases "8 * k \<le> j")
    case True
    then obtain n where n: "j = 8 * k + n" using le_Suc_ex by blast
    with assms show ?thesis
      by (auto simp: put_byte_def bit_or_iff bit_and_iff bit_not_iff bit_push_bit_iff
          bit_ucast_iff bit_255_int dest: bit_imp_le_length)
  next
    case False
    with assms show ?thesis
      by (auto simp: put_byte_def bit_or_iff bit_and_iff bit_not_iff bit_push_bit_iff)
  qed
qed

lemma BS_set_byte_in:
  assumes "0 \<le> i" "i < 4 * int (length (BS_words bs))"
  shows "returnsE (BS_set_byte bs i b) (\<lambda>r.
      BS_word_count r = BS_word_count bs \<and> length (BS_words r) = length (BS_words bs)
    \<and> BS_elems r = {x \<in> BS_elems bs. x div 8 \<noteq> i} \<union> {x. x div 8 = i \<and> bit b (nat (x mod 8))})"
proof -
  have bound': "i div 4 < int (length (BS_words bs))"
    and bound: "nat (i div 4) < length (BS_words bs)" using assms by linarith+
  let ?r = "bs\<lparr>BS_words := (BS_words bs)
              [nat (i div 4) := put_byte (BS_words bs ! nat (i div 4)) (nat (i mod 4)) b]\<rparr>"
  have "x \<in> BS_elems ?r \<longleftrightarrow>
      (if x div 8 = i then bit b (nat (x mod 8)) else x \<in> BS_elems bs)" for x
  proof (cases "0 \<le> x \<and> x div 32 = i div 4")
    case True
    define a where "a = nat (x mod 32)"
    define c where "c = nat (i mod 4)"
    have a: "x mod 32 = int a" "a < 32" and c: "i mod 4 = int c" "c < 4"
      by (simp_all add: a_def c_def)
    obtain w where w: "x div 32 = w" "i div 4 = w" using True by blast
    have x: "x = 32 * w + int a" and i: "i = 4 * w + int c"
      using w a(1) c(1) mult_div_mod_eq [of 32 x] mult_div_mod_eq [of 4 i] by simp_all
    obtain q r where qr: "a = 8 * q + r" "r < 8"
      by (metis mod_less_divisor mult_div_mod_eq zero_less_numeral)
    obtain k where k: "k = 4 * w + int q" by blast
    then have "x = 8 * k + int r" using x qr(1) by simp
    with qr(2) have "x div 8 = k" and r: "x mod 8 = int r" by simp_all
    with k have d: "x div 8 = 4 * w + int q" by simp
    have pos: "8 * c \<le> a \<and> a < 8 * c + 8 \<longleftrightarrow> x div 8 = i"
      using d i qr by auto
    moreover have "a - 8 * c = nat (x mod 8)" if "x div 8 = i"
      using that d i r qr(1) by simp
    moreover have "x \<in> BS_elems ?r \<longleftrightarrow> bit (put_byte (BS_words bs ! nat (i div 4)) c b) a"
      "x \<in> BS_elems bs \<longleftrightarrow> bit (BS_words bs ! nat (i div 4)) a"
      using True bound bound' by (simp_all add: BS_elems_def word_elems_def a_def c_def)
    ultimately show ?thesis by (simp add: bit_put_byte [OF c(2) a(2)])
  next
    case False
    have "x div 8 \<noteq> i"
    proof
      assume i: "x div 8 = i"
      have "x = 8 * (x div 8) + x mod 8" "0 \<le> x mod 8" by simp_all
      with i assms(1) have "0 \<le> x" by linarith
      moreover have "x div 32 = i div 4" using i zdiv_zmult2_eq [of 4 x 8] by simp
      ultimately show False using False by blast
    qed
    moreover have "nat (x div 32) \<noteq> nat (i div 4)" if "0 \<le> x"
      using False that assms(1)
      by (metis eq_nat_nat_iff pos_imp_zdiv_nonneg_iff zero_less_numeral)
    ultimately show ?thesis
      by (auto simp: BS_elems_def word_elems_def)
  qed
  then have "BS_elems ?r = {x \<in> BS_elems bs. x div 8 \<noteq> i} \<union> {x. x div 8 = i \<and> bit b (nat (x mod 8))}"
    by (simp add: set_eq_iff)
  with assms show ?thesis by (simp add: BS_set_byte_def)
qed

section \<open>Loops over the words of a set\<close>

text \<open>The words after the words \<open>lo .. hi - 1\<close> have been replaced, word \<open>j\<close> by \<open>g j\<close> of the old one.\<close>

definition map_words :: "int \<Rightarrow> int \<Rightarrow> (int \<Rightarrow> BS_WORD \<Rightarrow> BS_WORD) \<Rightarrow> BS_WORD list \<Rightarrow> BS_WORD list" where
  "map_words lo hi g ws =
     map (\<lambda>j. if lo \<le> int j \<and> int j < hi then g (int j) (ws ! j) else ws ! j) [0..<length ws]"

lemma length_map_words [simp]: "length (map_words lo hi g ws) = length ws"
  by (simp add: map_words_def)

lemma nth_map_words:
  "j < length ws \<Longrightarrow> map_words lo hi g ws ! j =
     (if lo \<le> int j \<and> int j < hi then g (int j) (ws ! j) else ws ! j)"
  by (simp add: map_words_def)

lemma map_words_empty [simp]: "hi \<le> lo \<Longrightarrow> map_words lo hi g ws = ws"
  by (rule nth_equalityI) (auto simp: nth_map_words)

lemma map_words_step:
  assumes "lo \<le> i" "0 \<le> i" "nat i < length ws"
  shows "(map_words lo i g ws)[nat i := g i (map_words lo i g ws ! nat i)] = map_words lo (i + 1) g ws"
proof -
  from assms(2) have "int (nat i) = i" by simp
  with assms show ?thesis
    by (intro nth_equalityI) (auto simp: nth_map_words nth_list_update simp del: int_nat_eq)
qed

lemma for_loop_words:
  assumes body: "\<And>i t. lo \<le> i \<Longrightarrow> i < hi \<Longrightarrow> BS_word_count t = BS_word_count bs
      \<Longrightarrow> length (BS_words t) = length (BS_words bs)
      \<Longrightarrow> body i t = Inr (t\<lparr>BS_words := (BS_words t)[nat i := g i (BS_words t ! nat i)]\<rparr>)"
    and bounds: "0 \<le> lo" "hi \<le> int (length (BS_words bs))"
  shows "for_loop lo hi body bs = Inr (bs\<lparr>BS_words := map_words lo hi g (BS_words bs)\<rparr>)"
proof (cases "lo \<le> hi")
  case True
  have "returnsE (for_loop lo hi body bs)
          (\<lambda>t. t = bs\<lparr>BS_words := map_words lo hi g (BS_words bs)\<rparr>)"
  proof (rule for_loop_invariant
      [where I = "\<lambda>i t. t = bs\<lparr>BS_words := map_words lo i g (BS_words bs)\<rparr>"])
    fix i t
    assume "lo \<le> i" "i < hi" "t = bs\<lparr>BS_words := map_words lo i g (BS_words bs)\<rparr>"
    with bounds show "returnsE (body i t)
        (\<lambda>t. t = bs\<lparr>BS_words := map_words lo (i + 1) g (BS_words bs)\<rparr>)"
      by (simp add: body map_words_step)
  qed (use True in simp_all)
  then show ?thesis by (simp add: returnsE_iff)
qed simp

lemma word_elems_map_words:
  "x \<in> word_elems (map_words lo hi g ws) \<longleftrightarrow>
     0 \<le> x \<and> x div 32 < int (length ws) \<and>
     bit (if lo \<le> x div 32 \<and> x div 32 < hi then g (x div 32) (ws ! nat (x div 32))
          else ws ! nat (x div 32)) (nat (x mod 32))"
proof (cases "0 \<le> x")
  case True
  then have "int (nat (x div 32)) = x div 32" by simp
  with True show ?thesis
    by (auto simp: word_elems_def nth_map_words simp del: int_nat_eq)
qed (simp add: word_elems_def)

section \<open>Allocation keeps the set\<close>

lemma bs_new_length_ge: "len \<le> bs_new_length k len"
proof (induction k len rule: bs_new_length.induct)
  case (1 k len)
  then show ?case by (subst bs_new_length.simps) simp
qed

lemma bs_new_length_le: "k \<le> m \<Longrightarrow> len \<le> 2 ^ m \<Longrightarrow> bs_new_length k len \<le> 2 ^ m"
proof (induction k len rule: bs_new_length.induct)
  case (1 k len)
  show ?case
  proof (cases "2 ^ k < len")
    case True
    have "k \<noteq> m" using True "1.prems" by auto
    with True 1 show ?thesis by (subst bs_new_length.simps) simp
  next
    case False
    with 1 show ?thesis by (subst bs_new_length.simps) (simp add: power_increasing)
  qed
qed

lemma bs_Malloc_spec:
  assumes "pool \<noteq> Bad_Pool" "0 \<le> len" "len < 2 ^ 26"
  shows "bs_Malloc len pool = Inr \<lparr>BS_word_count = len, BS_words = pool_memory 0 pool 1 (nat len)\<rparr>"
proof -
  have "tl (pool_memory 0 pool 0 (nat (len + 1))) = pool_memory 0 pool 1 (nat len)"
    using assms(2) by (intro nth_equalityI) (auto simp: nth_tl nth_pool_memory)
  with assms show ?thesis by (simp add: bs_Malloc_def TYPE_MEM_POOL_ALLOC_N_def UINT32_id)
qed

lemma bs_Realloc_spec:
  assumes "BS_ok bs" "pool \<noteq> Bad_Pool" "len \<le> 2 ^ 25"
  obtains n where "bs_Realloc bs len pool = Inr \<lparr>BS_word_count = int (length (BS_words bs) + n),
      BS_words = BS_words bs @ replicate n 0\<rparr>"
    and "len \<le> int (length (BS_words bs) + n)" and "int (length (BS_words bs) + n) < 2 ^ 26"
proof (cases "len \<le> BS_word_count bs")
  case True
  with assms have "bs_Realloc bs len pool = Inr bs"
    by (simp add: bs_Realloc_def BS_ok_def INT32_id SIZE_T_id)
  moreover from assms(1) have "bs = \<lparr>BS_word_count = int (length (BS_words bs)), BS_words = BS_words bs\<rparr>"
    by (simp add: BS_ok_def)
  ultimately show ?thesis using that [of 0] True assms(1) by (simp add: BS_ok_def)
next
  case False
  define m where "m = nat (bs_new_length 1 len)"
  define old where "old = length (BS_words bs)"
  from assms have old: "BS_word_count bs = int old" "int old < 2 ^ 26"
    by (simp_all add: BS_ok_def old_def)
  have m: "bs_new_length 1 len = int m" "len \<le> int m" "int m \<le> 2 ^ 25"
    using False old assms(3) bs_new_length_ge [of len 1] bs_new_length_le [of 1 25 len]
    by (simp_all add: m_def)
  let ?mem = "BS_words bs @ pool_memory 0 pool (Suc old) (m - old)"
  let ?new = "\<lparr>BS_word_count = int old, BS_words = ?mem\<rparr>"
  have lt: "old < m" using False old m by simp
  have words: "map_words (int old) (int m) (\<lambda>_ _. 0) ?mem = BS_words bs @ replicate (m - old) 0"
    using lt by (intro nth_equalityI) (auto simp: nth_map_words nth_append old_def)
  have zeroed: "?mem = BS_words bs @ replicate (m - old) 0" if "MEM_POOL_Zeroed pool"
    using that by (simp add: pool_memory_def map_replicate_const)
  have "bs_Realloc bs len pool =
      bindE (if \<not> MEM_POOL_Zeroed pool
             then for_loop (int old) (int m) (\<lambda>i s. BS_set_word s i bs_ZEROS) ?new
             else Inr ?new) (\<lambda>new_set. Inr (new_set\<lparr>BS_word_count := int m\<rparr>))"
    using False assms(2,3) old m lt
    by (simp add: bs_Realloc_def Let_def INT32_id SIZE_T_id UINT32_id TYPE_MEM_POOL_REALLOC_N_def
        nat_add_distrib flip: old_def)
  also have "\<dots> = Inr \<lparr>BS_word_count = int m, BS_words = BS_words bs @ replicate (m - old) 0\<rparr>"
  proof (cases "MEM_POOL_Zeroed pool")
    case True
    then show ?thesis by (simp add: zeroed)
  next
    case False
    have "for_loop (int old) (int m) (\<lambda>i s. BS_set_word s i bs_ZEROS) ?new
        = Inr (?new\<lparr>BS_words := map_words (int old) (int m) (\<lambda>_ _. 0) ?mem\<rparr>)"
      using lt by (subst for_loop_words [where g = "\<lambda>_ _. 0"]) (simp_all add: old_def)
    with False show ?thesis by (simp only: words) simp
  qed
  finally show ?thesis
    using that [of "m - old"] m(2,3) lt by (simp flip: old_def)
qed

text \<open>Growing adds zero words, which hold no element.\<close>

lemma nth_append_zeros:
  "j < length ws + n \<Longrightarrow> (ws @ replicate n 0) ! j = (if j < length ws then ws ! j else 0)"
  by (simp add: nth_append)

lemma word_elems_append_zeros [simp]: "word_elems (ws @ replicate n 0) = word_elems ws"
proof (rule set_eqI)
  fix x
  show "x \<in> word_elems (ws @ replicate n 0) \<longleftrightarrow> x \<in> word_elems ws"
  proof (cases "0 \<le> x \<and> x div 32 < int (length ws + n)")
    case True
    then have "nat (x div 32) < length ws + n" by linarith
    with True show ?thesis by (auto simp: word_elems_def nth_append_zeros)
  qed (auto simp: word_elems_def)
qed

end
