(* ===== verification/Bitset_Create.thy ===== *)
theory Bitset_Create
  imports Bitset_Rep
begin

text \<open>
  Creating, clearing, resizing and copying bit sets (\<^verbatim>\<open>src/src/common/util/bitset.c\<close>,
  \<^verbatim>\<open>BS_Create\<close> to \<^verbatim>\<open>BS_CopyD\<close>).  A destructive operation is a function from the set it is
  given to the set it returns, which is all a client of the package may rely on.
\<close>

section \<open>Operations\<close>

definition BS_Create :: "BS_ELT \<Rightarrow> BS_WORD MEM_POOL \<Rightarrow> BS outcome" where
  "BS_Create sz pool =
     bindE (Is_True (sz \<ge> 0) ''BS_Create called with negative size.'') (\<lambda>_.
     bs_Malloc (SIZE_T (bs_QBPW (SIZE_T (sz + (32 - 1))))) pool)"

definition BS_Size_Alloc_Size :: "BS_ELT \<Rightarrow> int" where
  "BS_Size_Alloc_Size sz = SIZE_T (SIZE_T (1 + bs_QBPW (SIZE_T (sz + (32 - 1)))) * 4)"

definition BS_Alloc_Size :: "BS \<Rightarrow> int" where
  "BS_Alloc_Size bs = SIZE_T (UINT32 (BS_word_count bs + 1) * 4)"

definition BS_ClearD :: "BS \<Rightarrow> BS outcome" where
  "BS_ClearD bs = for_loop 0 (BS_word_count bs) (\<lambda>i s. BS_set_word s i bs_ZEROS) bs"

definition BS_Create_Empty :: "BS_ELT \<Rightarrow> BS_WORD MEM_POOL \<Rightarrow> BS outcome" where
  "BS_Create_Empty sz pool =
     bindE (BS_Create sz pool) (\<lambda>bs.
     if \<not> MEM_POOL_Zeroed pool then BS_ClearD bs else Inr bs)"

definition BS_ResizeD :: "BS \<Rightarrow> BS_ELT \<Rightarrow> BS_WORD MEM_POOL \<Rightarrow> BS outcome" where
  "BS_ResizeD bs new_size pool =
     (let new_words = bs_QBPW (SIZE_T (new_size + (32 - 1))) in
      if UINT32 new_words > BS_word_count bs then bs_Realloc bs (SIZE_T new_words) pool
      else Inr bs)"

text \<open>
  The condition \<^verbatim>\<open>i < bs_PBytesPW(first_w + 1) && i <= last_b\<close> of the loop over the first
  word's bytes is one upper bound, the smaller of the two.
\<close>

definition BS_RangeD :: "BS \<Rightarrow> BS_ELT \<Rightarrow> BS_ELT \<Rightarrow> BS_WORD MEM_POOL \<Rightarrow> BS outcome" where
  "BS_RangeD bs low high pool =
     bindE (Is_True (low \<ge> 0) ''BS_RangeD called with negative low element.'') (\<lambda>_.
     bindE (Is_True (INT32 (high - low + 1) \<ge> 0) ''BS_RangeD called with negative range size.'') (\<lambda>_.
     if low > high then BS_ClearD bs
     else
       let first_w = bs_QBPW low; last_w = bs_QBPW high;
           first_b = bs_QBPB low; last_b = bs_QBPB high in
       bindE (if last_w \<ge> BS_word_count bs then bs_Realloc bs (last_w + 1) pool else Inr bs) (\<lambda>bs.
       bindE (BS_ClearD bs) (\<lambda>bs.
       bindE (for_loop (first_w + 1) last_w (\<lambda>i s. BS_set_word s i bs_ONES) bs) (\<lambda>bs.
       bindE (for_loop first_b (min (bs_PBytesPW (first_w + 1)) (last_b + 1))
                (\<lambda>i s. BS_set_byte s i (ucast bs_ONES)) bs) (\<lambda>bs.
       bindE (if first_w \<noteq> last_w
              then for_loop (bs_PBytesPW last_w) (last_b + 1)
                     (\<lambda>i s. BS_set_byte s i (ucast bs_ONES)) bs
              else Inr bs) (\<lambda>bs.
       bindE (BS_set_byte bs first_b (ucast (push_bit (nat (bs_RBPB low)) bs_ONES))) (\<lambda>bs.
       bindE (BS_byte bs last_b) (\<lambda>byte.
       BS_set_byte bs last_b
         (byte AND ucast (drop_bit (nat ((32 - 1) - bs_RBPB high)) bs_ONES)))))))))))"

definition BS_Range :: "BS_ELT \<Rightarrow> BS_ELT \<Rightarrow> BS_WORD MEM_POOL \<Rightarrow> BS outcome" where
  "BS_Range low high pool =
     bindE (BS_Create (INT32 (high + 1)) pool) (\<lambda>bs. BS_RangeD bs low high Bad_Pool)"

definition BS_SingletonD :: "BS \<Rightarrow> BS_ELT \<Rightarrow> BS_WORD MEM_POOL \<Rightarrow> BS outcome" where
  "BS_SingletonD bs element pool =
     bindE (Is_True (element \<ge> 0) ''BS_SingletonD called with negative element.'') (\<lambda>_.
     let word = bs_QBPW element in
     bindE (if word \<ge> BS_word_count bs then bs_Realloc bs (word + 1) pool else Inr bs) (\<lambda>bs.
     bindE (BS_ClearD bs) (\<lambda>bs.
     BS_set_byte bs (bs_QBPB element) (ucast (push_bit (nat (bs_RBPB element)) bs_ONE)))))"

definition BS_Singleton :: "BS_ELT \<Rightarrow> BS_WORD MEM_POOL \<Rightarrow> BS outcome" where
  "BS_Singleton element pool =
     bindE (BS_Create (INT32 (element + 1)) pool) (\<lambda>bs. BS_SingletonD bs element Bad_Pool)"

definition BS_UniverseD :: "BS \<Rightarrow> BS_ELT \<Rightarrow> BS_WORD MEM_POOL \<Rightarrow> BS outcome" where
  "BS_UniverseD bs sz pool = BS_RangeD bs 0 (INT32 (sz - 1)) Bad_Pool"

definition BS_Universe :: "BS_ELT \<Rightarrow> BS_WORD MEM_POOL \<Rightarrow> BS outcome" where
  "BS_Universe sz pool =
     bindE (BS_Create sz pool) (\<lambda>bs. BS_UniverseD bs sz Bad_Pool)"

definition BS_Copy :: "BS \<Rightarrow> BS_WORD MEM_POOL \<Rightarrow> BS outcome" where
  "BS_Copy bs pool =
     (let sz = BS_word_count bs in
      bindE (bs_Malloc sz pool) (\<lambda>newset.
      for_loop 0 sz (\<lambda>i s. bindE (BS_word bs i) (BS_set_word s i)) newset))"

definition BS_CopyD :: "BS \<Rightarrow> BS \<Rightarrow> BS_WORD MEM_POOL \<Rightarrow> BS outcome" where
  "BS_CopyD set1 set2 pool =
     (let size1 = INT32 (BS_word_count set1); size2 = INT32 (BS_word_count set2) in
      bindE (if size1 < size2 then bs_Realloc set1 (SIZE_T size2) pool
             else for_loop size2 size1 (\<lambda>i s. BS_set_word s i bs_ZEROS) set1) (\<lambda>set1.
      for_loop 0 size2 (\<lambda>i s. bindE (BS_word set2 i) (BS_set_word s i)) set1))"

section \<open>Lemmas\<close>

text \<open>A structure represents a set of integers: the invariant holds and these are its elements.\<close>

definition BS_is :: "BS \<Rightarrow> BS_ELT set \<Rightarrow> bool" where
  "BS_is bs S \<longleftrightarrow> BS_ok bs \<and> BS_elems bs = S"

lemma BS_ok_count: "BS_ok bs \<Longrightarrow> BS_word_count bs = int (length (BS_words bs))"
  and BS_ok_bound: "BS_ok bs \<Longrightarrow> int (length (BS_words bs)) < 2 ^ 26"
  by (simp_all add: BS_ok_def)

lemma bs_words_for_size:
  assumes "0 \<le> sz" "sz \<le> 2 ^ 31 - 32"
  shows "bs_QBPW (SIZE_T (sz + 31)) = (sz + 31) div 32"
    and "0 \<le> (sz + 31) div 32" "(sz + 31) div 32 < 2 ^ 26"
  using assms by (simp_all add: SIZE_T_id bs_QBPW_id)

lemma BS_Create_spec:
  assumes "0 \<le> sz" "sz \<le> 2 ^ 31 - 32" "pool \<noteq> Bad_Pool"
  shows "BS_Create sz pool = Inr \<lparr>BS_word_count = (sz + 31) div 32,
           BS_words = pool_memory 0 pool 1 (nat ((sz + 31) div 32))\<rparr>"
  using assms bs_words_for_size [of sz] by (simp add: BS_Create_def SIZE_T_id bs_Malloc_spec)

lemma BS_Create_ok:
  assumes "0 \<le> sz" "sz \<le> 2 ^ 31 - 32" "pool \<noteq> Bad_Pool"
  shows "returnsE (BS_Create sz pool) (\<lambda>r. BS_ok r \<and> BS_word_count r = (sz + 31) div 32)"
  using assms bs_words_for_size [of sz] by (simp add: BS_Create_spec BS_ok_def)

lemma for_loop_set_word_const:
  assumes "0 \<le> lo" "hi \<le> int (length (BS_words bs))"
  shows "for_loop lo hi (\<lambda>i s. BS_set_word s i w) bs
     = Inr (bs\<lparr>BS_words := map_words lo hi (\<lambda>_ _. w) (BS_words bs)\<rparr>)"
  using assms by (intro for_loop_words) simp_all

lemma BS_ClearD_spec:
  assumes "BS_ok bs"
  shows "returnsE (BS_ClearD bs) (\<lambda>r. BS_is r {} \<and> BS_word_count r = BS_word_count bs)"
proof -
  have "word_elems (map_words 0 (int (length ws)) (\<lambda>_ _. 0) ws) = {}" for ws
    by (auto simp: word_elems_map_words)
  with assms show ?thesis
    by (simp add: BS_ClearD_def BS_is_def BS_ok_def for_loop_set_word_const)
qed

lemma BS_Create_Empty_spec:
  assumes "0 \<le> sz" "sz \<le> 2 ^ 31 - 32" "pool \<noteq> Bad_Pool"
  shows "returnsE (BS_Create_Empty sz pool)
           (\<lambda>r. BS_is r {} \<and> BS_word_count r = (sz + 31) div 32)"
proof (cases "MEM_POOL_Zeroed pool")
  case True
  have "word_elems (pool_memory 0 pool 1 n) = {}" for n
    using True by (auto simp: word_elems_def pool_memory_def nat_less_iff)
  with True assms bs_words_for_size [of sz] show ?thesis
    by (simp add: BS_Create_Empty_def BS_Create_spec BS_is_def BS_ok_def)
next
  case False
  show ?thesis
    unfolding BS_Create_Empty_def returnsE_bindE
    using BS_Create_ok [OF assms] False
    by (elim returnsE_mono) (auto intro: returnsE_mono [OF BS_ClearD_spec])
qed

text \<open>Growing to hold word \<open>w\<close>, the step every operation that adds elements starts with.\<close>

lemma bs_Realloc_is:
  assumes "BS_ok bs" "pool \<noteq> Bad_Pool" "len \<le> 2 ^ 25"
  shows "returnsE (bs_Realloc bs len pool) (\<lambda>r. BS_is r (BS_elems bs)
           \<and> len \<le> BS_word_count r \<and> BS_word_count bs \<le> BS_word_count r)"
proof -
  obtain n where "bs_Realloc bs len pool = Inr \<lparr>BS_word_count = int (length (BS_words bs) + n),
      BS_words = BS_words bs @ replicate n 0\<rparr>"
    and "len \<le> int (length (BS_words bs) + n)" "int (length (BS_words bs) + n) < 2 ^ 26"
    using bs_Realloc_spec [OF assms] by blast
  then show ?thesis
    using assms(1) by (simp add: BS_is_def BS_ok_def BS_elems_def)
qed

lemma BS_grow_is:
  assumes "BS_ok bs" "pool \<noteq> Bad_Pool \<or> w < BS_word_count bs" "w < 2 ^ 25"
  shows "returnsE (if w \<ge> BS_word_count bs then bs_Realloc bs (w + 1) pool else Inr bs)
           (\<lambda>r. BS_is r (BS_elems bs) \<and> w < BS_word_count r \<and> BS_word_count bs \<le> BS_word_count r)"
  using assms by (auto simp: BS_is_def intro: returnsE_mono [OF bs_Realloc_is])

text \<open>Filling the bytes \<open>a .. b - 1\<close> with ones adds their elements and no other.\<close>

lemma fill_bytes:
  assumes "0 \<le> a" "b \<le> 4 * int (length (BS_words bs))"
  shows "returnsE (for_loop a b (\<lambda>i s. BS_set_byte s i (ucast bs_ONES)) bs) (\<lambda>r.
      BS_word_count r = BS_word_count bs \<and> length (BS_words r) = length (BS_words bs)
    \<and> BS_elems r = BS_elems bs \<union> {x. a \<le> x div 8 \<and> x div 8 < b})"
proof (cases "a \<le> b")
  case True
  let ?I = "\<lambda>i r. BS_word_count r = BS_word_count bs \<and> length (BS_words r) = length (BS_words bs)
    \<and> BS_elems r = BS_elems bs \<union> {x. a \<le> x div 8 \<and> x div 8 < i}"
  show ?thesis
  proof (rule for_loop_invariant [where I = ?I])
    fix i t
    assume i: "a \<le> i" "i < b" and t: "?I i t"
    with assms have "0 \<le> i" "i < 4 * int (length (BS_words t))" by simp_all
    from BS_set_byte_in [OF this, of "ucast bs_ONES"]
    show "returnsE (BS_set_byte t i (ucast bs_ONES)) (?I (i + 1))"
    proof (rule returnsE_mono)
      fix r
      have "bit (ucast bs_ONES :: BS_BYTE) (nat (x mod 8))" for x :: int
        using nat_mod_numeral_less [of x "num.Bit0 (num.Bit0 (num.Bit0 num.One))"]
        by (simp add: bit_simps)
      moreover assume "BS_word_count r = BS_word_count t \<and> length (BS_words r) = length (BS_words t)
        \<and> BS_elems r = {x \<in> BS_elems t. x div 8 \<noteq> i}
            \<union> {x. x div 8 = i \<and> bit (ucast bs_ONES :: BS_BYTE) (nat (x mod 8))}"
      ultimately show "?I (i + 1) r" using t i by auto
    qed
  qed (use True in auto)
qed auto

lemma fill_words:
  assumes "0 \<le> a" "b \<le> int (length (BS_words bs))"
  shows "returnsE (for_loop a b (\<lambda>i s. BS_set_word s i bs_ONES) bs) (\<lambda>r.
      BS_word_count r = BS_word_count bs \<and> length (BS_words r) = length (BS_words bs)
    \<and> BS_elems r = BS_elems bs \<union> {x. a \<le> x div 32 \<and> x div 32 < b})"
proof -
  have "word_elems (map_words a b (\<lambda>_ _. - 1) ws) = word_elems ws \<union> {x. a \<le> x div 32 \<and> x div 32 < b}"
    if "b \<le> int (length ws)" for ws
  proof (rule set_eqI)
    fix x :: int
    have "0 \<le> x" if "a \<le> x div 32" using that assms(1) div_numeral_nonneg [of x] by linarith
    then show "x \<in> word_elems (map_words a b (\<lambda>_ _. - 1) ws)
        \<longleftrightarrow> x \<in> word_elems ws \<union> {x. a \<le> x div 32 \<and> x div 32 < b}"
      using that unfolding word_elems_map_words by (auto simp: word_elems_def)
  qed
  with assms show ?thesis by (simp add: for_loop_set_word_const BS_elems_def)
qed

text \<open>The bytes that the three loops of \<^verbatim>\<open>BS_RangeD\<close> fill are those from the first to the last.\<close>

lemma range_bytes_covered:
  fixes f l b :: int
  assumes "f \<le> l"
  shows "(f div 4 + 1 \<le> b div 4 \<and> b div 4 < l div 4)
       \<or> (f \<le> b \<and> b < min ((f div 4 + 1) * 4) (l + 1))
       \<or> (f div 4 \<noteq> l div 4 \<and> l div 4 * 4 \<le> b \<and> b < l + 1)
     \<longleftrightarrow> f \<le> b \<and> b \<le> l"
    (is "?L \<longleftrightarrow> ?R")
proof -
  obtain fq lq bq where q: "f div 4 = fq" "l div 4 = lq" "b div 4 = bq" by blast
  then have r: "4 * fq \<le> f" "f < 4 * fq + 4" "4 * lq \<le> l" "l < 4 * lq + 4"
    "4 * bq \<le> b" "b < 4 * bq + 4" by linarith+
  show ?thesis unfolding q min_less_iff_conj
  proof
    assume "f \<le> b \<and> b \<le> l"
    with r have "bq = fq \<or> (bq = lq \<and> fq \<noteq> lq) \<or> (fq + 1 \<le> bq \<and> bq < lq)" by linarith
    with r \<open>f \<le> b \<and> b \<le> l\<close>
    show "(fq + 1 \<le> bq \<and> bq < lq) \<or> (f \<le> b \<and> b < (fq + 1) * 4 \<and> b < l + 1)
        \<or> (fq \<noteq> lq \<and> lq * 4 \<le> b \<and> b < l + 1)" by auto
  qed (use r assms in linarith)
qed

lemma div8_div4: "x div 8 div 4 = x div 32" for x :: int
  by (simp add: zdiv_zmult2_eq [of 4 x 8, symmetric])

text \<open>The bytes at the ends, masked: \<^verbatim>\<open>bs_ONES << r\<close> and \<^verbatim>\<open>bs_ONES >> (31 - r)\<close>.\<close>

lemma bit_ones_from: "k < 8 \<Longrightarrow> bit (ucast (push_bit r bs_ONES) :: BS_BYTE) k \<longleftrightarrow> r \<le> k"
  by (auto simp: bit_simps)

lemma bit_ones_upto: "k < 8 \<Longrightarrow> r < 8 \<Longrightarrow> bit (ucast (drop_bit (31 - r) bs_ONES) :: BS_BYTE) k \<longleftrightarrow> k \<le> r"
  by (auto simp: bit_simps)

lemma bit_ones_upto_int:
  assumes "k < 8"
  shows "bit (ucast (drop_bit (nat ((32 - 1) - high mod 8)) bs_ONES) :: BS_BYTE) k \<longleftrightarrow> int k \<le> high mod 8"
proof -
  define r where "r = nat (high mod 8)"
  have r: "high mod 8 = int r" "r < 8" by (simp_all add: r_def)
  have "nat ((32 - 1) - int r) = 31 - r" by simp
  with assms r show ?thesis by (simp only: r bit_ones_upto) simp
qed

lemma mask_ends:
  fixes low high :: int
  assumes "low \<le> high"
    and B: "B = {x. low div 8 \<le> x div 8 \<and> x div 8 \<le> high div 8}"
    and C: "C = {x \<in> B. x div 8 \<noteq> low div 8} \<union> {x. x div 8 = low div 8 \<and> low mod 8 \<le> x mod 8}"
    and D: "D = {x \<in> C. x div 8 \<noteq> high div 8} \<union> {x. x div 8 = high div 8 \<and> x \<in> C \<and> x mod 8 \<le> high mod 8}"
  shows "D = {low..high}"
proof (rule set_eqI)
  fix x :: int
  obtain xq xr lq lr hq hr where q: "x div 8 = xq" "x mod 8 = xr" "low div 8 = lq" "low mod 8 = lr"
    "high div 8 = hq" "high mod 8 = hr" by blast
  have "x = 8 * xq + xr" "low = 8 * lq + lr" "high = 8 * hq + hr"
    by (simp_all flip: q)
  moreover have "0 \<le> xr" "xr < 8" "0 \<le> lr" "lr < 8" "0 \<le> hr" "hr < 8"
    by (simp_all flip: q)
  moreover note assms(1)
  ultimately show "x \<in> D \<longleftrightarrow> x \<in> {low..high}"
    unfolding D C B by (auto simp: q)
qed

lemma BS_RangeD_fill:
  assumes ok: "BS_ok t" and range: "0 \<le> low" "low \<le> high" and room: "high div 32 < BS_word_count t"
  shows "returnsE (bindE (BS_ClearD t) (\<lambda>bs.
       bindE (for_loop (low div 32 + 1) (high div 32) (\<lambda>i s. BS_set_word s i bs_ONES) bs) (\<lambda>bs.
       bindE (for_loop (low div 8) (min ((low div 32 + 1) * 4) (high div 8 + 1))
                (\<lambda>i s. BS_set_byte s i (ucast bs_ONES)) bs) (\<lambda>bs.
       if low div 32 \<noteq> high div 32
       then for_loop (high div 32 * 4) (high div 8 + 1) (\<lambda>i s. BS_set_byte s i (ucast bs_ONES)) bs
       else Inr bs))))
     (\<lambda>r. BS_word_count r = BS_word_count t \<and> BS_ok r
          \<and> BS_elems r = {x. low div 8 \<le> x div 8 \<and> x div 8 \<le> high div 8})"
proof -
  have nb: "high div 8 + 1 \<le> 4 * BS_word_count t" using room by linarith
  have le: "low div 8 \<le> high div 8" using range(2) by (rule zdiv_mono1) simp
  obtain t1 where t1: "BS_ClearD t = Inr t1" "BS_ok t1" "BS_elems t1 = {}" "BS_word_count t1 = BS_word_count t"
    using BS_ClearD_spec [OF ok] by (auto simp: BS_is_def elim: returnsE_E)
  obtain t2 where t2: "for_loop (low div 32 + 1) (high div 32) (\<lambda>i s. BS_set_word s i bs_ONES) t1 = Inr t2"
    "BS_word_count t2 = BS_word_count t" "int (length (BS_words t2)) = BS_word_count t"
    "BS_elems t2 = {x. low div 32 + 1 \<le> x div 32 \<and> x div 32 < high div 32}"
    using fill_words [of "low div 32 + 1" "high div 32" t1] range room t1
    by (auto simp: BS_ok_count elim: returnsE_E)
  have first_start: "0 \<le> low div 8" using range by simp
  have first_end: "min ((low div 32 + 1) * 4) (high div 8 + 1) \<le> 4 * int (length (BS_words t2))"
    using nb t2(3) by linarith
  obtain t3 where t3: "for_loop (low div 8) (min ((low div 32 + 1) * 4) (high div 8 + 1))
                (\<lambda>i s. BS_set_byte s i (ucast bs_ONES)) t2 = Inr t3"
    "BS_word_count t3 = BS_word_count t" "int (length (BS_words t3)) = BS_word_count t"
    "BS_elems t3 = BS_elems t2 \<union> {x. low div 8 \<le> x div 8 \<and> x div 8 < min ((low div 32 + 1) * 4) (high div 8 + 1)}"
    by (rule returnsE_E [OF fill_bytes [OF first_start first_end]]) (use t2(2,3) that in auto)
  have t4: "returnsE (if low div 32 \<noteq> high div 32
       then for_loop (high div 32 * 4) (high div 8 + 1) (\<lambda>i s. BS_set_byte s i (ucast bs_ONES)) t3
       else Inr t3) (\<lambda>r. BS_word_count r = BS_word_count t \<and> int (length (BS_words r)) = BS_word_count t
          \<and> BS_elems r = BS_elems t3 \<union>
              {x. low div 32 \<noteq> high div 32 \<and> high div 32 * 4 \<le> x div 8 \<and> x div 8 < high div 8 + 1})"
  proof (cases "low div 32 = high div 32")
    case True
    then show ?thesis using t3(2,3) by simp
  next
    case False
    have start: "0 \<le> high div 32 * 4" using range by simp
    have stop: "high div 8 + 1 \<le> 4 * int (length (BS_words t3))" using nb t3(3) by simp
    show ?thesis
      unfolding if_P [OF False]
      by (rule returnsE_mono [OF fill_bytes [OF start stop]]) (simp only: t3(2,3) False simp_thms)
  qed
  have "BS_elems t3 \<union> {x. low div 32 \<noteq> high div 32 \<and> high div 32 * 4 \<le> x div 8 \<and> x div 8 < high div 8 + 1}
      = {x. low div 8 \<le> x div 8 \<and> x div 8 \<le> high div 8}"
    (is "?A = ?B")
  proof (rule set_eqI)
    fix x
    show "x \<in> ?A \<longleftrightarrow> x \<in> ?B"
      using range_bytes_covered [OF le, of "x div 8"]
      unfolding t3(4) t2(4) div8_div4 Un_iff mem_Collect_eq by (simp only: disj_assoc)
  qed
  with t4 ok have "returnsE (if low div 32 \<noteq> high div 32
       then for_loop (high div 32 * 4) (high div 8 + 1) (\<lambda>i s. BS_set_byte s i (ucast bs_ONES)) t3
       else Inr t3) (\<lambda>r. BS_word_count r = BS_word_count t \<and> BS_ok r
          \<and> BS_elems r = {x. low div 8 \<le> x div 8 \<and> x div 8 \<le> high div 8})"
    by (elim returnsE_mono) (simp add: BS_ok_def)
  then show ?thesis by (simp only: t1 t2 t3 bindE_Inr)
qed

lemma BS_RangeD_ends:
  assumes ok: "BS_ok t" and range: "0 \<le> low" "low \<le> high" and room: "high div 32 < BS_word_count t"
    and elems: "BS_elems t = {x. low div 8 \<le> x div 8 \<and> x div 8 \<le> high div 8}"
  shows "returnsE (bindE (BS_set_byte t (low div 8) (ucast (push_bit (nat (low mod 8)) bs_ONES))) (\<lambda>bs.
           bindE (BS_byte bs (high div 8)) (\<lambda>byte.
           BS_set_byte bs (high div 8)
             (byte AND ucast (drop_bit (nat ((32 - 1) - high mod 8)) bs_ONES)))))
         (\<lambda>r. BS_is r {low..high} \<and> BS_word_count r = BS_word_count t)"
proof -
  have le: "low div 8 \<le> high div 8" using range(2) by (rule zdiv_mono1) simp
  have count: "BS_word_count t = int (length (BS_words t))" using ok by (rule BS_ok_count)
  have lo: "0 \<le> low div 8" and hi: "0 \<le> high div 8" using range by simp_all
  have hi_in: "high div 8 < 4 * int (length (BS_words t))" using room count by linarith
  with le have lo_in: "low div 8 < 4 * int (length (BS_words t))" by linarith
  obtain t1 where t1: "BS_set_byte t (low div 8) (ucast (push_bit (nat (low mod 8)) bs_ONES)) = Inr t1"
    "BS_word_count t1 = BS_word_count t" "length (BS_words t1) = length (BS_words t)"
    "BS_elems t1 = {x \<in> BS_elems t. x div 8 \<noteq> low div 8} \<union> {x. x div 8 = low div 8 \<and>
        bit (ucast (push_bit (nat (low mod 8)) bs_ONES) :: BS_BYTE) (nat (x mod 8))}"
    by (rule returnsE_E [OF BS_set_byte_in [OF lo lo_in]]) (use that in auto)
  note hi_in1 = hi_in [folded t1(3)]
  obtain b where b: "BS_byte t1 (high div 8) = Inr b"
    "\<And>k. bit b k \<longleftrightarrow> k < 8 \<and> 8 * (high div 8) + int k \<in> BS_elems t1"
    by (rule returnsE_E [OF bit_BS_byte [OF hi hi_in1]]) (use that in blast)
  define m :: BS_BYTE where "m = ucast (drop_bit (nat ((32 - 1) - high mod 8)) bs_ONES)"
  obtain t2 where t2: "BS_set_byte t1 (high div 8) (b AND m) = Inr t2"
    "BS_word_count t2 = BS_word_count t" "length (BS_words t2) = length (BS_words t)"
    "BS_elems t2 = {x \<in> BS_elems t1. x div 8 \<noteq> high div 8}
        \<union> {x. x div 8 = high div 8 \<and> bit (b AND m) (nat (x mod 8))}"
    by (rule returnsE_E [OF BS_set_byte_in [OF hi hi_in1]]) (use that t1(2,3) in auto)
  have m: "bit m k \<longleftrightarrow> int k \<le> high mod 8" if "k < 8" for k
    using that unfolding m_def by (rule bit_ones_upto_int)
  have "BS_elems t2 = {low..high}"
  proof (rule mask_ends [OF range(2) elems])
    show "BS_elems t1 = {x \<in> BS_elems t. x div 8 \<noteq> low div 8}
        \<union> {x. x div 8 = low div 8 \<and> low mod 8 \<le> x mod 8}"
      unfolding t1(4) using bit_ones_from [OF nat_mod_numeral_less] by (simp add: nat_le_eq_zle)
    have "bit (b AND m) (nat (x mod 8)) \<longleftrightarrow> x \<in> BS_elems t1 \<and> x mod 8 \<le> high mod 8"
      if "x div 8 = high div 8" for x
    proof -
      have "8 * (high div 8) + int (nat (x mod 8)) = x"
        using that mult_div_mod_eq [of 8 x] by simp
      then show ?thesis by (simp add: bit_and_iff m b(2))
    qed
    then show "BS_elems t2 = {x \<in> BS_elems t1. x div 8 \<noteq> high div 8}
        \<union> {x. x div 8 = high div 8 \<and> x \<in> BS_elems t1 \<and> x mod 8 \<le> high mod 8}"
      unfolding t2(4) by blast
  qed
  then show ?thesis
    using t2(2,3) ok unfolding t1(1) bindE_Inr b(1) m_def [symmetric] t2(1)
    by (simp add: BS_is_def BS_ok_def)
qed

lemma BS_RangeD_spec:
  assumes ok: "BS_ok bs" and range: "0 \<le> low" "low \<le> high + 1" "high < 2 ^ 30"
    and pool: "pool \<noteq> Bad_Pool \<or> high < 32 * BS_word_count bs"
  shows "returnsE (BS_RangeD bs low high pool)
           (\<lambda>r. BS_is r {low..high} \<and> BS_word_count bs \<le> BS_word_count r)"
proof (cases "low \<le> high")
  case False
  with range have "INT32 (high - low + 1) = 0" "{low..high} = {}" by (simp_all add: INT32_id)
  with False range BS_ClearD_spec [OF ok] show ?thesis
    by (auto simp: BS_RangeD_def elim: returnsE_mono)
next
  case True
  have idx: "bs_QBPW low = low div 32" "bs_QBPW high = high div 32" "bs_QBPB low = low div 8"
    "bs_QBPB high = high div 8" "bs_PBytesPW (low div 32 + 1) = (low div 32 + 1) * 4"
    "bs_PBytesPW (high div 32) = high div 32 * 4"
    using range True by (simp_all add: bs_index)
  have size: "0 \<le> INT32 (high - low + 1)" using range True by (simp add: INT32_id)
  have room: "pool \<noteq> Bad_Pool \<or> high div 32 < BS_word_count bs" "high div 32 < 2 ^ 25"
    using pool range(3) by auto
  obtain t where t: "(if high div 32 \<ge> BS_word_count bs then bs_Realloc bs (high div 32 + 1) pool else Inr bs) = Inr t"
    "BS_ok t" "high div 32 < BS_word_count t" "BS_word_count bs \<le> BS_word_count t"
    by (rule returnsE_E [OF BS_grow_is [OF ok room]]) (use that in \<open>auto simp: BS_is_def\<close>)
  obtain u where u: "bindE (BS_ClearD t) (\<lambda>bs.
       bindE (for_loop (low div 32 + 1) (high div 32) (\<lambda>i s. BS_set_word s i bs_ONES) bs) (\<lambda>bs.
       bindE (for_loop (low div 8) (min ((low div 32 + 1) * 4) (high div 8 + 1))
                (\<lambda>i s. BS_set_byte s i (ucast bs_ONES)) bs) (\<lambda>bs.
       if low div 32 \<noteq> high div 32
       then for_loop (high div 32 * 4) (high div 8 + 1) (\<lambda>i s. BS_set_byte s i (ucast bs_ONES)) bs
       else Inr bs))) = Inr u"
    "BS_word_count u = BS_word_count t" "BS_ok u"
    "BS_elems u = {x. low div 8 \<le> x div 8 \<and> x div 8 \<le> high div 8}"
    by (rule returnsE_E [OF BS_RangeD_fill [OF t(2) range(1) True t(3)]]) (use that in blast)
  have "BS_RangeD bs low high pool =
      bindE (bindE (BS_ClearD t) (\<lambda>bs.
       bindE (for_loop (low div 32 + 1) (high div 32) (\<lambda>i s. BS_set_word s i bs_ONES) bs) (\<lambda>bs.
       bindE (for_loop (low div 8) (min ((low div 32 + 1) * 4) (high div 8 + 1))
                (\<lambda>i s. BS_set_byte s i (ucast bs_ONES)) bs) (\<lambda>bs.
       if low div 32 \<noteq> high div 32
       then for_loop (high div 32 * 4) (high div 8 + 1) (\<lambda>i s. BS_set_byte s i (ucast bs_ONES)) bs
       else Inr bs))))
      (\<lambda>bs. bindE (BS_set_byte bs (low div 8) (ucast (push_bit (nat (low mod 8)) bs_ONES))) (\<lambda>bs.
           bindE (BS_byte bs (high div 8)) (\<lambda>byte.
           BS_set_byte bs (high div 8)
             (byte AND ucast (drop_bit (nat ((32 - 1) - high mod 8)) bs_ONES)))))"
    unfolding BS_RangeD_def Let_def idx bs_RBPB_id t(1) bindE_assoc
    by (simp only: range(1) size not_less [THEN iffD2, OF True] Is_True_holds bindE_Inr if_False)
  also have "\<dots> = bindE (BS_set_byte u (low div 8) (ucast (push_bit (nat (low mod 8)) bs_ONES))) (\<lambda>bs.
           bindE (BS_byte bs (high div 8)) (\<lambda>byte.
           BS_set_byte bs (high div 8)
             (byte AND ucast (drop_bit (nat ((32 - 1) - high mod 8)) bs_ONES))))"
    by (simp only: u(1) bindE_Inr)
  finally show ?thesis
    by (elim ssubst, intro returnsE_mono [OF BS_RangeD_ends [OF u(3) range(1) True t(3) [folded u(2)] u(4)]])
      (use t(4) u(2) in simp)
qed

lemma BS_Range_spec:
  assumes "0 \<le> low" "low \<le> high + 1" "high < 2 ^ 30" "pool \<noteq> Bad_Pool"
  shows "returnsE (BS_Range low high pool) (\<lambda>r. BS_is r {low..high})"
proof -
  have create: "returnsE (BS_Create (INT32 (high + 1)) pool)
      (\<lambda>r. BS_ok r \<and> BS_word_count r = (high + 1 + 31) div 32)"
    using assms BS_Create_ok [of "high + 1" pool] by (simp add: INT32_id)
  have room: "high < 32 * ((high + 1 + 31) div 32)" by linarith
  show ?thesis
    unfolding BS_Range_def returnsE_bindE
    by (rule returnsE_mono [OF create], rule returnsE_mono [OF BS_RangeD_spec]) (use assms room in auto)
qed

text \<open>\<^verbatim>\<open>BS_UniverseD\<close> hands \<^verbatim>\<open>bad_pool\<close> on instead of its own pool: it works while no growth is needed.\<close>

lemma BS_UniverseD_spec:
  assumes "BS_ok bs" "0 \<le> sz" "sz \<le> 32 * BS_word_count bs" "sz \<le> 2 ^ 30"
  shows "returnsE (BS_UniverseD bs sz pool) (\<lambda>r. BS_is r {0..<sz})"
proof -
  have "INT32 (sz - 1) = sz - 1" "{0..sz - 1} = {0..<sz}" using assms by (auto simp: INT32_id)
  with BS_RangeD_spec [OF assms(1), of 0 "sz - 1" Bad_Pool] assms show ?thesis
    by (auto simp: BS_UniverseD_def elim: returnsE_mono)
qed

lemma BS_UniverseD_no_growth:
  assumes "BS_ok bs" "32 * BS_word_count bs < sz" "sz \<le> 2 ^ 30"
  shows "BS_UniverseD bs sz pool = Inl (Assertion ''Shouldn't be allocating.'')"
proof -
  have sz: "0 < sz" "INT32 (sz - 1) = sz - 1" "INT32 (sz - 1 - 0 + 1) = sz"
    using assms by (auto simp: INT32_id BS_ok_def)
  then have "bs_QBPW (sz - 1) = (sz - 1) div 32" "BS_word_count bs \<le> (sz - 1) div 32"
    using assms by (simp_all add: bs_index)
  with sz show ?thesis
    by (simp add: BS_UniverseD_def BS_RangeD_def bs_Realloc_def Let_def)
qed

lemma BS_Universe_spec:
  assumes "0 \<le> sz" "sz \<le> 2 ^ 30" "pool \<noteq> Bad_Pool"
  shows "returnsE (BS_Universe sz pool) (\<lambda>r. BS_is r {0..<sz})"
proof -
  have room: "sz \<le> 32 * ((sz + 31) div 32)" by linarith
  show ?thesis
    unfolding BS_Universe_def returnsE_bindE
    by (rule returnsE_mono [OF BS_Create_ok], use assms in simp_all)
      (rule BS_UniverseD_spec, use assms room in simp_all)
qed

lemma BS_SingletonD_spec:
  assumes ok: "BS_ok bs" and elt: "0 \<le> element" "element < 2 ^ 30"
    and pool: "pool \<noteq> Bad_Pool \<or> element < 32 * BS_word_count bs"
  shows "returnsE (BS_SingletonD bs element pool)
           (\<lambda>r. BS_is r {element} \<and> BS_word_count bs \<le> BS_word_count r)"
proof -
  have idx: "bs_QBPW element = element div 32" "bs_QBPB element = element div 8"
    using elt by (simp_all add: bs_index)
  have room: "pool \<noteq> Bad_Pool \<or> element div 32 < BS_word_count bs" "element div 32 < 2 ^ 25"
    using pool elt by auto
  obtain t where t: "(if element div 32 \<ge> BS_word_count bs then bs_Realloc bs (element div 32 + 1) pool
      else Inr bs) = Inr t"
    "BS_ok t" "element div 32 < BS_word_count t" "BS_word_count bs \<le> BS_word_count t"
    by (rule returnsE_E [OF BS_grow_is [OF ok room]]) (use that in \<open>auto simp: BS_is_def\<close>)
  obtain u where u: "BS_ClearD t = Inr u" "BS_ok u" "BS_elems u = {}" "BS_word_count u = BS_word_count t"
    by (rule returnsE_E [OF BS_ClearD_spec [OF t(2)]]) (use that in \<open>auto simp: BS_is_def\<close>)
  have here: "0 \<le> element div 8" "element div 8 < 4 * int (length (BS_words u))"
    using elt t(3) u(4) BS_ok_count [OF u(2)] by linarith+
  have one: "bit (ucast (push_bit (nat (element mod 8)) bs_ONE) :: BS_BYTE) (nat (x mod 8))
      \<longleftrightarrow> x mod 8 = element mod 8" for x
    using nat_mod_numeral_less [of x "num.Bit0 (num.Bit0 (num.Bit0 num.One))"]
    by (auto simp: bit_simps eq_nat_nat_iff)
  have "{x. x div 8 = element div 8 \<and> x mod 8 = element mod 8} = {element}"
    by (auto; metis mult_div_mod_eq)
  with elt u BS_set_byte_in [OF here, of "ucast (push_bit (nat (element mod 8)) bs_ONE)"] t(4)
  show ?thesis
    unfolding BS_SingletonD_def Let_def idx bs_RBPB_id t(1) one bindE_Inr u(1) returnsE_bindE
    by (auto simp: returnsE_Is_True BS_is_def BS_ok_def elim!: returnsE_mono)
qed

lemma BS_Singleton_spec:
  assumes "0 \<le> element" "element < 2 ^ 30" "pool \<noteq> Bad_Pool"
  shows "returnsE (BS_Singleton element pool) (\<lambda>r. BS_is r {element})"
proof -
  have create: "returnsE (BS_Create (INT32 (element + 1)) pool)
      (\<lambda>r. BS_ok r \<and> BS_word_count r = (element + 1 + 31) div 32)"
    using assms BS_Create_ok [of "element + 1" pool] by (simp add: INT32_id)
  have room: "element < 32 * ((element + 1 + 31) div 32)" by linarith
  show ?thesis
    unfolding BS_Singleton_def returnsE_bindE
    by (rule returnsE_mono [OF create], rule returnsE_mono [OF BS_SingletonD_spec]) (use assms room in auto)
qed

lemma BS_ResizeD_spec:
  assumes "BS_ok bs" "0 \<le> new_size" "new_size \<le> 2 ^ 30" "pool \<noteq> Bad_Pool"
  shows "returnsE (BS_ResizeD bs new_size pool)
           (\<lambda>r. BS_is r (BS_elems bs) \<and> new_size \<le> 32 * BS_word_count r)"
proof -
  have w: "bs_QBPW (SIZE_T (new_size + 31)) = (new_size + 31) div 32"
    "UINT32 ((new_size + 31) div 32) = (new_size + 31) div 32"
    "SIZE_T ((new_size + 31) div 32) = (new_size + 31) div 32" "(new_size + 31) div 32 \<le> 2 ^ 25"
    using assms bs_words_for_size [of new_size] by (simp_all add: UINT32_id SIZE_T_id)
  have room: "new_size \<le> 32 * ((new_size + 31) div 32)" by linarith
  show ?thesis
    using returnsE_mono [OF bs_Realloc_is [OF assms(1,4) w(4)]] assms(1) room
    by (auto simp: BS_ResizeD_def Let_def w BS_is_def elim!: returnsE_mono)
qed

text \<open>Copying word by word.\<close>

lemma for_loop_copy_words:
  assumes "n \<le> int (length (BS_words src))" "n \<le> int (length (BS_words bs))"
  shows "for_loop 0 n (\<lambda>i s. bindE (BS_word src i) (BS_set_word s i)) bs
     = Inr (bs\<lparr>BS_words := map_words 0 n (\<lambda>i _. BS_words src ! nat i) (BS_words bs)\<rparr>)"
  using assms by (intro for_loop_words) simp_all

lemma BS_Copy_spec:
  assumes "BS_ok bs" "pool \<noteq> Bad_Pool"
  shows "BS_Copy bs pool = Inr bs"
proof -
  have "map_words 0 (int (length (BS_words bs))) (\<lambda>i _. BS_words bs ! nat i)
      (pool_memory 0 pool 1 (length (BS_words bs))) = BS_words bs"
    by (intro nth_equalityI) (simp_all add: nth_map_words)
  with assms show ?thesis
    by (simp add: BS_Copy_def Let_def BS_ok_def bs_Malloc_spec for_loop_copy_words)
qed

lemma word_elems_copy:
  assumes "length src \<le> length ws" "\<And>j. length src \<le> j \<Longrightarrow> j < length ws \<Longrightarrow> ws ! j = 0"
  shows "word_elems (map_words 0 (int (length src)) (\<lambda>i _. src ! nat i) ws) = word_elems src"
proof (rule set_eqI)
  fix x :: int
  have "ws ! nat (x div 32) = 0" if "0 \<le> x" "\<not> x div 32 < int (length src)" "x div 32 < int (length ws)"
    using that by (intro assms(2)) (auto simp: nat_less_iff le_nat_iff)
  with assms(1) show "x \<in> word_elems (map_words 0 (int (length src)) (\<lambda>i _. src ! nat i) ws)
      \<longleftrightarrow> x \<in> word_elems src"
    unfolding word_elems_map_words by (auto simp: word_elems_def)
qed

lemma BS_CopyD_spec:
  assumes ok: "BS_ok set1" "BS_ok set2"
    and pool: "pool \<noteq> Bad_Pool \<or> BS_word_count set2 \<le> BS_word_count set1"
    and fits: "BS_word_count set2 \<le> 2 ^ 25"
  shows "returnsE (BS_CopyD set1 set2 pool) (\<lambda>r. BS_is r (BS_elems set2) \<and> BS_word_count set1 \<le> BS_word_count r)"
proof -
  define n1 where "n1 = length (BS_words set1)"
  define n2 where "n2 = length (BS_words set2)"
  have counts: "BS_word_count set1 = int n1" "BS_word_count set2 = int n2" "int n1 < 2 ^ 26" "int n2 < 2 ^ 26"
    using ok by (simp_all add: BS_ok_def n1_def n2_def)
  then have sizes: "INT32 (int n1) = int n1" "INT32 (int n2) = int n2" "SIZE_T (int n2) = int n2"
    by (simp_all add: INT32_id SIZE_T_id)
  have copied: "returnsE (for_loop 0 (int n2) (\<lambda>i s. bindE (BS_word set2 i) (BS_set_word s i)) t)
      (\<lambda>r. BS_is r (BS_elems set2) \<and> int n1 \<le> BS_word_count r)"
    if "int n1 \<le> BS_word_count t" "BS_ok t" "n2 \<le> length (BS_words t)" "\<And>j. n2 \<le> j \<Longrightarrow> j < length (BS_words t) \<Longrightarrow> BS_words t ! j = 0" for t
    using that by (simp add: for_loop_copy_words word_elems_copy n2_def BS_is_def BS_ok_def BS_elems_def)
  show ?thesis
  proof (cases "n1 < n2")
    case True
    with pool counts have "pool \<noteq> Bad_Pool" by simp
    with ok(1) fits counts(2) obtain n where n:
      "bs_Realloc set1 (int n2) pool = Inr \<lparr>BS_word_count = int (n1 + n), BS_words = BS_words set1 @ replicate n 0\<rparr>"
      "int n2 \<le> int (n1 + n)" "int (n1 + n) < 2 ^ 26"
      unfolding n1_def by (metis bs_Realloc_spec)
    let ?t = "\<lparr>BS_word_count = int (n1 + n), BS_words = BS_words set1 @ replicate n 0\<rparr>"
    have "returnsE (for_loop 0 (int n2) (\<lambda>i s. bindE (BS_word set2 i) (BS_set_word s i)) ?t)
        (\<lambda>r. BS_is r (BS_elems set2) \<and> int n1 \<le> BS_word_count r)"
      using n True by (intro copied) (simp_all add: BS_ok_def n1_def nth_append_zeros)
    then show ?thesis
      using True by (simp add: BS_CopyD_def Let_def counts sizes n(1))
  next
    case False
    let ?t = "set1\<lparr>BS_words := map_words (int n2) (int n1) (\<lambda>_ _. 0) (BS_words set1)\<rparr>"
    have "returnsE (for_loop 0 (int n2) (\<lambda>i s. bindE (BS_word set2 i) (BS_set_word s i)) ?t)
        (\<lambda>r. BS_is r (BS_elems set2) \<and> int n1 \<le> BS_word_count r)"
      using ok(1) False by (intro copied) (auto simp: BS_ok_def n1_def nth_map_words)
    moreover have "for_loop (int n2) (int n1) (\<lambda>i s. BS_set_word s i bs_ZEROS) set1 = Inr ?t"
      by (simp add: for_loop_set_word_const n1_def)
    ultimately show ?thesis
      using False by (simp add: BS_CopyD_def Let_def counts sizes)
  qed
qed

end
