(* ===== verification/Bitset_Choose.thy ===== *)
theory Bitset_Choose
  imports Bitset_Create
begin

text \<open>
  Searching a bit set (\<^verbatim>\<open>src/src/common/util/bitset.c\<close>, \<^verbatim>\<open>first_one\<close> to
  \<^verbatim>\<open>BS_Intersection_Choose_Next\<close>): the least element, the least element of a range, the
  least element above a bound, and the same of the intersection of two sets without forming it.

  The four unbounded searches have the same loop over words and, inside it, over bytes; what
  differs is how a word and a byte are read (from one set, or from two and \<^verbatim>\<open>&\<close>ed).  The
  loop is written once, with the readers as arguments, and the locale \<open>bit_reader\<close> says
  what is relied on of them.
\<close>

section \<open>Operations\<close>

definition first_one :: "nat list" where
  "first_one = [
    0, 0, 1, 0, 2, 0, 1, 0, 3, 0, 1, 0, 2, 0, 1, 0,
    4, 0, 1, 0, 2, 0, 1, 0, 3, 0, 1, 0, 2, 0, 1, 0,
    5, 0, 1, 0, 2, 0, 1, 0, 3, 0, 1, 0, 2, 0, 1, 0,
    4, 0, 1, 0, 2, 0, 1, 0, 3, 0, 1, 0, 2, 0, 1, 0,
    6, 0, 1, 0, 2, 0, 1, 0, 3, 0, 1, 0, 2, 0, 1, 0,
    4, 0, 1, 0, 2, 0, 1, 0, 3, 0, 1, 0, 2, 0, 1, 0,
    5, 0, 1, 0, 2, 0, 1, 0, 3, 0, 1, 0, 2, 0, 1, 0,
    4, 0, 1, 0, 2, 0, 1, 0, 3, 0, 1, 0, 2, 0, 1, 0,
    7, 0, 1, 0, 2, 0, 1, 0, 3, 0, 1, 0, 2, 0, 1, 0,
    4, 0, 1, 0, 2, 0, 1, 0, 3, 0, 1, 0, 2, 0, 1, 0,
    5, 0, 1, 0, 2, 0, 1, 0, 3, 0, 1, 0, 2, 0, 1, 0,
    4, 0, 1, 0, 2, 0, 1, 0, 3, 0, 1, 0, 2, 0, 1, 0,
    6, 0, 1, 0, 2, 0, 1, 0, 3, 0, 1, 0, 2, 0, 1, 0,
    4, 0, 1, 0, 2, 0, 1, 0, 3, 0, 1, 0, 2, 0, 1, 0,
    5, 0, 1, 0, 2, 0, 1, 0, 3, 0, 1, 0, 2, 0, 1, 0,
    4, 0, 1, 0, 2, 0, 1, 0, 3, 0, 1, 0, 2, 0, 1, 0]"

text \<open>\<^verbatim>\<open>if (byte != 0) return first_one[byte] + base;\<close>\<close>

definition bs_found :: "BS_BYTE \<Rightarrow> int \<Rightarrow> BS_ELT option" where
  "bs_found byte base =
     (if byte \<noteq> 0 then Some (INT32 (int (first_one ! unat byte) + base)) else None)"

text \<open>The value a search returns when no loop left it early.\<close>

definition bs_or_failure :: "BS_ELT option outcome \<Rightarrow> BS_ELT outcome" where
  "bs_or_failure m = bindE m (\<lambda>r. Inr (case r of Some v \<Rightarrow> v | None \<Rightarrow> BS_CHOOSE_FAILURE))"

text \<open>
  The loop over the words \<open>first .. word_count - 1\<close>; \<open>word_at\<close> and \<open>byte_at\<close> read the word and
  the byte with an index.
\<close>

definition bs_Choose_words ::
    "int \<Rightarrow> int \<Rightarrow> (int \<Rightarrow> BS_WORD outcome) \<Rightarrow> (int \<Rightarrow> BS_BYTE outcome) \<Rightarrow> BS_ELT option outcome" where
  "bs_Choose_words first word_count word_at byte_at =
     search_loop first word_count (\<lambda>i. bindE (word_at i) (\<lambda>w.
       if w \<noteq> bs_ZEROS then
         let first_byte = bs_PBytesPW i in
         or_elseE (search_loop 0 4 (\<lambda>j. bindE (byte_at (j + first_byte)) (\<lambda>byte.
                     Inr (bs_found byte (bs_PBPB (j + first_byte))))))
           (bindE (Is_True False ''Word not zero, but no byte found'') (\<lambda>_. Inr None))
       else Inr None))"

definition BS_Choose :: "BS \<Rightarrow> BS_ELT outcome" where
  "BS_Choose bs =
     bs_or_failure (bs_Choose_words 0 (BS_word_count bs) (BS_word bs) (BS_byte bs))"

text \<open>
  In the third loop \<open>i\<close> starts at \<^verbatim>\<open>i * sizeof(BS_WORD)\<close> for the \<open>i\<close> that the second one ended with,
  the larger of \<open>first_word + 1\<close> and \<open>last_word\<close>.
\<close>

definition BS_Choose_Range :: "BS \<Rightarrow> BS_ELT \<Rightarrow> BS_ELT \<Rightarrow> BS_ELT outcome" where
  "BS_Choose_Range bs low high =
     bindE (Is_True (low \<ge> 0) ''BS_Choose_Range called with negative low element.'') (\<lambda>_.
     bindE (Is_True (INT32 (high - low) \<ge> - 1) ''BS_Choose_Range called with negative range size.'') (\<lambda>_.
     let last_elt_in_set = INT32 (bs_PBPW (BS_word_count bs) - 1);
         high = (if high > last_elt_in_set then last_elt_in_set else high) in
     if low > high then Inr BS_CHOOSE_FAILURE
     else
       let first_byte = bs_QBPB low; last_byte = bs_QBPB high in
       bindE (BS_byte bs first_byte) (\<lambda>byte.
       let byte = byte AND ucast (push_bit (nat (bs_RBPB low)) bs_ONES);
           byte = (if first_byte = last_byte
                   then byte AND ucast (drop_bit (nat ((32 - 1) - bs_RBPB high)) bs_ONES)
                   else byte) in
       if byte \<noteq> 0 then Inr (INT32 (int (first_one ! unat byte) + bs_PBPB first_byte))
       else if first_byte = last_byte then Inr BS_CHOOSE_FAILURE
       else
         let first_word = bs_QBPW low;
             last_first_word_full_byte = INT32 ((first_word + 1) * 4 - 1);
             last_first_word_full_byte =
               (if last_first_word_full_byte \<ge> last_byte then last_byte - 1
                else last_first_word_full_byte);
             last_word = bs_QBPW high in
         bs_or_failure
          (or_elseE
            (search_loop (first_byte + 1) (last_first_word_full_byte + 1) (\<lambda>i.
               bindE (BS_byte bs i) (\<lambda>byte. Inr (bs_found byte (bs_PBPB i)))))
          (or_elseE
            (search_loop (first_word + 1) last_word (\<lambda>i. bindE (BS_word bs i) (\<lambda>w.
               if w \<noteq> bs_ZEROS then
                 search_loop 0 4 (\<lambda>j. bindE (BS_byte bs (j + i * 4)) (\<lambda>byte.
                   Inr (bs_found byte (bs_PBPB j + bs_PBPW i))))
               else Inr None)))
          (or_elseE
            (search_loop (INT32 (max (first_word + 1) last_word * 4)) last_byte (\<lambda>i.
               bindE (BS_byte bs i) (\<lambda>byte. Inr (bs_found byte (8 * i)))))
            (bindE (BS_byte bs last_byte) (\<lambda>byte.
               let byte = byte AND ucast (drop_bit (nat ((32 - 1) - bs_RBPB high)) bs_ONES) in
               Inr (bs_found byte (bs_PBPB last_byte))))))))))"

text \<open>The body that \<^verbatim>\<open>BS_Choose_Next\<close> and \<^verbatim>\<open>BS_Intersection_Choose_Next\<close> share.\<close>

definition bs_Choose_above ::
    "int \<Rightarrow> BS_ELT \<Rightarrow> (int \<Rightarrow> BS_WORD outcome) \<Rightarrow> (int \<Rightarrow> BS_BYTE outcome) \<Rightarrow> BS_ELT outcome" where
  "bs_Choose_above word_count bound word_at byte_at =
     (let bound = INT32 (bound + 1) in
      if bound \<ge> bs_PBPW word_count then Inr BS_CHOOSE_FAILURE
      else
        let inx_first_byte = bs_QBPB bound in
        bindE (byte_at inx_first_byte) (\<lambda>byte.
        let byte = byte AND ucast (push_bit (nat (bs_RBPB bound)) bs_ONES) in
        if byte \<noteq> 0 then Inr (INT32 (int (first_one ! unat byte) + bs_PBPB inx_first_byte))
        else
          let inx_first_byte_second_word = INT32 ((bs_QBPW bound + 1) * 4) in
          bs_or_failure
           (or_elseE
             (search_loop (inx_first_byte + 1) inx_first_byte_second_word (\<lambda>i.
                bindE (byte_at i) (\<lambda>byte. Inr (bs_found byte (bs_PBPB i)))))
             (bs_Choose_words (bs_QBPW bound + 1) word_count word_at byte_at))))"

definition BS_Choose_Next :: "BS \<Rightarrow> BS_ELT \<Rightarrow> BS_ELT outcome" where
  "BS_Choose_Next bs bound = bs_Choose_above (BS_word_count bs) bound (BS_word bs) (BS_byte bs)"

definition BS_Intersection_Choose :: "BS \<Rightarrow> BS \<Rightarrow> BS_ELT outcome" where
  "BS_Intersection_Choose set1 set2 =
     (let last_word = (if BS_word_count set1 < BS_word_count set2 then BS_word_count set1
                       else BS_word_count set2) in
      bs_or_failure (bs_Choose_words 0 last_word
        (\<lambda>i. andE (BS_word set1 i) (BS_word set2 i)) (\<lambda>i. andE (BS_byte set1 i) (BS_byte set2 i))))"

definition BS_Intersection_Choose_Next :: "BS \<Rightarrow> BS \<Rightarrow> BS_ELT \<Rightarrow> BS_ELT outcome" where
  "BS_Intersection_Choose_Next set1 set2 bound =
     (let word_count = (if BS_word_count set1 < BS_word_count set2 then BS_word_count set1
                        else BS_word_count set2) in
      bs_Choose_above word_count bound
        (\<lambda>i. andE (BS_word set1 i) (BS_word set2 i)) (\<lambda>i. andE (BS_byte set1 i) (BS_byte set2 i)))"

section \<open>The least element of an interval\<close>

text \<open>What a search of the elements of \<open>S\<close> from \<open>lo\<close> to \<open>hi - 1\<close> gives.\<close>

definition least_in :: "int set \<Rightarrow> int \<Rightarrow> int \<Rightarrow> int option \<Rightarrow> bool" where
  "least_in S lo hi r = (case r of
      None \<Rightarrow> S \<inter> {lo..<hi} = {}
    | Some v \<Rightarrow> v \<in> S \<inter> {lo..<hi} \<and> (\<forall>x \<in> S \<inter> {lo..<hi}. v \<le> x))"

text \<open>What an operation that chooses from \<open>S\<close> returns.\<close>

definition chosen :: "int set \<Rightarrow> BS_ELT \<Rightarrow> bool" where
  "chosen S r \<longleftrightarrow> (if S = {} then r = BS_CHOOSE_FAILURE else r \<in> S \<and> (\<forall>x \<in> S. r \<le> x))"

lemma least_in_then:
  assumes "least_in S lo mid None" "least_in S mid hi r" "lo \<le> mid"
  shows "least_in S lo hi r"
  using assms by (fastforce simp: least_in_def split: option.splits)

lemma least_in_found:
  assumes "least_in S lo mid (Some v)" "mid \<le> hi"
  shows "least_in S lo hi (Some v)"
  using assms by (fastforce simp: least_in_def)

lemma least_in_empty [simp]: "hi \<le> lo \<Longrightarrow> least_in S lo hi None"
  by (simp add: least_in_def)

lemma returnsE_least_then:
  assumes "returnsE m (least_in S lo mid)" "returnsE k (least_in S mid hi)" "lo \<le> mid" "mid \<le> hi"
  shows "returnsE (or_elseE m k) (least_in S lo hi)"
  using assms
  by (auto intro!: returnsE_or_elseE [OF assms(1)] elim: returnsE_mono intro: least_in_then least_in_found)

lemma search_loop_least:
  assumes body: "\<And>i. lo \<le> i \<Longrightarrow> i < hi \<Longrightarrow> returnsE (body i) (least_in S (p i) (p (i + 1)))"
    and p: "\<And>i. p i \<le> p (i + 1)" and "lo \<le> hi"
  shows "returnsE (search_loop lo hi body) (least_in S (p lo) (p hi))"
proof -
  have mono: "p i \<le> p (i + int n)" for i n
  proof (induction n)
    case (Suc n)
    with p [of "i + int n"] show ?case by (simp add: algebra_simps)
  qed simp
  have "returnsE (search_loop i hi body) (least_in S (p i) (p hi))"
    if "lo \<le> i" "i \<le> hi" "k = nat (hi - i)" for i k
    using that
  proof (induction k arbitrary: i)
    case 0
    then show ?case by simp
  next
    case (Suc k)
    have "search_loop i hi body = or_elseE (body i) (search_loop (i + 1) hi body)"
      using Suc.prems
      by (subst search_loop.simps) (auto simp: or_elseE_def bindE_def split: sum.splits option.splits)
    moreover have "hi = i + 1 + int k" using Suc.prems by linarith
    then have "p (i + 1) \<le> p hi" using mono [of "i + 1" k] by simp
    ultimately show ?case
      using Suc body [of i] p by (auto intro!: returnsE_least_then [where mid = "p (i + 1)"])
  qed
  with assms(3) show ?thesis by simp
qed

lemma bs_or_failure_chosen:
  assumes "returnsE m (least_in S lo hi)" "S \<inter> {lo..<hi} = T"
  shows "returnsE (bs_or_failure m) (chosen T)"
  using assms by (auto simp: bs_or_failure_def least_in_def chosen_def returnsE_iff split: option.splits)

section \<open>The least element of a byte\<close>

lemma first_one_table:
  "list_all (\<lambda>(n, f). n = 0 \<or> f < 8 \<and> n mod 2 ^ Suc f = 2 ^ f) (zip [0..255] first_one)"
  by (simp add: first_one_def upto_rec1 [of 0] upto_rec1 [of 1])

lemma first_one_least:
  assumes "b \<noteq> (0 :: BS_BYTE)"
  shows "first_one ! unat b < 8" "bit b (first_one ! unat b)" "\<And>j. bit b j \<Longrightarrow> first_one ! unat b \<le> j"
proof -
  define f where "f = first_one ! unat b"
  have small: "unat b < 256" using unsigned_less [of b] by simp
  have "uint b < 256" using uint_lt2p [of b] by simp
  then have "[0..255] ! unat b = uint b" by (subst nth_upto) simp_all
  moreover have "length first_one = 256" by (simp add: first_one_def)
  ultimately have "zip [0..255] first_one ! unat b = (uint b, f)" "unat b < length (zip [0..255] first_one)"
    using small by (simp_all add: f_def)
  moreover have "uint b \<noteq> 0" using assms by (simp add: uint_0_iff)
  ultimately have f: "f < 8" "take_bit (Suc f) (uint b) = 2 ^ f"
    using first_one_table by (auto simp: list_all_length take_bit_eq_mod)
  have low: "bit b j \<longleftrightarrow> j = f" if "j \<le> f" for j
  proof -
    have "bit (take_bit (Suc f) (uint b)) j \<longleftrightarrow> j = f" unfolding f(2) by (auto simp: bit_exp_iff)
    with that f(1) show ?thesis by (simp add: bit_take_bit_iff bit_uint_iff)
  qed
  show "first_one ! unat b < 8" "bit b (first_one ! unat b)"
    using f(1) low [of f] by (simp_all add: f_def)
  show "first_one ! unat b \<le> j" if "bit b j" for j
    using that low [of j] by (fold f_def) (cases "j \<le> f"; simp)
qed

lemma bs_found_least:
  assumes b: "\<And>k. k < 8 \<Longrightarrow> bit b k \<longleftrightarrow> 8 * i + int k \<in> S \<inter> {lo..<hi}"
    and i: "0 \<le> i" "i < 2 ^ 28" and base: "base = 8 * i"
    and out: "\<And>x. x \<in> {lo..<hi} \<Longrightarrow> x div 8 = i"
  shows "least_in S lo hi (bs_found b base)"
proof -
  have elem: "\<forall>x \<in> S \<inter> {lo..<hi}. bit b (nat (x mod 8))"
  proof
    fix x
    assume x: "x \<in> S \<inter> {lo..<hi}"
    with out have "x div 8 = i" by blast
    then have "8 * i + int (nat (x mod 8)) = x" using mult_div_mod_eq [of 8 x] by simp
    with x b [of "nat (x mod 8)"] show "bit b (nat (x mod 8))" by simp
  qed
  show ?thesis
  proof (cases "b = 0")
    case True
    with elem have "S \<inter> {lo..<hi} = {}" by (auto simp del: Int_iff)
    with True show ?thesis by (simp add: bs_found_def least_in_def)
  next
    case False
    note least = first_one_least [OF False]
    have id: "INT32 (int (first_one ! unat b) + base) = 8 * i + int (first_one ! unat b)"
      using i least(1) base by (simp add: INT32_id)
    have "\<forall>x \<in> S \<inter> {lo..<hi}. 8 * i + int (first_one ! unat b) \<le> x"
    proof
      fix x
      assume x: "x \<in> S \<inter> {lo..<hi}"
      have "first_one ! unat b \<le> nat (x mod 8)" using least(3) elem x by blast
      moreover have "x div 8 = i" using out x by blast
      ultimately show "8 * i + int (first_one ! unat b) \<le> x" using mult_div_mod_eq [of 8 x] by linarith
    qed
    with False least(1,2) b show ?thesis by (simp add: bs_found_def least_in_def id)
  qed
qed

lemma bs_found_or:
  "(if byte \<noteq> 0 then Inr (INT32 (int (first_one ! unat byte) + base)) else bs_or_failure k)
     = bs_or_failure (or_elseE (Inr (bs_found byte base)) k)"
  by (simp add: bs_found_def or_elseE_def bs_or_failure_def)

text \<open>Bytes masked at one end or at both.\<close>

lemma masked_least:
  assumes b: "\<forall>k. bit b k \<longleftrightarrow> k < 8 \<and> 8 * i + int k \<in> S"
    and m: "\<And>k. k < 8 \<Longrightarrow> bit m k \<longleftrightarrow> 8 * i + int k \<in> {lo..<hi}"
    and range: "8 * i \<le> lo" "hi \<le> 8 * i + 8" and i: "0 \<le> i" "i < 2 ^ 28" "base = 8 * i"
  shows "least_in S lo hi (bs_found (b AND m) base)"
proof (rule bs_found_least [OF _ i])
  show "x div 8 = i" if "x \<in> {lo..<hi}" for x using that range by auto
qed (use b m in \<open>simp add: bit_and_iff\<close>)

lemma byte_quotient_remainder:
  fixes c :: int
  obtains q r where "c div 8 = q" "c mod 8 = r" "c = 8 * q + r" "0 \<le> r" "r < 8"
proof
  show "c = 8 * (c div 8) + c mod 8" by simp
qed simp_all

lemma mask_from:
  assumes "k < 8"
  shows "bit (ucast (push_bit (nat (c mod 8)) bs_ONES) :: BS_BYTE) k
    \<longleftrightarrow> 8 * (c div 8) + int k \<in> {c..<8 * (c div 8) + 8}"
proof -
  obtain q r where "c div 8 = q" "c mod 8 = r" "c = 8 * q + r" "0 \<le> r" "r < 8"
    by (rule byte_quotient_remainder)
  then show ?thesis unfolding bit_ones_from [OF assms] using assms by (simp only: atLeastLessThan_iff) auto
qed

lemma mask_upto:
  assumes "k < 8"
  shows "bit (ucast (drop_bit (nat ((32 - 1) - c mod 8)) bs_ONES) :: BS_BYTE) k
    \<longleftrightarrow> 8 * (c div 8) + int k \<in> {8 * (c div 8)..<c + 1}"
proof -
  obtain q r where "c div 8 = q" "c mod 8 = r" "c = 8 * q + r" "0 \<le> r" "r < 8"
    by (rule byte_quotient_remainder)
  then show ?thesis unfolding bit_ones_upto_int [OF assms] by (simp only: atLeastLessThan_iff) auto
qed

lemma byte_interval: "8 * (c div 8) \<le> c" "c < 8 * (c div 8) + 8" for c :: int
  using byte_quotient_remainder [of c] by (metis add_less_cancel_left le_add_same_cancel1)+

lemma masked_byte_least:
  assumes b: "\<forall>k. bit b k \<longleftrightarrow> k < 8 \<and> 8 * (c div 8) + int k \<in> S"
    and c: "0 \<le> c" "c < 2 ^ 31" "base = 8 * (c div 8)"
  shows "least_in S c (8 * (c div 8) + 8) (bs_found (b AND ucast (push_bit (nat (c mod 8)) bs_ONES)) base)"
  by (rule masked_least [OF b mask_from]) (use c byte_interval [of c] in auto)

lemma masked_byte_least_upto:
  assumes b: "\<forall>k. bit b k \<longleftrightarrow> k < 8 \<and> 8 * (c div 8) + int k \<in> S"
    and c: "0 \<le> c" "c < 2 ^ 31" "base = 8 * (c div 8)"
  shows "least_in S (8 * (c div 8)) (c + 1)
           (bs_found (b AND ucast (drop_bit (nat ((32 - 1) - c mod 8)) bs_ONES)) base)"
  by (rule masked_least [OF b mask_upto]) (use c byte_interval [of c] in auto)

lemma masked_byte_least_both:
  assumes b: "\<forall>k. bit b k \<longleftrightarrow> k < 8 \<and> 8 * (c div 8) + int k \<in> S"
    and c: "0 \<le> c" "c < 2 ^ 31" "base = 8 * (c div 8)" and d: "c \<le> d" "d div 8 = c div 8"
  shows "least_in S c (d + 1) (bs_found ((b AND ucast (push_bit (nat (c mod 8)) bs_ONES))
           AND ucast (drop_bit (nat ((32 - 1) - d mod 8)) bs_ONES)) base)"
  unfolding and.assoc
proof (rule masked_least [OF b])
  fix k :: nat
  assume k: "k < 8"
  show "bit (ucast (push_bit (nat (c mod 8)) bs_ONES)
           AND ucast (drop_bit (nat ((32 - 1) - d mod 8)) bs_ONES) :: BS_BYTE) k
      \<longleftrightarrow> 8 * (c div 8) + int k \<in> {c..<d + 1}"
    unfolding bit_and_iff mask_from [OF k] mask_upto [OF k] d(2) using k by auto
qed (use c byte_interval [of c] byte_interval [of d] d in auto)

lemma byte_below_next_word: "c div 8 + 1 \<le> (c div 32 + 1) * 4"
  and byte_above_word: "c div 32 * 4 \<le> c div 8" for c :: int
proof -
  obtain b w r where q: "c div 8 = b" "c div 32 = w" "b mod 4 = r" by blast
  then have "b = 4 * w + r" using mult_div_mod_eq [of 4 b] div8_div4 [of c] by simp
  moreover have "0 \<le> r" "r < 4" unfolding q(3) [symmetric] by simp_all
  ultimately show "c div 8 + 1 \<le> (c div 32 + 1) * 4" "c div 32 * 4 \<le> c div 8" by (simp_all add: q)
qed

lemma not_found_failure:
  "(if byte \<noteq> 0 then Inr (INT32 (int (first_one ! unat byte) + base)) else Inr BS_CHOOSE_FAILURE)
     = bs_or_failure (Inr (bs_found byte base))"
  by (simp add: bs_found_def bs_or_failure_def)

section \<open>The searches\<close>

text \<open>
  What the searches rely on: a state \<open>s\<close> has \<open>words s\<close> words, which can be read as words or as
  bytes, and the bits read are those of the set \<open>elems s\<close>.
\<close>

locale bit_reader =
  fixes words :: "'s \<Rightarrow> int"
    and word_at :: "'s \<Rightarrow> int \<Rightarrow> BS_WORD outcome"
    and byte_at :: "'s \<Rightarrow> int \<Rightarrow> BS_BYTE outcome"
    and elems :: "'s \<Rightarrow> int set"
  assumes word_at: "0 \<le> i \<Longrightarrow> i < words s \<Longrightarrow>
        returnsE (word_at s i) (\<lambda>w. \<forall>k. bit w k \<longleftrightarrow> k < 32 \<and> 32 * i + int k \<in> elems s)"
    and byte_at: "0 \<le> i \<Longrightarrow> i < 4 * words s \<Longrightarrow>
        returnsE (byte_at s i) (\<lambda>b. \<forall>k. bit b k \<longleftrightarrow> k < 8 \<and> 8 * i + int k \<in> elems s)"
    and elems_range: "elems s \<subseteq> {0..<32 * words s}"
begin

lemma byte_search:
  assumes "0 \<le> i" "i < 4 * words s" "words s < 2 ^ 26" "base = 8 * i"
  shows "returnsE (bindE (byte_at s i) (\<lambda>byte. Inr (bs_found byte base)))
           (least_in (elems s) (8 * i) (8 * i + 8))"
proof -
  have "x div 8 = i" if "x \<in> {8 * i..<8 * i + 8}" for x using that by auto
  then show ?thesis
    unfolding returnsE_bindE using assms
    by (intro returnsE_mono [OF byte_at [of i s]]) (auto intro!: bs_found_least [of _ i])
qed

lemma bytes_search:
  assumes "0 \<le> a + first_byte" "a \<le> b" "b + first_byte \<le> 4 * words s" "words s < 2 ^ 26"
    and base: "\<And>j. a \<le> j \<Longrightarrow> j < b \<Longrightarrow> base j = 8 * (j + first_byte)"
  shows "returnsE (search_loop a b (\<lambda>j. bindE (byte_at s (j + first_byte)) (\<lambda>byte.
              Inr (bs_found byte (base j)))))
           (least_in (elems s) (8 * (a + first_byte)) (8 * (b + first_byte)))"
proof (rule search_loop_least [where p = "\<lambda>j. 8 * (j + first_byte)"])
  fix j
  assume "a \<le> j" "j < b"
  with assms show "returnsE (bindE (byte_at s (j + first_byte)) (\<lambda>byte. Inr (bs_found byte (base j))))
      (least_in (elems s) (8 * (j + first_byte)) (8 * (j + 1 + first_byte)))"
    using byte_search [of "j + first_byte" s "base j"] by (simp add: algebra_simps)
qed (use assms in auto)

lemma zero_word:
  assumes "\<forall>k. bit w k \<longleftrightarrow> k < 32 \<and> 32 * i + int k \<in> elems s"
  shows "w = (0 :: BS_WORD) \<longleftrightarrow> elems s \<inter> {32 * i..<32 * i + 32} = {}"
proof
  assume "w = 0"
  with assms have none: "32 * i + int k \<notin> elems s" if "k < 32" for k using that by simp
  show "elems s \<inter> {32 * i..<32 * i + 32} = {}"
  proof (rule equals0I)
    fix x
    assume "x \<in> elems s \<inter> {32 * i..<32 * i + 32}"
    then have "x \<in> elems s" "nat (x - 32 * i) < 32" "32 * i + int (nat (x - 32 * i)) = x" by auto
    with none [of "nat (x - 32 * i)"] show False by simp
  qed
next
  assume "elems s \<inter> {32 * i..<32 * i + 32} = {}"
  then have "32 * i + int k \<notin> elems s" if "k < 32" for k using that by auto
  with assms show "w = 0" by (simp add: word_eq_0_iff_bit)
qed

lemma word_or_skip:
  assumes "0 \<le> i" "i < words s" "returnsE m (least_in (elems s) (32 * i) (32 * i + 32))"
  shows "returnsE (bindE (word_at s i) (\<lambda>w. if w \<noteq> bs_ZEROS then m else Inr None))
           (least_in (elems s) (32 * i) (32 * i + 32))"
  unfolding returnsE_bindE
proof (rule returnsE_mono [OF word_at [OF assms(1,2)]])
  fix w :: BS_WORD
  assume "\<forall>k. bit w k \<longleftrightarrow> k < 32 \<and> 32 * i + int k \<in> elems s"
  from zero_word [OF this] assms(3)
  show "returnsE (if w \<noteq> bs_ZEROS then m else Inr None) (least_in (elems s) (32 * i) (32 * i + 32))"
    by (simp add: least_in_def)
qed

lemma words_search:
  assumes "0 \<le> first" "first \<le> words s" "words s < 2 ^ 26"
  shows "returnsE (bs_Choose_words first (words s) (word_at s) (byte_at s))
           (least_in (elems s) (32 * first) (32 * words s))"
  unfolding bs_Choose_words_def
proof (rule search_loop_least [where p = "\<lambda>i. 32 * i"])
  fix i
  assume i: "first \<le> i" "i < words s"
  define fb where "fb = bs_PBytesPW i"
  have fb: "fb = 4 * i" using i assms by (simp add: fb_def bs_PBytesPW_id)
  have bytes: "returnsE (search_loop 0 4 (\<lambda>j. bindE (byte_at s (j + fb)) (\<lambda>byte.
      Inr (bs_found byte (bs_PBPB (j + fb)))))) (least_in (elems s) (32 * i) (32 * i + 32))"
    using bytes_search [of 0 fb 4 s "\<lambda>j. bs_PBPB (j + fb)"] i assms
    by (simp add: fb bs_PBPB_id algebra_simps)
  show "returnsE (bindE (word_at s i) (\<lambda>w.
       if w \<noteq> bs_ZEROS then
         let first_byte = bs_PBytesPW i in
         or_elseE (search_loop 0 4 (\<lambda>j. bindE (byte_at s (j + first_byte)) (\<lambda>byte.
                     Inr (bs_found byte (bs_PBPB (j + first_byte))))))
           (bindE (Is_True False ''Word not zero, but no byte found'') (\<lambda>_. Inr None))
       else Inr None)) (least_in (elems s) (32 * i) (32 * (i + 1)))"
    unfolding returnsE_bindE
  proof (rule returnsE_mono [OF word_at])
    fix w :: BS_WORD
    assume w: "\<forall>k. bit w k \<longleftrightarrow> k < 32 \<and> 32 * i + int k \<in> elems s"
    have none: "least_in (elems s) (32 * i) (32 * i + 32) None \<longleftrightarrow> w = 0"
      using zero_word [OF w] by (simp add: least_in_def)
    show "returnsE (if w \<noteq> bs_ZEROS then
         let first_byte = bs_PBytesPW i in
         or_elseE (search_loop 0 4 (\<lambda>j. bindE (byte_at s (j + first_byte)) (\<lambda>byte.
                     Inr (bs_found byte (bs_PBPB (j + first_byte))))))
           (bindE (Is_True False ''Word not zero, but no byte found'') (\<lambda>_. Inr None))
       else Inr None) (least_in (elems s) (32 * i) (32 * (i + 1)))"
      using none by (auto simp: Let_def simp flip: fb_def intro: returnsE_or_elseE [OF bytes])
  qed (use i assms in auto)
qed (use assms in auto)

lemma choose_above:
  assumes "words s < 2 ^ 26" "0 \<le> words s" "- 1 \<le> bound" "bound < 2 ^ 31 - 1"
  shows "returnsE (bs_Choose_above (words s) bound (word_at s) (byte_at s))
           (chosen (elems s \<inter> {bound<..}))"
proof -
  define c where "c = bound + 1"
  have c: "INT32 (bound + 1) = c" "bs_PBPW (words s) = words s * 32" "0 \<le> c" "c < 2 ^ 31"
    using assms by (simp_all add: INT32_id bs_index c_def)
  show ?thesis
  proof (cases "words s * 32 \<le> c")
    case True
    then have "elems s \<inter> {bound<..} = {}" using elems_range [of s] by (auto simp: c_def)
    with True c show ?thesis by (simp add: bs_Choose_above_def chosen_def)
  next
    case False
    then have w: "c div 32 + 1 \<le> words s" by linarith
    have idx: "bs_QBPB c = c div 8" "bs_QBPW c = c div 32" "INT32 ((c div 32 + 1) * 4) = (c div 32 + 1) * 4"
      "bs_PBPB (c div 8) = 8 * (c div 8)"
      using c w assms(1) by (simp_all add: bs_index INT32_id)
    have here: "0 \<le> c div 8" "c div 8 < 4 * words s" using False c(3) by linarith+
    have rest: "returnsE (or_elseE
             (search_loop (c div 8 + 1) ((c div 32 + 1) * 4) (\<lambda>i.
                bindE (byte_at s i) (\<lambda>byte. Inr (bs_found byte (bs_PBPB i)))))
             (bs_Choose_words (c div 32 + 1) (words s) (word_at s) (byte_at s)))
           (least_in (elems s) (8 * (c div 8) + 8) (32 * words s))"
    proof (rule returnsE_least_then [where mid = "32 * (c div 32 + 1)"])
      have "c div 8 + 1 \<le> (c div 32 + 1) * 4" by (rule byte_below_next_word)
      moreover have "(c div 32 + 1) * 4 \<le> 4 * words s" using w by simp
      moreover note c(3) assms(1) bytes_search [of "c div 8 + 1" 0 "(c div 32 + 1) * 4" s bs_PBPB]
      ultimately show "returnsE (search_loop (c div 8 + 1) ((c div 32 + 1) * 4) (\<lambda>i.
          bindE (byte_at s i) (\<lambda>byte. Inr (bs_found byte (bs_PBPB i)))))
          (least_in (elems s) (8 * (c div 8) + 8) (32 * (c div 32 + 1)))"
        by (simp add: bs_PBPB_id algebra_simps)
      show "returnsE (bs_Choose_words (c div 32 + 1) (words s) (word_at s) (byte_at s))
          (least_in (elems s) (32 * (c div 32 + 1)) (32 * words s))"
        using c(3) w assms(1) by (intro words_search) simp_all
    qed (use w byte_below_next_word [of c] in simp_all)
    have all: "elems s \<inter> {c..<32 * words s} = elems s \<inter> {bound<..}"
      using elems_range [of s] by (auto simp: c_def)
    show ?thesis
      unfolding bs_Choose_above_def Let_def c idx bs_RBPB_id bs_found_or
      using False
    proof (simp only: if_False returnsE_bindE, intro returnsE_mono [OF byte_at [OF here]])
      fix b :: BS_BYTE
      assume b: "\<forall>k. bit b k \<longleftrightarrow> k < 8 \<and> 8 * (c div 8) + int k \<in> elems s"
      show "returnsE (bs_or_failure (or_elseE
            (Inr (bs_found (b AND ucast (push_bit (nat (c mod 8)) bs_ONES)) (8 * (c div 8))))
            (or_elseE
             (search_loop (c div 8 + 1) ((c div 32 + 1) * 4) (\<lambda>i.
                bindE (byte_at s i) (\<lambda>byte. Inr (bs_found byte (bs_PBPB i)))))
             (bs_Choose_words (c div 32 + 1) (words s) (word_at s) (byte_at s)))))
          (chosen (elems s \<inter> {bound<..}))"
        by (rule bs_or_failure_chosen [OF returnsE_least_then [OF _ rest] all])
          (use masked_byte_least [OF b c(3,4) refl] here(2) in simp_all)
    qed
  qed
qed

lemma choose_least:
  assumes "0 \<le> words s" "words s < 2 ^ 26"
  shows "returnsE (bs_or_failure (bs_Choose_words 0 (words s) (word_at s) (byte_at s))) (chosen (elems s))"
  using words_search [of 0 s] assms elems_range [of s] by (intro bs_or_failure_chosen) auto

end

interpretation one: bit_reader "\<lambda>bs. int (length (BS_words bs))" BS_word BS_byte BS_elems
proof
  fix i and bs :: BS
  assume "0 \<le> i" "i < int (length (BS_words bs))"
  then show "returnsE (BS_word bs i) (\<lambda>w. \<forall>k. bit w k \<longleftrightarrow> k < 32 \<and> 32 * i + int k \<in> BS_elems bs)"
    by (simp add: BS_word_elems)
qed (auto intro: bit_BS_byte dest: BS_elems_nonneg BS_elems_bound)

interpretation two: bit_reader
  "\<lambda>(s1, s2). int (min (length (BS_words s1)) (length (BS_words s2)))"
  "\<lambda>(s1, s2) i. andE (BS_word s1 i) (BS_word s2 i)" "\<lambda>(s1, s2) i. andE (BS_byte s1 i) (BS_byte s2 i)"
  "\<lambda>(s1, s2). BS_elems s1 \<inter> BS_elems s2"
proof (unfold_locales, goal_cases)
  case (1 i s)
  obtain s1 s2 where s: "s = (s1, s2)" by (cases s)
  from 1 have i: "0 \<le> i" "i < int (length (BS_words s1))" "i < int (length (BS_words s2))"
    by (simp_all add: s)
  show ?case
    unfolding s prod.case
    by (rule returnsE_andE [OF one.word_at [OF i(1,2)] one.word_at [OF i(1,3)]]) (auto simp: bit_and_iff)
next
  case (2 i s)
  obtain s1 s2 where s: "s = (s1, s2)" by (cases s)
  from 2 have i: "0 \<le> i" "i < 4 * int (length (BS_words s1))" "i < 4 * int (length (BS_words s2))"
    by (simp_all add: s)
  show ?case
    unfolding s prod.case
    by (rule returnsE_andE [OF one.byte_at [OF i(1,2)] one.byte_at [OF i(1,3)]]) (auto simp: bit_and_iff)
next
  case (3 s)
  obtain s1 s2 where "s = (s1, s2)" by (cases s)
  then show ?case using one.elems_range [of s1] one.elems_range [of s2] by (auto simp: min_def)
qed

lemma BS_Choose_spec: "BS_ok bs \<Longrightarrow> returnsE (BS_Choose bs) (chosen (BS_elems bs))"
  unfolding BS_Choose_def BS_ok_def using one.choose_least [of bs] by simp

lemma BS_Choose_Next_spec:
  "BS_ok bs \<Longrightarrow> - 1 \<le> bound \<Longrightarrow> bound < 2 ^ 31 - 1 \<Longrightarrow>
     returnsE (BS_Choose_Next bs bound) (chosen (BS_elems bs \<inter> {bound<..}))"
  unfolding BS_Choose_Next_def BS_ok_def using one.choose_above [of bs bound] by simp

lemma min_word_count:
  assumes "BS_ok set1" "BS_ok set2"
  shows "(if BS_word_count set1 < BS_word_count set2 then BS_word_count set1 else BS_word_count set2)
     = int (min (length (BS_words set1)) (length (BS_words set2)))"
    "int (min (length (BS_words set1)) (length (BS_words set2))) < 2 ^ 26"
  using assms by (auto simp: BS_ok_def)

text \<open>\<^verbatim>\<open>BS_Choose_Range\<close>: the loops after the first byte.\<close>

lemma BS_Choose_Range_words:
  assumes "0 \<le> a" "b \<le> int (length (BS_words bs))" "int (length (BS_words bs)) < 2 ^ 26" "a \<le> b"
  shows "returnsE (search_loop a b (\<lambda>i. bindE (BS_word bs i) (\<lambda>w.
               if w \<noteq> bs_ZEROS then
                 search_loop 0 4 (\<lambda>j. bindE (BS_byte bs (j + i * 4)) (\<lambda>byte.
                   Inr (bs_found byte (bs_PBPB j + bs_PBPW i))))
               else Inr None)))
           (least_in (BS_elems bs) (32 * a) (32 * b))"
proof (rule search_loop_least [where p = "\<lambda>i. 32 * i"])
  fix i
  assume i: "a \<le> i" "i < b"
  have "returnsE (search_loop 0 4 (\<lambda>j. bindE (BS_byte bs (j + i * 4)) (\<lambda>byte.
                   Inr (bs_found byte (bs_PBPB j + bs_PBPW i)))))
      (least_in (BS_elems bs) (32 * i) (32 * i + 32))"
    using one.bytes_search [of 0 "i * 4" 4 bs "\<lambda>j. bs_PBPB j + bs_PBPW i"] assms i
    by (simp add: bs_index algebra_simps)
  with one.word_or_skip [of i bs] assms i
  show "returnsE (bindE (BS_word bs i) (\<lambda>w.
               if w \<noteq> bs_ZEROS then
                 search_loop 0 4 (\<lambda>j. bindE (BS_byte bs (j + i * 4)) (\<lambda>byte.
                   Inr (bs_found byte (bs_PBPB j + bs_PBPW i))))
               else Inr None)) (least_in (BS_elems bs) (32 * i) (32 * (i + 1)))"
    by (simp add: algebra_simps)
qed (use assms in auto)

lemma BS_Choose_Range_bytes:
  assumes "0 \<le> a" "a \<le> b" "b \<le> 4 * int (length (BS_words bs))" "int (length (BS_words bs)) < 2 ^ 26"
    and "\<And>i. a \<le> i \<Longrightarrow> i < b \<Longrightarrow> base i = 8 * i"
  shows "returnsE (search_loop a b (\<lambda>i. bindE (BS_byte bs i) (\<lambda>byte. Inr (bs_found byte (base i)))))
           (least_in (BS_elems bs) (8 * a) (8 * b))"
  using one.bytes_search [of a 0 b bs base] assms by simp

lemma BS_Choose_Range_rest:
  assumes low: "0 \<le> low" and h: "h < 32 * int (length (BS_words bs))"
    and small: "int (length (BS_words bs)) < 2 ^ 26" and bytes: "low div 8 < h div 8"
    and tail: "returnsE tail (least_in (BS_elems bs) (8 * (h div 8)) (h + 1))"
  shows "returnsE (or_elseE
            (search_loop (low div 8 + 1) (min ((low div 32 + 1) * 4) (h div 8)) (\<lambda>i.
               bindE (BS_byte bs i) (\<lambda>byte. Inr (bs_found byte (bs_PBPB i)))))
          (or_elseE
            (search_loop (low div 32 + 1) (h div 32) (\<lambda>i. bindE (BS_word bs i) (\<lambda>w.
               if w \<noteq> bs_ZEROS then
                 search_loop 0 4 (\<lambda>j. bindE (BS_byte bs (j + i * 4)) (\<lambda>byte.
                   Inr (bs_found byte (bs_PBPB j + bs_PBPW i))))
               else Inr None)))
          (or_elseE
            (search_loop (max (low div 32 + 1) (h div 32) * 4) (h div 8) (\<lambda>i.
               bindE (BS_byte bs i) (\<lambda>byte. Inr (bs_found byte (8 * i)))))
            tail)))
         (least_in (BS_elems bs) (8 * (low div 8) + 8) (h + 1))"
proof -
  obtain fb lb fw lw where q: "low div 8 = fb" "h div 8 = lb" "low div 32 = fw" "h div 32 = lw" by blast
  define n where "n = int (length (BS_words bs))"
  have pos: "0 \<le> fb" "0 \<le> fw" using low q by auto
  have rel: "fb + 1 \<le> (fw + 1) * 4" "lb + 1 \<le> (lw + 1) * 4" "lw * 4 \<le> lb" "fw * 4 \<le> fb"
    using byte_below_next_word [of low] byte_below_next_word [of h] byte_above_word [of h]
      byte_above_word [of low] q by simp_all
  have top: "lb < 4 * n" "8 * lb \<le> h + 1" "lw < n"
    using h byte_interval [of h] q by (auto simp: n_def)
  have lt: "fb < lb" using bytes q by simp
  have base: "bs_PBPB i = 8 * i" if "0 \<le> i" "i < lb" for i
    using that top small by (simp add: bs_index n_def)
  note facts = pos rel top lt small base tail q
  show ?thesis
  proof (cases "fw < lw")
    case False
    with rel lt have "min ((fw + 1) * 4) lb = lb" "lw \<le> fw + 1" "lb \<le> max (fw + 1) lw * 4" by auto
    moreover have "returnsE (search_loop (fb + 1) lb (\<lambda>i.
               bindE (BS_byte bs i) (\<lambda>byte. Inr (bs_found byte (bs_PBPB i)))))
          (least_in (BS_elems bs) (8 * (fb + 1)) (8 * lb))"
      using facts by (intro BS_Choose_Range_bytes) (auto simp: n_def)
    ultimately show ?thesis
      unfolding q using facts by (auto intro: returnsE_least_then [where mid = "8 * lb"])
  next
    case True
    with rel have eqs: "min ((fw + 1) * 4) lb = (fw + 1) * 4" "max (fw + 1) lw = lw" by auto
    have b1: "returnsE (search_loop (fb + 1) ((fw + 1) * 4) (\<lambda>i.
               bindE (BS_byte bs i) (\<lambda>byte. Inr (bs_found byte (bs_PBPB i)))))
          (least_in (BS_elems bs) (8 * (fb + 1)) (8 * ((fw + 1) * 4)))"
      using facts True by (intro BS_Choose_Range_bytes) (auto simp: n_def)
    have b2: "returnsE (search_loop (lw * 4) lb (\<lambda>i.
               bindE (BS_byte bs i) (\<lambda>byte. Inr (bs_found byte (8 * i)))))
          (least_in (BS_elems bs) (8 * (lw * 4)) (8 * lb))"
      using facts True by (intro BS_Choose_Range_bytes) (auto simp: n_def)
    note w = BS_Choose_Range_words [of "fw + 1" lw bs]
    have bits: "8 * ((fw + 1) * 4) = 32 * (fw + 1)" "8 * (lw * 4) = 32 * lw" by simp_all
    show ?thesis
      unfolding q eqs
      by (rule returnsE_least_then [OF _ returnsE_least_then [OF w returnsE_least_then [OF b2 [unfolded bits]]]])
        (use b1 [unfolded bits] facts True in \<open>auto simp: algebra_simps n_def\<close>)
  qed
qed

lemma BS_Choose_Range_spec:
  assumes ok: "BS_ok bs" and range: "0 \<le> low" "low \<le> high + 1" "high < 2 ^ 31"
  shows "returnsE (BS_Choose_Range bs low high) (chosen (BS_elems bs \<inter> {low..high}))"
proof -
  define n where "n = int (length (BS_words bs))"
  have n: "BS_word_count bs = n" "0 \<le> n" "n < 2 ^ 26" using ok by (simp_all add: BS_ok_def n_def)
  define h where "h = (if high > n * 32 - 1 then n * 32 - 1 else high)"
  have h: "h < 32 * n" "h < 2 ^ 31" "h \<le> high" using n range by (auto simp: h_def)
  have S: "BS_elems bs \<inter> {low..high} = BS_elems bs \<inter> {low..<h + 1}"
    using BS_elems_bound [of _ bs] by (force simp: h_def n_def)
  have size: "INT32 (bs_PBPW n - 1) = n * 32 - 1" "- 1 \<le> INT32 (high - low)"
    using n range by (simp_all add: INT32_id bs_index)
  show ?thesis
  proof (cases "low \<le> h")
    case False
    then show ?thesis
      using range size by (simp add: BS_Choose_Range_def n Let_def flip: h_def) (simp add: S chosen_def)
  next
    case True
    have idx: "bs_QBPB low = low div 8" "bs_QBPB h = h div 8" "bs_QBPW low = low div 32" "bs_QBPW h = h div 32"
      "bs_PBPB (low div 8) = 8 * (low div 8)" "bs_PBPB (h div 8) = 8 * (h div 8)"
      using range True h by (simp_all add: bs_index)
    have full: "INT32 ((low div 32 + 1) * 4 - 1) = (low div 32 + 1) * 4 - 1"
      "INT32 (max (low div 32 + 1) (h div 32) * 4) = max (low div 32 + 1) (h div 32) * 4"
      using range True h by (auto simp: INT32_id max_def)
    have stop: "(if (low div 32 + 1) * 4 - 1 \<ge> h div 8 then h div 8 - 1 else (low div 32 + 1) * 4 - 1) + 1
        = min ((low div 32 + 1) * 4) (h div 8)"
      by (simp add: min_def)
    have here: "0 \<le> low div 8" "low div 8 < 4 * n" "0 \<le> h div 8" "h div 8 < 4 * n"
      using range True h(1) by auto
    note low_byte = one.byte_at [OF here(1,2) [unfolded n_def]]
      and high_byte = one.byte_at [OF here(3,4) [unfolded n_def]]
    have low31: "low < 2 ^ 31" "0 \<le> h" using True h(2) range(1) by linarith+
    note start = range(1) size(2) not_less [THEN iffD2, OF True] Is_True_holds bindE_Inr if_False if_True
    show ?thesis
    proof (cases "low div 8 = h div 8")
      case same: True
      show ?thesis
        unfolding BS_Choose_Range_def n Let_def size(1) h_def [symmetric] idx bs_RBPB_id S
      proof (simp only: start same [symmetric] simp_thms not_found_failure returnsE_bindE,
          rule returnsE_mono [OF low_byte])
        fix b :: BS_BYTE
        assume b: "\<forall>k. bit b k \<longleftrightarrow> k < 8 \<and> 8 * (low div 8) + int k \<in> BS_elems bs"
        show "returnsE (bs_or_failure (Inr (bs_found ((b AND ucast (push_bit (nat (low mod 8)) bs_ONES))
            AND ucast (drop_bit (nat (32 - 1 - h mod 8)) bs_ONES)) (8 * (low div 8)))))
          (chosen (BS_elems bs \<inter> {low..<h + 1}))"
          using masked_byte_least_both [OF b range(1) low31(1) refl True same [symmetric]]
          by (intro bs_or_failure_chosen [OF _ refl]) (simp only: returnsE_Inr)
      qed
    next
      case other: False
      have lt: "low div 8 < h div 8" using other zdiv_mono1 [OF True, of 8] by simp
      have tail: "returnsE (bindE (BS_byte bs (h div 8)) (\<lambda>byte. Inr (bs_found
            (byte AND ucast (drop_bit (nat (32 - 1 - h mod 8)) bs_ONES)) (8 * (h div 8)))))
          (least_in (BS_elems bs) (8 * (h div 8)) (h + 1))"
        unfolding returnsE_bindE
        by (rule returnsE_mono [OF high_byte])
          (simp only: returnsE_Inr, erule masked_byte_least_upto [OF _ low31(2) h(2) refl])
      note rest = BS_Choose_Range_rest [OF range(1) h(1) [unfolded n_def] n(3) [unfolded n_def] lt tail]
      show ?thesis
        unfolding BS_Choose_Range_def n Let_def size(1) h_def [symmetric] idx bs_RBPB_id S full stop
      proof (simp only: start other simp_thms bs_found_or returnsE_bindE,
          rule returnsE_mono [OF low_byte], rule bs_or_failure_chosen [OF returnsE_least_then [OF _ rest] refl])
        fix b :: BS_BYTE
        assume b: "\<forall>k. bit b k \<longleftrightarrow> k < 8 \<and> 8 * (low div 8) + int k \<in> BS_elems bs"
        show "returnsE (Inr (bs_found (b AND ucast (push_bit (nat (low mod 8)) bs_ONES)) (8 * (low div 8))))
            (least_in (BS_elems bs) low (8 * (low div 8) + 8))"
          using masked_byte_least [OF b range(1) low31(1) refl] by (simp only: returnsE_Inr)
      qed (use byte_interval [of low] byte_interval [of h] lt in auto)
    qed
  qed
qed

lemma BS_Intersection_Choose_spec:
  assumes "BS_ok set1" "BS_ok set2"
  shows "returnsE (BS_Intersection_Choose set1 set2) (chosen (BS_elems set1 \<inter> BS_elems set2))"
  unfolding BS_Intersection_Choose_def min_word_count(1) [OF assms] Let_def
  using two.choose_least [of "(set1, set2)"] min_word_count(2) [OF assms] by simp

lemma BS_Intersection_Choose_Next_spec:
  assumes "BS_ok set1" "BS_ok set2" "- 1 \<le> bound" "bound < 2 ^ 31 - 1"
  shows "returnsE (BS_Intersection_Choose_Next set1 set2 bound)
           (chosen (BS_elems set1 \<inter> BS_elems set2 \<inter> {bound<..}))"
  unfolding BS_Intersection_Choose_Next_def min_word_count(1) [OF assms(1,2)] Let_def
  using two.choose_above [of "(set1, set2)" bound] min_word_count(2) [OF assms(1,2)] assms(3,4) by simp

end
