(* ===== verification/Bitset_Ops.thy ===== *)
theory Bitset_Ops
  imports Bitset_Choose
begin

text \<open>
  The set operations of \<^verbatim>\<open>src/src/common/util/bitset.c\<close>: difference, intersection, union, adding
  and removing one element, and the number of elements.  The operations whose name ends in \<^verbatim>\<open>D\<close>
  replace their first argument, those that end in \<^verbatim>\<open>R\<close> write into a separate result.
\<close>

section \<open>Operations\<close>

definition BS_Difference :: "BS \<Rightarrow> BS \<Rightarrow> BS_WORD MEM_POOL \<Rightarrow> BS outcome" where
  "BS_Difference set1 set2 pool =
     (let size1 = INT32 (BS_word_count set1); size2 = INT32 (BS_word_count set2);
          minsize = min size1 size2 in
      bindE (bs_Malloc (SIZE_T size1) pool) (\<lambda>bs.
      bindE (for_loop 0 minsize (\<lambda>i s.
               bindE (BS_word set1 i) (\<lambda>w1. bindE (BS_word set2 i) (\<lambda>w2.
               BS_set_word s i (w1 AND NOT w2)))) bs) (\<lambda>bs.
      for_loop minsize size1 (\<lambda>i s. bindE (BS_word set1 i) (BS_set_word s i)) bs)))"

definition BS_DifferenceD :: "BS \<Rightarrow> BS \<Rightarrow> BS outcome" where
  "BS_DifferenceD set1 set2 =
     (let minsize = INT32 (min (BS_word_count set1) (BS_word_count set2)) in
      for_loop 0 minsize (\<lambda>i s.
        bindE (BS_word s i) (\<lambda>w1. bindE (BS_word set2 i) (\<lambda>w2.
        BS_set_word s i (w1 AND NOT w2)))) set1)"

definition BS_Difference1D :: "BS \<Rightarrow> BS_ELT \<Rightarrow> BS outcome" where
  "BS_Difference1D bs x =
     bindE (Is_True (x \<ge> 0) ''BS_Difference1D called with negative element.'') (\<lambda>_.
     if bs_QBPW x < BS_word_count bs
     then bindE (BS_byte bs (bs_QBPB x)) (\<lambda>byte.
          BS_set_byte bs (bs_QBPB x) (byte AND ucast (NOT (push_bit (nat (bs_RBPB x)) bs_ONE))))
     else Inr bs)"

definition BS_Difference1 :: "BS \<Rightarrow> BS_ELT \<Rightarrow> BS_WORD MEM_POOL \<Rightarrow> BS outcome" where
  "BS_Difference1 bs x pool = bindE (BS_Copy bs pool) (\<lambda>copy. BS_Difference1D copy x)"

definition BS_Intersection :: "BS \<Rightarrow> BS \<Rightarrow> BS_WORD MEM_POOL \<Rightarrow> BS outcome" where
  "BS_Intersection set1 set2 pool =
     (let sz = INT32 (if BS_word_count set1 < BS_word_count set2 then BS_word_count set1
                      else BS_word_count set2) in
      bindE (bs_Malloc (SIZE_T sz) pool) (\<lambda>newset.
      for_loop 0 sz (\<lambda>i s.
        bindE (BS_word set1 i) (\<lambda>w1. bindE (BS_word set2 i) (\<lambda>w2.
        BS_set_word s i (w1 AND w2)))) newset))"

text \<open>The second loop starts where the first ended, at \<open>minsize\<close>.\<close>

definition BS_IntersectionD :: "BS \<Rightarrow> BS \<Rightarrow> BS outcome" where
  "BS_IntersectionD set1 set2 =
     (let minsize = INT32 (min (BS_word_count set1) (BS_word_count set2)) in
      bindE (for_loop 0 minsize (\<lambda>i s.
               bindE (BS_word s i) (\<lambda>w1. bindE (BS_word set2 i) (\<lambda>w2.
               BS_set_word s i (w1 AND w2)))) set1) (\<lambda>set1.
      for_loop minsize (BS_word_count set1) (\<lambda>i s. BS_set_word s i bs_ZEROS) set1))"

definition BS_IntersectionR :: "BS \<Rightarrow> BS \<Rightarrow> BS \<Rightarrow> BS outcome" where
  "BS_IntersectionR result set1 set2 =
     (let minsize = INT32 (min (BS_word_count set1) (BS_word_count set2)) in
      bindE (for_loop 0 minsize (\<lambda>i s.
               bindE (BS_word set1 i) (\<lambda>w1. bindE (BS_word set2 i) (\<lambda>w2.
               BS_set_word s i (w1 AND w2)))) result) (\<lambda>result.
      for_loop minsize (BS_word_count result) (\<lambda>i s. BS_set_word s i bs_ZEROS) result))"

definition bit_count :: "nat list" where
  "bit_count = [
    0, 1, 1, 2, 1, 2, 2, 3, 1, 2, 2, 3, 2, 3, 3, 4,
    1, 2, 2, 3, 2, 3, 3, 4, 2, 3, 3, 4, 3, 4, 4, 5,
    1, 2, 2, 3, 2, 3, 3, 4, 2, 3, 3, 4, 3, 4, 4, 5,
    2, 3, 3, 4, 3, 4, 4, 5, 3, 4, 4, 5, 4, 5, 5, 6,
    1, 2, 2, 3, 2, 3, 3, 4, 2, 3, 3, 4, 3, 4, 4, 5,
    2, 3, 3, 4, 3, 4, 4, 5, 3, 4, 4, 5, 4, 5, 5, 6,
    2, 3, 3, 4, 3, 4, 4, 5, 3, 4, 4, 5, 4, 5, 5, 6,
    3, 4, 4, 5, 4, 5, 5, 6, 4, 5, 5, 6, 5, 6, 6, 7,
    1, 2, 2, 3, 2, 3, 3, 4, 2, 3, 3, 4, 3, 4, 4, 5,
    2, 3, 3, 4, 3, 4, 4, 5, 3, 4, 4, 5, 4, 5, 5, 6,
    2, 3, 3, 4, 3, 4, 4, 5, 3, 4, 4, 5, 4, 5, 5, 6,
    3, 4, 4, 5, 4, 5, 5, 6, 4, 5, 5, 6, 5, 6, 6, 7,
    2, 3, 3, 4, 3, 4, 4, 5, 3, 4, 4, 5, 4, 5, 5, 6,
    3, 4, 4, 5, 4, 5, 5, 6, 4, 5, 5, 6, 5, 6, 6, 7,
    3, 4, 4, 5, 4, 5, 5, 6, 4, 5, 5, 6, 5, 6, 6, 7,
    4, 5, 5, 6, 5, 6, 6, 7, 5, 6, 6, 7, 6, 7, 7, 8]"

definition BS_Size :: "BS \<Rightarrow> BS_ELT outcome" where
  "BS_Size bs =
     (let byte_count = INT32 (SIZE_T (BS_word_count bs * 4)) in
      bindE (for_loop 0 byte_count (\<lambda>i result.
               bindE (BS_byte bs i) (\<lambda>byte. Inr (SIZE_T (result + int (bit_count ! unat byte))))) 0)
        (\<lambda>result. Inr (INT32 result)))"

definition BS_Union :: "BS \<Rightarrow> BS \<Rightarrow> BS_WORD MEM_POOL \<Rightarrow> BS outcome" where
  "BS_Union set1 set2 pool =
     (let size1 = INT32 (BS_word_count set1); size2 = INT32 (BS_word_count set2);
          (set1, set2, size1, size2) =
            (if size1 < size2 then (set2, set1, size2, size1) else (set1, set2, size1, size2)) in
      bindE (bs_Malloc (SIZE_T size1) pool) (\<lambda>bs.
      bindE (for_loop 0 size2 (\<lambda>i s.
               bindE (BS_word set1 i) (\<lambda>w1. bindE (BS_word set2 i) (\<lambda>w2.
               BS_set_word s i (w1 OR w2)))) bs) (\<lambda>bs.
      for_loop size2 size1 (\<lambda>i s. bindE (BS_word set1 i) (BS_set_word s i)) bs)))"

definition BS_UnionD :: "BS \<Rightarrow> BS \<Rightarrow> BS_WORD MEM_POOL \<Rightarrow> BS outcome" where
  "BS_UnionD set1 set2 pool =
     (let size1 = INT32 (BS_word_count set1); size2 = INT32 (BS_word_count set2) in
      bindE (if size1 < size2 then bs_Realloc set1 (SIZE_T size2) pool else Inr set1) (\<lambda>set1.
      for_loop 0 size2 (\<lambda>i s.
        bindE (BS_word s i) (\<lambda>w1. bindE (BS_word set2 i) (\<lambda>w2.
        BS_set_word s i (w1 OR w2)))) set1))"

definition BS_UnionR :: "BS \<Rightarrow> BS \<Rightarrow> BS \<Rightarrow> BS_WORD MEM_POOL \<Rightarrow> BS outcome" where
  "BS_UnionR result set1 set2 pool =
     (let size1 = INT32 (BS_word_count set1); size2 = INT32 (BS_word_count set2);
          maxsize = max size1 size2; rsize = INT32 (BS_word_count result) in
      bindE (if rsize < maxsize then bs_Realloc result (SIZE_T maxsize) pool else Inr result) (\<lambda>result.
      for_loop 0 maxsize (\<lambda>i s.
        bindE (BS_word set1 i) (\<lambda>w1. bindE (BS_word set2 i) (\<lambda>w2.
        BS_set_word s i (w1 OR w2)))) result))"

definition BS_UnionD_Intersection :: "BS \<Rightarrow> BS \<Rightarrow> BS \<Rightarrow> BS_WORD MEM_POOL \<Rightarrow> BS outcome" where
  "BS_UnionD_Intersection set1 set2 set3 pool =
     (let size1 = INT32 (BS_word_count set1);
          minsize = INT32 (min (BS_word_count set2) (BS_word_count set3)) in
      bindE (if size1 < minsize then bs_Realloc set1 (SIZE_T minsize) pool else Inr set1) (\<lambda>set1.
      for_loop 0 minsize (\<lambda>i s.
        bindE (BS_word s i) (\<lambda>w1. bindE (BS_word set2 i) (\<lambda>w2. bindE (BS_word set3 i) (\<lambda>w3.
        BS_set_word s i (w1 OR (w2 AND w3)))))) set1))"

definition BS_Union1D :: "BS \<Rightarrow> BS_ELT \<Rightarrow> BS_WORD MEM_POOL \<Rightarrow> BS outcome" where
  "BS_Union1D bs x pool =
     (let minsize = bs_QBPW x + 1 in
      bindE (Is_True (x \<ge> 0) ''BS_Union1D called with negative element.'') (\<lambda>_.
      bindE (if minsize > BS_word_count bs then bs_Realloc bs (SIZE_T minsize) pool else Inr bs) (\<lambda>bs.
      bindE (BS_byte bs (bs_QBPB x)) (\<lambda>byte.
      BS_set_byte bs (bs_QBPB x) (byte OR ucast (push_bit (nat (bs_RBPB x)) bs_ONE))))))"

definition BS_Union1 :: "BS \<Rightarrow> BS_ELT \<Rightarrow> BS_WORD MEM_POOL \<Rightarrow> BS outcome" where
  "BS_Union1 bs x pool =
     (let newsize = (if BS_word_count bs > UINT32 (bs_QBPW x + 1) then bs_PBPW (BS_word_count bs)
                     else INT32 (x + 1)) in
      bindE (BS_Create_Empty newsize pool) (\<lambda>newset.
      bindE (BS_CopyD newset bs Bad_Pool) (\<lambda>newset.
      BS_Union1D newset x Bad_Pool)))"

section \<open>Loops that combine words\<close>

text \<open>Bits of the words of a set, read as membership.\<close>

lemma bit_word_member [simp]:
  "0 \<le> x \<Longrightarrow> x div 32 < int (length (BS_words bs)) \<Longrightarrow>
     bit (BS_words bs ! nat (x div 32)) (nat (x mod 32)) \<longleftrightarrow> x \<in> BS_elems bs"
  by (simp add: BS_elems_def word_elems_def)

lemma bit_NOT_member [simp]:
  "bit (NOT w) (nat (x mod 32)) \<longleftrightarrow> \<not> bit w (nat (x mod 32))" for w :: BS_WORD
  using nat_mod_numeral_less [of x "num.Bit0 (num.Bit0 (num.Bit0 (num.Bit0 (num.Bit0 num.One))))"]
  by (simp add: bit_not_iff)

lemma for_loop_words_elems:
  assumes body: "\<And>i t. lo \<le> i \<Longrightarrow> i < hi \<Longrightarrow> BS_word_count t = BS_word_count bs
      \<Longrightarrow> length (BS_words t) = length (BS_words bs)
      \<Longrightarrow> body i t = Inr (t\<lparr>BS_words := (BS_words t)[nat i := g i (BS_words t ! nat i)]\<rparr>)"
    and bounds: "0 \<le> lo" "hi \<le> int (length (BS_words bs))" "BS_ok bs"
  shows "returnsE (for_loop lo hi body bs) (\<lambda>r. BS_ok r \<and> BS_word_count r = BS_word_count bs
      \<and> (\<forall>x. x \<in> BS_elems r \<longleftrightarrow> 0 \<le> x \<and> x div 32 < BS_word_count bs \<and>
           (if lo \<le> x div 32 \<and> x div 32 < hi
            then bit (g (x div 32) (BS_words bs ! nat (x div 32))) (nat (x mod 32)) else x \<in> BS_elems bs)))"
  using bounds
  by (subst for_loop_words [OF body, of lo hi bs])
    (auto simp: BS_ok_def word_elems_map_words BS_elems_def)

lemma BS_elems_div_bound: "x \<in> BS_elems bs \<Longrightarrow> 0 \<le> x \<and> x div 32 < int (length (BS_words bs))"
  by (auto simp: BS_elems_def word_elems_def)

lemma for_loop_words_is:
  assumes "\<And>i t. lo \<le> i \<Longrightarrow> i < hi \<Longrightarrow> BS_word_count t = BS_word_count bs
      \<Longrightarrow> length (BS_words t) = length (BS_words bs)
      \<Longrightarrow> body i t = Inr (t\<lparr>BS_words := (BS_words t)[nat i := g i (BS_words t ! nat i)]\<rparr>)"
    and "0 \<le> lo" "hi \<le> int (length (BS_words bs))" "BS_ok bs"
    and S: "\<And>x. 0 \<le> x \<Longrightarrow> x div 32 < int (length (BS_words bs)) \<Longrightarrow>
        x \<in> S \<longleftrightarrow> (if lo \<le> x div 32 \<and> x div 32 < hi
          then bit (g (x div 32) (BS_words bs ! nat (x div 32))) (nat (x mod 32)) else x \<in> BS_elems bs)"
    and bound: "\<And>x. x \<in> S \<Longrightarrow> 0 \<le> x \<and> x div 32 < BS_word_count bs"
  shows "returnsE (for_loop lo hi body bs) (\<lambda>r. BS_is r S \<and> BS_word_count r = BS_word_count bs)"
  by (rule returnsE_mono [OF for_loop_words_elems [OF assms(1-4)]])
    (use S bound assms(4) in \<open>auto simp: BS_is_def BS_ok_count\<close>)

text \<open>The sizes that the operations compute, and the step that grows their result.\<close>

lemma BS_ok_sizes:
  assumes "BS_ok bs"
  shows "INT32 (BS_word_count bs) = BS_word_count bs" "SIZE_T (BS_word_count bs) = BS_word_count bs"
    "0 \<le> BS_word_count bs"
    "INT32 (int (length (BS_words bs))) = int (length (BS_words bs))"
    "SIZE_T (int (length (BS_words bs))) = int (length (BS_words bs))"
  using assms by (simp_all add: BS_ok_def INT32_id SIZE_T_id)

lemma bs_Malloc_ok:
  assumes "BS_ok bs" "pool \<noteq> Bad_Pool"
  shows "returnsE (bs_Malloc (BS_word_count bs) pool) (\<lambda>r. BS_ok r \<and> BS_word_count r = BS_word_count bs)"
  using assms by (simp add: bs_Malloc_spec BS_ok_def)

lemma BS_enlarge_is:
  assumes "BS_ok bs" "pool \<noteq> Bad_Pool \<or> n \<le> BS_word_count bs" "0 \<le> n" "n \<le> 2 ^ 25"
  shows "returnsE (if BS_word_count bs < n then bs_Realloc bs (SIZE_T n) pool else Inr bs)
           (\<lambda>r. BS_is r (BS_elems bs) \<and> n \<le> BS_word_count r \<and> BS_word_count bs \<le> BS_word_count r)"
  using assms bs_Realloc_is [of bs pool n] by (auto simp: BS_is_def SIZE_T_id)

lemma not_member_above [simp]:
  "int (length (BS_words bs)) \<le> x div 32 \<Longrightarrow> x \<notin> BS_elems bs"
  by (auto dest: BS_elems_div_bound)

lemmas word_loop = bit_and_iff bit_or_iff BS_ok_count BS_ok_sizes

section \<open>Difference and intersection\<close>

lemma BS_DifferenceD_spec:
  assumes "BS_ok set1" "BS_ok set2"
  shows "returnsE (BS_DifferenceD set1 set2)
           (\<lambda>r. BS_is r (BS_elems set1 - BS_elems set2) \<and> BS_word_count r = BS_word_count set1)"
proof -
  have m: "INT32 (min (BS_word_count set1) (BS_word_count set2)) = min (BS_word_count set1) (BS_word_count set2)"
    using assms by (simp add: min_def BS_ok_sizes)
  show ?thesis
    unfolding BS_DifferenceD_def Let_def m
  proof (rule for_loop_words_is [where g = "\<lambda>i w. w AND NOT (BS_words set2 ! nat i)"])
    fix x
    assume "0 \<le> x" "x div 32 < int (length (BS_words set1))"
    with assms show "x \<in> BS_elems set1 - BS_elems set2 \<longleftrightarrow>
        (if 0 \<le> x div 32 \<and> x div 32 < min (BS_word_count set1) (BS_word_count set2)
         then bit (BS_words set1 ! nat (x div 32) AND NOT (BS_words set2 ! nat (x div 32))) (nat (x mod 32))
         else x \<in> BS_elems set1)"
      by (auto simp: word_loop not_less)
  qed (use assms in \<open>auto simp: word_loop dest: BS_elems_div_bound\<close>)
qed

lemma BS_Difference_spec:
  assumes ok: "BS_ok set1" "BS_ok set2" and pool: "pool \<noteq> Bad_Pool"
  shows "returnsE (BS_Difference set1 set2 pool) (\<lambda>r. BS_is r (BS_elems set1 - BS_elems set2))"
proof -
  define m where "m = min (BS_word_count set1) (BS_word_count set2)"
  have m: "0 \<le> m" "m \<le> BS_word_count set1" "m \<le> BS_word_count set2"
    using ok by (auto simp: m_def BS_ok_sizes)
  obtain t where t: "bs_Malloc (BS_word_count set1) pool = Inr t" "BS_ok t" "BS_word_count t = BS_word_count set1"
    by (rule returnsE_E [OF bs_Malloc_ok [OF ok(1) pool]]) (use that in blast)
  have l: "length (BS_words t) = length (BS_words set1)"
    using t ok by (simp add: BS_ok_def)
  let ?w1 = "\<lambda>x. BS_words set1 ! nat x" and ?w2 = "\<lambda>x. BS_words set2 ! nat x"
  let ?u = "t\<lparr>BS_words := map_words 0 m (\<lambda>i _. ?w1 i AND NOT (?w2 i)) (BS_words t)\<rparr>"
  have "for_loop 0 m (\<lambda>i s. bindE (BS_word set1 i) (\<lambda>w1. bindE (BS_word set2 i) (\<lambda>w2.
          BS_set_word s i (w1 AND NOT w2)))) t = Inr ?u"
    using m ok t(3) l by (intro for_loop_words) (simp_all add: BS_ok_count)
  moreover have "returnsE (for_loop m (BS_word_count set1) (\<lambda>i s. bindE (BS_word set1 i) (BS_set_word s i)) ?u)
      (\<lambda>r. BS_is r (BS_elems set1 - BS_elems set2) \<and> BS_word_count r = BS_word_count ?u)"
  proof (rule for_loop_words_is [where g = "\<lambda>i _. ?w1 i"])
    fix x
    assume "0 \<le> x" "x div 32 < int (length (BS_words ?u))"
    with ok l show "x \<in> BS_elems set1 - BS_elems set2 \<longleftrightarrow>
        (if m \<le> x div 32 \<and> x div 32 < BS_word_count set1
         then bit (?w1 (x div 32)) (nat (x mod 32)) else x \<in> BS_elems ?u)"
      using m by (auto simp: word_loop word_elems_map_words not_less not_le m_def min_le_iff_disj)
  next
    show "BS_ok ?u" using t(2) by (simp add: BS_ok_def)
  qed (use m(1) ok t(3) l in \<open>auto simp: BS_ok_count dest: BS_elems_div_bound\<close>)
  ultimately show ?thesis
    using ok by (simp add: BS_Difference_def Let_def BS_ok_sizes t(1) flip: m_def)
      (auto elim: returnsE_mono)
qed

lemma BS_Intersection_spec:
  assumes ok: "BS_ok set1" "BS_ok set2" and pool: "pool \<noteq> Bad_Pool"
  shows "returnsE (BS_Intersection set1 set2 pool) (\<lambda>r. BS_is r (BS_elems set1 \<inter> BS_elems set2))"
proof -
  define m where "m = int (min (length (BS_words set1)) (length (BS_words set2)))"
  have m: "INT32 m = m" "SIZE_T m = m" "0 \<le> m" "m < 2 ^ 26"
    using min_word_count(2) [OF ok] by (simp_all add: m_def INT32_id SIZE_T_id)
  let ?t = "\<lparr>BS_word_count = m, BS_words = pool_memory 0 pool 1 (nat m)\<rparr>"
  have "returnsE (for_loop 0 m (\<lambda>i s. bindE (BS_word set1 i) (\<lambda>w1. bindE (BS_word set2 i) (\<lambda>w2.
        BS_set_word s i (w1 AND w2)))) ?t)
      (\<lambda>r. BS_is r (BS_elems set1 \<inter> BS_elems set2) \<and> BS_word_count r = BS_word_count ?t)"
  proof (rule for_loop_words_is [where g = "\<lambda>i _. BS_words set1 ! nat i AND BS_words set2 ! nat i"])
    show "BS_ok ?t" using m by (simp add: BS_ok_def)
  qed (use m(3) in \<open>auto simp: bit_and_iff m_def of_nat_min dest!: BS_elems_div_bound\<close>)
  with m pool show ?thesis
    by (simp add: BS_Intersection_def Let_def min_word_count(1) [OF ok] bs_Malloc_spec flip: m_def)
      (auto elim: returnsE_mono)
qed

lemma BS_IntersectionR_spec:
  assumes ok: "BS_ok result" "BS_ok set1" "BS_ok set2"
    and room: "min (BS_word_count set1) (BS_word_count set2) \<le> BS_word_count result"
  shows "returnsE (BS_IntersectionR result set1 set2) (\<lambda>r. BS_is r (BS_elems set1 \<inter> BS_elems set2))"
proof -
  define m where "m = min (BS_word_count set1) (BS_word_count set2)"
  have m: "INT32 m = m" "0 \<le> m" "m \<le> int (length (BS_words result))" "m \<le> int (length (BS_words set1))"
    "m \<le> int (length (BS_words set2))" "m = int (length (BS_words set1)) \<or> m = int (length (BS_words set2))"
    using ok room by (auto simp: m_def min_def BS_ok_sizes BS_ok_count)
  let ?t = "result\<lparr>BS_words := map_words 0 m (\<lambda>i _. BS_words set1 ! nat i AND BS_words set2 ! nat i)
              (BS_words result)\<rparr>"
  have first: "for_loop 0 m (\<lambda>i s. bindE (BS_word set1 i) (\<lambda>w1. bindE (BS_word set2 i) (\<lambda>w2.
        BS_set_word s i (w1 AND w2)))) result = Inr ?t"
    using m by (intro for_loop_words) simp_all
  have "returnsE (for_loop m (BS_word_count ?t) (\<lambda>i s. BS_set_word s i bs_ZEROS) ?t)
      (\<lambda>r. BS_is r (BS_elems set1 \<inter> BS_elems set2) \<and> BS_word_count r = BS_word_count ?t)"
  proof (rule for_loop_words_is [where g = "\<lambda>_ _. 0"])
    show "BS_ok ?t" using ok(1) by (simp add: BS_ok_def)
  next
    fix x
    assume "0 \<le> x" "x div 32 < int (length (BS_words ?t))"
    with m ok(1) show "x \<in> BS_elems set1 \<inter> BS_elems set2 \<longleftrightarrow>
        (if m \<le> x div 32 \<and> x div 32 < BS_word_count ?t then bit (0 :: BS_WORD) (nat (x mod 32))
         else x \<in> BS_elems ?t)"
      by (auto simp: BS_ok_count word_elems_map_words bit_and_iff)
  qed (use m ok(1) in \<open>auto simp: BS_ok_count dest: BS_elems_div_bound\<close>)
  then show ?thesis
    unfolding BS_IntersectionR_def Let_def m_def [symmetric] m(1) first bindE_Inr by (elim returnsE_mono) simp
qed

lemma BS_IntersectionD_spec:
  assumes "BS_ok set1" "BS_ok set2"
  shows "returnsE (BS_IntersectionD set1 set2) (\<lambda>r. BS_is r (BS_elems set1 \<inter> BS_elems set2))"
proof -
  define m where "m = INT32 (min (BS_word_count set1) (BS_word_count set2))"
  have m: "m \<le> int (length (BS_words set1))" "m \<le> int (length (BS_words set2))"
    using assms by (auto simp: m_def min_def BS_ok_sizes BS_ok_count)
  have "for_loop 0 m (\<lambda>i s. bindE (BS_word s i) (\<lambda>w1. bindE (BS_word set2 i) (\<lambda>w2.
          BS_set_word s i (w1 AND w2)))) set1
      = for_loop 0 m (\<lambda>i s. bindE (BS_word set1 i) (\<lambda>w1. bindE (BS_word set2 i) (\<lambda>w2.
          BS_set_word s i (w1 AND w2)))) set1"
  proof -
    have "map_words 0 m (\<lambda>i w. w AND BS_words set2 ! nat i) (BS_words set1)
        = map_words 0 m (\<lambda>i _. BS_words set1 ! nat i AND BS_words set2 ! nat i) (BS_words set1)"
      by (rule nth_equalityI) (simp_all add: nth_map_words)
    moreover have "for_loop 0 m (\<lambda>i s. bindE (BS_word s i) (\<lambda>w1. bindE (BS_word set2 i) (\<lambda>w2.
          BS_set_word s i (w1 AND w2)))) set1
      = Inr (set1\<lparr>BS_words := map_words 0 m (\<lambda>i w. w AND BS_words set2 ! nat i) (BS_words set1)\<rparr>)"
      using m by (intro for_loop_words) simp_all
    moreover have "for_loop 0 m (\<lambda>i s. bindE (BS_word set1 i) (\<lambda>w1. bindE (BS_word set2 i) (\<lambda>w2.
          BS_set_word s i (w1 AND w2)))) set1
      = Inr (set1\<lparr>BS_words := map_words 0 m (\<lambda>i _. BS_words set1 ! nat i AND BS_words set2 ! nat i)
          (BS_words set1)\<rparr>)"
      using m by (intro for_loop_words) simp_all
    ultimately show ?thesis by simp
  qed
  then have "BS_IntersectionD set1 set2 = BS_IntersectionR set1 set1 set2"
    by (simp add: BS_IntersectionD_def BS_IntersectionR_def Let_def flip: m_def)
  with BS_IntersectionR_spec [of set1 set1 set2] assms show ?thesis by simp
qed

section \<open>Union\<close>

text \<open>
  The shape of the operations that grow their result to \<open>n\<close> words and then replace those words:
  \<open>G x b\<close> says whether \<open>x\<close> is in the new set when \<open>b\<close> says whether it was in the old one.
\<close>

lemma enlarge_loop_is:
  assumes ok: "BS_ok bs" and pool: "pool \<noteq> Bad_Pool \<or> n \<le> BS_word_count bs" and n: "0 \<le> n" "n \<le> 2 ^ 25"
    and body: "\<And>i t. 0 \<le> i \<Longrightarrow> i < n \<Longrightarrow> n \<le> int (length (BS_words t))
      \<Longrightarrow> body i t = Inr (t\<lparr>BS_words := (BS_words t)[nat i := g i (BS_words t ! nat i)]\<rparr>)"
    and g: "\<And>x w. 0 \<le> x \<Longrightarrow> x div 32 < n \<Longrightarrow>
        bit (g (x div 32) w) (nat (x mod 32)) \<longleftrightarrow> G x (bit w (nat (x mod 32)))"
  shows "returnsE (bindE (if BS_word_count bs < n then bs_Realloc bs (SIZE_T n) pool else Inr bs)
             (for_loop 0 n body))
           (\<lambda>r. BS_is r {x. 0 \<le> x \<and> (if x div 32 < n then G x (x \<in> BS_elems bs) else x \<in> BS_elems bs)}
              \<and> BS_word_count bs \<le> BS_word_count r)"
  unfolding returnsE_bindE
proof (rule returnsE_mono [OF BS_enlarge_is [OF ok pool n]])
  fix t
  assume "BS_is t (BS_elems bs) \<and> n \<le> BS_word_count t \<and> BS_word_count bs \<le> BS_word_count t"
  then have t: "BS_ok t" "BS_elems t = BS_elems bs" "n \<le> int (length (BS_words t))"
      "BS_word_count bs \<le> BS_word_count t" "n \<le> BS_word_count t"
    by (auto simp: BS_is_def BS_ok_count)
  have "returnsE (for_loop 0 n body t)
      (\<lambda>r. BS_is r {x. 0 \<le> x \<and> (if x div 32 < n then G x (x \<in> BS_elems bs) else x \<in> BS_elems bs)}
         \<and> BS_word_count r = BS_word_count t)"
    by (rule for_loop_words_is [where g = g])
      (use t g body in \<open>auto simp: BS_ok_count split: if_splits dest: BS_elems_div_bound\<close>)
  with t(4) show "returnsE (for_loop 0 n body t)
      (\<lambda>r. BS_is r {x. 0 \<le> x \<and> (if x div 32 < n then G x (x \<in> BS_elems bs) else x \<in> BS_elems bs)}
         \<and> BS_word_count bs \<le> BS_word_count r)"
    by (elim returnsE_mono) simp
qed

text \<open>The sets that result: \<open>T\<close> is what the operands contribute, all of it in the first \<open>n\<close> words.\<close>

lemma div_below_word: "x div 32 < n \<longleftrightarrow> x < 32 * n" for x n :: int
  by linarith

lemma union_result:
  assumes "\<And>x. x \<in> T \<Longrightarrow> 0 \<le> x \<and> x div 32 < n"
  shows "{x. 0 \<le> x \<and> (if x div 32 < n then x \<in> BS_elems bs \<or> x \<in> T else x \<in> BS_elems bs)} = BS_elems bs \<union> T"
  using assms by (auto dest: BS_elems_nonneg)

lemma replace_result:
  assumes "\<And>x. x \<in> T \<Longrightarrow> 0 \<le> x \<and> x div 32 < n"
  shows "{x. 0 \<le> x \<and> (if x div 32 < n then x \<in> T else x \<in> BS_elems bs)}
     = T \<union> {x \<in> BS_elems bs. 32 * n \<le> x}"
proof (rule set_eqI)
  fix x
  show "x \<in> {x. 0 \<le> x \<and> (if x div 32 < n then x \<in> T else x \<in> BS_elems bs)}
      \<longleftrightarrow> x \<in> T \<union> {x \<in> BS_elems bs. 32 * n \<le> x}"
    using assms [of x] BS_elems_nonneg [of x bs] div_below_word [of x n]
    by (cases "x div 32 < n") auto
qed

lemma BS_UnionD_spec:
  assumes ok: "BS_ok set1" "BS_ok set2"
    and pool: "pool \<noteq> Bad_Pool \<or> BS_word_count set2 \<le> BS_word_count set1" and n: "BS_word_count set2 \<le> 2 ^ 25"
  shows "returnsE (BS_UnionD set1 set2 pool)
           (\<lambda>r. BS_is r (BS_elems set1 \<union> BS_elems set2) \<and> BS_word_count set1 \<le> BS_word_count r)"
proof -
  have S: "{x. 0 \<le> x \<and> (if x div 32 < BS_word_count set2 then x \<in> BS_elems set1 \<or> x \<in> BS_elems set2
      else x \<in> BS_elems set1)} = BS_elems set1 \<union> BS_elems set2"
    using ok by (intro union_result) (simp add: BS_ok_count BS_elems_div_bound)
  show ?thesis
    unfolding BS_UnionD_def Let_def BS_ok_sizes(1) [OF ok(1)] BS_ok_sizes(1) [OF ok(2)] S [symmetric]
    by (rule enlarge_loop_is [OF ok(1) pool BS_ok_sizes(3) [OF ok(2)] n,
          where g = "\<lambda>i w. w OR BS_words set2 ! nat i"])
      (use ok in \<open>simp_all add: bit_or_iff BS_ok_count\<close>)
qed

lemma BS_UnionD_Intersection_spec:
  assumes ok: "BS_ok set1" "BS_ok set2" "BS_ok set3"
    and pool: "pool \<noteq> Bad_Pool \<or> min (BS_word_count set2) (BS_word_count set3) \<le> BS_word_count set1"
    and n: "min (BS_word_count set2) (BS_word_count set3) \<le> 2 ^ 25"
  shows "returnsE (BS_UnionD_Intersection set1 set2 set3 pool)
           (\<lambda>r. BS_is r (BS_elems set1 \<union> (BS_elems set2 \<inter> BS_elems set3)) \<and> BS_word_count set1 \<le> BS_word_count r)"
proof -
  define m where "m = min (BS_word_count set2) (BS_word_count set3)"
  have m: "INT32 m = m" "0 \<le> m" "m \<le> int (length (BS_words set2))" "m \<le> int (length (BS_words set3))"
    "m = int (length (BS_words set2)) \<or> m = int (length (BS_words set3))"
    using ok by (auto simp: m_def min_def BS_ok_sizes BS_ok_count)
  have S: "{x. 0 \<le> x \<and> (if x div 32 < m then x \<in> BS_elems set1 \<or> x \<in> BS_elems set2 \<and> x \<in> BS_elems set3
      else x \<in> BS_elems set1)} = BS_elems set1 \<union> (BS_elems set2 \<inter> BS_elems set3)"
    using m(5) by (auto dest: BS_elems_div_bound)
  show ?thesis
    unfolding BS_UnionD_Intersection_def Let_def BS_ok_sizes(1) [OF ok(1)] m_def [symmetric] m(1) S [symmetric]
    by (rule enlarge_loop_is [OF ok(1) pool [folded m_def] m(2) n [folded m_def],
          where g = "\<lambda>i w. w OR (BS_words set2 ! nat i AND BS_words set3 ! nat i)"])
      (use m in \<open>simp_all add: bit_and_iff bit_or_iff\<close>)
qed

lemma BS_UnionR_spec:
  assumes ok: "BS_ok result" "BS_ok set1" "BS_ok set2" and eq: "BS_word_count set1 = BS_word_count set2"
    and pool: "pool \<noteq> Bad_Pool \<or> BS_word_count set1 \<le> BS_word_count result" and n: "BS_word_count set1 \<le> 2 ^ 25"
  shows "returnsE (BS_UnionR result set1 set2 pool)
           (\<lambda>r. BS_is r (BS_elems set1 \<union> BS_elems set2 \<union> {x \<in> BS_elems result. 32 * BS_word_count set1 \<le> x}))"
proof -
  define m where "m = BS_word_count set1"
  have m: "BS_word_count set2 = m" "int (length (BS_words set1)) = m" "int (length (BS_words set2)) = m"
    "INT32 m = m" "0 \<le> m"
    using ok eq by (auto simp: m_def BS_ok_sizes BS_ok_count)
  have S: "{x. 0 \<le> x \<and> (if x div 32 < m then x \<in> BS_elems set1 \<union> BS_elems set2
      else x \<in> BS_elems result)} = BS_elems set1 \<union> BS_elems set2 \<union> {x \<in> BS_elems result. 32 * m \<le> x}"
    using m(2,3) by (intro replace_result) (auto dest: BS_elems_div_bound)
  have "returnsE (BS_UnionR result set1 set2 pool)
      (\<lambda>r. BS_is r {x. 0 \<le> x \<and> (if x div 32 < m then x \<in> BS_elems set1 \<union> BS_elems set2
         else x \<in> BS_elems result)} \<and> BS_word_count result \<le> BS_word_count r)"
    unfolding BS_UnionR_def Let_def BS_ok_sizes(1) [OF ok(1)] m m_def [symmetric] max.idem
    by (rule enlarge_loop_is [OF ok(1) pool [folded m_def] m(5) n [folded m_def],
          where g = "\<lambda>i _. BS_words set1 ! nat i OR BS_words set2 ! nat i"])
      (use m in \<open>simp_all add: bit_or_iff\<close>)
  then show ?thesis unfolding S unfolding m_def by (elim returnsE_mono) simp
qed

text \<open>
  With operands of different sizes the loop of \<^verbatim>\<open>BS_UnionR\<close> reads past the end of the smaller one.
\<close>

lemma BS_UnionR_reads_past_end:
  assumes ok: "BS_ok result" "BS_ok set1" "BS_ok set2" and ne: "BS_word_count set1 \<noteq> BS_word_count set2"
    and pool: "pool \<noteq> Bad_Pool" and n: "max (BS_word_count set1) (BS_word_count set2) \<le> 2 ^ 25"
  shows "BS_UnionR result set1 set2 pool = Inl Out_Of_Bounds"
proof -
  define m where "m = max (BS_word_count set1) (BS_word_count set2)"
  define k where "k = min (BS_word_count set1) (BS_word_count set2)"
  have km: "0 \<le> k" "k < m" "k \<le> int (length (BS_words set1))" "k \<le> int (length (BS_words set2))"
    "k = int (length (BS_words set1)) \<or> k = int (length (BS_words set2))" "0 \<le> m"
    using ok ne by (auto simp: m_def k_def min_def BS_ok_count)
  obtain t where t: "(if BS_word_count result < m then bs_Realloc result (SIZE_T m) pool else Inr result) = Inr t"
    "BS_ok t" "m \<le> BS_word_count t"
    using BS_enlarge_is [OF ok(1) disjI1 [OF pool] km(6) n [folded m_def]]
    by (rule returnsE_E) (use that in \<open>auto simp: BS_is_def\<close>)
  have "for_loop 0 m (\<lambda>i s. bindE (BS_word set1 i) (\<lambda>w1. bindE (BS_word set2 i) (\<lambda>w2.
        BS_set_word s i (w1 OR w2)))) t = Inl Out_Of_Bounds"
    by (rule for_loop_fails [where k = k and I = "\<lambda>_ s. length (BS_words s) = length (BS_words t)"])
      (use km t(2,3) in \<open>auto simp: BS_ok_count BS_word_def bindE_def\<close>)
  then show ?thesis
    unfolding BS_UnionR_def Let_def BS_ok_sizes(1) [OF ok(1)] BS_ok_sizes(1) [OF ok(2)]
      BS_ok_sizes(1) [OF ok(3)] m_def [symmetric] t(1) bindE_Inr .
qed

lemma BS_Union_spec:
  assumes ok: "BS_ok set1" "BS_ok set2" and pool: "pool \<noteq> Bad_Pool"
  shows "returnsE (BS_Union set1 set2 pool) (\<lambda>r. BS_is r (BS_elems set1 \<union> BS_elems set2))"
proof -
  have larger: "returnsE (bindE (bs_Malloc (SIZE_T (BS_word_count a)) pool) (\<lambda>bs.
      bindE (for_loop 0 (BS_word_count b) (\<lambda>i s.
               bindE (BS_word a i) (\<lambda>w1. bindE (BS_word b i) (\<lambda>w2.
               BS_set_word s i (w1 OR w2)))) bs) (\<lambda>bs.
      for_loop (BS_word_count b) (BS_word_count a) (\<lambda>i s. bindE (BS_word a i) (BS_set_word s i)) bs)))
    (\<lambda>r. BS_is r (BS_elems a \<union> BS_elems b))"
    if ab: "BS_ok a" "BS_ok b" "BS_word_count b \<le> BS_word_count a" for a b
  proof -
    obtain t where t: "bs_Malloc (BS_word_count a) pool = Inr t" "BS_ok t" "BS_word_count t = BS_word_count a"
      by (rule returnsE_E [OF bs_Malloc_ok [OF ab(1) pool]]) (use that in blast)
    have l: "length (BS_words t) = length (BS_words a)" "length (BS_words b) \<le> length (BS_words a)"
      using t ab by (simp_all add: BS_ok_def)
    let ?u = "t\<lparr>BS_words := map_words 0 (BS_word_count b)
                (\<lambda>i _. BS_words a ! nat i OR BS_words b ! nat i) (BS_words t)\<rparr>"
    have u: "for_loop 0 (BS_word_count b) (\<lambda>i s. bindE (BS_word a i) (\<lambda>w1. bindE (BS_word b i) (\<lambda>w2.
          BS_set_word s i (w1 OR w2)))) t = Inr ?u"
      using ab l by (intro for_loop_words) (simp_all add: BS_ok_count)
    have "returnsE (for_loop (BS_word_count b) (BS_word_count a) (\<lambda>i s. bindE (BS_word a i) (BS_set_word s i)) ?u)
        (\<lambda>r. BS_is r (BS_elems a \<union> BS_elems b) \<and> BS_word_count r = BS_word_count ?u)"
    proof (rule for_loop_words_is [where g = "\<lambda>i _. BS_words a ! nat i"])
      show "BS_ok ?u" using t(2) by (simp add: BS_ok_def)
    next
      fix x
      assume "0 \<le> x" "x div 32 < int (length (BS_words ?u))"
      with ab l show "x \<in> BS_elems a \<union> BS_elems b \<longleftrightarrow>
          (if BS_word_count b \<le> x div 32 \<and> x div 32 < BS_word_count a
           then bit (BS_words a ! nat (x div 32)) (nat (x mod 32)) else x \<in> BS_elems ?u)"
        by (auto simp: BS_ok_count word_elems_map_words bit_or_iff not_less not_le)
    qed (use ab t(3) l in \<open>auto simp: BS_ok_count dest!: BS_elems_div_bound\<close>)
    then show ?thesis
      unfolding BS_ok_sizes(2) [OF ab(1)] t(1) bindE_Inr u by (elim returnsE_mono) simp
  qed
  show ?thesis
    using larger [of set1 set2] larger [of set2 set1] ok
    by (auto simp: BS_Union_def Let_def BS_ok_sizes(1) Un_commute)
qed

section \<open>One element\<close>

lemma byte_of_element:
  assumes "BS_ok bs" "0 \<le> x" "x div 32 < BS_word_count bs"
  shows "bs_QBPW x = x div 32" "bs_QBPB x = x div 8" "0 \<le> x div 8" "x div 8 < 4 * int (length (BS_words bs))"
proof -
  have "x < 32 * BS_word_count bs" using assms(3) div_below_word by blast
  moreover have "BS_word_count bs < 2 ^ 26" "BS_word_count bs = int (length (BS_words bs))"
    using assms(1) by (auto simp: BS_ok_def)
  ultimately have "x < 2 ^ 31" "x < 32 * int (length (BS_words bs))" by simp_all
  with assms(2) show "bs_QBPW x = x div 32" "bs_QBPB x = x div 8" "0 \<le> x div 8"
      "x div 8 < 4 * int (length (BS_words bs))"
    by (simp_all add: bs_index)
qed

lemma bit_one_at: "bit (ucast (push_bit (nat (x mod 8)) bs_ONE) :: BS_BYTE) (nat (y mod 8)) \<longleftrightarrow> y mod 8 = x mod 8"
  using nat_mod_numeral_less [of y "num.Bit0 (num.Bit0 (num.Bit0 num.One))"]
  by (auto simp: bit_simps eq_nat_nat_iff)

lemma same_byte_bit: "x div 8 = y div 8 \<and> x mod 8 = y mod 8 \<longleftrightarrow> x = y" for x y :: int
  by (metis mult_div_mod_eq)

text \<open>Changing one byte by a function of its old value changes the elements in that byte only.\<close>

lemma update_byte_is:
  assumes ok: "BS_ok bs" and x: "0 \<le> x" "x div 32 < BS_word_count bs"
    and f: "\<And>b y. y div 8 = x div 8 \<Longrightarrow> bit (f b) (nat (y mod 8)) \<longleftrightarrow> F y (bit b (nat (y mod 8)))"
  shows "returnsE (bindE (BS_byte bs (x div 8)) (\<lambda>byte. BS_set_byte bs (x div 8) (f byte)))
    (\<lambda>r. BS_is r {y. if y div 8 = x div 8 then F y (y \<in> BS_elems bs) else y \<in> BS_elems bs}
       \<and> BS_word_count r = BS_word_count bs)"
  unfolding returnsE_bindE
proof (rule returnsE_mono [OF bit_BS_byte])
  note here = byte_of_element [OF ok x]
  fix b :: BS_BYTE
  assume b: "\<forall>k. bit b k \<longleftrightarrow> k < 8 \<and> 8 * (x div 8) + int k \<in> BS_elems bs"
  have old: "bit b (nat (y mod 8)) \<longleftrightarrow> y \<in> BS_elems bs" if "y div 8 = x div 8" for y
  proof -
    have "8 * (x div 8) + int (nat (y mod 8)) = y" using that mult_div_mod_eq [of 8 y] by simp
    with b show ?thesis by simp
  qed
  show "returnsE (BS_set_byte bs (x div 8) (f b))
      (\<lambda>r. BS_is r {y. if y div 8 = x div 8 then F y (y \<in> BS_elems bs) else y \<in> BS_elems bs}
         \<and> BS_word_count r = BS_word_count bs)"
    by (rule returnsE_mono [OF BS_set_byte_in [OF here(3,4)]])
      (use ok old f in \<open>auto simp: BS_is_def BS_ok_def\<close>)
qed (use byte_of_element [OF ok x] in auto)

lemma BS_Difference1D_spec:
  assumes ok: "BS_ok bs" and x: "0 \<le> x" "x < 2 ^ 31"
  shows "returnsE (BS_Difference1D bs x) (\<lambda>r. BS_is r (BS_elems bs - {x}) \<and> BS_word_count r = BS_word_count bs)"
proof (cases "x div 32 < BS_word_count bs")
  case True
  note here = byte_of_element [OF ok x(1) True]
  have S: "{y. if y div 8 = x div 8 then y \<in> BS_elems bs \<and> y mod 8 \<noteq> x mod 8 else y \<in> BS_elems bs}
      = BS_elems bs - {x}"
    using same_byte_bit [of _ x] by auto
  have "returnsE (bindE (BS_byte bs (x div 8)) (\<lambda>byte. BS_set_byte bs (x div 8)
          (byte AND ucast (NOT (push_bit (nat (x mod 8)) bs_ONE)))))
      (\<lambda>r. BS_is r (BS_elems bs - {x}) \<and> BS_word_count r = BS_word_count bs)"
    unfolding S [symmetric]
  proof (rule update_byte_is [OF ok x(1) True])
    fix b :: BS_BYTE and y
    have "bit (ucast (NOT (push_bit (nat (x mod 8)) bs_ONE)) :: BS_BYTE) (nat (y mod 8)) \<longleftrightarrow> y mod 8 \<noteq> x mod 8"
      using bit_one_at [of x y] nat_mod_numeral_less [of y "num.Bit0 (num.Bit0 (num.Bit0 num.One))"]
        less_trans [of "nat (y mod 8)" 8 32]
      by (simp add: bit_simps)
    then show "bit (b AND ucast (NOT (push_bit (nat (x mod 8)) bs_ONE))) (nat (y mod 8))
        \<longleftrightarrow> bit b (nat (y mod 8)) \<and> y mod 8 \<noteq> x mod 8"
      by (simp add: bit_and_iff del: bs_constants)
  qed
  then show ?thesis
    unfolding BS_Difference1D_def here(1,2) bs_RBPB_id using x True by (simp del: bs_constants)
next
  case False
  then have "x \<notin> BS_elems bs" using BS_elems_div_bound [of x bs] BS_ok_count [OF ok] by auto
  with False ok x show ?thesis
    by (simp add: BS_Difference1D_def bs_index BS_is_def)
qed

lemma BS_Difference1_spec:
  assumes "BS_ok bs" "0 \<le> x" "x < 2 ^ 31" "pool \<noteq> Bad_Pool"
  shows "returnsE (BS_Difference1 bs x pool) (\<lambda>r. BS_is r (BS_elems bs - {x}))"
  using BS_Difference1D_spec [OF assms(1-3)] assms
  by (simp add: BS_Difference1_def BS_Copy_spec) (erule returnsE_mono, simp)

lemma BS_Union1D_spec:
  assumes ok: "BS_ok bs" and x: "0 \<le> x" "x < 2 ^ 30"
    and pool: "pool \<noteq> Bad_Pool \<or> x < 32 * BS_word_count bs"
  shows "returnsE (BS_Union1D bs x pool)
           (\<lambda>r. BS_is r (insert x (BS_elems bs)) \<and> BS_word_count bs \<le> BS_word_count r)"
proof -
  have room: "pool \<noteq> Bad_Pool \<or> x div 32 + 1 \<le> BS_word_count bs" "0 \<le> x div 32 + 1" "x div 32 + 1 \<le> 2 ^ 25"
    using pool x by auto
  have q: "bs_QBPW x = x div 32" using x by (simp add: bs_index)
  obtain t where t: "(if BS_word_count bs < x div 32 + 1 then bs_Realloc bs (SIZE_T (x div 32 + 1)) pool else Inr bs) = Inr t"
    "BS_ok t" "BS_elems t = BS_elems bs" "x div 32 < BS_word_count t" "BS_word_count bs \<le> BS_word_count t"
    by (rule returnsE_E [OF BS_enlarge_is [OF ok room]]) (use that in \<open>auto simp: BS_is_def\<close>)
  have S: "{y. if y div 8 = x div 8 then y \<in> BS_elems t \<or> y mod 8 = x mod 8 else y \<in> BS_elems t}
      = insert x (BS_elems bs)"
    unfolding t(3) using same_byte_bit [of _ x] by auto
  have "returnsE (bindE (BS_byte t (x div 8)) (\<lambda>byte. BS_set_byte t (x div 8)
          (byte OR ucast (push_bit (nat (x mod 8)) bs_ONE))))
      (\<lambda>r. BS_is r (insert x (BS_elems bs)) \<and> BS_word_count r = BS_word_count t)"
    unfolding S [symmetric]
    by (rule update_byte_is [OF t(2) x(1) t(4)]) (simp add: bit_or_iff bit_one_at del: bs_constants)
  then show ?thesis
    unfolding BS_Union1D_def Let_def q byte_of_element(2) [OF t(2) x(1) t(4)] bs_RBPB_id t(1) bindE_Inr
    using x(1) t(5) by (simp del: bs_constants returnsE_bindE) (erule returnsE_mono, simp)
qed

lemma BS_Union1_spec:
  assumes ok: "BS_ok bs" and x: "0 \<le> x" "x < 2 ^ 30" and pool: "pool \<noteq> Bad_Pool"
    and n: "BS_word_count bs \<le> 2 ^ 25"
  shows "returnsE (BS_Union1 bs x pool) (\<lambda>r. BS_is r (insert x (BS_elems bs)))"
proof -
  define sz where "sz = (if BS_word_count bs > x div 32 + 1 then BS_word_count bs * 32 else x + 1)"
  have count: "0 \<le> BS_word_count bs" "BS_word_count bs < 2 ^ 26" using ok by (simp_all add: BS_ok_def)
  have sz: "(if BS_word_count bs > UINT32 (bs_QBPW x + 1) then bs_PBPW (BS_word_count bs) else INT32 (x + 1)) = sz"
    using x count by (simp add: sz_def bs_index UINT32_id INT32_id)
  have w: "BS_word_count bs \<le> (sz + 31) div 32" "x < 32 * ((sz + 31) div 32)" "0 \<le> sz" "sz \<le> 2 ^ 31 - 32"
    using x count by (auto simp: sz_def)
  obtain t where t: "BS_Create_Empty sz pool = Inr t" "BS_ok t" "BS_word_count t = (sz + 31) div 32"
    by (rule returnsE_E [OF BS_Create_Empty_spec [OF w(3,4) pool]]) (use that in \<open>auto simp: BS_is_def\<close>)
  obtain u where u: "BS_CopyD t bs Bad_Pool = Inr u" "BS_ok u" "BS_elems u = BS_elems bs"
      "(sz + 31) div 32 \<le> BS_word_count u"
    using BS_CopyD_spec [OF t(2) ok, of Bad_Pool] w(1) n t(3) that
    by (auto simp: BS_is_def elim: returnsE_E)
  with BS_Union1D_spec [OF u(2) x, of Bad_Pool] w(2) show ?thesis
    by (simp add: BS_Union1_def Let_def sz t(1) u(1)) (erule returnsE_mono, simp)
qed

section \<open>The number of elements\<close>

lemma bit_count_table:
  "list_all (\<lambda>(n, c). int c = n mod 2 + n div 2 mod 2 + n div 4 mod 2 + n div 8 mod 2 + n div 16 mod 2
      + n div 32 mod 2 + n div 64 mod 2 + n div 128 mod 2) (zip [0..255] bit_count)"
  by (simp add: bit_count_def upto_rec1 [of 0] upto_rec1 [of 1])

lemma bit_count_card: "bit_count ! unat b = card {k. bit b k}" for b :: BS_BYTE
proof -
  have small: "unat b < 256" using unsigned_less [of b] by simp
  have "uint b < 256" using uint_lt2p [of b] by simp
  then have "[0..255] ! unat b = uint b" by (subst nth_upto) simp_all
  moreover have "length bit_count = 256" by (simp add: bit_count_def)
  ultimately have "zip [0..255] bit_count ! unat b = (uint b, bit_count ! unat b)"
    "unat b < length (zip [0..255] bit_count)"
    using small by simp_all
  then have count: "int (bit_count ! unat b) = uint b mod 2 + uint b div 2 mod 2 + uint b div 4 mod 2
      + uint b div 8 mod 2 + uint b div 16 mod 2 + uint b div 32 mod 2 + uint b div 64 mod 2 + uint b div 128 mod 2"
    using bit_count_table by (auto simp: list_all_length)
  have bit: "uint b div c mod 2 = of_bool (bit b k)" if "k < 8" "c = 2 ^ k" for k c
    using that by (simp add: bit_uint_iff mod_2_eq_odd flip: bit_iff_odd)
  have "{..<8} \<inter> {k. bit b k} = {k. bit b k}"
    using bit_imp_le_length [of b] by auto
  then have "card {k. bit b k} = (\<Sum>k < 8. of_bool (bit b k))"
    by (simp add: sum_of_bool_eq)
  then have card: "card {k. bit b k} = of_bool (bit b 0) + of_bool (bit b 1) + of_bool (bit b 2) + of_bool (bit b 3)
      + of_bool (bit b 4) + of_bool (bit b 5) + of_bool (bit b 6) + of_bool (bit b 7)"
    by (simp add: eval_nat_numeral)
  have "uint b mod 2 = of_bool (bit b 0)"
    using bit [of 0 1] by (simp only: power_0 div_by_1 zero_less_numeral simp_thms)
  moreover have "uint b div 2 mod 2 = of_bool (bit b 1)"
    "uint b div 4 mod 2 = of_bool (bit b 2)" "uint b div 8 mod 2 = of_bool (bit b 3)"
    "uint b div 16 mod 2 = of_bool (bit b 4)" "uint b div 32 mod 2 = of_bool (bit b 5)"
    "uint b div 64 mod 2 = of_bool (bit b 6)" "uint b div 128 mod 2 = of_bool (bit b 7)"
    by (rule bit; simp)+
  ultimately have "int (bit_count ! unat b) = int (card {k. bit b k})"
    unfolding count card of_nat_add of_nat_of_bool by (simp only:)
  then show ?thesis by (simp only: of_nat_eq_iff)
qed

lemma byte_population:
  assumes "\<forall>k. bit b k \<longleftrightarrow> k < 8 \<and> 8 * i + int k \<in> BS_elems bs"
  shows "int (bit_count ! unat (b :: BS_BYTE)) + int (card (BS_elems bs \<inter> {..<8 * i}))
    = int (card (BS_elems bs \<inter> {..<8 * (i + 1)}))"
proof -
  have "BS_elems bs \<inter> {8 * i..<8 * (i + 1)} = (\<lambda>k. 8 * i + int k) ` {k. bit b k}"
  proof (rule set_eqI, rule iffI)
    fix x
    assume x: "x \<in> BS_elems bs \<inter> {8 * i..<8 * (i + 1)}"
    then have "x = 8 * i + int (nat (x - 8 * i))" "nat (x - 8 * i) < 8" by auto
    with x assms show "x \<in> (\<lambda>k. 8 * i + int k) ` {k. bit b k}" by (metis IntD1 image_eqI mem_Collect_eq)
  next
    fix x
    assume "x \<in> (\<lambda>k. 8 * i + int k) ` {k. bit b k}"
    then obtain k where "x = 8 * i + int k" "bit b k" by blast
    with assms show "x \<in> BS_elems bs \<inter> {8 * i..<8 * (i + 1)}" by simp
  qed
  then have "card (BS_elems bs \<inter> {8 * i..<8 * (i + 1)}) = bit_count ! unat b"
    by (simp add: bit_count_card card_image inj_on_def)
  moreover have "BS_elems bs \<inter> {..<8 * (i + 1)} = (BS_elems bs \<inter> {..<8 * i}) \<union> (BS_elems bs \<inter> {8 * i..<8 * (i + 1)})"
    by auto
  moreover have "card ((BS_elems bs \<inter> {..<8 * i}) \<union> (BS_elems bs \<inter> {8 * i..<8 * (i + 1)}))
      = card (BS_elems bs \<inter> {..<8 * i}) + card (BS_elems bs \<inter> {8 * i..<8 * (i + 1)})"
    by (rule card_Un_disjoint) (auto simp: finite_BS_elems)
  ultimately show ?thesis by simp
qed

lemma card_BS_elems_bound:
  assumes "BS_ok bs"
  shows "int (card (BS_elems bs \<inter> A)) < 2 ^ 31"
proof -
  have "card (BS_elems bs \<inter> A) \<le> card {0..<32 * int (length (BS_words bs))}"
    by (rule card_mono) (auto dest: BS_elems_nonneg BS_elems_bound)
  with BS_ok_bound [OF assms] show ?thesis by simp
qed

lemma BS_Size_spec:
  assumes "BS_ok bs"
  shows "BS_Size bs = Inr (int (card (BS_elems bs)))"
proof -
  define n where "n = 4 * int (length (BS_words bs))"
  have n: "INT32 (SIZE_T (BS_word_count bs * 4)) = n" "0 \<le> n"
    using assms by (simp_all add: n_def BS_ok_def INT32_id SIZE_T_id)
  have "returnsE (for_loop 0 n (\<lambda>i result. bindE (BS_byte bs i) (\<lambda>byte.
          Inr (SIZE_T (result + int (bit_count ! unat byte))))) 0)
      (\<lambda>s. s = int (card (BS_elems bs \<inter> {..<8 * n})))"
  proof (rule for_loop_invariant [where I = "\<lambda>i s. s = int (card (BS_elems bs \<inter> {..<8 * i}))"])
    fix i s
    assume i: "0 \<le> i" "i < n" and s: "s = int (card (BS_elems bs \<inter> {..<8 * i}))"
    show "returnsE (bindE (BS_byte bs i) (\<lambda>byte. Inr (SIZE_T (s + int (bit_count ! unat byte)))))
        (\<lambda>s. s = int (card (BS_elems bs \<inter> {..<8 * (i + 1)})))"
      unfolding returnsE_bindE
    proof (rule returnsE_mono [OF bit_BS_byte])
      fix b :: BS_BYTE
      assume "\<forall>k. bit b k \<longleftrightarrow> k < 8 \<and> 8 * i + int k \<in> BS_elems bs"
      from byte_population [OF this] s
      have "s + int (bit_count ! unat b) = int (card (BS_elems bs \<inter> {..<8 * (i + 1)}))" by simp
      then show "returnsE (Inr (SIZE_T (s + int (bit_count ! unat b))))
          (\<lambda>s. s = int (card (BS_elems bs \<inter> {..<8 * (i + 1)})))"
        using card_BS_elems_bound [OF assms, of "{..<8 * (i + 1)}"] by (simp add: SIZE_T_id)
    qed (use i in \<open>auto simp: n_def\<close>)
  next
    have "BS_elems bs \<inter> {..<8 * 0} = {}" by (auto dest: BS_elems_nonneg)
    then show "(0 :: int) = int (card (BS_elems bs \<inter> {..<8 * 0}))" by (simp only: card.empty of_nat_0)
  qed (use n in simp)
  moreover have "BS_elems bs \<inter> {..<8 * n} = BS_elems bs"
    by (auto simp: n_def dest: BS_elems_bound)
  ultimately have loop: "for_loop 0 n (\<lambda>i result. bindE (BS_byte bs i) (\<lambda>byte.
      Inr (SIZE_T (result + int (bit_count ! unat byte))))) 0 = Inr (int (card (BS_elems bs)))"
    by (simp only: returnsE_iff) blast
  have "INT32 (int (card (BS_elems bs))) = int (card (BS_elems bs))"
    using card_BS_elems_bound [OF assms, of UNIV] by (simp add: INT32_id)
  then show ?thesis
    unfolding BS_Size_def Let_def n(1) loop bindE_Inr by simp
qed

end
