(* ===== verification/Bitset_Fused.thy ===== *)
theory Bitset_Fused
  imports Bitset_Ops
begin

text \<open>
  The fused operations of \<^verbatim>\<open>src/src/common/util/bitset.c\<close> (\<^verbatim>\<open>BS_2_1_Minus_3_Or_R\<close> to
  \<^verbatim>\<open>BS_2_3_Minus_4_Minus_1_Or_D\<close>), the steps of the data-flow equations of the optimizer: each
  computes in one pass over the words what a sequence of unions, intersections and
  differences would.  Their operands must have the same number of words, which is asserted.
\<close>

section \<open>Operations\<close>

definition BS_2_1_Minus_3_Or_R :: "BS \<Rightarrow> BS \<Rightarrow> BS \<Rightarrow> BS \<Rightarrow> BS_WORD MEM_POOL \<Rightarrow> BS outcome" where
  "BS_2_1_Minus_3_Or_R result set1 set2 set3 pool =
     (let rsize = INT32 (BS_word_count result); size3 = INT32 (BS_word_count set3) in
      bindE (Is_True (BS_word_count set1 = size3)
        ''BS_2_1_Minus_3_Or_R: set1 size (%d) < set3 size (%d)'') (\<lambda>_.
      bindE (Is_True (BS_word_count set2 = size3)
        ''BS_2_1_Minus_3_Or_R: set2 size (%d) < set3 size (%d)'') (\<lambda>_.
      bindE (if rsize < size3 then bs_Realloc result (SIZE_T size3) pool else Inr result) (\<lambda>result.
      for_loop 0 size3 (\<lambda>i s.
        bindE (BS_word set1 i) (\<lambda>w1. bindE (BS_word set2 i) (\<lambda>w2. bindE (BS_word set3 i) (\<lambda>w3.
        BS_set_word s i ((NOT w1 AND w2) OR w3))))) result))))"

definition BS_3_2_Minus_1_Or_D :: "BS \<Rightarrow> BS \<Rightarrow> BS \<Rightarrow> BS_WORD MEM_POOL \<Rightarrow> BS outcome" where
  "BS_3_2_Minus_1_Or_D set1 set2 set3 pool =
     (let size1 = INT32 (BS_word_count set1);
          size2 = INT32 (BS_word_count set2); size3 = INT32 (BS_word_count set3) in
      bindE (Is_True (size2 = size3)
        ''BS_3_2_Minus_1_Or_D: set2 size (%d) != set3 size (%d)'') (\<lambda>_.
      bindE (if size1 < size3 then bs_Realloc set1 (SIZE_T size3) pool else Inr set1) (\<lambda>set1.
      for_loop 0 size3 (\<lambda>i s.
        bindE (BS_word s i) (\<lambda>w1. bindE (BS_word set2 i) (\<lambda>w2. bindE (BS_word set3 i) (\<lambda>w3.
        BS_set_word s i (w1 OR (NOT w2 AND w3)))))) set1)))"

definition BS_3_2_Minus_4_Or_1_Or_D :: "BS \<Rightarrow> BS \<Rightarrow> BS \<Rightarrow> BS \<Rightarrow> BS_WORD MEM_POOL \<Rightarrow> BS outcome" where
  "BS_3_2_Minus_4_Or_1_Or_D set1 set2 set3 set4 pool =
     (let size1 = INT32 (BS_word_count set1);
          size2 = INT32 (BS_word_count set2); size3 = INT32 (BS_word_count set3);
          size4 = INT32 (BS_word_count set4) in
      bindE (Is_True (size2 = size3 \<and> size3 = size4)
        ''BS_3_2_Minus_4_Or_1_Or_D: sizes not equal %d, %d, %d'') (\<lambda>_.
      bindE (if size1 < size2 then bs_Realloc set1 (SIZE_T size2) pool else Inr set1) (\<lambda>set1.
      for_loop 0 size2 (\<lambda>i s.
        bindE (BS_word s i) (\<lambda>w1. bindE (BS_word set2 i) (\<lambda>w2. bindE (BS_word set3 i) (\<lambda>w3.
        bindE (BS_word set4 i) (\<lambda>w4.
        BS_set_word s i (w1 OR ((NOT w2 AND w3) OR w4))))))) set1)))"

definition BS_3_2_Minus_4_Or_5_Or_1_Or_D :: "BS \<Rightarrow> BS \<Rightarrow> BS \<Rightarrow> BS \<Rightarrow> BS \<Rightarrow> BS_WORD MEM_POOL \<Rightarrow> BS outcome" where
  "BS_3_2_Minus_4_Or_5_Or_1_Or_D set1 set2 set3 set4 set5 pool =
     (let size1 = INT32 (BS_word_count set1); size5 = INT32 (BS_word_count set5) in
      bindE (Is_True (BS_word_count set2 = size5)
        ''BS_3_2_Minus_4_Or_5_Or_1_Or_D: set2 size (%d) != set5 size (%d)'') (\<lambda>_.
      bindE (Is_True (BS_word_count set3 = size5)
        ''BS_3_2_Minus_4_Or_5_Or_1_Or_D: set3 size (%d) != set5 size (%d)'') (\<lambda>_.
      bindE (Is_True (BS_word_count set4 = size5)
        ''BS_3_2_Minus_4_Or_5_Or_1_Or_D: set4 size (%d) != set5 size (%d)'') (\<lambda>_.
      bindE (if size1 < size5 then bs_Realloc set1 (SIZE_T size5) pool else Inr set1) (\<lambda>set1.
      for_loop 0 size5 (\<lambda>i s.
        bindE (BS_word s i) (\<lambda>w1. bindE (BS_word set2 i) (\<lambda>w2. bindE (BS_word set3 i) (\<lambda>w3.
        bindE (BS_word set4 i) (\<lambda>w4. bindE (BS_word set5 i) (\<lambda>w5.
        BS_set_word s i (w1 OR (((NOT w2 AND w3) OR w4) OR w5)))))))) set1)))))"

definition BS_2_1_Minus_3_Or_4_And_5_And_6_And_R :: "BS \<Rightarrow> BS \<Rightarrow> BS \<Rightarrow> BS \<Rightarrow> BS \<Rightarrow> BS \<Rightarrow> BS \<Rightarrow> BS_WORD MEM_POOL \<Rightarrow> BS outcome" where
  "BS_2_1_Minus_3_Or_4_And_5_And_6_And_R result set1 set2 set3 set4 set5 set6 pool =
     (let rsize = INT32 (BS_word_count result); size3 = INT32 (BS_word_count set3) in
      bindE (Is_True (BS_word_count set1 = size3)
        ''BS_2_1_Minus_3_Or_4_And_5_And_6_And_R: set1 size (%d) < set3 size (%d)'') (\<lambda>_.
      bindE (Is_True (BS_word_count set2 = size3)
        ''BS_2_1_Minus_3_Or_4_And_5_And_6_And_R: set2 size (%d) < set3 size (%d)'') (\<lambda>_.
      bindE (Is_True (BS_word_count set4 = size3)
        ''BS_2_1_Minus_3_Or_4_And_5_And_6_And_R: set4 size (%d) < set3 size (%d)'') (\<lambda>_.
      bindE (Is_True (BS_word_count set5 = size3)
        ''BS_2_1_Minus_3_Or_4_And_5_And_6_And_R: set5 size (%d) < set3 size (%d)'') (\<lambda>_.
      bindE (Is_True (BS_word_count set6 = size3)
        ''BS_2_1_Minus_3_Or_4_And_5_And_6_And_R: set6 size (%d) < set3 size (%d)'') (\<lambda>_.
      bindE (if rsize < size3 then bs_Realloc result (SIZE_T size3) pool else Inr result) (\<lambda>result.
      for_loop 0 size3 (\<lambda>i s.
        bindE (BS_word set1 i) (\<lambda>w1. bindE (BS_word set2 i) (\<lambda>w2. bindE (BS_word set3 i) (\<lambda>w3.
        bindE (BS_word set4 i) (\<lambda>w4. bindE (BS_word set5 i) (\<lambda>w5. bindE (BS_word set6 i) (\<lambda>w6.
        BS_set_word s i (((((NOT w1 AND w2) OR w3) AND w4) AND w5) AND w6)))))))) result)))))))"

definition BS_2_1_Minus_3_Or_4_And_R :: "BS \<Rightarrow> BS \<Rightarrow> BS \<Rightarrow> BS \<Rightarrow> BS \<Rightarrow> BS_WORD MEM_POOL \<Rightarrow> BS outcome" where
  "BS_2_1_Minus_3_Or_4_And_R result set1 set2 set3 set4 pool =
     (let rsize = INT32 (BS_word_count result); size3 = INT32 (BS_word_count set3) in
      bindE (Is_True (BS_word_count set1 = size3)
        ''BS_2_1_Minus_3_Or_4_And_R: set1 size (%d) < set3 size (%d)'') (\<lambda>_.
      bindE (Is_True (BS_word_count set2 = size3)
        ''BS_2_1_Minus_3_Or_4_And_R: set2 size (%d) < set3 size (%d)'') (\<lambda>_.
      bindE (Is_True (BS_word_count set4 = size3)
        ''BS_2_1_Minus_3_Or_4_And_R: set4 size (%d) < set3 size (%d)'') (\<lambda>_.
      bindE (if rsize < size3 then bs_Realloc result (SIZE_T size3) pool else Inr result) (\<lambda>result.
      for_loop 0 size3 (\<lambda>i s.
        bindE (BS_word set1 i) (\<lambda>w1. bindE (BS_word set2 i) (\<lambda>w2. bindE (BS_word set3 i) (\<lambda>w3.
        bindE (BS_word set4 i) (\<lambda>w4.
        BS_set_word s i (((NOT w1 AND w2) OR w3) AND w4)))))) result)))))"

definition BS_1_Not_2_Or_3_Minus_4_And_R :: "BS \<Rightarrow> BS \<Rightarrow> BS \<Rightarrow> BS \<Rightarrow> BS \<Rightarrow> BS_WORD MEM_POOL \<Rightarrow> BS outcome" where
  "BS_1_Not_2_Or_3_Minus_4_And_R result set1 set2 set3 set4 pool =
     (let rsize = INT32 (BS_word_count result); size2 = INT32 (BS_word_count set2) in
      bindE (Is_True (BS_word_count set1 = size2)
        ''BS_1_Not_2_Or_3_Minus_4_And_R: set1 size (%d) < set2 size (%d)'') (\<lambda>_.
      bindE (Is_True (BS_word_count set3 = size2)
        ''BS_1_Not_2_Or_3_Minus_4_And_R: set3 size (%d) < set2 size (%d)'') (\<lambda>_.
      bindE (Is_True (BS_word_count set4 = size2)
        ''BS_1_Not_2_Or_3_Minus_4_And_R: set4 size (%d) < set2 size (%d)'') (\<lambda>_.
      bindE (if rsize < size2 then bs_Realloc result (SIZE_T size2) pool else Inr result) (\<lambda>result.
      for_loop 0 size2 (\<lambda>i s.
        bindE (BS_word set1 i) (\<lambda>w1. bindE (BS_word set2 i) (\<lambda>w2. bindE (BS_word set3 i) (\<lambda>w3.
        bindE (BS_word set4 i) (\<lambda>w4.
        BS_set_word s i (((NOT w1 OR w2) AND NOT w3) AND w4)))))) result)))))"

definition BS_2_3_Or_1_Or_D :: "BS \<Rightarrow> BS \<Rightarrow> BS \<Rightarrow> BS_WORD MEM_POOL \<Rightarrow> BS outcome" where
  "BS_2_3_Or_1_Or_D set1 set2 set3 pool =
     (let size1 = INT32 (BS_word_count set1);
          size2 = INT32 (BS_word_count set2); size3 = INT32 (BS_word_count set3) in
      bindE (Is_True (size2 = size3)
        ''BS_2_3_Or_1_Or_D: sizes not equal %d, %d'') (\<lambda>_.
      bindE (if size1 < size2 then bs_Realloc set1 (SIZE_T size2) pool else Inr set1) (\<lambda>set1.
      for_loop 0 size2 (\<lambda>i s.
        bindE (BS_word s i) (\<lambda>w1. bindE (BS_word set2 i) (\<lambda>w2. bindE (BS_word set3 i) (\<lambda>w3.
        BS_set_word s i (w1 OR (w2 OR w3)))))) set1)))"

definition BS_1_2_Or_3_And_R :: "BS \<Rightarrow> BS \<Rightarrow> BS \<Rightarrow> BS \<Rightarrow> BS_WORD MEM_POOL \<Rightarrow> BS outcome" where
  "BS_1_2_Or_3_And_R result set1 set2 set3 pool =
     (let rsize = INT32 (BS_word_count result); size1 = INT32 (BS_word_count set1) in
      bindE (Is_True (BS_word_count set2 = size1)
        ''BS_1_2_Or_3_And_R: set2 size (%d) < set1 size (%d)'') (\<lambda>_.
      bindE (Is_True (BS_word_count set3 = size1)
        ''BS_1_2_Or_3_And_R: set3 size (%d) < set1 size (%d)'') (\<lambda>_.
      bindE (if rsize < size1 then bs_Realloc result (SIZE_T size1) pool else Inr result) (\<lambda>result.
      for_loop 0 size1 (\<lambda>i s.
        bindE (BS_word set1 i) (\<lambda>w1. bindE (BS_word set2 i) (\<lambda>w2. bindE (BS_word set3 i) (\<lambda>w3.
        BS_set_word s i ((w1 OR w2) AND w3))))) result))))"

definition BS_2_3_And_1_Or_D :: "BS \<Rightarrow> BS \<Rightarrow> BS \<Rightarrow> BS_WORD MEM_POOL \<Rightarrow> BS outcome" where
  "BS_2_3_And_1_Or_D set1 set2 set3 pool =
     (let size1 = INT32 (BS_word_count set1);
          sz = INT32 (min (BS_word_count set2) (BS_word_count set3)) in
      bindE (if size1 < sz then bs_Realloc set1 (SIZE_T sz) pool else Inr set1) (\<lambda>set1.
      for_loop 0 sz (\<lambda>i s.
        bindE (BS_word s i) (\<lambda>w1. bindE (BS_word set2 i) (\<lambda>w2. bindE (BS_word set3 i) (\<lambda>w3.
        BS_set_word s i (w1 OR (w2 AND w3)))))) set1))"

definition BS_3_Not_4_Or_2_And_1_Or_D :: "BS \<Rightarrow> BS \<Rightarrow> BS \<Rightarrow> BS \<Rightarrow> BS_WORD MEM_POOL \<Rightarrow> BS outcome" where
  "BS_3_Not_4_Or_2_And_1_Or_D set1 set2 set3 set4 pool =
     (let size1 = INT32 (BS_word_count set1); size2 = INT32 (BS_word_count set2) in
      bindE (Is_True (BS_word_count set3 = size2)
        ''BS_3_Not_4_Or_2_And_1_Or_D: set3 size (%d) < set2 size (%d)'') (\<lambda>_.
      bindE (Is_True (BS_word_count set4 = size2)
        ''BS_3_Not_4_Or_2_And_1_Or_D: set4 size (%d) < set2 size (%d)'') (\<lambda>_.
      bindE (if size1 < size2 then bs_Realloc set1 (SIZE_T size2) pool else Inr set1) (\<lambda>set1.
      for_loop 0 size2 (\<lambda>i s.
        bindE (BS_word s i) (\<lambda>w1. bindE (BS_word set2 i) (\<lambda>w2. bindE (BS_word set3 i) (\<lambda>w3.
        bindE (BS_word set4 i) (\<lambda>w4.
        BS_set_word s i (w1 OR (w2 AND (NOT w3 OR w4)))))))) set1))))"

definition BS_4_3_Minus_2_Not_Or_1_And_D :: "BS \<Rightarrow> BS \<Rightarrow> BS \<Rightarrow> BS \<Rightarrow> BS_WORD MEM_POOL \<Rightarrow> BS outcome" where
  "BS_4_3_Minus_2_Not_Or_1_And_D set1 set2 set3 set4 pool =
     (let size1 = INT32 (BS_word_count set1); size2 = INT32 (BS_word_count set2) in
      bindE (Is_True (BS_word_count set3 = size2)
        ''BS_4_3_Minus_2_Not_Or_1_And_D: set3 size (%d) < set2 size (%d)'') (\<lambda>_.
      bindE (Is_True (BS_word_count set4 = size2)
        ''BS_4_3_Minus_2_Not_Or_1_And_D: set4 size (%d) < set2 size (%d)'') (\<lambda>_.
      bindE (if size1 < size2 then bs_Realloc set1 (SIZE_T size2) pool else Inr set1) (\<lambda>set1.
      for_loop 0 size2 (\<lambda>i s.
        bindE (BS_word s i) (\<lambda>w1. bindE (BS_word set2 i) (\<lambda>w2. bindE (BS_word set3 i) (\<lambda>w3.
        bindE (BS_word set4 i) (\<lambda>w4.
        BS_set_word s i (w1 AND (NOT w2 OR (w4 AND NOT w3)))))))) set1))))"

definition BS_2_3_Minus_1_Or_D :: "BS \<Rightarrow> BS \<Rightarrow> BS \<Rightarrow> BS_WORD MEM_POOL \<Rightarrow> BS outcome" where
  "BS_2_3_Minus_1_Or_D set1 set2 set3 pool =
     (let size1 = INT32 (BS_word_count set1);
          size2 = INT32 (BS_word_count set2); size3 = INT32 (BS_word_count set3) in
      bindE (Is_True (size2 = size3)
        ''BS_2_3_Minus_1_Or_D: sizes not equal %d, %d'') (\<lambda>_.
      bindE (if size1 < size2 then bs_Realloc set1 (SIZE_T size2) pool else Inr set1) (\<lambda>set1.
      for_loop 0 size2 (\<lambda>i s.
        bindE (BS_word s i) (\<lambda>w1. bindE (BS_word set2 i) (\<lambda>w2. bindE (BS_word set3 i) (\<lambda>w3.
        BS_set_word s i (w1 OR (w2 AND NOT w3)))))) set1)))"

definition BS_2_3_Minus_4_Minus_1_Or_D :: "BS \<Rightarrow> BS \<Rightarrow> BS \<Rightarrow> BS \<Rightarrow> BS_WORD MEM_POOL \<Rightarrow> BS outcome" where
  "BS_2_3_Minus_4_Minus_1_Or_D set1 set2 set3 set4 pool =
     (let size1 = INT32 (BS_word_count set1);
          size2 = INT32 (BS_word_count set2); size3 = INT32 (BS_word_count set3);
          size4 = INT32 (BS_word_count set4) in
      bindE (Is_True (size2 = size3 \<and> size3 = size4)
        ''BS_2_3_Minus_4_Minus_1_Or_D: sizes not equal %d, %d, %d'') (\<lambda>_.
      bindE (if size1 < size2 then bs_Realloc set1 (SIZE_T size2) pool else Inr set1) (\<lambda>set1.
      for_loop 0 size2 (\<lambda>i s.
        bindE (BS_word s i) (\<lambda>w1. bindE (BS_word set2 i) (\<lambda>w2. bindE (BS_word set3 i) (\<lambda>w3.
        bindE (BS_word set4 i) (\<lambda>w4.
        BS_set_word s i (w1 OR ((w2 AND NOT w3) AND NOT w4))))))) set1)))"

section \<open>What they compute\<close>

text \<open>
  All operands of one operation have \<open>n\<close> words, and there is a pool or the result has room.
\<close>

definition BS_same_size :: "int \<Rightarrow> BS list \<Rightarrow> bool" where
  "BS_same_size n sets \<longleftrightarrow> n \<le> 2 ^ 25 \<and> (\<forall>s \<in> set sets. BS_ok s \<and> BS_word_count s = n)"

definition BS_can_hold :: "BS \<Rightarrow> int \<Rightarrow> BS_WORD MEM_POOL \<Rightarrow> bool" where
  "BS_can_hold bs n pool \<longleftrightarrow> BS_ok bs \<and> (pool \<noteq> Bad_Pool \<or> n \<le> BS_word_count bs)"

lemma BS_same_size_bounds:
  assumes "BS_same_size n (s # sets)"
  shows "INT32 n = n" "0 \<le> n" "n \<le> 2 ^ 25"
proof -
  have s: "BS_ok s" "BS_word_count s = n" "n \<le> 2 ^ 25" using assms by (auto simp: BS_same_size_def)
  then show "INT32 n = n" "0 \<le> n" "n \<le> 2 ^ 25" using BS_ok_sizes [OF s(1)] by simp_all
qed

lemma BS_operand_count: "BS_same_size n sets \<Longrightarrow> s \<in> set sets \<Longrightarrow> BS_word_count s = n"
  and BS_operand_length: "BS_same_size n sets \<Longrightarrow> s \<in> set sets \<Longrightarrow> int (length (BS_words s)) = n"
  by (auto simp: BS_same_size_def BS_ok_count)

lemma BS_operand_elems:
  "BS_same_size n sets \<Longrightarrow> x \<in> BS_elems s \<Longrightarrow> s \<in> set sets \<Longrightarrow> 0 \<le> x \<and> x div 32 < n"
  using BS_operand_length [of n sets s] BS_elems_div_bound [of x s] by simp

text \<open>
  A destructive operation adds \<open>T\<close> to its first argument; a replacement operation gives \<open>T\<close> and
  keeps what the old result had above the operands' words.
\<close>

lemma fused_union:
  assumes dest: "BS_can_hold dest n pool" and n: "0 \<le> n" "n \<le> 2 ^ 25"
    and body: "\<And>i t. 0 \<le> i \<Longrightarrow> i < n \<Longrightarrow> n \<le> int (length (BS_words t))
      \<Longrightarrow> body i t = Inr (t\<lparr>BS_words := (BS_words t)[nat i := BS_words t ! nat i OR g i]\<rparr>)"
    and g: "\<And>x. 0 \<le> x \<Longrightarrow> x div 32 < n \<Longrightarrow> bit (g (x div 32)) (nat (x mod 32)) \<longleftrightarrow> x \<in> T"
    and T: "\<And>x. x \<in> T \<Longrightarrow> 0 \<le> x \<and> x div 32 < n"
  shows "returnsE (bindE (if BS_word_count dest < n then bs_Realloc dest (SIZE_T n) pool else Inr dest)
             (for_loop 0 n body)) (\<lambda>r. BS_is r (BS_elems dest \<union> T))"
proof -
  have ok: "BS_ok dest" "pool \<noteq> Bad_Pool \<or> n \<le> BS_word_count dest"
    using dest by (auto simp: BS_can_hold_def)
  have S: "{x. 0 \<le> x \<and> (if x div 32 < n then x \<in> BS_elems dest \<or> x \<in> T else x \<in> BS_elems dest)}
      = BS_elems dest \<union> T" using T by (rule union_result)
  show ?thesis
    by (rule returnsE_mono [OF enlarge_loop_is [OF ok n body, where G = "\<lambda>x b. b \<or> x \<in> T"]])
      (simp_all add: g S bit_or_iff)
qed

lemma fused_replace:
  assumes dest: "BS_can_hold dest n pool" and n: "0 \<le> n" "n \<le> 2 ^ 25"
    and body: "\<And>i t. 0 \<le> i \<Longrightarrow> i < n \<Longrightarrow> n \<le> int (length (BS_words t))
      \<Longrightarrow> body i t = Inr (t\<lparr>BS_words := (BS_words t)[nat i := g i]\<rparr>)"
    and g: "\<And>x. 0 \<le> x \<Longrightarrow> x div 32 < n \<Longrightarrow> bit (g (x div 32)) (nat (x mod 32)) \<longleftrightarrow> x \<in> T"
    and T: "\<And>x. x \<in> T \<Longrightarrow> 0 \<le> x \<and> x div 32 < n"
  shows "returnsE (bindE (if BS_word_count dest < n then bs_Realloc dest (SIZE_T n) pool else Inr dest)
             (for_loop 0 n body)) (\<lambda>r. BS_is r (T \<union> {x \<in> BS_elems dest. 32 * n \<le> x}))"
proof -
  have ok: "BS_ok dest" "pool \<noteq> Bad_Pool \<or> n \<le> BS_word_count dest"
    using dest by (auto simp: BS_can_hold_def)
  have S: "{x. 0 \<le> x \<and> (if x div 32 < n then x \<in> T else x \<in> BS_elems dest)}
      = T \<union> {x \<in> BS_elems dest. 32 * n \<le> x}" using T by (rule replace_result)
  show ?thesis
    by (rule returnsE_mono [OF enlarge_loop_is [OF ok n body, where G = "\<lambda>x _. x \<in> T"]])
      (simp_all add: g S)
qed

lemma BS_2_1_Minus_3_Or_R_spec:
  assumes same: "BS_same_size n [set1, set2, set3]" and dest: "BS_can_hold result n pool"
  shows "returnsE (BS_2_1_Minus_3_Or_R result set1 set2 set3 pool)
           (\<lambda>r. BS_is r (((BS_elems set2 - BS_elems set1) \<union> BS_elems set3) \<union> {x \<in> BS_elems result. 32 * n \<le> x}))"
proof -
  note n = BS_same_size_bounds [OF same] and len = BS_operand_length [OF same]
  have sz: "INT32 (BS_word_count result) = BS_word_count result"
    using dest by (simp add: BS_can_hold_def BS_ok_sizes)
  show ?thesis
    unfolding BS_2_1_Minus_3_Or_R_def Let_def sz
    by (simp only: BS_operand_count [OF same] list.set insert_iff simp_thms n(1) Is_True_holds bindE_Inr)
      (rule fused_replace [OF dest n(2,3), where g = "\<lambda>i. (NOT (BS_words set1 ! nat i) AND BS_words set2 ! nat i) OR BS_words set3 ! nat i"],
       auto simp: len bit_and_iff bit_or_iff dest: BS_operand_elems [OF same])
qed

lemma BS_2_1_Minus_3_Or_4_And_5_And_6_And_R_spec:
  assumes same: "BS_same_size n [set1, set2, set3, set4, set5, set6]" and dest: "BS_can_hold result n pool"
  shows "returnsE (BS_2_1_Minus_3_Or_4_And_5_And_6_And_R result set1 set2 set3 set4 set5 set6 pool)
           (\<lambda>r. BS_is r ((((BS_elems set2 - BS_elems set1) \<union> BS_elems set3) \<inter> BS_elems set4 \<inter> BS_elems set5 \<inter> BS_elems set6) \<union> {x \<in> BS_elems result. 32 * n \<le> x}))"
proof -
  note n = BS_same_size_bounds [OF same] and len = BS_operand_length [OF same]
  have sz: "INT32 (BS_word_count result) = BS_word_count result"
    using dest by (simp add: BS_can_hold_def BS_ok_sizes)
  show ?thesis
    unfolding BS_2_1_Minus_3_Or_4_And_5_And_6_And_R_def Let_def sz
    by (simp only: BS_operand_count [OF same] list.set insert_iff simp_thms n(1) Is_True_holds bindE_Inr)
      (rule fused_replace [OF dest n(2,3), where g = "\<lambda>i. ((((NOT (BS_words set1 ! nat i) AND BS_words set2 ! nat i) OR BS_words set3 ! nat i) AND BS_words set4 ! nat i) AND BS_words set5 ! nat i) AND BS_words set6 ! nat i"],
       auto simp: len bit_and_iff bit_or_iff dest: BS_operand_elems [OF same])
qed

lemma BS_2_1_Minus_3_Or_4_And_R_spec:
  assumes same: "BS_same_size n [set1, set2, set3, set4]" and dest: "BS_can_hold result n pool"
  shows "returnsE (BS_2_1_Minus_3_Or_4_And_R result set1 set2 set3 set4 pool)
           (\<lambda>r. BS_is r ((((BS_elems set2 - BS_elems set1) \<union> BS_elems set3) \<inter> BS_elems set4) \<union> {x \<in> BS_elems result. 32 * n \<le> x}))"
proof -
  note n = BS_same_size_bounds [OF same] and len = BS_operand_length [OF same]
  have sz: "INT32 (BS_word_count result) = BS_word_count result"
    using dest by (simp add: BS_can_hold_def BS_ok_sizes)
  show ?thesis
    unfolding BS_2_1_Minus_3_Or_4_And_R_def Let_def sz
    by (simp only: BS_operand_count [OF same] list.set insert_iff simp_thms n(1) Is_True_holds bindE_Inr)
      (rule fused_replace [OF dest n(2,3), where g = "\<lambda>i. ((NOT (BS_words set1 ! nat i) AND BS_words set2 ! nat i) OR BS_words set3 ! nat i) AND BS_words set4 ! nat i"],
       auto simp: len bit_and_iff bit_or_iff dest: BS_operand_elems [OF same])
qed

lemma BS_1_Not_2_Or_3_Minus_4_And_R_spec:
  assumes same: "BS_same_size n [set1, set2, set3, set4]" and dest: "BS_can_hold result n pool"
  shows "returnsE (BS_1_Not_2_Or_3_Minus_4_And_R result set1 set2 set3 set4 pool)
           (\<lambda>r. BS_is r ((BS_elems set4 - BS_elems set3 - (BS_elems set1 - BS_elems set2)) \<union> {x \<in> BS_elems result. 32 * n \<le> x}))"
proof -
  note n = BS_same_size_bounds [OF same] and len = BS_operand_length [OF same]
  have sz: "INT32 (BS_word_count result) = BS_word_count result"
    using dest by (simp add: BS_can_hold_def BS_ok_sizes)
  show ?thesis
    unfolding BS_1_Not_2_Or_3_Minus_4_And_R_def Let_def sz
    by (simp only: BS_operand_count [OF same] list.set insert_iff simp_thms n(1) Is_True_holds bindE_Inr)
      (rule fused_replace [OF dest n(2,3), where g = "\<lambda>i. ((NOT (BS_words set1 ! nat i) OR BS_words set2 ! nat i) AND NOT (BS_words set3 ! nat i)) AND BS_words set4 ! nat i"],
       auto simp: len bit_and_iff bit_or_iff dest: BS_operand_elems [OF same])
qed

lemma BS_1_2_Or_3_And_R_spec:
  assumes same: "BS_same_size n [set1, set2, set3]" and dest: "BS_can_hold result n pool"
  shows "returnsE (BS_1_2_Or_3_And_R result set1 set2 set3 pool)
           (\<lambda>r. BS_is r (((BS_elems set1 \<union> BS_elems set2) \<inter> BS_elems set3) \<union> {x \<in> BS_elems result. 32 * n \<le> x}))"
proof -
  note n = BS_same_size_bounds [OF same] and len = BS_operand_length [OF same]
  have sz: "INT32 (BS_word_count result) = BS_word_count result"
    using dest by (simp add: BS_can_hold_def BS_ok_sizes)
  show ?thesis
    unfolding BS_1_2_Or_3_And_R_def Let_def sz
    by (simp only: BS_operand_count [OF same] list.set insert_iff simp_thms n(1) Is_True_holds bindE_Inr)
      (rule fused_replace [OF dest n(2,3), where g = "\<lambda>i. (BS_words set1 ! nat i OR BS_words set2 ! nat i) AND BS_words set3 ! nat i"],
       auto simp: len bit_and_iff bit_or_iff dest: BS_operand_elems [OF same])
qed

lemma BS_3_2_Minus_1_Or_D_spec:
  assumes same: "BS_same_size n [set2, set3]" and dest: "BS_can_hold set1 n pool"
  shows "returnsE (BS_3_2_Minus_1_Or_D set1 set2 set3 pool)
           (\<lambda>r. BS_is r (BS_elems set1 \<union> (BS_elems set3 - BS_elems set2)))"
proof -
  note n = BS_same_size_bounds [OF same] and len = BS_operand_length [OF same]
  have sz: "INT32 (BS_word_count set1) = BS_word_count set1"
    using dest by (simp add: BS_can_hold_def BS_ok_sizes)
  show ?thesis
    unfolding BS_3_2_Minus_1_Or_D_def Let_def sz
    by (simp only: BS_operand_count [OF same] list.set insert_iff simp_thms n(1) Is_True_holds bindE_Inr)
      (rule fused_union [OF dest n(2,3), where g = "\<lambda>i. NOT (BS_words set2 ! nat i) AND BS_words set3 ! nat i"],
       auto simp: len bit_and_iff bit_or_iff dest: BS_operand_elems [OF same])
qed

lemma BS_3_2_Minus_4_Or_1_Or_D_spec:
  assumes same: "BS_same_size n [set2, set3, set4]" and dest: "BS_can_hold set1 n pool"
  shows "returnsE (BS_3_2_Minus_4_Or_1_Or_D set1 set2 set3 set4 pool)
           (\<lambda>r. BS_is r (BS_elems set1 \<union> ((BS_elems set3 - BS_elems set2) \<union> BS_elems set4)))"
proof -
  note n = BS_same_size_bounds [OF same] and len = BS_operand_length [OF same]
  have sz: "INT32 (BS_word_count set1) = BS_word_count set1"
    using dest by (simp add: BS_can_hold_def BS_ok_sizes)
  show ?thesis
    unfolding BS_3_2_Minus_4_Or_1_Or_D_def Let_def sz
    by (simp only: BS_operand_count [OF same] list.set insert_iff simp_thms n(1) Is_True_holds bindE_Inr)
      (rule fused_union [OF dest n(2,3), where g = "\<lambda>i. (NOT (BS_words set2 ! nat i) AND BS_words set3 ! nat i) OR BS_words set4 ! nat i"],
       auto simp: len bit_and_iff bit_or_iff dest: BS_operand_elems [OF same])
qed

lemma BS_3_2_Minus_4_Or_5_Or_1_Or_D_spec:
  assumes same: "BS_same_size n [set2, set3, set4, set5]" and dest: "BS_can_hold set1 n pool"
  shows "returnsE (BS_3_2_Minus_4_Or_5_Or_1_Or_D set1 set2 set3 set4 set5 pool)
           (\<lambda>r. BS_is r (BS_elems set1 \<union> ((BS_elems set3 - BS_elems set2) \<union> BS_elems set4 \<union> BS_elems set5)))"
proof -
  note n = BS_same_size_bounds [OF same] and len = BS_operand_length [OF same]
  have sz: "INT32 (BS_word_count set1) = BS_word_count set1"
    using dest by (simp add: BS_can_hold_def BS_ok_sizes)
  show ?thesis
    unfolding BS_3_2_Minus_4_Or_5_Or_1_Or_D_def Let_def sz
    by (simp only: BS_operand_count [OF same] list.set insert_iff simp_thms n(1) Is_True_holds bindE_Inr)
      (rule fused_union [OF dest n(2,3), where g = "\<lambda>i. ((NOT (BS_words set2 ! nat i) AND BS_words set3 ! nat i) OR BS_words set4 ! nat i) OR BS_words set5 ! nat i"],
       auto simp: len bit_and_iff bit_or_iff dest: BS_operand_elems [OF same])
qed

lemma BS_2_3_Or_1_Or_D_spec:
  assumes same: "BS_same_size n [set2, set3]" and dest: "BS_can_hold set1 n pool"
  shows "returnsE (BS_2_3_Or_1_Or_D set1 set2 set3 pool)
           (\<lambda>r. BS_is r (BS_elems set1 \<union> (BS_elems set2 \<union> BS_elems set3)))"
proof -
  note n = BS_same_size_bounds [OF same] and len = BS_operand_length [OF same]
  have sz: "INT32 (BS_word_count set1) = BS_word_count set1"
    using dest by (simp add: BS_can_hold_def BS_ok_sizes)
  show ?thesis
    unfolding BS_2_3_Or_1_Or_D_def Let_def sz
    by (simp only: BS_operand_count [OF same] list.set insert_iff simp_thms n(1) Is_True_holds bindE_Inr)
      (rule fused_union [OF dest n(2,3), where g = "\<lambda>i. BS_words set2 ! nat i OR BS_words set3 ! nat i"],
       auto simp: len bit_and_iff bit_or_iff dest: BS_operand_elems [OF same])
qed

lemma BS_3_Not_4_Or_2_And_1_Or_D_spec:
  assumes same: "BS_same_size n [set2, set3, set4]" and dest: "BS_can_hold set1 n pool"
  shows "returnsE (BS_3_Not_4_Or_2_And_1_Or_D set1 set2 set3 set4 pool)
           (\<lambda>r. BS_is r (BS_elems set1 \<union> (BS_elems set2 - (BS_elems set3 - BS_elems set4))))"
proof -
  note n = BS_same_size_bounds [OF same] and len = BS_operand_length [OF same]
  have sz: "INT32 (BS_word_count set1) = BS_word_count set1"
    using dest by (simp add: BS_can_hold_def BS_ok_sizes)
  show ?thesis
    unfolding BS_3_Not_4_Or_2_And_1_Or_D_def Let_def sz
    by (simp only: BS_operand_count [OF same] list.set insert_iff simp_thms n(1) Is_True_holds bindE_Inr)
      (rule fused_union [OF dest n(2,3), where g = "\<lambda>i. BS_words set2 ! nat i AND (NOT (BS_words set3 ! nat i) OR BS_words set4 ! nat i)"],
       auto simp: len bit_and_iff bit_or_iff dest: BS_operand_elems [OF same])
qed

lemma BS_2_3_Minus_1_Or_D_spec:
  assumes same: "BS_same_size n [set2, set3]" and dest: "BS_can_hold set1 n pool"
  shows "returnsE (BS_2_3_Minus_1_Or_D set1 set2 set3 pool)
           (\<lambda>r. BS_is r (BS_elems set1 \<union> (BS_elems set2 - BS_elems set3)))"
proof -
  note n = BS_same_size_bounds [OF same] and len = BS_operand_length [OF same]
  have sz: "INT32 (BS_word_count set1) = BS_word_count set1"
    using dest by (simp add: BS_can_hold_def BS_ok_sizes)
  show ?thesis
    unfolding BS_2_3_Minus_1_Or_D_def Let_def sz
    by (simp only: BS_operand_count [OF same] list.set insert_iff simp_thms n(1) Is_True_holds bindE_Inr)
      (rule fused_union [OF dest n(2,3), where g = "\<lambda>i. BS_words set2 ! nat i AND NOT (BS_words set3 ! nat i)"],
       auto simp: len bit_and_iff bit_or_iff dest: BS_operand_elems [OF same])
qed

lemma BS_2_3_Minus_4_Minus_1_Or_D_spec:
  assumes same: "BS_same_size n [set2, set3, set4]" and dest: "BS_can_hold set1 n pool"
  shows "returnsE (BS_2_3_Minus_4_Minus_1_Or_D set1 set2 set3 set4 pool)
           (\<lambda>r. BS_is r (BS_elems set1 \<union> (BS_elems set2 - BS_elems set3 - BS_elems set4)))"
proof -
  note n = BS_same_size_bounds [OF same] and len = BS_operand_length [OF same]
  have sz: "INT32 (BS_word_count set1) = BS_word_count set1"
    using dest by (simp add: BS_can_hold_def BS_ok_sizes)
  show ?thesis
    unfolding BS_2_3_Minus_4_Minus_1_Or_D_def Let_def sz
    by (simp only: BS_operand_count [OF same] list.set insert_iff simp_thms n(1) Is_True_holds bindE_Inr)
      (rule fused_union [OF dest n(2,3), where g = "\<lambda>i. (BS_words set2 ! nat i AND NOT (BS_words set3 ! nat i)) AND NOT (BS_words set4 ! nat i)"],
       auto simp: len bit_and_iff bit_or_iff dest: BS_operand_elems [OF same])
qed

text \<open>\<^verbatim>\<open>BS_2_3_And_1_Or_D\<close> is \<^verbatim>\<open>BS_UnionD_Intersection\<close> under another name.\<close>

lemma BS_2_3_And_1_Or_D_eq: "BS_2_3_And_1_Or_D = BS_UnionD_Intersection"
  by (intro ext) (simp add: BS_2_3_And_1_Or_D_def BS_UnionD_Intersection_def)

lemma BS_4_3_Minus_2_Not_Or_1_And_D_spec:
  assumes same: "BS_same_size n [set2, set3, set4]" and dest: "BS_can_hold set1 n pool"
  shows "returnsE (BS_4_3_Minus_2_Not_Or_1_And_D set1 set2 set3 set4 pool)
           (\<lambda>r. BS_is r (BS_elems set1 - (BS_elems set2 - (BS_elems set4 - BS_elems set3))))"
proof -
  note n = BS_same_size_bounds [OF same] and len = BS_operand_length [OF same]
  have ok: "BS_ok set1" "pool \<noteq> Bad_Pool \<or> n \<le> BS_word_count set1"
    using dest by (auto simp: BS_can_hold_def)
  have "returnsE (BS_4_3_Minus_2_Not_Or_1_And_D set1 set2 set3 set4 pool)
      (\<lambda>r. BS_is r {x. 0 \<le> x \<and> (if x div 32 < n
          then x \<in> BS_elems set1 \<and> (x \<notin> BS_elems set2 \<or> x \<in> BS_elems set4 \<and> x \<notin> BS_elems set3)
          else x \<in> BS_elems set1)} \<and> BS_word_count set1 \<le> BS_word_count r)"
    unfolding BS_4_3_Minus_2_Not_Or_1_And_D_def Let_def BS_ok_sizes(1) [OF ok(1)]
    by (simp only: BS_operand_count [OF same] list.set insert_iff simp_thms n(1) Is_True_holds bindE_Inr)
      (rule enlarge_loop_is [OF ok n(2,3), where g = "\<lambda>i w. w AND (NOT (BS_words set2 ! nat i) OR
            (BS_words set4 ! nat i AND NOT (BS_words set3 ! nat i)))"],
       simp_all add: len bit_and_iff bit_or_iff)
  moreover have "{x. 0 \<le> x \<and> (if x div 32 < n
          then x \<in> BS_elems set1 \<and> (x \<notin> BS_elems set2 \<or> x \<in> BS_elems set4 \<and> x \<notin> BS_elems set3)
          else x \<in> BS_elems set1)} = BS_elems set1 - (BS_elems set2 - (BS_elems set4 - BS_elems set3))"
    by (auto dest: BS_elems_nonneg BS_operand_elems [OF same])
  ultimately show ?thesis by (auto elim: returnsE_mono)
qed

end
