(* ===== verification/Bitset_Test.thy ===== *)
theory Bitset_Test
  imports Bitset_Fused
begin

text \<open>
  Testing and printing bit sets (\<^verbatim>\<open>src/src/common/util/bitset.c\<close>, \<^verbatim>\<open>BS_ContainsP\<close> to
  \<^verbatim>\<open>FBS_Union1D_Validate\<close>).  What \<^verbatim>\<open>BS_Print\<close> writes to its file is the string it returns here.
\<close>

section \<open>Operations\<close>

definition BS_ContainsP :: "BS \<Rightarrow> BS \<Rightarrow> bool outcome" where
  "BS_ContainsP set1 set2 =
     (let minsize = INT32 (if BS_word_count set1 < BS_word_count set2 then BS_word_count set1
                           else BS_word_count set2) in
      bindE (or_elseE
        (search_loop 0 minsize (\<lambda>i. bindE (BS_word set1 i) (\<lambda>w1. bindE (BS_word set2 i) (\<lambda>w2.
           Inr (if w1 \<noteq> w1 OR w2 then Some False else None)))))
        (search_loop minsize (BS_word_count set2) (\<lambda>i. bindE (BS_word set2 i) (\<lambda>w2.
           Inr (if w2 \<noteq> bs_ZEROS then Some False else None)))))
      (\<lambda>r. Inr (case r of Some v \<Rightarrow> v | None \<Rightarrow> True)))"

definition BS_EmptyP :: "BS \<Rightarrow> bool outcome" where
  "BS_EmptyP bs =
     bindE (search_loop 0 (BS_word_count bs) (\<lambda>i. bindE (BS_word bs i) (\<lambda>w.
              Inr (if w \<noteq> bs_ZEROS then Some False else None))))
     (\<lambda>r. Inr (case r of Some v \<Rightarrow> v | None \<Rightarrow> True))"

definition BS_EqualP :: "BS \<Rightarrow> BS \<Rightarrow> bool outcome" where
  "BS_EqualP set1 set2 =
     (let (set1, set2) = (if BS_word_count set1 > BS_word_count set2 then (set2, set1) else (set1, set2)) in
      bindE (or_elseE
        (search_loop 0 (BS_word_count set1) (\<lambda>i. bindE (BS_word set1 i) (\<lambda>w1. bindE (BS_word set2 i) (\<lambda>w2.
           Inr (if w1 \<noteq> w2 then Some False else None)))))
        (search_loop (BS_word_count set1) (BS_word_count set2) (\<lambda>i. bindE (BS_word set2 i) (\<lambda>w2.
           Inr (if w2 \<noteq> bs_ZEROS then Some False else None)))))
      (\<lambda>r. Inr (case r of Some v \<Rightarrow> v | None \<Rightarrow> True)))"

definition BS_IntersectsP :: "BS \<Rightarrow> BS \<Rightarrow> bool outcome" where
  "BS_IntersectsP set1 set2 =
     (let minsize = INT32 (if BS_word_count set1 < BS_word_count set2 then BS_word_count set1
                           else BS_word_count set2) in
      bindE (search_loop 0 minsize (\<lambda>i. bindE (BS_word set1 i) (\<lambda>w1. bindE (BS_word set2 i) (\<lambda>w2.
               Inr (if w1 AND w2 \<noteq> bs_ZEROS then Some True else None)))))
      (\<lambda>r. Inr (case r of Some v \<Rightarrow> v | None \<Rightarrow> False)))"

definition BS_MemberP :: "BS \<Rightarrow> BS_ELT \<Rightarrow> bool outcome" where
  "BS_MemberP bs x =
     bindE (Is_True (x \<ge> 0) ''BS_Member called with negative element.'') (\<lambda>_.
     if bs_QBPW x \<ge> BS_word_count bs then Inr False
     else bindE (BS_byte bs (bs_QBPB x)) (\<lambda>byte.
          Inr (byte AND ucast (push_bit (nat (bs_RBPB x)) bs_ONE) \<noteq> 0)))"

definition BS_Intersection_MemberP :: "BS \<Rightarrow> BS \<Rightarrow> BS_ELT \<Rightarrow> bool outcome" where
  "BS_Intersection_MemberP set1 set2 x =
     bindE (Is_True (x \<ge> 0) ''BS_Member called with negative element.'') (\<lambda>_.
     if bs_QBPW x \<ge> BS_word_count set1 \<or> bs_QBPW x \<ge> BS_word_count set2 then Inr False
     else bindE (BS_byte set1 (bs_QBPB x)) (\<lambda>byte1. bindE (BS_byte set2 (bs_QBPB x)) (\<lambda>byte2.
          Inr ((byte1 AND byte2) AND ucast (push_bit (nat (bs_RBPB x)) bs_ONE) \<noteq> 0))))"

definition FBS_MemberP_Validate :: "BS \<Rightarrow> BS_ELT \<Rightarrow> bool outcome" where
  "FBS_MemberP_Validate bs x =
     bindE (Is_True (x \<ge> 0) ''FBS_Member called with negative element.'') (\<lambda>_.
     bindE (Is_True (bs_QBPW x < BS_word_count bs) ''FBS_Member called with out of bound element.'') (\<lambda>_.
     bindE (BS_byte bs (bs_QBPB x)) (\<lambda>byte.
     Inr (byte AND ucast (push_bit (nat (bs_RBPB x)) bs_ONE) \<noteq> 0))))"

definition FBS_Union1D_Validate :: "BS \<Rightarrow> BS_ELT \<Rightarrow> BS outcome" where
  "FBS_Union1D_Validate bs x =
     (let minsize = bs_QBPW x + 1 in
      bindE (Is_True (x \<ge> 0) ''FBS_Union1D called with negative element.'') (\<lambda>_.
      bindE (Is_True (minsize \<le> BS_word_count bs) ''FBS_Union1D called with out of bound element.'') (\<lambda>_.
      bindE (BS_byte bs (bs_QBPB x)) (\<lambda>byte.
      BS_set_byte bs (bs_QBPB x) (byte OR ucast (push_bit (nat (bs_RBPB x)) bs_ONE))))))"

section \<open>Printing\<close>

text \<open>\<^verbatim>\<open>PrintRange\<close> gives the new value of \<^verbatim>\<open>*first\<close> and what it writes.\<close>

definition PrintRange :: "BS_ELT \<Rightarrow> BS_ELT \<Rightarrow> bool \<Rightarrow> bool \<times> string" where
  "PrintRange low high first =
     (False, (if first then '''' else '','') @
        (if low = high then print_int low else print_int low @ ''-'' @ print_int high))"

text \<open>The loop, with a bound on its iterations; it gives \<open>range_first\<close>, \<open>last_elt\<close>, \<open>first\<close> and the output.\<close>

fun BS_Print_loop ::
    "nat \<Rightarrow> BS \<Rightarrow> BS_ELT \<Rightarrow> BS_ELT \<Rightarrow> BS_ELT \<Rightarrow> bool \<Rightarrow> string \<Rightarrow> (BS_ELT \<times> BS_ELT \<times> bool \<times> string) outcome" where
  "BS_Print_loop 0 bs elt range_first last_elt first f = Inl Diverges"
| "BS_Print_loop (Suc fuel) bs elt range_first last_elt first f =
     bindE (BS_Choose_Next bs elt) (\<lambda>elt.
     if elt \<noteq> BS_CHOOSE_FAILURE then
       (let (range_first, first, f) =
          (if elt \<noteq> INT32 (last_elt + 1)
           then (let (first', s) = PrintRange range_first last_elt first in (elt, first', f @ s))
           else (range_first, first, f)) in
        BS_Print_loop fuel bs elt range_first elt first f)
     else Inr (range_first, last_elt, first, f))"

text \<open>Every iteration moves to a larger element, so one iteration more than there are bits is enough.\<close>

definition BS_Print :: "BS option \<Rightarrow> string outcome" where
  "BS_Print bs = (case bs of
      None \<Rightarrow> Inr ''<NULL>''
    | Some bs \<Rightarrow>
        let f = ''{'' in
        bindE (BS_Choose bs) (\<lambda>elt.
        if elt = BS_CHOOSE_FAILURE then Inr (f @ ''}'')
        else bindE (BS_Print_loop (Suc (nat (32 * BS_word_count bs))) bs elt elt elt True f)
          (\<lambda>(range_first, last_elt, first, f).
           let (first, s) = PrintRange range_first last_elt first in Inr (f @ s @ ''}''))))"

definition BS_Print_dbg :: "BS option \<Rightarrow> string outcome" where
  "BS_Print_dbg bs = bindE (BS_Print bs) (\<lambda>f. Inr (f @ [CHR 0x0A]))"

section \<open>The tests\<close>

lemma search_loop_flag:
  assumes "\<And>i. lo \<le> i \<Longrightarrow> i < hi \<Longrightarrow> body i = Inr (if P i then Some v else None)"
  shows "search_loop lo hi body = Inr (if \<exists>i \<in> {lo..<hi}. P i then Some v else None)"
  using search_loop_spec [of lo hi body "\<lambda>i. if P i then Some v else None"] assms
  by (auto simp: returnsE_iff first_hit_def split: option.splits if_splits)

lemma word_eq_members:
  "w1 = w2 \<longleftrightarrow> (\<forall>x. x div 32 = i \<longrightarrow> bit w1 (nat (x mod 32)) = bit w2 (nat (x mod 32)))" for w1 w2 :: BS_WORD
proof
  assume members: "\<forall>x. x div 32 = i \<longrightarrow> bit w1 (nat (x mod 32)) = bit w2 (nat (x mod 32))"
  show "w1 = w2"
  proof (rule bit_word_eqI)
    fix k
    assume "k < LENGTH(32)"
    then have "(32 * i + int k) div 32 = i" "nat ((32 * i + int k) mod 32) = k" by simp_all
    with members show "bit w1 k = bit w2 k" by metis
  qed
qed simp

text \<open>A search for an index where two words differ is a search for an element.\<close>

lemma search_words_differ:
  assumes body: "\<And>i. lo \<le> i \<Longrightarrow> i < hi \<Longrightarrow> body i = Inr (if p i \<noteq> (q i :: BS_WORD) then Some v else None)"
    and bits: "\<And>x. lo \<le> x div 32 \<Longrightarrow> x div 32 < hi \<Longrightarrow>
        (bit (p (x div 32)) (nat (x mod 32)) = bit (q (x div 32)) (nat (x mod 32))) \<longleftrightarrow> Q x"
  shows "search_loop lo hi body = Inr (if \<exists>x. lo \<le> x div 32 \<and> x div 32 < hi \<and> \<not> Q x then Some v else None)"
proof -
  have "p i = q i \<longleftrightarrow> (\<forall>x. x div 32 = i \<longrightarrow> Q x)" if "lo \<le> i" "i < hi" for i
    unfolding word_eq_members [of "p i" "q i" i] using bits that by blast
  then have "(\<exists>i \<in> {lo..<hi}. p i \<noteq> q i) \<longleftrightarrow> (\<exists>x. lo \<le> x div 32 \<and> x div 32 < hi \<and> \<not> Q x)"
    by (metis atLeastLessThan_iff)
  with search_loop_flag [of lo hi body "\<lambda>i. p i \<noteq> q i" v] body show ?thesis by simp
qed

lemma member_position:
  assumes "BS_ok bs" "x \<in> BS_elems bs"
  shows "0 \<le> x div 32" "x div 32 < BS_word_count bs"
  using BS_elems_div_bound [OF assms(2)] BS_ok_count [OF assms(1)] by simp_all

lemma BS_EmptyP_spec:
  assumes "BS_ok bs"
  shows "BS_EmptyP bs = Inr (BS_elems bs = {})"
proof -
  have "search_loop 0 (BS_word_count bs) (\<lambda>i. bindE (BS_word bs i) (\<lambda>w.
      Inr (if w \<noteq> bs_ZEROS then Some False else None)))
    = Inr (if \<exists>x. 0 \<le> x div 32 \<and> x div 32 < BS_word_count bs \<and> \<not> x \<notin> BS_elems bs then Some False else None)"
    using assms
    by (intro search_words_differ [where p = "\<lambda>i. BS_words bs ! nat i" and q = "\<lambda>_. 0"]) (simp_all add: BS_ok_count)
  moreover have "(\<exists>x. 0 \<le> x div 32 \<and> x div 32 < BS_word_count bs \<and> \<not> x \<notin> BS_elems bs) \<longleftrightarrow> BS_elems bs \<noteq> {}"
    using member_position [OF assms] by blast
  ultimately show ?thesis by (simp add: BS_EmptyP_def)
qed

lemma excess_words:
  assumes "BS_ok bs" "0 \<le> lo"
  shows "search_loop lo (BS_word_count bs) (\<lambda>i. bindE (BS_word bs i) (\<lambda>w.
      Inr (if w \<noteq> bs_ZEROS then Some v else None)))
    = Inr (if \<exists>x \<in> BS_elems bs. lo \<le> x div 32 then Some v else None)"
proof -
  have pos: "0 \<le> x" if "lo \<le> x div 32" for x :: int
    using that assms(2) div_numeral_nonneg [of x] by (meson order_trans)
  have "search_loop lo (BS_word_count bs) (\<lambda>i. bindE (BS_word bs i) (\<lambda>w.
      Inr (if w \<noteq> bs_ZEROS then Some v else None)))
    = Inr (if \<exists>x. lo \<le> x div 32 \<and> x div 32 < BS_word_count bs \<and> \<not> x \<notin> BS_elems bs then Some v else None)"
    using assms pos
    by (intro search_words_differ [where p = "\<lambda>i. BS_words bs ! nat i" and q = "\<lambda>_. 0"]) (simp_all add: BS_ok_count)
  also have "(\<exists>x. lo \<le> x div 32 \<and> x div 32 < BS_word_count bs \<and> \<not> x \<notin> BS_elems bs)
      \<longleftrightarrow> (\<exists>x \<in> BS_elems bs. lo \<le> x div 32)"
    using member_position [OF assms(1)] by blast
  finally show ?thesis .
qed

lemma BS_ContainsP_spec:
  assumes ok: "BS_ok set1" "BS_ok set2"
  shows "BS_ContainsP set1 set2 = Inr (BS_elems set2 \<subseteq> BS_elems set1)"
proof -
  define m where "m = int (min (length (BS_words set1)) (length (BS_words set2)))"
  have m: "INT32 m = m" "0 \<le> m" using min_word_count(2) [OF ok] by (simp_all add: m_def INT32_id)
  have common: "search_loop 0 m (\<lambda>i. bindE (BS_word set1 i) (\<lambda>w1. bindE (BS_word set2 i) (\<lambda>w2.
      Inr (if w1 \<noteq> w1 OR w2 then Some False else None))))
    = Inr (if \<exists>x. 0 \<le> x div 32 \<and> x div 32 < m \<and> \<not> (x \<in> BS_elems set2 \<longrightarrow> x \<in> BS_elems set1) then Some False else None)"
    by (rule search_words_differ [where p = "\<lambda>i. BS_words set1 ! nat i"
          and q = "\<lambda>i. BS_words set1 ! nat i OR BS_words set2 ! nat i"])
      (auto simp: m_def bit_or_iff)
  have "BS_elems set2 \<subseteq> BS_elems set1 \<longleftrightarrow>
      \<not> (\<exists>x. 0 \<le> x div 32 \<and> x div 32 < m \<and> \<not> (x \<in> BS_elems set2 \<longrightarrow> x \<in> BS_elems set1))
      \<and> \<not> (\<exists>x \<in> BS_elems set2. m \<le> x div 32)"
    (is "_ \<longleftrightarrow> \<not> ?A \<and> \<not> ?B")
  proof
    assume sub: "BS_elems set2 \<subseteq> BS_elems set1"
    have "x div 32 < m" if "x \<in> BS_elems set2" for x
      using BS_elems_div_bound [OF that] BS_elems_div_bound [OF subsetD [OF sub that]] by (simp add: m_def of_nat_min)
    with sub show "\<not> ?A \<and> \<not> ?B" by force
  next
    assume "\<not> ?A \<and> \<not> ?B"
    then show "BS_elems set2 \<subseteq> BS_elems set1"
      using BS_elems_div_bound [of _ set2] by (meson div_numeral_nonneg linorder_not_le subsetI)
  qed
  then show ?thesis
    unfolding BS_ContainsP_def Let_def min_word_count(1) [OF ok] m_def [symmetric] m(1) common
      excess_words [OF ok(2) m(2)]
    by (cases ?A; cases ?B; simp only: if_True if_False or_elseE_simps simp_thms bindE_Inr option.case)
qed

lemma BS_EqualP_spec:
  assumes ok: "BS_ok set1" "BS_ok set2"
  shows "BS_EqualP set1 set2 = Inr (BS_elems set1 = BS_elems set2)"
proof -
  have smaller: "or_elseE
        (search_loop 0 (BS_word_count a) (\<lambda>i. bindE (BS_word a i) (\<lambda>w1. bindE (BS_word b i) (\<lambda>w2.
           Inr (if w1 \<noteq> w2 then Some False else None)))))
        (search_loop (BS_word_count a) (BS_word_count b) (\<lambda>i. bindE (BS_word b i) (\<lambda>w2.
           Inr (if w2 \<noteq> bs_ZEROS then Some False else None))))
      = Inr (if BS_elems a = BS_elems b then None else Some False)"
    if ab: "BS_ok a" "BS_ok b" "BS_word_count a \<le> BS_word_count b" for a b
  proof -
    have common: "search_loop 0 (BS_word_count a) (\<lambda>i. bindE (BS_word a i) (\<lambda>w1. bindE (BS_word b i) (\<lambda>w2.
           Inr (if w1 \<noteq> w2 then Some False else None))))
      = Inr (if \<exists>x. 0 \<le> x div 32 \<and> x div 32 < BS_word_count a \<and> \<not> (x \<in> BS_elems a \<longleftrightarrow> x \<in> BS_elems b)
             then Some False else None)"
      using ab by (intro search_words_differ [where p = "\<lambda>i. BS_words a ! nat i" and q = "\<lambda>i. BS_words b ! nat i"])
        (simp_all add: BS_ok_count)
    have "BS_elems a = BS_elems b \<longleftrightarrow>
        \<not> (\<exists>x. 0 \<le> x div 32 \<and> x div 32 < BS_word_count a \<and> \<not> (x \<in> BS_elems a \<longleftrightarrow> x \<in> BS_elems b))
        \<and> \<not> (\<exists>x \<in> BS_elems b. BS_word_count a \<le> x div 32)"
      (is "_ \<longleftrightarrow> \<not> ?A \<and> \<not> ?B")
      using member_position [OF ab(1)] member_position [OF ab(2)] by (metis linorder_not_le set_eq_iff)
    then show ?thesis
      unfolding common excess_words [OF ab(2) BS_ok_sizes(3) [OF ab(1)]]
      by (cases ?A; cases ?B; simp only: if_True if_False or_elseE_simps simp_thms)
  qed
  show ?thesis
    using smaller [of set1 set2] smaller [of set2 set1] ok by (auto simp: BS_EqualP_def)
qed

lemma BS_IntersectsP_spec:
  assumes ok: "BS_ok set1" "BS_ok set2"
  shows "BS_IntersectsP set1 set2 = Inr (BS_elems set1 \<inter> BS_elems set2 \<noteq> {})"
proof -
  define m where "m = int (min (length (BS_words set1)) (length (BS_words set2)))"
  have m: "INT32 m = m" "0 \<le> m" using min_word_count(2) [OF ok] by (simp_all add: m_def INT32_id)
  have common: "search_loop 0 m (\<lambda>i. bindE (BS_word set1 i) (\<lambda>w1. bindE (BS_word set2 i) (\<lambda>w2.
      Inr (if w1 AND w2 \<noteq> bs_ZEROS then Some True else None))))
    = Inr (if \<exists>x. 0 \<le> x div 32 \<and> x div 32 < m \<and> \<not> \<not> (x \<in> BS_elems set1 \<and> x \<in> BS_elems set2) then Some True else None)"
    by (rule search_words_differ [where p = "\<lambda>i. BS_words set1 ! nat i AND BS_words set2 ! nat i" and q = "\<lambda>_. 0"])
      (auto simp: m_def bit_and_iff)
  have "0 \<le> x div 32 \<and> x div 32 < m" if "x \<in> BS_elems set1" "x \<in> BS_elems set2" for x
    using BS_elems_div_bound [OF that(1)] BS_elems_div_bound [OF that(2)] by (simp add: m_def of_nat_min)
  then have "(\<exists>x. 0 \<le> x div 32 \<and> x div 32 < m \<and> \<not> \<not> (x \<in> BS_elems set1 \<and> x \<in> BS_elems set2))
      \<longleftrightarrow> BS_elems set1 \<inter> BS_elems set2 \<noteq> {}" by blast
  then show ?thesis
    unfolding BS_IntersectsP_def Let_def min_word_count(1) [OF ok] m_def [symmetric] m(1) common by simp
qed

text \<open>Testing one bit of one byte.\<close>

lemma byte_test:
  assumes "\<forall>k. bit b k \<longleftrightarrow> k < 8 \<and> 8 * (x div 8) + int k \<in> S"
  shows "b AND ucast (push_bit (nat (x mod 8)) bs_ONE) \<noteq> (0 :: BS_BYTE) \<longleftrightarrow> x \<in> S"
proof -
  define k where "k = nat (x mod 8)"
  have k: "k < 8" "8 * (x div 8) + int k = x" using mult_div_mod_eq [of 8 x] by (simp_all add: k_def)
  have "bit (ucast (push_bit k bs_ONE) :: BS_BYTE) j \<longleftrightarrow> j = k" for j
    using k(1) by (auto simp: bit_simps)
  then have "bit (b AND ucast (push_bit k bs_ONE)) j \<longleftrightarrow> j = k \<and> x \<in> S" for j
    unfolding bit_and_iff using assms k by auto
  then show ?thesis unfolding k_def [symmetric] by (auto simp: word_eq_0_iff_bit)
qed

lemma byte_test_returns:
  assumes "BS_ok bs" "0 \<le> x" "x div 32 < BS_word_count bs"
  shows "bindE (BS_byte bs (x div 8)) (\<lambda>byte. Inr (byte AND ucast (push_bit (nat (x mod 8)) bs_ONE) \<noteq> 0))
    = Inr (x \<in> BS_elems bs)"
proof -
  note here = byte_of_element(3,4) [OF assms]
  show ?thesis by (rule returnsE_E [OF bit_BS_byte [OF here]]) (simp add: byte_test del: bs_constants)
qed

lemma BS_MemberP_spec:
  assumes ok: "BS_ok bs" and x: "0 \<le> x" "x < 2 ^ 31"
  shows "BS_MemberP bs x = Inr (x \<in> BS_elems bs)"
proof (cases "x div 32 < BS_word_count bs")
  case True
  note here = byte_of_element [OF ok x(1) True]
  from True byte_test_returns [OF ok x(1) True] x(1) show ?thesis
    unfolding BS_MemberP_def here(1,2) bs_RBPB_id by (simp del: bs_constants)
next
  case False
  then have "x \<notin> BS_elems bs" using member_position [OF ok] by blast
  with False x show ?thesis by (simp add: BS_MemberP_def bs_index)
qed

lemma BS_Intersection_MemberP_spec:
  assumes ok: "BS_ok set1" "BS_ok set2" and x: "0 \<le> x" "x < 2 ^ 31"
  shows "BS_Intersection_MemberP set1 set2 x = Inr (x \<in> BS_elems set1 \<inter> BS_elems set2)"
proof (cases "x div 32 < BS_word_count set1 \<and> x div 32 < BS_word_count set2")
  case True
  then have here: "x div 32 < BS_word_count set1" "x div 32 < BS_word_count set2" by simp_all
  obtain b1 where b1: "BS_byte set1 (x div 8) = Inr b1"
      "\<forall>k. bit b1 k \<longleftrightarrow> k < 8 \<and> 8 * (x div 8) + int k \<in> BS_elems set1"
    by (rule returnsE_E [OF bit_BS_byte [OF byte_of_element(3,4) [OF ok(1) x(1) here(1)]]])
  obtain b2 where b2: "BS_byte set2 (x div 8) = Inr b2"
      "\<forall>k. bit b2 k \<longleftrightarrow> k < 8 \<and> 8 * (x div 8) + int k \<in> BS_elems set2"
    by (rule returnsE_E [OF bit_BS_byte [OF byte_of_element(3,4) [OF ok(2) x(1) here(2)]]])
  have "(b1 AND b2) AND ucast (push_bit (nat (x mod 8)) bs_ONE) \<noteq> 0 \<longleftrightarrow> x \<in> BS_elems set1 \<inter> BS_elems set2"
    using b1(2) b2(2) by (intro byte_test) (auto simp: bit_and_iff)
  with True x(1) b1(1) b2(1) show ?thesis
    unfolding BS_Intersection_MemberP_def byte_of_element(1,2) [OF ok(1) x(1) here(1)] bs_RBPB_id
    by (simp del: bs_constants)
next
  case False
  then have "x \<notin> BS_elems set1 \<inter> BS_elems set2"
    using member_position [OF ok(1)] member_position [OF ok(2)] by blast
  with False x show ?thesis by (auto simp: BS_Intersection_MemberP_def bs_index)
qed

lemma FBS_spec:
  assumes ok: "BS_ok bs" and x: "0 \<le> x" "x < 32 * BS_word_count bs"
  shows "FBS_MemberP_Validate bs x = BS_MemberP bs x"
    and "FBS_Union1D_Validate bs x = BS_Union1D bs x Bad_Pool"
proof -
  have "x div 32 < BS_word_count bs" using x(2) div_below_word by blast
  with x(1) byte_of_element(1) [OF ok x(1)] show "FBS_MemberP_Validate bs x = BS_MemberP bs x"
    "FBS_Union1D_Validate bs x = BS_Union1D bs x Bad_Pool"
    by (simp_all add: FBS_MemberP_Validate_def BS_MemberP_def FBS_Union1D_Validate_def BS_Union1D_def)
qed

section \<open>What is printed\<close>

text \<open>
  The ranges that are printed: in increasing order, none empty, and no two that touch, so that each
  is a maximal run of elements.
\<close>

fun maximal_ranges :: "(BS_ELT \<times> BS_ELT) list \<Rightarrow> bool" where
  "maximal_ranges [] = True"
| "maximal_ranges [(a, b)] = (a \<le> b)"
| "maximal_ranges ((a, b) # (c, d) # rs) = (a \<le> b \<and> b + 1 < c \<and> maximal_ranges ((c, d) # rs))"

definition covered :: "(BS_ELT \<times> BS_ELT) list \<Rightarrow> BS_ELT set" where
  "covered rs = (\<Union>(a, b) \<in> set rs. {a..b})"

primrec print_ranges :: "bool \<Rightarrow> (BS_ELT \<times> BS_ELT) list \<Rightarrow> string" where
  "print_ranges first [] = ''''"
| "print_ranges first (r # rs) = snd (PrintRange (fst r) (snd r) first) @ print_ranges False rs"

lemma maximal_ranges_snoc:
  "maximal_ranges (rs @ [(a, b)]) \<longleftrightarrow> maximal_ranges rs \<and> a \<le> b \<and> (rs \<noteq> [] \<longrightarrow> snd (last rs) + 1 < a)"
  by (induction rs rule: maximal_ranges.induct) auto

lemma print_ranges_snoc:
  "print_ranges first (rs @ [(a, b)]) = print_ranges first rs @ snd (PrintRange a b (first \<and> rs = []))"
  by (induction rs arbitrary: first) (simp_all add: PrintRange_def)

lemma covered_simps [simp]: "covered [] = {}" "covered (rs @ [(a, b)]) = covered rs \<union> {a..b}"
  by (auto simp: covered_def)

text \<open>The loop: what is printed so far covers the elements below the current range.\<close>

lemma BS_Print_loop_spec:
  assumes ok: "BS_ok bs"
    and fuel: "card (BS_elems bs \<inter> {elt<..}) < fuel"
    and rs: "maximal_ranges (rs @ [(range_first, elt)])" "covered (rs @ [(range_first, elt)]) = BS_elems bs \<inter> {..elt}"
    and elt: "elt \<in> BS_elems bs"
  shows "\<exists>rs' a b. BS_Print_loop fuel bs elt range_first elt (rs = []) (f @ print_ranges True rs)
            = Inr (a, b, rs' = [], f @ print_ranges True rs')
          \<and> maximal_ranges (rs' @ [(a, b)]) \<and> covered (rs' @ [(a, b)]) = BS_elems bs"
  using fuel rs elt
proof (induction fuel arbitrary: elt rs range_first)
  case (Suc fuel)
  have range: "0 \<le> elt" "elt < 2 ^ 31 - 32"
    using BS_elems_nonneg [OF Suc.prems(4)] BS_elems_bound [OF Suc.prems(4)] BS_ok_bound [OF ok] by auto
  obtain e where e: "BS_Choose_Next bs elt = Inr e" "chosen (BS_elems bs \<inter> {elt<..}) e"
    using BS_Choose_Next_spec [OF ok, of elt] range by (auto elim: returnsE_E)
  show ?case
  proof (cases "BS_elems bs \<inter> {elt<..} = {}")
    case True
    with e have "e = BS_CHOOSE_FAILURE" by (simp add: chosen_def)
    moreover have "BS_elems bs \<inter> {..elt} = BS_elems bs" using True by force
    ultimately show ?thesis using Suc.prems e(1) by auto
  next
    case False
    with e(2) have e2: "e \<in> BS_elems bs" "elt < e" "\<forall>x \<in> BS_elems bs \<inter> {elt<..}. e \<le> x"
      by (auto simp: chosen_def)
    then have ne: "e \<noteq> BS_CHOOSE_FAILURE" using range(1) by (simp add: BS_CHOOSE_FAILURE_def)
    have next_set: "BS_elems bs \<inter> {..e} = BS_elems bs \<inter> {..elt} \<union> {e}" using e2 by force
    have "BS_elems bs \<inter> {e<..} \<subset> BS_elems bs \<inter> {elt<..}" using e2 by force
    then have "card (BS_elems bs \<inter> {e<..}) < card (BS_elems bs \<inter> {elt<..})"
      by (intro psubset_card_mono) (simp_all add: finite_BS_elems)
    with Suc.prems(1) have fuel: "card (BS_elems bs \<inter> {e<..}) < fuel" by simp
    have succ: "INT32 (elt + 1) = elt + 1" using range by (simp add: INT32_id)
    show ?thesis
    proof (cases "e = elt + 1")
      case True
      have "maximal_ranges (rs @ [(range_first, e)])"
        using Suc.prems(2) True by (simp add: maximal_ranges_snoc)
      moreover have "{range_first..e} = {range_first..elt} \<union> {e}"
        using Suc.prems(2) True by (auto simp: maximal_ranges_snoc)
      then have "covered (rs @ [(range_first, e)]) = BS_elems bs \<inter> {..e}"
        using Suc.prems(3) next_set by auto
      ultimately show ?thesis
        using Suc.IH [OF fuel _ _ e2(1), of rs range_first] e(1) ne succ True by simp
    next
      case gap: False
      with e2(2) Suc.prems(2) have "maximal_ranges ((rs @ [(range_first, elt)]) @ [(e, e)])"
        by (subst maximal_ranges_snoc) simp
      moreover have "covered ((rs @ [(range_first, elt)]) @ [(e, e)]) = BS_elems bs \<inter> {..e}"
        using Suc.prems(3) next_set by (subst covered_simps) simp
      ultimately show ?thesis
        using Suc.IH [OF fuel _ _ e2(1), of "rs @ [(range_first, elt)]" e] e(1) ne succ gap
        by (simp add: print_ranges_snoc PrintRange_def)
    qed
  qed
qed simp

lemma BS_Print_spec:
  assumes ok: "BS_ok bs"
  shows "\<exists>rs. BS_Print (Some bs) = Inr (''{'' @ print_ranges True rs @ ''}'')
           \<and> maximal_ranges rs \<and> covered rs = BS_elems bs"
proof -
  obtain e where e: "BS_Choose bs = Inr e" "chosen (BS_elems bs) e"
    using BS_Choose_spec [OF ok] by (auto elim: returnsE_E)
  show ?thesis
  proof (cases "BS_elems bs = {}")
    case True
    with e have "BS_Print (Some bs) = Inr (''{'' @ print_ranges True [] @ ''}'')"
      by (simp add: chosen_def BS_Print_def)
    with True show ?thesis by (intro exI [of _ "[]"]) simp
  next
    case False
    with e(2) have e2: "e \<in> BS_elems bs" "\<forall>x \<in> BS_elems bs. e \<le> x" by (auto simp: chosen_def)
    then have ne: "e \<noteq> BS_CHOOSE_FAILURE" using BS_elems_nonneg [of e bs] by (auto simp: BS_CHOOSE_FAILURE_def)
    have "card (BS_elems bs \<inter> {e<..}) \<le> card {0..<32 * BS_word_count bs}"
      using ok by (intro card_mono) (auto simp: BS_ok_count dest: BS_elems_nonneg BS_elems_bound)
    then have fuel: "card (BS_elems bs \<inter> {e<..}) < Suc (nat (32 * BS_word_count bs))" by simp
    have start: "maximal_ranges ([] @ [(e, e)])" "covered ([] @ [(e, e)]) = BS_elems bs \<inter> {..e}"
      using e2 unfolding covered_simps by force+
    obtain rs a b where loop: "BS_Print_loop (Suc (nat (32 * BS_word_count bs))) bs e e e True ''{''
        = Inr (a, b, rs = [], ''{'' @ print_ranges True rs)"
      "maximal_ranges (rs @ [(a, b)])" "covered (rs @ [(a, b)]) = BS_elems bs"
      using BS_Print_loop_spec [OF ok fuel start e2(1), of "''{''"] by auto
    have "BS_Print (Some bs) = Inr (''{'' @ print_ranges True (rs @ [(a, b)]) @ ''}'')"
      using e(1) ne loop(1) by (simp add: BS_Print_def Let_def print_ranges_snoc PrintRange_def del: BS_Print_loop.simps)
    with loop(2,3) show ?thesis by blast
  qed
qed

end
