(* ===== verification/Bitset_Iterate.thy ===== *)
theory Bitset_Iterate
  imports Bitset_Test
begin

text \<open>
  The loop over the members of a set that \<^verbatim>\<open>bitset.h\<close> gives with \<^verbatim>\<open>BS_Choose_Next\<close>,

  \<^verbatim>\<open>for ( elt = BS_Choose( set ); elt != BS_CHOOSE_FAILURE; elt = BS_Choose_Next( set, elt ) )\<close>

  and the same loop over an intersection.  Both are clients of one contract, stated as a locale: the loop visits the
  members once each, in increasing order, and ends.
\<close>

locale member_iterator =
  fixes ok :: "'s \<Rightarrow> bool" and elems :: "'s \<Rightarrow> BS_ELT set"
    and first_member :: "'s \<Rightarrow> BS_ELT outcome" and next_member :: "'s \<Rightarrow> BS_ELT \<Rightarrow> BS_ELT outcome"
  assumes elems_range: "ok s \<Longrightarrow> elems s \<subseteq> {0..<2 ^ 31 - 1}"
    and first_member: "ok s \<Longrightarrow> returnsE (first_member s) (chosen (elems s))"
    and next_member: "ok s \<Longrightarrow> - 1 \<le> bound \<Longrightarrow> bound < 2 ^ 31 - 1 \<Longrightarrow>
          returnsE (next_member s bound) (chosen (elems s \<inter> {bound<..}))"
begin

text \<open>The members the loop visits from \<open>elt\<close> on, in at most \<open>fuel\<close> rounds.\<close>

primrec visit_from :: "nat \<Rightarrow> 's \<Rightarrow> BS_ELT \<Rightarrow> BS_ELT list outcome" where
  "visit_from 0 s elt = (if elt = BS_CHOOSE_FAILURE then Inr [] else Inl Diverges)"
| "visit_from (Suc fuel) s elt =
     (if elt = BS_CHOOSE_FAILURE then Inr []
      else bindE (next_member s elt) (\<lambda>elt'. bindE (visit_from fuel s elt') (\<lambda>elts. Inr (elt # elts))))"

definition visit :: "nat \<Rightarrow> 's \<Rightarrow> BS_ELT list outcome" where
  "visit fuel s = bindE (first_member s) (visit_from fuel s)"

lemma finite_elems: "ok s \<Longrightarrow> finite (elems s)"
  by (rule finite_subset [OF elems_range finite_atLeastLessThan_int])

lemma visit_from_sorted:
  assumes "ok s" "chosen (elems s \<inter> {bound<..}) elt" "- 1 \<le> bound" "card (elems s \<inter> {bound<..}) \<le> fuel"
  shows "visit_from fuel s elt = Inr (sorted_list_of_set (elems s \<inter> {bound<..}))"
  using assms(2-)
proof (induction fuel arbitrary: bound elt)
  case 0
  then show ?case using finite_elems [OF assms(1)] by (simp add: chosen_def)
next
  case (Suc fuel)
  let ?S = "elems s \<inter> {bound<..}"
  have fin: "finite ?S" using finite_elems [OF assms(1)] by simp
  show ?case
  proof (cases "?S = {}")
    case True
    with Suc.prems(1) show ?thesis by (simp add: chosen_def)
  next
    case False
    with Suc.prems(1) have elt: "elt \<in> ?S" "\<And>x. x \<in> ?S \<Longrightarrow> elt \<le> x" by (auto simp: chosen_def)
    have range: "- 1 \<le> elt" "elt < 2 ^ 31 - 1" "elt \<noteq> BS_CHOOSE_FAILURE"
      using elt elems_range [OF assms(1)] by (auto simp: BS_CHOOSE_FAILURE_def)
    have rest: "elems s \<inter> {elt<..} = ?S - {elt}" using elt by force
    obtain elt' where nxt: "next_member s elt = Inr elt'" "chosen (elems s \<inter> {elt<..}) elt'"
      by (rule returnsE_E [OF next_member [OF assms(1) range(1,2)]])
    have "card (?S - {elt}) \<le> fuel" using Suc.prems(3) elt(1) fin by simp
    then have "visit_from fuel s elt' = Inr (sorted_list_of_set (?S - {elt}))"
      using Suc.IH [OF nxt(2) range(1)] by (simp add: rest)
    moreover have "elt = Min ?S" using elt fin by (intro Min_eqI [symmetric]) auto
    then have "sorted_list_of_set ?S = elt # sorted_list_of_set (?S - {elt})"
      using sorted_list_of_set_nonempty [OF fin False] by simp
    ultimately show ?thesis using range(3) nxt(1) by simp
  qed
qed

lemma visit_sorted:
  assumes "ok s" "card (elems s) \<le> fuel"
  shows "visit fuel s = Inr (sorted_list_of_set (elems s))"
proof -
  obtain elt where elt: "first_member s = Inr elt" "chosen (elems s) elt"
    by (rule returnsE_E [OF first_member [OF assms(1)]])
  have all: "elems s \<inter> {- 1<..} = elems s" using elems_range [OF assms(1)] by auto
  show ?thesis
    using visit_from_sorted [OF assms(1), of "- 1" elt fuel] elt assms(2) by (simp add: visit_def all)
qed

end

lemma BS_elems_range: "BS_ok bs \<Longrightarrow> BS_elems bs \<subseteq> {0..<2 ^ 31 - 1}"
  using BS_elems_bound [of _ bs] BS_elems_nonneg [of _ bs] by (fastforce simp: BS_ok_def)

interpretation members: member_iterator BS_ok BS_elems BS_Choose BS_Choose_Next
  by unfold_locales (use BS_elems_range BS_Choose_spec BS_Choose_Next_spec in blast)+

interpretation common: member_iterator "\<lambda>(set1, set2). BS_ok set1 \<and> BS_ok set2"
  "\<lambda>(set1, set2). BS_elems set1 \<inter> BS_elems set2" "\<lambda>(set1, set2). BS_Intersection_Choose set1 set2"
  "\<lambda>(set1, set2). BS_Intersection_Choose_Next set1 set2"
proof
  show "(case s of (set1, set2) \<Rightarrow> BS_elems set1 \<inter> BS_elems set2) \<subseteq> {0..<2 ^ 31 - 1}"
    if "case s of (set1, set2) \<Rightarrow> BS_ok set1 \<and> BS_ok set2" for s
    using that BS_elems_range by (cases s) auto
  show "returnsE (case s of (set1, set2) \<Rightarrow> BS_Intersection_Choose set1 set2)
      (chosen (case s of (set1, set2) \<Rightarrow> BS_elems set1 \<inter> BS_elems set2))"
    if "case s of (set1, set2) \<Rightarrow> BS_ok set1 \<and> BS_ok set2" for s
    using that BS_Intersection_Choose_spec by (cases s) auto
  show "returnsE ((case s of (set1, set2) \<Rightarrow> BS_Intersection_Choose_Next set1 set2) bound)
      (chosen ((case s of (set1, set2) \<Rightarrow> BS_elems set1 \<inter> BS_elems set2) \<inter> {bound<..}))"
    if "case s of (set1, set2) \<Rightarrow> BS_ok set1 \<and> BS_ok set2" "- 1 \<le> bound" "bound < 2 ^ 31 - 1" for s bound
    using that BS_Intersection_Choose_Next_spec by (cases s) auto
qed

end
