(* ===== verification/Priority_Queue.thy ===== *)
theory Priority_Queue
  imports Mempool "HOL-Library.Multiset"
begin

text \<open>
  The priority queue of \<^verbatim>\<open>src/src/common/util/priority_queue.c\<close>: a binary heap in an array, with
  1-based positions, over elements that the client owns.

  The client gives three functions: a comparison, and optionally functions that read and write a
  position stored in the element.  They work on the client's memory, the type \<open>'m\<close>, which is
  threaded through the operations beside the queue.
\<close>

section \<open>The queue\<close>

record ('a, 'm) PRQ =
  PRQ_comparison_fn :: "'m \<Rightarrow> 'a \<Rightarrow> 'a \<Rightarrow> bool"
  PRQ_mem_pool :: "'a MEM_POOL"
  PRQ_size :: int
  PRQ_allocated_size :: int
  PRQ_expansion_factor :: int
  PRQ_get_index_fn :: "('m \<Rightarrow> 'a \<Rightarrow> int) option"        \<comment> \<open>\<^verbatim>\<open>NULL\<close> is \<open>None\<close>\<close>
  PRQ_set_index_fn :: "('m \<Rightarrow> 'a \<Rightarrow> int \<Rightarrow> 'm) option"
  PRQ_heap_vector :: "'a list"

type_synonym ('a, 'm) prq_state = "('a, 'm) PRQ \<times> 'm"

text \<open>\<^verbatim>\<open>defs_exported.h\<close>.\<close>

definition UNDEFINED :: int where "UNDEFINED = - 1"

definition PRQ_Ith :: "('a, 'm) PRQ \<Rightarrow> int \<Rightarrow> 'a outcome" where
  "PRQ_Ith prq i =
     (if 0 \<le> i - 1 \<and> i - 1 < int (length (PRQ_heap_vector prq))
      then Inr (PRQ_heap_vector prq ! nat (i - 1)) else Inl Out_Of_Bounds)"

definition PRQ_Size :: "('a, 'm) PRQ \<Rightarrow> int" where
  "PRQ_Size prq = PRQ_size prq"

definition PRQ_Set_Ith :: "('a, 'm) prq_state \<Rightarrow> int \<Rightarrow> 'a \<Rightarrow> ('a, 'm) prq_state outcome" where
  "PRQ_Set_Ith st i element =
     (let (prq, m) = st;
          m = (case PRQ_set_index_fn prq of Some set_index \<Rightarrow> set_index m element i | None \<Rightarrow> m) in
      if 0 \<le> i - 1 \<and> i - 1 < int (length (PRQ_heap_vector prq))
      then Inr (prq\<lparr>PRQ_heap_vector := (PRQ_heap_vector prq)[nat (i - 1) := element]\<rparr>, m)
      else Inl Out_Of_Bounds)"

lemma PRQ_Set_Ith_size [simp]: "PRQ_Set_Ith st i element = Inr st' \<Longrightarrow> PRQ_size (fst st') = PRQ_size (fst st)"
  by (auto simp: PRQ_Set_Ith_def Let_def split: prod.splits if_splits)

lemma PRQ_Ith_Inr: "PRQ_Ith prq i = Inr x \<Longrightarrow> 1 \<le> i"
  by (auto simp: PRQ_Ith_def split: if_splits)

section \<open>Sifting\<close>

text \<open>\<^verbatim>\<open>while ( index > 1 ) { ... }\<close> of \<^verbatim>\<open>PRQ_Upheap\<close>: the state and the position it ends with.\<close>

function PRQ_Upheap_loop ::
    "('a, 'm) prq_state \<Rightarrow> 'a \<Rightarrow> int \<Rightarrow> (('a, 'm) prq_state \<times> int) outcome" where
  "PRQ_Upheap_loop st element index =
     (if index > 1 then
        let parent_index = index div 2 in
        bindE (PRQ_Ith (fst st) parent_index) (\<lambda>parent.
        if \<not> PRQ_comparison_fn (fst st) (snd st) element parent then Inr (st, index)
        else bindE (PRQ_Set_Ith st index parent) (\<lambda>st. PRQ_Upheap_loop st element parent_index))
      else Inr (st, index))"
  by pat_completeness auto
termination
  by (relation "measure (\<lambda>(st, element, index). nat index)") auto

definition PRQ_Upheap :: "('a, 'm) prq_state \<Rightarrow> int \<Rightarrow> (('a, 'm) prq_state \<times> int) outcome" where
  "PRQ_Upheap st index =
     bindE (FmtAssert (index \<le> PRQ_size (fst st) \<and> index > 0) ''PRQ_Upheap:  index %d out of bounds %d'') (\<lambda>_.
     bindE (PRQ_Ith (fst st) index) (\<lambda>element.
     bindE (PRQ_Upheap_loop st element index) (\<lambda>(st, index).
     bindE (PRQ_Set_Ith st index element) (\<lambda>st.
     Inr (st, index)))))"

text \<open>
  A child position is larger than its parent's, or the multiplication wrapped around and the position is
  outside the array.
\<close>

definition downheap_left :: "int \<Rightarrow> int \<Rightarrow> nat" where
  "downheap_left n index = (if 1 \<le> index \<and> index < 2 ^ 31 then nat (n - index) else Suc (nat n))"

lemma downheap_index_increases:
  assumes "1 \<le> (j :: int)" "j \<le> n" "j = INT32 (index * 2) \<or> (j = INT32 (INT32 (index * 2) + 1) \<and> 1 \<le> INT32 (index * 2))"
  shows "downheap_left n j < downheap_left n index"
proof -
  have j: "j < 2 ^ 31" using assms(3) INT32_range(2) by auto
  have "index < j" if "1 \<le> index" "index < 2 ^ 31"
  proof -
    have pos: "1 \<le> INT32 (index * 2)" using assms(1,3) by auto
    have "index * 2 < 2 ^ 31"
    proof (rule ccontr)
      assume "\<not> index * 2 < 2 ^ 31"
      then have "INT32 (index * 2) = index * 2 - 2 ^ 32"
        using that by (intro INT32_wrap) simp_all
      with pos that show False by simp
    qed
    then have l: "INT32 (index * 2) = index * 2" using that by (simp add: INT32_id)
    show ?thesis
    proof (cases "j = INT32 (index * 2)")
      case False
      with assms(3) l have r: "j = INT32 (index * 2 + 1)" by simp
      have "index * 2 + 1 < 2 ^ 31" using \<open>index * 2 < 2 ^ 31\<close> by simp
      then have "INT32 (index * 2 + 1) = index * 2 + 1" using that by (simp add: INT32_id)
      with r that show ?thesis by simp
    qed (use l that in simp)
  qed
  with j assms(1,2) show ?thesis by (auto simp: downheap_left_def)
qed

text \<open>\<^verbatim>\<open>for(;;) { ... }\<close> of \<^verbatim>\<open>PRQ_Downheap\<close>.\<close>

function PRQ_Downheap_loop ::
    "('a, 'm) prq_state \<Rightarrow> 'a \<Rightarrow> int \<Rightarrow> (('a, 'm) prq_state \<times> int) outcome" where
  "PRQ_Downheap_loop st element index =
     (let left_child_index = INT32 (index * 2);
          right_child_index = INT32 (left_child_index + 1);
          before = PRQ_comparison_fn (fst st) (snd st) in
      if left_child_index > PRQ_size (fst st) then Inr (st, index)
      else
        bindE (PRQ_Ith (fst st) left_child_index) (\<lambda>left_child.
        bindE (if right_child_index \<le> PRQ_size (fst st)
               then bindE (PRQ_Ith (fst st) right_child_index) (\<lambda>right_child. Inr (before right_child left_child))
               else Inr False) (\<lambda>take_right.
        if take_right then
          bindE (PRQ_Ith (fst st) right_child_index) (\<lambda>right_child.
          if before right_child element then
            bindE (PRQ_Set_Ith st index right_child) (\<lambda>st. PRQ_Downheap_loop st element right_child_index)
          else Inr (st, index))
        else if before left_child element then
          bindE (PRQ_Set_Ith st index left_child) (\<lambda>st. PRQ_Downheap_loop st element left_child_index)
        else Inr (st, index))))"
  by pat_completeness auto
termination
  by (relation "measure (\<lambda>(st, element, index). downheap_left (PRQ_size (fst st)) index)")
    (auto simp: bindE_eq_Inr intro!: downheap_index_increases dest: PRQ_Ith_Inr PRQ_Set_Ith_size split: if_splits)

declare PRQ_Upheap_loop.simps [simp del]
declare PRQ_Downheap_loop.simps [simp del]

definition PRQ_Downheap :: "('a, 'm) prq_state \<Rightarrow> int \<Rightarrow> (('a, 'm) prq_state \<times> int) outcome" where
  "PRQ_Downheap st index =
     bindE (FmtAssert (index \<le> PRQ_size (fst st) \<and> index > 0) ''PRQ_down:  index %d out of bounds %d'') (\<lambda>_.
     bindE (PRQ_Ith (fst st) index) (\<lambda>element.
     bindE (PRQ_Downheap_loop st element index) (\<lambda>(st, index).
     bindE (PRQ_Set_Ith st index element) (\<lambda>st.
     Inr (st, index)))))"

section \<open>Interface\<close>

text \<open>\<open>zero\<close> is the null pointer, the contents of zeroed memory.\<close>

definition PRQ_Initialize ::
    "'a \<Rightarrow> ('m \<Rightarrow> 'a \<Rightarrow> 'a \<Rightarrow> bool) \<Rightarrow> ('m \<Rightarrow> 'a \<Rightarrow> int) option \<Rightarrow> ('m \<Rightarrow> 'a \<Rightarrow> int \<Rightarrow> 'm) option
      \<Rightarrow> 'a MEM_POOL \<Rightarrow> int \<Rightarrow> int \<Rightarrow> ('a, 'm) PRQ outcome" where
  "PRQ_Initialize zero comparison_fn get_fn set_fn pool initial_size expansion_factor =
     (let initial_size = (if initial_size \<le> 0 then 200 else initial_size);
          expansion_factor = (if expansion_factor \<le> 100 then 200 else expansion_factor) in
      bindE (TYPE_MEM_POOL_ALLOC_N zero pool (nat initial_size)) (\<lambda>heap_vector.
      Inr \<lparr>PRQ_comparison_fn = comparison_fn, PRQ_mem_pool = pool, PRQ_size = 0,
           PRQ_allocated_size = initial_size, PRQ_expansion_factor = expansion_factor,
           PRQ_get_index_fn = get_fn, PRQ_set_index_fn = set_fn, PRQ_heap_vector = heap_vector\<rparr>))"

definition PRQ_Delete_Top :: "('a, 'm) prq_state \<Rightarrow> (('a, 'm) prq_state \<times> 'a) outcome" where
  "PRQ_Delete_Top st =
     bindE (FmtAssert (PRQ_size (fst st) > 0) ''Deleting from empty heap'') (\<lambda>_.
     bindE (PRQ_Ith (fst st) 1) (\<lambda>top_element.
     if PRQ_size (fst st) = 1 then Inr (((fst st)\<lparr>PRQ_size := 0\<rparr>, snd st), top_element)
     else
       bindE (PRQ_Ith (fst st) (PRQ_size (fst st))) (\<lambda>bottom_element.
       let st = ((fst st)\<lparr>PRQ_size := PRQ_size (fst st) - 1\<rparr>, snd st) in
       bindE (PRQ_Set_Ith st 1 bottom_element) (\<lambda>st.
       bindE (PRQ_Downheap st 1) (\<lambda>(st, _).
       Inr (st, top_element))))))"

definition PRQ_Top :: "('a, 'm) PRQ \<Rightarrow> 'a outcome" where
  "PRQ_Top prq =
     bindE (FmtAssert (PRQ_size prq > 0) ''Topping empty queue'') (\<lambda>_. PRQ_Ith prq 1)"

text \<open>The expansion of the array with which \<^verbatim>\<open>PRQ_Insert\<close> starts.\<close>

definition PRQ_expand :: "'a \<Rightarrow> ('a, 'm) PRQ \<Rightarrow> ('a, 'm) PRQ outcome" where
  "PRQ_expand zero prq =
     (if PRQ_size prq = PRQ_allocated_size prq then
        let new_size = cdiv (INT32 (PRQ_size prq * PRQ_expansion_factor prq)) 100;
            new_size = (if new_size \<le> PRQ_size prq then INT32 (PRQ_size prq + 10) else new_size) in
        bindE (TYPE_MEM_POOL_REALLOC_N zero (PRQ_mem_pool prq) (PRQ_heap_vector prq)
                 (nat (PRQ_allocated_size prq)) (nat new_size)) (\<lambda>heap_vector.
        Inr (prq\<lparr>PRQ_heap_vector := heap_vector, PRQ_allocated_size := new_size\<rparr>))
      else Inr prq)"

definition PRQ_Insert :: "'a \<Rightarrow> ('a, 'm) prq_state \<Rightarrow> 'a \<Rightarrow> ('a, 'm) prq_state outcome" where
  "PRQ_Insert zero st element =
     bindE (PRQ_expand zero (fst st)) (\<lambda>prq.
     let st = (prq\<lparr>PRQ_size := INT32 (PRQ_size prq + 1)\<rparr>, snd st) in
     bindE (PRQ_Set_Ith st (PRQ_size (fst st)) element) (\<lambda>st.
     bindE (PRQ_Upheap st (PRQ_size (fst st))) (\<lambda>(st, _).
     Inr st)))"

text \<open>The search for an element's position that \<^verbatim>\<open>PRQ_Remove\<close> and \<^verbatim>\<open>PRQ_Update\<close> start with.\<close>

definition PRQ_find :: "('a, 'm) prq_state \<Rightarrow> 'a \<Rightarrow> int outcome" where
  "PRQ_find st element =
     (case PRQ_get_index_fn (fst st) of
        Some get_index \<Rightarrow>
          let index = get_index (snd st) element in
          bindE (PRQ_Ith (fst st) index) (\<lambda>ith.
          bindE (FmtAssert (element = ith) ''Invalid priority queue index %d'') (\<lambda>_.
          Inr index))
      | None \<Rightarrow>
          bindE (search_loop 1 (PRQ_size (fst st) + 1) (\<lambda>i. bindE (PRQ_Ith (fst st) i) (\<lambda>ith.
                   Inr (if ith = element then Some i else None)))) (\<lambda>r.
          Inr (case r of Some i \<Rightarrow> i | None \<Rightarrow> UNDEFINED)))"

definition PRQ_Remove :: "('a, 'm) prq_state \<Rightarrow> 'a \<Rightarrow> ('a, 'm) prq_state outcome" where
  "PRQ_Remove st element =
     bindE (FmtAssert (PRQ_size (fst st) > 0) ''PRQ_RemoveElement -- empty queue'') (\<lambda>_.
     bindE (PRQ_find st element) (\<lambda>index.
     bindE (FmtAssert (index \<noteq> UNDEFINED) ''Remove a PRQ element not in queue'') (\<lambda>_.
     if index = PRQ_size (fst st) then Inr ((fst st)\<lparr>PRQ_size := PRQ_size (fst st) - 1\<rparr>, snd st)
     else
       bindE (PRQ_Ith (fst st) (PRQ_size (fst st))) (\<lambda>bottom_element.
       let st = ((fst st)\<lparr>PRQ_size := PRQ_size (fst st) - 1\<rparr>, snd st) in
       bindE (PRQ_Set_Ith st index bottom_element) (\<lambda>st.
       bindE (PRQ_Upheap st index) (\<lambda>(st, new_index).
       if index = new_index then bindE (PRQ_Downheap st index) (\<lambda>(st, _). Inr st)
       else Inr st))))))"

definition PRQ_Update :: "('a, 'm) prq_state \<Rightarrow> 'a \<Rightarrow> ('a, 'm) prq_state outcome" where
  "PRQ_Update st element =
     bindE (FmtAssert (PRQ_size (fst st) > 0) ''PRQ_Update -- empty queue'') (\<lambda>_.
     bindE (PRQ_find st element) (\<lambda>index.
     bindE (FmtAssert (index \<noteq> UNDEFINED) ''Update a PRQ element not in queue'') (\<lambda>_.
     bindE (PRQ_Upheap st index) (\<lambda>(st, new_index).
     if index = new_index then bindE (PRQ_Downheap st index) (\<lambda>(st, _). Inr st)
     else Inr st))))"

definition PRQ_Reset :: "('a, 'm) PRQ \<Rightarrow> ('a, 'm) PRQ" where
  "PRQ_Reset prq = prq\<lparr>PRQ_size := 0\<rparr>"

section \<open>Heap order\<close>

text \<open>
  What the client must promise of its comparison: it is a strict weak order (elements neither of which
  precedes the other have the same precedence, and that is an equivalence).
\<close>

definition precedence :: "('a \<Rightarrow> 'a \<Rightarrow> bool) \<Rightarrow> bool" where
  "precedence before \<longleftrightarrow> (\<forall>x y. before x y \<longrightarrow> \<not> before y x)
     \<and> (\<forall>x y z. \<not> before x y \<longrightarrow> \<not> before y z \<longrightarrow> \<not> before x z)"

text \<open>
  Heap order on the positions \<open>1 .. n\<close> of \<open>h\<close>; heap order except that the element at \<open>k\<close> may have to
  go up; except that it may have to go down; and except for either.
\<close>

definition ordered :: "('a \<Rightarrow> 'a \<Rightarrow> bool) \<Rightarrow> int \<Rightarrow> (int \<Rightarrow> 'a) \<Rightarrow> bool" where
  "ordered before n h \<longleftrightarrow> (\<forall>i \<in> {2..n}. \<not> before (h i) (h (i div 2)))"

definition bridged :: "('a \<Rightarrow> 'a \<Rightarrow> bool) \<Rightarrow> int \<Rightarrow> (int \<Rightarrow> 'a) \<Rightarrow> int \<Rightarrow> bool" where
  "bridged before n h k \<longleftrightarrow> (2 \<le> k \<longrightarrow> (\<forall>i \<in> {2..n}. i div 2 = k \<longrightarrow> \<not> before (h i) (h (k div 2))))"

definition up_ok :: "('a \<Rightarrow> 'a \<Rightarrow> bool) \<Rightarrow> int \<Rightarrow> (int \<Rightarrow> 'a) \<Rightarrow> int \<Rightarrow> bool" where
  "up_ok before n h k \<longleftrightarrow> (\<forall>i \<in> {2..n}. i \<noteq> k \<longrightarrow> \<not> before (h i) (h (i div 2))) \<and> bridged before n h k"

definition down_ok :: "('a \<Rightarrow> 'a \<Rightarrow> bool) \<Rightarrow> int \<Rightarrow> (int \<Rightarrow> 'a) \<Rightarrow> int \<Rightarrow> bool" where
  "down_ok before n h k \<longleftrightarrow> (\<forall>i \<in> {2..n}. i div 2 \<noteq> k \<longrightarrow> \<not> before (h i) (h (i div 2))) \<and> bridged before n h k"

definition but_ok :: "('a \<Rightarrow> 'a \<Rightarrow> bool) \<Rightarrow> int \<Rightarrow> (int \<Rightarrow> 'a) \<Rightarrow> int \<Rightarrow> bool" where
  "but_ok before n h k \<longleftrightarrow>
     (\<forall>i \<in> {2..n}. i \<noteq> k \<longrightarrow> i div 2 \<noteq> k \<longrightarrow> \<not> before (h i) (h (i div 2))) \<and> bridged before n h k"

lemma precedence_asym: "precedence before \<Longrightarrow> before x y \<Longrightarrow> \<not> before y x"
  unfolding precedence_def by blast

lemma precedence_trans: "precedence before \<Longrightarrow> \<not> before x y \<Longrightarrow> \<not> before y z \<Longrightarrow> \<not> before x z"
  unfolding precedence_def by blast

lemma half_less: "2 \<le> i \<Longrightarrow> i div 2 < i" "2 \<le> i \<Longrightarrow> 1 \<le> i div 2" for i :: int
  by linarith+

lemma ordered_first:
  assumes "precedence before" "ordered before n h" "1 \<le> i" "i \<le> n"
  shows "\<not> before (h i) (h 1)"
  using assms(3,4)
proof (induction "nat i" arbitrary: i rule: less_induct)
  case less
  show ?case
  proof (cases "i = 1")
    case True
    then show ?thesis using precedence_asym [OF assms(1)] by blast
  next
    case False
    with less.prems have i: "2 \<le> i" by simp
    note half = half_less [OF i]
    have "\<not> before (h (i div 2)) (h 1)" using less half by (intro less.hyps) simp_all
    moreover have "\<not> before (h i) (h (i div 2))" using assms(2) i less.prems by (simp add: ordered_def)
    ultimately show ?thesis using precedence_trans [OF assms(1)] by blast
  qed
qed

lemma up_ok_done:
  assumes "up_ok before n h k" "2 \<le> k \<Longrightarrow> \<not> before (h k) (h (k div 2))"
  shows "ordered before n h"
  using assms by (auto simp: up_ok_def ordered_def)

lemma up_ok_step:
  assumes prec: "precedence before" and up: "up_ok before n h k" and k: "2 \<le> k" "k \<le> n"
    and less: "before (h k) (h (k div 2))"
    and h': "\<And>i. 1 \<le> i \<Longrightarrow> i \<le> n \<Longrightarrow> h' i = (if i = k then h (k div 2) else if i = k div 2 then h k else h i)"
  shows "up_ok before n h' (k div 2)"
proof -
  define p where "p = k div 2"
  have p: "1 \<le> p" "p < k" using half_less [OF k(1)] by (simp_all add: p_def)
  have less': "\<not> before (h p) (h k)" using less precedence_asym [OF prec] by (simp add: p_def)
  have ok: "\<not> before (h i) (h (i div 2))" if "2 \<le> i" "i \<le> n" "i \<noteq> k" for i
    using up that by (simp add: up_ok_def)
  have child: "\<not> before (h i) (h p)" if "2 \<le> i" "i \<le> n" "i div 2 = k" for i
    using up that k by (simp add: up_ok_def bridged_def p_def)
  have first: "\<not> before (h' i) (h' (i div 2))" if i: "2 \<le> i" "i \<le> n" "i \<noteq> p" for i
  proof -
    note half = half_less [OF i(1)]
    consider "i = k" | "i \<noteq> k" "i div 2 = k" | "i \<noteq> k" "i div 2 = p" | "i \<noteq> k" "i div 2 \<noteq> k" "i div 2 \<noteq> p"
      by blast
    then show ?thesis
    proof cases
      case 1
      with k p less' show ?thesis by (simp add: h' flip: p_def)
    next
      case 2
      with i k half p child show ?thesis by (simp add: h' flip: p_def)
    next
      case 3
      with ok [OF i(1,2)] less' precedence_trans [OF prec] have "\<not> before (h i) (h k)" by metis
      with 3 i p k show ?thesis by (simp add: h' flip: p_def)
    next
      case 4
      with i half p ok [OF i(1,2)] show ?thesis by (simp add: h' flip: p_def)
    qed
  qed
  have "\<not> before (h' i) (h' (p div 2))" if i: "2 \<le> i" "i \<le> n" "i div 2 = p" "2 \<le> p" for i
  proof -
    note half = half_less [OF i(4)]
    have top: "\<not> before (h p) (h (p div 2))" using ok [of p] i p k by simp
    moreover have "\<not> before (h i) (h p)" if "i \<noteq> k" using ok [OF i(1,2) that] i(3) by simp
    ultimately have "i \<noteq> k \<Longrightarrow> \<not> before (h i) (h (p div 2))" using precedence_trans [OF prec] by blast
    with top i half p k show ?thesis by (auto simp: h' simp flip: p_def)
  qed
  with first show ?thesis by (simp add: up_ok_def bridged_def flip: p_def)
qed

lemma down_ok_done:
  assumes "down_ok before n h k" "\<And>i. 2 \<le> i \<Longrightarrow> i \<le> n \<Longrightarrow> i div 2 = k \<Longrightarrow> \<not> before (h i) (h k)"
  shows "ordered before n h"
  using assms by (auto simp: down_ok_def ordered_def)

lemma down_ok_step:
  assumes prec: "precedence before" and down: "down_ok before n h k" and k: "1 \<le> k"
    and c: "2 \<le> c" "c \<le> n" "c div 2 = k" and less: "before (h c) (h k)"
    and least: "\<And>i. 2 \<le> i \<Longrightarrow> i \<le> n \<Longrightarrow> i div 2 = k \<Longrightarrow> \<not> before (h i) (h c)"
    and h': "\<And>i. 1 \<le> i \<Longrightarrow> i \<le> n \<Longrightarrow> h' i = (if i = k then h c else if i = c then h k else h i)"
  shows "down_ok before n h' c"
proof -
  have kc: "k < c" using half_less(1) [OF c(1)] c(3) by simp
  have less': "\<not> before (h k) (h c)" using less precedence_asym [OF prec] by blast
  have ok: "\<not> before (h i) (h (i div 2))" if "2 \<le> i" "i \<le> n" "i div 2 \<noteq> k" for i
    using down that by (simp add: down_ok_def)
  have first: "\<not> before (h' i) (h' (i div 2))" if i: "2 \<le> i" "i \<le> n" "i div 2 \<noteq> c" for i
  proof -
    note half = half_less [OF i(1)]
    consider "i = c" | "i \<noteq> c" "i div 2 = k" | "i = k" | "i \<noteq> c" "i \<noteq> k" "i div 2 \<noteq> k"
      by blast
    then show ?thesis
    proof cases
      case 1
      with c k kc less' show ?thesis by (simp add: h')
    next
      case 2
      with i half k c kc least show ?thesis by (simp add: h')
    next
      case 3
      have "\<not> before (h c) (h (k div 2))"
        using down c 3 i by (simp add: down_ok_def bridged_def)
      with 3 i half kc show ?thesis by (simp add: h')
    next
      case 4
      with i half ok [OF i(1,2)] show ?thesis by (simp add: h')
    qed
  qed
  have "\<not> before (h' i) (h' k)" if i: "2 \<le> i" "i \<le> n" "i div 2 = c" for i
  proof -
    have "i \<noteq> k" "i \<noteq> c" using half_less(1) [OF i(1)] i kc by auto
    with ok [OF i(1,2)] i k c kc show ?thesis by (simp add: h')
  qed
  with first c show ?thesis by (simp add: down_ok_def bridged_def)
qed

lemma but_ok_up:
  assumes prec: "precedence before" and ok: "but_ok before n h k"
    and k: "2 \<le> k" and less: "before (h k) (h (k div 2))"
  shows "up_ok before n h k"
proof -
  have "\<not> before (h i) (h (i div 2))" if i: "2 \<le> i" "i \<le> n" "i \<noteq> k" for i
  proof (cases "i div 2 = k")
    case True
    with ok i k have "\<not> before (h i) (h (k div 2))" by (simp add: but_ok_def bridged_def)
    moreover have "\<not> before (h (k div 2)) (h k)" using less precedence_asym [OF prec] by blast
    ultimately show ?thesis using precedence_trans [OF prec] True by blast
  qed (use ok i in \<open>simp add: but_ok_def\<close>)
  with ok show ?thesis by (simp add: up_ok_def but_ok_def)
qed

lemma but_ok_down:
  assumes "but_ok before n h k" "2 \<le> k \<Longrightarrow> \<not> before (h k) (h (k div 2))"
  shows "down_ok before n h k"
  using assms by (auto simp: but_ok_def down_ok_def)

lemma ordered_up: "precedence before \<Longrightarrow> ordered before n h \<Longrightarrow> bridged before n h k"
  unfolding ordered_def bridged_def
proof (intro impI ballI)
  fix i
  assume prec: "precedence before" and ord: "\<forall>i \<in> {2..n}. \<not> before (h i) (h (i div 2))"
    and i: "2 \<le> k" "i \<in> {2..n}" "i div 2 = k"
  then have "k \<in> {2..n}" using half_less(1) [of i] by simp
  with ord i have "\<not> before (h i) (h k)" "\<not> before (h k) (h (k div 2))" by auto
  then show "\<not> before (h i) (h (k div 2))" by (rule precedence_trans [OF prec])
qed

section \<open>The array\<close>

text \<open>Reading and writing the array by position, from 1.\<close>

definition ith :: "'a list \<Rightarrow> int \<Rightarrow> 'a" where "ith xs i = xs ! nat (i - 1)"

definition put :: "'a list \<Rightarrow> int \<Rightarrow> 'a \<Rightarrow> 'a list" where "put xs i v = xs[nat (i - 1) := v]"

lemma length_put [simp]: "length (put xs i v) = length xs"
  by (simp add: put_def)

lemma ith_put: "1 \<le> i \<Longrightarrow> i \<le> int (length xs) \<Longrightarrow> 1 \<le> j \<Longrightarrow> ith (put xs i v) j = (if j = i then v else ith xs j)"
  by (auto simp: ith_def put_def nth_list_update eq_nat_nat_iff)

lemma put_put [simp]: "put (put xs i v) i w = put xs i w"
  by (simp add: put_def)

lemma put_ith [simp]: "put xs i (ith xs i) = xs"
  by (simp add: put_def ith_def)

lemma put_swap_mset:
  assumes "1 \<le> i" "i \<le> n" "1 \<le> p" "p \<le> n" "n \<le> int (length xs)" "i \<noteq> p"
  shows "mset (take (nat n) (put (put xs i (ith xs p)) p e)) = mset (take (nat n) (put xs i e))"
proof -
  let ?ys = "take (nat n) (put xs i e)"
  have "take (nat n) (put (put xs i (ith xs p)) p e)
      = ?ys[nat (i - 1) := ?ys ! nat (p - 1), nat (p - 1) := ?ys ! nat (i - 1)]"
    using assms
    by (intro nth_equalityI) (auto simp: put_def ith_def nth_list_update eq_nat_nat_iff)
  moreover have "mset (?ys[nat (i - 1) := ?ys ! nat (p - 1), nat (p - 1) := ?ys ! nat (i - 1)]) = mset ?ys"
    using assms by (intro mset_swap) auto
  ultimately show ?thesis by simp
qed

lemma distinct_ith:
  assumes "distinct (take (nat n) xs)" "n \<le> int (length xs)" "1 \<le> i" "i \<le> n" "1 \<le> j" "j \<le> n"
  shows "ith xs i = ith xs j \<longleftrightarrow> i = j"
  using assms nth_eq_iff_index_eq [of "take (nat n) xs" "nat (i - 1)" "nat (j - 1)"]
  by (auto simp: ith_def)

section \<open>The invariant\<close>

text \<open>
  What the client promises of its index functions: what is read is what was last written for that
  element, writing it does not change precedence, and a function to read comes with one to write.
\<close>

definition client_ok :: "('a, 'm) PRQ \<Rightarrow> bool" where
  "client_ok prq \<longleftrightarrow> (case PRQ_set_index_fn prq of
      None \<Rightarrow> PRQ_get_index_fn prq = None
    | Some set_index \<Rightarrow>
        (\<forall>m x i. PRQ_comparison_fn prq (set_index m x i) = PRQ_comparison_fn prq m)
        \<and> (\<forall>get_index. PRQ_get_index_fn prq = Some get_index \<longrightarrow>
             (\<forall>m x i y. get_index (set_index m x i) y = (if y = x then i else get_index m y))))"

definition PRQ_elements :: "('a, 'm) PRQ \<Rightarrow> 'a multiset" where
  "PRQ_elements prq = mset (take (nat (PRQ_size prq)) (PRQ_heap_vector prq))"

abbreviation before_in :: "('a, 'm) prq_state \<Rightarrow> 'a \<Rightarrow> 'a \<Rightarrow> bool" where
  "before_in st \<equiv> PRQ_comparison_fn (fst st) (snd st)"

abbreviation vector_of :: "('a, 'm) prq_state \<Rightarrow> 'a list" where
  "vector_of st \<equiv> PRQ_heap_vector (fst st)"

abbreviation size_of :: "('a, 'm) prq_state \<Rightarrow> int" where
  "size_of st \<equiv> PRQ_size (fst st)"

text \<open>The stored positions are right, but for the element at \<open>k\<close>; positions are only stored for distinct elements.\<close>

definition indexed_but :: "('a, 'm) prq_state \<Rightarrow> 'a list \<Rightarrow> int \<Rightarrow> bool" where
  "indexed_but st xs k \<longleftrightarrow> (\<forall>get_index. PRQ_get_index_fn (fst st) = Some get_index \<longrightarrow>
     distinct (take (nat (size_of st)) xs) \<and>
     (\<forall>i \<in> {1..size_of st}. i \<noteq> k \<longrightarrow> get_index (snd st) (ith xs i) = i))"

text \<open>The invariant of the queue between operations (the heap order apart).\<close>

definition PRQ_wf :: "('a, 'm) prq_state \<Rightarrow> bool" where
  "PRQ_wf st \<longleftrightarrow> 0 \<le> size_of st \<and> size_of st \<le> PRQ_allocated_size (fst st)
     \<and> PRQ_allocated_size (fst st) = int (length (vector_of st)) \<and> PRQ_allocated_size (fst st) < 2 ^ 31
     \<and> PRQ_mem_pool (fst st) \<noteq> Bad_Pool \<and> client_ok (fst st) \<and> precedence (before_in st)
     \<and> indexed_but st (vector_of st) 0"

definition PRQ_invar :: "('a, 'm) prq_state \<Rightarrow> bool" where
  "PRQ_invar st \<longleftrightarrow> PRQ_wf st \<and> ordered (before_in st) (size_of st) (ith (vector_of st))"

text \<open>What the sifting loops change: the array, and the client's memory without the precedence.\<close>

definition frame :: "('a, 'm) prq_state \<Rightarrow> ('a, 'm) prq_state \<Rightarrow> bool" where
  "frame st st' \<longleftrightarrow> (\<exists>xs. length xs = length (vector_of st) \<and> fst st' = (fst st)\<lparr>PRQ_heap_vector := xs\<rparr>)
     \<and> before_in st' = before_in st"

lemma client_ok_update [simp]:
  "client_ok (prq\<lparr>PRQ_heap_vector := xs\<rparr>) = client_ok prq" "client_ok (prq\<lparr>PRQ_size := n\<rparr>) = client_ok prq"
  "client_ok (prq\<lparr>PRQ_allocated_size := n\<rparr>) = client_ok prq"
  by (simp_all add: client_ok_def split: option.split)

lemma frame_refl [simp]: "frame st st"
  by (cases st) (auto simp: frame_def intro: exI [of _ "vector_of st"])

lemma frameI:
  "length xs = length (vector_of st) \<Longrightarrow> PRQ_comparison_fn (fst st) m = before_in st
     \<Longrightarrow> frame st ((fst st)\<lparr>PRQ_heap_vector := xs\<rparr>, m)"
  by (auto simp: frame_def)

lemma frame_trans: "frame st st' \<Longrightarrow> frame st' st'' \<Longrightarrow> frame st st''"
  by (auto simp: frame_def)

lemma frameD:
  assumes "frame st st'"
  shows "size_of st' = size_of st" "length (vector_of st') = length (vector_of st)"
    "before_in st' = before_in st" "PRQ_get_index_fn (fst st') = PRQ_get_index_fn (fst st)"
    "client_ok (fst st') = client_ok (fst st)" "PRQ_allocated_size (fst st') = PRQ_allocated_size (fst st)"
    "PRQ_mem_pool (fst st') = PRQ_mem_pool (fst st)" "PRQ_expansion_factor (fst st') = PRQ_expansion_factor (fst st)"
proof -
  obtain xs where "length xs = length (vector_of st)" "fst st' = (fst st)\<lparr>PRQ_heap_vector := xs\<rparr>"
    and "before_in st' = before_in st"
    using assms by (auto simp: frame_def)
  then show "size_of st' = size_of st" "length (vector_of st') = length (vector_of st)"
    "before_in st' = before_in st" "PRQ_get_index_fn (fst st') = PRQ_get_index_fn (fst st)"
    "client_ok (fst st') = client_ok (fst st)" "PRQ_allocated_size (fst st') = PRQ_allocated_size (fst st)"
    "PRQ_mem_pool (fst st') = PRQ_mem_pool (fst st)" "PRQ_expansion_factor (fst st') = PRQ_expansion_factor (fst st)"
    by simp_all
qed

text \<open>A hole at \<open>k\<close>, which will receive \<open>e\<close>; with \<open>e\<close> in it the array holds the elements \<open>M\<close>.\<close>

definition hole :: "('a, 'm) prq_state \<Rightarrow> 'a \<Rightarrow> int \<Rightarrow> 'a multiset \<Rightarrow> bool" where
  "hole st e k M \<longleftrightarrow> 1 \<le> k \<and> k \<le> size_of st \<and> size_of st \<le> int (length (vector_of st)) \<and> client_ok (fst st)
     \<and> mset (take (nat (size_of st)) (put (vector_of st) k e)) = M
     \<and> indexed_but st (put (vector_of st) k e) k"

lemma PRQ_Ith_ith: "1 \<le> i \<Longrightarrow> i \<le> int (length (PRQ_heap_vector prq)) \<Longrightarrow> PRQ_Ith prq i = Inr (ith (PRQ_heap_vector prq) i)"
  by (simp add: PRQ_Ith_def ith_def)

lemma PRQ_Set_Ith_put:
  assumes "1 \<le> i" "i \<le> int (length (vector_of st))" "client_ok (fst st)"
  obtains m where "PRQ_Set_Ith st i x = Inr ((fst st)\<lparr>PRQ_heap_vector := put (vector_of st) i x\<rparr>, m)"
    "PRQ_comparison_fn (fst st) m = before_in st"
    "\<And>get_index y. PRQ_get_index_fn (fst st) = Some get_index \<Longrightarrow>
       get_index m y = (if y = x then i else get_index (snd st) y)"
proof
  let ?m = "case PRQ_set_index_fn (fst st) of Some set_index \<Rightarrow> set_index (snd st) x i | None \<Rightarrow> snd st"
  show "PRQ_Set_Ith st i x = Inr ((fst st)\<lparr>PRQ_heap_vector := put (vector_of st) i x\<rparr>, ?m)"
    using assms by (simp add: PRQ_Set_Ith_def put_def split_beta Let_def)
  show "PRQ_comparison_fn (fst st) ?m = before_in st"
    using assms(3) by (auto simp: client_ok_def split: option.splits)
  show "get_index ?m y = (if y = x then i else get_index (snd st) y)"
    if "PRQ_get_index_fn (fst st) = Some get_index" for get_index y
    using assms(3) that by (auto simp: client_ok_def split: option.splits)
qed

lemma hole_move:
  assumes hole: "hole st e k M" and p: "1 \<le> p" "p \<le> size_of st" "p \<noteq> k"
  shows "returnsE (PRQ_Set_Ith st k (ith (vector_of st) p)) (\<lambda>st'.
      hole st' e p M \<and> frame st st' \<and> vector_of st' = put (vector_of st) k (ith (vector_of st) p))"
proof -
  let ?xs = "vector_of st" and ?n = "size_of st"
  have k: "1 \<le> k" "k \<le> ?n" "?n \<le> int (length ?xs)" "client_ok (fst st)"
    and M: "mset (take (nat ?n) (put ?xs k e)) = M" and idx: "indexed_but st (put ?xs k e) k"
    using hole by (auto simp: hole_def)
  have M': "mset (take (nat ?n) (put (put ?xs k (ith ?xs p)) p e)) = M"
    unfolding M [symmetric] using k p by (intro put_swap_mset) auto
  have kl: "k \<le> int (length ?xs)" using k by simp
  obtain m where m: "PRQ_Set_Ith st k (ith ?xs p) = Inr ((fst st)\<lparr>PRQ_heap_vector := put ?xs k (ith ?xs p)\<rparr>, m)"
    "PRQ_comparison_fn (fst st) m = before_in st"
    "\<And>get_index y. PRQ_get_index_fn (fst st) = Some get_index \<Longrightarrow>
       get_index m y = (if y = ith ?xs p then k else get_index (snd st) y)"
    by (rule PRQ_Set_Ith_put [OF k(1) kl k(4), of "ith ?xs p"]) blast
  let ?st' = "((fst st)\<lparr>PRQ_heap_vector := put ?xs k (ith ?xs p)\<rparr>, m)"
  let ?ys = "put ?xs k e"
  have "indexed_but ?st' (put (put ?xs k (ith ?xs p)) p e) p"
    unfolding indexed_but_def
  proof (intro allI impI conjI ballI)
    fix get_index
    assume "PRQ_get_index_fn (fst ?st') = Some get_index"
    then have get: "PRQ_get_index_fn (fst st) = Some get_index" by simp
    with idx have d: "distinct (take (nat ?n) ?ys)" by (simp add: indexed_but_def)
    then show "distinct (take (nat (size_of ?st')) (put (put ?xs k (ith ?xs p)) p e))"
      using M M' mset_eq_imp_distinct_iff [of "take (nat ?n) ?ys" "take (nat ?n) (put (put ?xs k (ith ?xs p)) p e)"]
      by simp
    fix i
    assume i: "i \<in> {1..size_of ?st'}" "i \<noteq> p"
    show "get_index (snd ?st') (ith (put (put ?xs k (ith ?xs p)) p e) i) = i"
    proof (cases "i = k")
      case True
      with i p k kl m(3) [OF get] show ?thesis by (simp add: ith_put)
    next
      case False
      have "ith ?ys i \<noteq> ith ?ys p" using distinct_ith [OF d, of i p] k i p by simp
      with False k kl p i have "ith ?xs i \<noteq> ith ?xs p" by (simp add: ith_put)
      moreover have "get_index (snd st) (ith ?ys i) = i"
        using idx get i False by (simp add: indexed_but_def)
      ultimately show ?thesis
        using False k kl p i m(3) [OF get] by (simp add: ith_put)
    qed
  qed
  with k p M' have "hole ?st' e p M" by (simp add: hole_def)
  moreover have "frame st ?st'" using m(2) by (intro frameI) simp_all
  ultimately show ?thesis by (simp add: m(1))
qed

lemma hole_fill:
  assumes "hole st e k M"
  shows "returnsE (PRQ_Set_Ith st k e) (\<lambda>st'. frame st st' \<and> vector_of st' = put (vector_of st) k e
      \<and> PRQ_elements (fst st') = M \<and> indexed_but st' (vector_of st') 0)"
proof -
  let ?xs = "vector_of st" and ?n = "size_of st"
  have k: "1 \<le> k" "k \<le> ?n" "?n \<le> int (length ?xs)" "client_ok (fst st)" "k \<le> int (length ?xs)"
    and M: "mset (take (nat ?n) (put ?xs k e)) = M" and idx: "indexed_but st (put ?xs k e) k"
    using assms by (auto simp: hole_def)
  obtain m where m: "PRQ_Set_Ith st k e = Inr ((fst st)\<lparr>PRQ_heap_vector := put ?xs k e\<rparr>, m)"
    "PRQ_comparison_fn (fst st) m = before_in st"
    "\<And>get_index y. PRQ_get_index_fn (fst st) = Some get_index \<Longrightarrow>
       get_index m y = (if y = e then k else get_index (snd st) y)"
    by (rule PRQ_Set_Ith_put [OF k(1,5,4), of e]) blast
  let ?st' = "((fst st)\<lparr>PRQ_heap_vector := put ?xs k e\<rparr>, m)"
  have "indexed_but ?st' (put ?xs k e) 0"
    unfolding indexed_but_def
  proof (intro allI impI conjI ballI)
    fix get_index
    assume "PRQ_get_index_fn (fst ?st') = Some get_index"
    then have get: "PRQ_get_index_fn (fst st) = Some get_index" by simp
    with idx have d: "distinct (take (nat ?n) (put ?xs k e))" by (simp add: indexed_but_def)
    then show "distinct (take (nat (size_of ?st')) (put ?xs k e))" by simp
    fix i
    assume i: "i \<in> {1..size_of ?st'}"
    have "ith (put ?xs k e) i = ith (put ?xs k e) k \<longleftrightarrow> i = k" using distinct_ith [OF d, of i k] k i by simp
    moreover have "ith (put ?xs k e) k = e" using k by (simp add: ith_put)
    moreover have "get_index (snd st) (ith (put ?xs k e) i) = i" if "i \<noteq> k"
      using idx get i that by (simp add: indexed_but_def)
    ultimately show "get_index (snd ?st') (ith (put ?xs k e) i) = i"
      using m(3) [OF get] by auto
  qed
  moreover have "frame st ?st'" using m(2) by (intro frameI) simp_all
  ultimately show ?thesis using M by (simp add: m(1) PRQ_elements_def)
qed

section \<open>Sifting restores the order\<close>

lemma hole_at:
  assumes "1 \<le> k" "k \<le> size_of st" "size_of st \<le> int (length (vector_of st))" "client_ok (fst st)"
    and "indexed_but st (vector_of st) 0"
  shows "hole st (ith (vector_of st) k) k (PRQ_elements (fst st))"
  using assms by (auto simp: hole_def PRQ_elements_def indexed_but_def)

lemma holeD:
  assumes "hole st e k M"
  shows "1 \<le> k" "k \<le> size_of st" "size_of st \<le> int (length (vector_of st))" "k \<le> int (length (vector_of st))"
  using assms by (auto simp: hole_def)

text \<open>The array with the element in the hole, before and after the hole moves.\<close>

lemma moved_ith:
  assumes "hole st e k M" "1 \<le> p" "p \<le> size_of st" "p \<noteq> k" "1 \<le> i" "i \<le> size_of st"
  shows "ith (put (put (vector_of st) k (ith (vector_of st) p)) p e) i
    = (if i = k then ith (put (vector_of st) k e) p
       else if i = p then ith (put (vector_of st) k e) k else ith (put (vector_of st) k e) i)"
  using holeD [OF assms(1)] assms(2-) by (simp add: ith_put)

lemma PRQ_Upheap_loop_stays:
  assumes "hole st e k M" "2 \<le> k \<Longrightarrow> \<not> before_in st e (ith (vector_of st) (k div 2))"
  shows "PRQ_Upheap_loop st e k = Inr (st, k)"
proof (cases "2 \<le> k")
  case True
  have "PRQ_Ith (fst st) (k div 2) = Inr (ith (vector_of st) (k div 2))"
    using half_less [OF True] holeD [OF assms(1)] by (intro PRQ_Ith_ith) simp_all
  with True assms(2) show ?thesis by (subst PRQ_Upheap_loop.simps) simp
qed (subst PRQ_Upheap_loop.simps, simp)

lemma PRQ_Upheap_loop_moves:
  assumes hole: "hole st e k M" and k: "2 \<le> k" and less: "before_in st e (ith (vector_of st) (k div 2))"
  obtains st' where "PRQ_Upheap_loop st e k = PRQ_Upheap_loop st' e (k div 2)" "hole st' e (k div 2) M" "frame st st'"
    "vector_of st' = put (vector_of st) k (ith (vector_of st) (k div 2))"
proof -
  note half = half_less [OF k]
  have read: "PRQ_Ith (fst st) (k div 2) = Inr (ith (vector_of st) (k div 2))"
    using half holeD [OF hole] by (intro PRQ_Ith_ith) simp_all
  have p: "1 \<le> k div 2" "k div 2 \<le> size_of st" "k div 2 \<noteq> k" using half holeD [OF hole] by simp_all
  obtain st' where st': "PRQ_Set_Ith st k (ith (vector_of st) (k div 2)) = Inr st'"
    "hole st' e (k div 2) M" "frame st st'" "vector_of st' = put (vector_of st) k (ith (vector_of st) (k div 2))"
    by (rule returnsE_E [OF hole_move [OF hole p]]) blast
  have "PRQ_Upheap_loop st e k = PRQ_Upheap_loop st' e (k div 2)"
    using k less by (subst PRQ_Upheap_loop.simps) (simp add: read st'(1))
  with st' show ?thesis by (intro that)
qed

lemma PRQ_Upheap_loop_spec:
  assumes "precedence (before_in st)" "hole st e k M"
    and "up_ok (before_in st) (size_of st) (ith (put (vector_of st) k e)) k"
  shows "returnsE (PRQ_Upheap_loop st e k) (\<lambda>(st', k'). hole st' e k' M \<and> frame st st' \<and> k' \<le> k
      \<and> ordered (before_in st) (size_of st) (ith (put (vector_of st') k' e)))"
  using assms
proof (induction "nat k" arbitrary: st k rule: less_induct)
  case less
  note hole = less.prems(2)
  let ?ys = "put (vector_of st) k e"
  show ?case
  proof (cases "2 \<le> k \<and> before_in st e (ith (vector_of st) (k div 2))")
    case False
    then have stays: "2 \<le> k \<Longrightarrow> \<not> before_in st e (ith (vector_of st) (k div 2))" by blast
    then have "2 \<le> k \<Longrightarrow> \<not> before_in st (ith ?ys k) (ith ?ys (k div 2))"
      using holeD [OF hole] half_less [of k] by (simp add: ith_put)
    then have "ordered (before_in st) (size_of st) (ith ?ys)"
      by (intro up_ok_done [OF less.prems(3)])
    with hole PRQ_Upheap_loop_stays [OF hole stays] show ?thesis by simp
  next
    case True
    then have k: "2 \<le> k" and before: "before_in st e (ith (vector_of st) (k div 2))" by simp_all
    note half = half_less [OF k]
    obtain st' where st': "PRQ_Upheap_loop st e k = PRQ_Upheap_loop st' e (k div 2)" "hole st' e (k div 2) M"
      "frame st st'" "vector_of st' = put (vector_of st) k (ith (vector_of st) (k div 2))"
      by (rule PRQ_Upheap_loop_moves [OF hole k before])
    note fr = frameD [OF st'(3)]
    have "up_ok (before_in st) (size_of st) (ith (put (vector_of st') (k div 2) e)) (k div 2)"
    proof (rule up_ok_step [OF less.prems(1,3) k])
      show "before_in st (ith ?ys k) (ith ?ys (k div 2))"
        using before holeD [OF hole] half by (simp add: ith_put)
      show "ith (put (vector_of st') (k div 2) e) i
          = (if i = k then ith ?ys (k div 2) else if i = k div 2 then ith ?ys k else ith ?ys i)"
        if "1 \<le> i" "i \<le> size_of st" for i
        unfolding st'(4) using half holeD [OF hole] that by (intro moved_ith [OF hole]) simp_all
    qed (use holeD [OF hole] in simp)
    then have "returnsE (PRQ_Upheap_loop st' e (k div 2)) (\<lambda>(st'', k'). hole st'' e k' M \<and> frame st' st'' \<and> k' \<le> k div 2
        \<and> ordered (before_in st') (size_of st') (ith (put (vector_of st'') k' e)))"
      using less.prems(1) st'(2) half by (intro less.hyps) (simp_all add: fr)
    then show ?thesis
      unfolding st'(1) using half fr frame_trans [OF st'(3)] by (auto elim!: returnsE_mono)
  qed
qed

text \<open>The children of a position, as the loop computes them.\<close>

lemma child_cases:
  fixes i k :: int
  assumes "2 \<le> i" "i div 2 = k"
  shows "i = 2 * k \<or> i = 2 * k + 1"
  using assms by linarith

lemma PRQ_Downheap_loop_spec:
  assumes "precedence (before_in st)" "hole st e k M" "size_of st < 2 ^ 30"
    and "down_ok (before_in st) (size_of st) (ith (put (vector_of st) k e)) k"
  shows "returnsE (PRQ_Downheap_loop st e k) (\<lambda>(st', k'). hole st' e k' M \<and> frame st st'
      \<and> ordered (before_in st) (size_of st) (ith (put (vector_of st') k' e)))"
  using assms
proof (induction "nat (size_of st - k)" arbitrary: st k rule: less_induct)
  case less
  note hole = less.prems(2) and h = holeD [OF less.prems(2)]
  let ?n = "size_of st" and ?xs = "vector_of st" and ?ys = "put (vector_of st) k e" and ?before = "before_in st"
  have idx: "INT32 (k * 2) = 2 * k" "INT32 (2 * k + 1) = 2 * k + 1"
    using h less.prems(3) by (simp_all add: INT32_id)
  have ys: "ith ?ys k = e" "\<And>i. k < i \<Longrightarrow> ith ?ys i = ith ?xs i"
    using h by (simp_all add: ith_put)
  have finish: ?case if "PRQ_Downheap_loop st e k = Inr (st, k)"
      "\<And>i. 2 \<le> i \<Longrightarrow> i \<le> ?n \<Longrightarrow> i div 2 = k \<Longrightarrow> \<not> ?before (ith ?xs i) e"
  proof -
    have "ordered ?before ?n (ith ?ys)"
    proof (rule down_ok_done [OF less.prems(4)])
      fix i
      assume i: "2 \<le> i" "i \<le> ?n" "i div 2 = k"
      then have "k < i" using half_less(1) by blast
      with that(2) [OF i] show "\<not> ?before (ith ?ys i) (ith ?ys k)" by (simp add: ys)
    qed
    with that(1) hole show ?thesis by simp
  qed
  have step: ?case
    if c: "c = 2 * k \<or> c = 2 * k + 1" "c \<le> ?n" and before: "?before (ith ?xs c) e"
      and least: "\<And>i. 2 \<le> i \<Longrightarrow> i \<le> ?n \<Longrightarrow> i div 2 = k \<Longrightarrow> \<not> ?before (ith ?xs i) (ith ?xs c)"
      and loop: "\<And>st'. PRQ_Set_Ith st k (ith ?xs c) = Inr st' \<Longrightarrow> PRQ_Downheap_loop st e k = PRQ_Downheap_loop st' e c" for c
  proof -
    have c': "2 \<le> c" "c div 2 = k" "1 \<le> c" "c \<noteq> k" "k < c" using c(1) h(1) by auto
    obtain st' where st': "PRQ_Set_Ith st k (ith ?xs c) = Inr st'" "hole st' e c M" "frame st st'"
        "vector_of st' = put ?xs k (ith ?xs c)"
      by (rule returnsE_E [OF hole_move [OF hole c'(3) c(2) c'(4)]]) blast
    note fr = frameD [OF st'(3)]
    have "down_ok ?before ?n (ith (put (vector_of st') c e)) c"
    proof (rule down_ok_step [OF less.prems(1,4) h(1) c'(1) c(2) c'(2)])
      show "?before (ith ?ys c) (ith ?ys k)" using before c' by (simp add: ys)
      show "\<not> ?before (ith ?ys i) (ith ?ys c)" if i: "2 \<le> i" "i \<le> ?n" "i div 2 = k" for i
        using least [OF i] half_less(1) [OF i(1)] i(3) c' by (simp add: ys)
      show "ith (put (vector_of st') c e) i = (if i = k then ith ?ys c else if i = c then ith ?ys k else ith ?ys i)"
        if "1 \<le> i" "i \<le> ?n" for i
        unfolding st'(4) using c c' that by (intro moved_ith [OF hole]) simp_all
    qed
    then have "returnsE (PRQ_Downheap_loop st' e c) (\<lambda>(st'', k'). hole st'' e k' M \<and> frame st' st''
        \<and> ordered (before_in st') (size_of st') (ith (put (vector_of st'') k' e)))"
      using less.prems(1,3) st'(2) c c' by (intro less.hyps) (simp_all add: fr)
    then show ?thesis
      unfolding loop [OF st'(1)] using fr frame_trans [OF st'(3)] by (auto elim!: returnsE_mono)
  qed
  have read: "PRQ_Ith (fst st) i = Inr (ith ?xs i)" if "1 \<le> i" "i \<le> ?n" for i
    using that h by (intro PRQ_Ith_ith) simp_all
  note unfold = PRQ_Downheap_loop.simps [of st e k] Let_def idx
  note asym = precedence_asym [OF less.prems(1)] and trans = precedence_trans [OF less.prems(1)]
  consider (none) "?n < 2 * k" | (left) "2 * k \<le> ?n" "\<not> (2 * k + 1 \<le> ?n \<and> ?before (ith ?xs (2 * k + 1)) (ith ?xs (2 * k)))"
    | (right) "2 * k + 1 \<le> ?n" "?before (ith ?xs (2 * k + 1)) (ith ?xs (2 * k))"
    by linarith
  then show ?case
  proof cases
    case none
    show ?thesis
    proof (rule finish)
      show "PRQ_Downheap_loop st e k = Inr (st, k)" using none by (simp add: unfold)
    qed (use none child_cases in fastforce)
  next
    case left
    have least: "\<not> ?before (ith ?xs i) (ith ?xs (2 * k))" if "2 \<le> i" "i \<le> ?n" "i div 2 = k" for i
      using child_cases [OF that(1,3)] that(2) left asym by auto
    show ?thesis
    proof (cases "?before (ith ?xs (2 * k)) e")
      case True
      show ?thesis
        by (rule step [OF _ left(1) True least]) (use left True h in \<open>auto simp: unfold read\<close>)
    next
      case False
      show ?thesis
      proof (rule finish)
        show "PRQ_Downheap_loop st e k = Inr (st, k)" using left False h by (auto simp: unfold read)
        show "\<not> ?before (ith ?xs i) e" if "2 \<le> i" "i \<le> ?n" "i div 2 = k" for i
          using least [OF that] False by (rule trans)
      qed
    qed
  next
    case right
    have least: "\<not> ?before (ith ?xs i) (ith ?xs (2 * k + 1))" if "2 \<le> i" "i \<le> ?n" "i div 2 = k" for i
      using child_cases [OF that(1,3)] right asym by auto
    show ?thesis
    proof (cases "?before (ith ?xs (2 * k + 1)) e")
      case True
      show ?thesis
        by (rule step [OF _ right(1) True least]) (use right True h in \<open>auto simp: unfold read\<close>)
    next
      case False
      show ?thesis
      proof (rule finish)
        show "PRQ_Downheap_loop st e k = Inr (st, k)" using right False h by (auto simp: unfold read)
        show "\<not> ?before (ith ?xs i) e" if "2 \<le> i" "i \<le> ?n" "i div 2 = k" for i
          using least [OF that] False by (rule trans)
      qed
    qed
  qed
qed

text \<open>\<open>PRQ_near st st'\<close>: \<open>st'\<close> is a well-formed queue with the elements of \<open>st\<close> and nothing but their order changed.\<close>

definition PRQ_near :: "('a, 'm) prq_state \<Rightarrow> ('a, 'm) prq_state \<Rightarrow> bool" where
  "PRQ_near st st' \<longleftrightarrow> frame st st' \<and> PRQ_wf st' \<and> PRQ_elements (fst st') = PRQ_elements (fst st)"

lemma PRQ_wf_frame:
  assumes "PRQ_wf st" "frame st st'" "indexed_but st' (vector_of st') 0"
  shows "PRQ_wf st'"
  using assms frameD [OF assms(2)] by (simp add: PRQ_wf_def)

lemma PRQ_wf_hole:
  assumes "PRQ_wf st" "1 \<le> k" "k \<le> size_of st"
  shows "hole st (ith (vector_of st) k) k (PRQ_elements (fst st))"
  using assms by (intro hole_at) (auto simp: PRQ_wf_def)

lemma PRQ_wf_read:
  assumes "PRQ_wf st" "1 \<le> i" "i \<le> size_of st"
  shows "PRQ_Ith (fst st) i = Inr (ith (vector_of st) i)"
  using assms by (intro PRQ_Ith_ith) (auto simp: PRQ_wf_def)

text \<open>Both sifts end by putting the element in the hole.\<close>

lemma fill_near:
  assumes "PRQ_wf st" "hole st' e k (PRQ_elements (fst st))" "frame st st'"
    and "ordered (before_in st) (size_of st) (ith (put (vector_of st') k e))"
  shows "returnsE (PRQ_Set_Ith st' k e) (\<lambda>st''. PRQ_near st st'' \<and> PRQ_invar st'')"
proof (rule returnsE_mono [OF hole_fill [OF assms(2)]])
  fix st''
  assume a: "frame st' st'' \<and> vector_of st'' = put (vector_of st') k e
      \<and> PRQ_elements (fst st'') = PRQ_elements (fst st) \<and> indexed_but st'' (vector_of st'') 0"
  then have fr: "frame st st''" using frame_trans [OF assms(3)] by blast
  moreover have "indexed_but st'' (vector_of st'') 0" using a by blast
  ultimately have "PRQ_wf st''" by (rule PRQ_wf_frame [OF assms(1)])
  with a fr assms(4) frameD [OF fr] show "PRQ_near st st'' \<and> PRQ_invar st''"
    by (simp add: PRQ_near_def PRQ_invar_def)
qed

lemma PRQ_Upheap_spec:
  assumes wf: "PRQ_wf st" and k: "1 \<le> k" "k \<le> size_of st"
    and up: "up_ok (before_in st) (size_of st) (ith (vector_of st)) k"
  shows "returnsE (PRQ_Upheap st k) (\<lambda>(st', k'). PRQ_near st st' \<and> PRQ_invar st')"
proof -
  let ?e = "ith (vector_of st) k"
  have prec: "precedence (before_in st)" using wf by (simp add: PRQ_wf_def)
  have up': "up_ok (before_in st) (size_of st) (ith (put (vector_of st) k ?e)) k" using up by simp
  obtain st' k' where loop: "PRQ_Upheap_loop st ?e k = Inr (st', k')"
    "hole st' ?e k' (PRQ_elements (fst st))" "frame st st'" "k' \<le> k"
    "ordered (before_in st) (size_of st) (ith (put (vector_of st') k' ?e))"
    by (rule returnsE_E [OF PRQ_Upheap_loop_spec [OF prec PRQ_wf_hole [OF wf k] up']]) auto
  from fill_near [OF wf loop(2,3,5)] k show ?thesis
    by (simp add: PRQ_Upheap_def PRQ_wf_read [OF wf k] loop(1))
qed

lemma PRQ_Downheap_spec:
  assumes wf: "PRQ_wf st" and k: "1 \<le> k" "k \<le> size_of st" and small: "size_of st < 2 ^ 30"
    and down: "down_ok (before_in st) (size_of st) (ith (vector_of st)) k"
  shows "returnsE (PRQ_Downheap st k) (\<lambda>(st', k'). PRQ_near st st' \<and> PRQ_invar st')"
proof -
  let ?e = "ith (vector_of st) k"
  have prec: "precedence (before_in st)" using wf by (simp add: PRQ_wf_def)
  have down': "down_ok (before_in st) (size_of st) (ith (put (vector_of st) k ?e)) k" using down by simp
  obtain st' k' where loop: "PRQ_Downheap_loop st ?e k = Inr (st', k')"
    "hole st' ?e k' (PRQ_elements (fst st))" "frame st st'"
    "ordered (before_in st) (size_of st) (ith (put (vector_of st') k' ?e))"
    by (rule returnsE_E [OF PRQ_Downheap_loop_spec [OF prec PRQ_wf_hole [OF wf k] small down']]) auto
  from fill_near [OF wf loop(2,3,4)] k show ?thesis
    by (simp add: PRQ_Downheap_def PRQ_wf_read [OF wf k] loop(1))
qed

text \<open>An element that may have to go either way: up, and if that did not move it, down.\<close>

lemma PRQ_near_trans: "PRQ_near st st' \<Longrightarrow> PRQ_near st' st'' \<Longrightarrow> PRQ_near st st''"
  unfolding PRQ_near_def using frame_trans by fastforce

lemma ordered_down: "precedence before \<Longrightarrow> ordered before n h \<Longrightarrow> down_ok before n h k"
  using ordered_up [of before n h k] by (simp add: down_ok_def ordered_def)

lemma PRQ_Upheap_either:
  assumes wf: "PRQ_wf st" and k: "1 \<le> k" "k \<le> size_of st"
    and ok: "but_ok (before_in st) (size_of st) (ith (vector_of st)) k"
  shows "returnsE (PRQ_Upheap st k) (\<lambda>(st', k'). PRQ_near st st' \<and>
      (if k' = k then down_ok (before_in st') (size_of st') (ith (vector_of st')) k else PRQ_invar st'))"
proof (cases "2 \<le> k \<and> before_in st (ith (vector_of st) k) (ith (vector_of st) (k div 2))")
  case True
  have prec: "precedence (before_in st)" using wf by (simp add: PRQ_wf_def)
  have up: "up_ok (before_in st) (size_of st) (ith (vector_of st)) k"
    using True by (intro but_ok_up [OF prec ok]) simp_all
  have down: "down_ok (before_in st') (size_of st') (ith (vector_of st')) k" if "PRQ_invar st'" for st' :: "('a, 'b) prq_state"
    using that by (intro ordered_down) (simp_all add: PRQ_invar_def PRQ_wf_def)
  show ?thesis
    by (rule returnsE_mono [OF PRQ_Upheap_spec [OF wf k up]]) (use down in \<open>simp add: split_beta\<close>)
next
  case False
  let ?e = "ith (vector_of st) k"
  note hole = PRQ_wf_hole [OF wf k]
  have down: "down_ok (before_in st) (size_of st) (ith (vector_of st)) k"
    using False by (intro but_ok_down [OF ok]) blast
  have stays: "PRQ_Upheap_loop st ?e k = Inr (st, k)"
    using False by (intro PRQ_Upheap_loop_stays [OF hole]) blast
  have "returnsE (PRQ_Set_Ith st k ?e) (\<lambda>st'. PRQ_near st st' \<and>
      down_ok (before_in st') (size_of st') (ith (vector_of st')) k)"
  proof (rule returnsE_mono [OF hole_fill [OF hole]])
    fix st'
    assume a: "frame st st' \<and> vector_of st' = put (vector_of st) k ?e
      \<and> PRQ_elements (fst st') = PRQ_elements (fst st) \<and> indexed_but st' (vector_of st') 0"
    then have fr: "frame st st'" and "PRQ_wf st'" by (blast intro: PRQ_wf_frame [OF wf])+
    with a down frameD [OF fr] show "PRQ_near st st' \<and> down_ok (before_in st') (size_of st') (ith (vector_of st')) k"
      by (simp add: PRQ_near_def)
  qed
  with k show ?thesis
    by (simp add: PRQ_Upheap_def PRQ_wf_read [OF wf k] stays)
qed

lemma PRQ_sift_spec:
  assumes wf: "PRQ_wf st" and k: "1 \<le> k" "k \<le> size_of st" and small: "size_of st < 2 ^ 30"
    and ok: "but_ok (before_in st) (size_of st) (ith (vector_of st)) k"
  shows "returnsE (bindE (PRQ_Upheap st k) (\<lambda>(st', k').
           if k = k' then bindE (PRQ_Downheap st' k) (\<lambda>(st, _). Inr st) else Inr st'))
         (\<lambda>st'. PRQ_near st st' \<and> PRQ_invar st')"
proof -
  obtain st1 k1 where up: "PRQ_Upheap st k = Inr (st1, k1)" "PRQ_near st st1"
    "if k1 = k then down_ok (before_in st1) (size_of st1) (ith (vector_of st1)) k else PRQ_invar st1"
    by (rule returnsE_E [OF PRQ_Upheap_either [OF wf k ok]]) auto
  show ?thesis
  proof (cases "k = k1")
    case True
    have wf1: "PRQ_wf st1" and fr: "frame st st1" using up(2) by (simp_all add: PRQ_near_def)
    have "returnsE (PRQ_Downheap st1 k) (\<lambda>(st', k'). PRQ_near st1 st' \<and> PRQ_invar st')"
      using k small up(3) True frameD [OF fr] by (intro PRQ_Downheap_spec [OF wf1]) simp_all
    then have "returnsE (PRQ_Downheap st1 k) (\<lambda>r. PRQ_near st (fst r) \<and> PRQ_invar (fst r))"
      by (rule returnsE_mono) (use PRQ_near_trans [OF up(2)] in \<open>auto simp: split_beta\<close>)
    with True show ?thesis unfolding up(1) by (simp add: split_beta)
  qed (use up in auto)
qed

end
