(* ===== verification/Priority_Queue_Ops.thy ===== *)
theory Priority_Queue_Ops
  imports Priority_Queue
begin

text \<open>
  What the operations of \<^verbatim>\<open>priority_queue.c\<close> do to the multiset of elements in the queue, from any state that
  satisfies the invariant; then the contract of a priority queue as a locale, and the queue as an instance of it.
\<close>

section \<open>The operations\<close>

lemma PRQ_elements_ith:
  assumes "PRQ_wf st"
  shows "x \<in># PRQ_elements (fst st) \<longleftrightarrow> (\<exists>k. 1 \<le> k \<and> k \<le> size_of st \<and> ith (vector_of st) k = x)"
proof -
  have n: "nat (size_of st) \<le> length (vector_of st)" using assms by (auto simp: PRQ_wf_def)
  have "x \<in> set (take (nat (size_of st)) (vector_of st)) \<longleftrightarrow> (\<exists>j < nat (size_of st). vector_of st ! j = x)"
    using n by (auto simp: in_set_conv_nth)
  also have "\<dots> \<longleftrightarrow> (\<exists>k. 1 \<le> k \<and> k \<le> size_of st \<and> ith (vector_of st) k = x)"
  proof
    assume "\<exists>j < nat (size_of st). vector_of st ! j = x"
    then obtain j where "j < nat (size_of st)" "vector_of st ! j = x" by blast
    then show "\<exists>k. 1 \<le> k \<and> k \<le> size_of st \<and> ith (vector_of st) k = x"
      by (intro exI [of _ "int j + 1"]) (auto simp: ith_def)
  next
    assume "\<exists>k. 1 \<le> k \<and> k \<le> size_of st \<and> ith (vector_of st) k = x"
    then obtain k where "1 \<le> k" "k \<le> size_of st" "ith (vector_of st) k = x" by blast
    then show "\<exists>j < nat (size_of st). vector_of st ! j = x"
      by (intro exI [of _ "nat (k - 1)"]) (auto simp: ith_def)
  qed
  finally show ?thesis by (simp add: PRQ_elements_def)
qed

lemma PRQ_find_spec:
  assumes wf: "PRQ_wf st" and x: "x \<in># PRQ_elements (fst st)"
  shows "returnsE (PRQ_find st x) (\<lambda>k. 1 \<le> k \<and> k \<le> size_of st \<and> ith (vector_of st) k = x)"
proof (cases "PRQ_get_index_fn (fst st)")
  case (Some get_index)
  obtain k where k: "1 \<le> k" "k \<le> size_of st" "ith (vector_of st) k = x"
    using x PRQ_elements_ith [OF wf] by blast
  then have "get_index (snd st) x = k" using wf Some by (auto simp: PRQ_wf_def indexed_but_def)
  with k show ?thesis by (simp add: PRQ_find_def Some PRQ_wf_read [OF wf])
next
  case None
  let ?h = "\<lambda>i. if ith (vector_of st) i = x then Some i else None"
  have "returnsE (search_loop 1 (size_of st + 1) (\<lambda>i. bindE (PRQ_Ith (fst st) i) (\<lambda>ith.
      Inr (if ith = x then Some i else None)))) (first_hit 1 (size_of st + 1) ?h)"
    by (rule search_loop_spec) (simp add: PRQ_wf_read [OF wf])
  then show ?thesis
    unfolding PRQ_find_def None option.case returnsE_bindE
  proof (rule returnsE_mono)
    fix r
    assume hit: "first_hit 1 (size_of st + 1) ?h r"
    obtain k where k: "1 \<le> k" "k \<le> size_of st" "ith (vector_of st) k = x"
      using x PRQ_elements_ith [OF wf] by blast
    show "returnsE (Inr (case r of None \<Rightarrow> UNDEFINED | Some i \<Rightarrow> i))
        (\<lambda>k. 1 \<le> k \<and> k \<le> size_of st \<and> ith (vector_of st) k = x)"
    proof (cases r)
      case None
      with hit have "\<forall>i \<in> {1..<size_of st + 1}. ?h i = None" by (simp only: first_hit_def option.case)
      with k have False by force
      then show ?thesis ..
    next
      case (Some v)
      with hit obtain i where "i \<in> {1..<size_of st + 1}" "?h i = Some v" by (auto simp: first_hit_def)
      with Some show ?thesis by (auto split: if_splits)
    qed
  qed
qed

lemma PRQ_find_absent:
  assumes wf: "PRQ_wf st" and x: "x \<notin># PRQ_elements (fst st)" and "PRQ_get_index_fn (fst st) = None"
  shows "PRQ_find st x = Inr UNDEFINED"
proof -
  have "search_loop 1 (size_of st + 1) (\<lambda>i. bindE (PRQ_Ith (fst st) i) (\<lambda>ith.
      Inr (if ith = x then Some i else None))) = Inr None"
  proof -
    have "returnsE (search_loop 1 (size_of st + 1) (\<lambda>i. bindE (PRQ_Ith (fst st) i) (\<lambda>ith.
        Inr (if ith = x then Some i else None))))
        (first_hit 1 (size_of st + 1) (\<lambda>i. if ith (vector_of st) i = x then Some i else None))"
      by (rule search_loop_spec) (simp add: PRQ_wf_read [OF wf])
    then show ?thesis
      using x PRQ_elements_ith [OF wf, of x]
      by (elim returnsE_E) (auto simp: first_hit_def split: option.splits if_splits)
  qed
  with assms(3) show ?thesis by (simp add: PRQ_find_def)
qed

text \<open>Taking out the element at \<open>k\<close> by putting the bottom element there.\<close>

lemma replace_bottom_mset:
  assumes "1 \<le> k" "k < n" "n \<le> int (length xs)"
  shows "add_mset (ith xs k) (mset (take (nat (n - 1)) (put xs k (ith xs n)))) = mset (take (nat n) xs)"
proof -
  define j where "j = nat (n - 1)"
  have j: "nat n = Suc j" "j < length xs" "nat (k - 1) < j" using assms by (auto simp: j_def)
  have "take (Suc j) xs = take j xs @ [xs ! j]" using j(2) by (rule take_Suc_conv_app_nth)
  moreover have "take j (put xs k (ith xs n)) = (take j xs)[nat (k - 1) := xs ! j]"
    by (simp add: put_def ith_def take_update_swap flip: j_def)
  moreover have "ith xs k = take j xs ! nat (k - 1)" using j by (simp add: ith_def)
  ultimately show ?thesis
    using j nth_mem_mset [of "nat (k - 1)" "take j xs"]
    by (simp add: mset_update flip: j_def del: nth_take)
qed

lemma replace_bottom:
  assumes inv: "PRQ_invar st" and k: "1 \<le> k" "k < size_of st"
  defines "st1 \<equiv> ((fst st)\<lparr>PRQ_size := size_of st - 1\<rparr>, snd st)"
  shows "returnsE (PRQ_Set_Ith st1 k (ith (vector_of st) (size_of st))) (\<lambda>st2. PRQ_wf st2
    \<and> size_of st2 = size_of st - 1 \<and> before_in st2 = before_in st \<and> PRQ_get_index_fn (fst st2) = PRQ_get_index_fn (fst st)
    \<and> add_mset (ith (vector_of st) k) (PRQ_elements (fst st2)) = PRQ_elements (fst st)
    \<and> but_ok (before_in st2) (size_of st2) (ith (vector_of st2)) k)"
proof -
  let ?n = "size_of st" and ?xs = "vector_of st"
  have wf: "PRQ_wf st" and ord: "ordered (before_in st) ?n (ith ?xs)" using inv by (auto simp: PRQ_invar_def)
  have n: "?n \<le> int (length ?xs)" "k \<le> int (length (vector_of st1))" "client_ok (fst st1)"
    using wf k by (auto simp: PRQ_wf_def st1_def)
  have prec: "precedence (before_in st)" using wf by (simp add: PRQ_wf_def)
  define b where "b = ith ?xs ?n"
  have st1: "vector_of st1 = ?xs" "snd st1 = snd st" "PRQ_get_index_fn (fst st1) = PRQ_get_index_fn (fst st)"
    "PRQ_comparison_fn (fst st1) = PRQ_comparison_fn (fst st)" by (simp_all add: st1_def)
  obtain m where m: "PRQ_Set_Ith st1 k b = Inr ((fst st1)\<lparr>PRQ_heap_vector := put ?xs k b\<rparr>, m)"
    "PRQ_comparison_fn (fst st) m = before_in st"
    "\<And>get_index y. PRQ_get_index_fn (fst st) = Some get_index \<Longrightarrow>
       get_index m y = (if y = b then k else get_index (snd st) y)"
    by (rule PRQ_Set_Ith_put [OF k(1) n(2,3), of b, unfolded st1]) blast
  let ?st2 = "((fst st1)\<lparr>PRQ_heap_vector := put ?xs k b\<rparr>, m)"
  have st2: "size_of ?st2 = ?n - 1" "vector_of ?st2 = put ?xs k b" "before_in ?st2 = before_in st"
    "PRQ_get_index_fn (fst ?st2) = PRQ_get_index_fn (fst st)"
    using m(2) by (simp_all add: st1_def)
  have at: "ith (put ?xs k b) i = (if i = k then b else ith ?xs i)" if "1 \<le> i" for i
    using that k n by (simp add: ith_put)
  have M: "add_mset (ith ?xs k) (mset (take (nat (?n - 1)) (put ?xs k b))) = mset (take (nat ?n) ?xs)"
    unfolding b_def using k n by (intro replace_bottom_mset)
  have "indexed_but ?st2 (put ?xs k b) 0"
    unfolding indexed_but_def st2
  proof (intro allI impI conjI ballI)
    fix get_index
    assume get: "PRQ_get_index_fn (fst st) = Some get_index"
    with wf have d: "distinct (take (nat ?n) ?xs)" by (simp add: PRQ_wf_def indexed_but_def)
    have "distinct (ith ?xs k # take (nat (?n - 1)) (put ?xs k b)) = distinct (take (nat ?n) ?xs)"
      using M by (intro mset_eq_imp_distinct_iff) simp
    with d show "distinct (take (nat (?n - 1)) (put ?xs k b))" by simp
    fix i
    assume i: "i \<in> {1..?n - 1}"
    have "ith ?xs i \<noteq> b" unfolding b_def using distinct_ith [OF d n(1), of i ?n] i by simp
    moreover have "get_index (snd st) (ith ?xs i) = i"
      using wf get i by (simp add: PRQ_wf_def indexed_but_def)
    ultimately show "get_index (snd ?st2) (ith (put ?xs k b) i) = i"
      using i m(3) [OF get] by (simp add: at)
  qed
  then have "PRQ_wf ?st2" using wf k m(2) by (simp add: PRQ_wf_def st1_def)
  moreover have "but_ok (before_in st) (?n - 1) (ith (put ?xs k b)) k"
  proof -
    have "\<not> before_in st (ith (put ?xs k b) i) (ith (put ?xs k b) (i div 2))"
      if "2 \<le> i" "i \<le> ?n - 1" "i \<noteq> k" "i div 2 \<noteq> k" for i
      using ord that half_less [OF that(1)] by (simp add: at ordered_def)
    moreover have "bridged (before_in st) (?n - 1) (ith (put ?xs k b)) k"
      unfolding bridged_def
    proof (intro impI ballI)
      fix i
      assume i: "2 \<le> k" "i \<in> {2..?n - 1}" "i div 2 = k"
      have "\<not> before_in st (ith ?xs i) (ith ?xs (k div 2))"
        using ordered_up [OF prec ord, of k] i by (simp add: bridged_def)
      with i half_less [of i] half_less [OF i(1)]
      show "\<not> before_in st (ith (put ?xs k b) i) (ith (put ?xs k b) (k div 2))" by (simp add: at)
    qed
    ultimately show ?thesis by (simp add: but_ok_def)
  qed
  ultimately show ?thesis
    using M st2 by (simp add: m(1) b_def [symmetric] PRQ_elements_def)
qed

text \<open>An operation that gives a queue with the elements \<open>M\<close> under the same precedence.\<close>

definition PRQ_becomes :: "('a, 'm) prq_state \<Rightarrow> 'a multiset \<Rightarrow> ('a, 'm) prq_state \<Rightarrow> bool" where
  "PRQ_becomes st M st' \<longleftrightarrow> PRQ_invar st' \<and> PRQ_elements (fst st') = M \<and> before_in st' = before_in st
     \<and> PRQ_get_index_fn (fst st') = PRQ_get_index_fn (fst st)"

lemma PRQ_elements_size: "PRQ_wf st \<Longrightarrow> int (size (PRQ_elements (fst st))) = size_of st"
  by (auto simp: PRQ_wf_def PRQ_elements_def)

lemma PRQ_size_0:
  assumes "PRQ_invar st" "size_of st \<le> 1" "0 \<le> size_of st"
  shows "PRQ_becomes st {#} ((fst st)\<lparr>PRQ_size := 0\<rparr>, snd st)"
  using assms by (auto simp: PRQ_becomes_def PRQ_invar_def PRQ_wf_def PRQ_elements_def ordered_def indexed_but_def)

lemma near_becomes: "PRQ_near st st' \<Longrightarrow> PRQ_invar st' \<Longrightarrow> PRQ_becomes st (PRQ_elements (fst st)) st'"
  using frameD [of st st'] by (simp add: PRQ_near_def PRQ_becomes_def)

lemma PRQ_Remove_spec:
  assumes inv: "PRQ_invar st" and small: "size_of st < 2 ^ 30" and x: "x \<in># PRQ_elements (fst st)"
  shows "returnsE (PRQ_Remove st x) (PRQ_becomes st (PRQ_elements (fst st) - {#x#}))"
proof -
  have wf: "PRQ_wf st" using inv by (simp add: PRQ_invar_def)
  obtain k where k: "PRQ_find st x = Inr k" "1 \<le> k" "k \<le> size_of st" "ith (vector_of st) k = x"
    by (rule returnsE_E [OF PRQ_find_spec [OF wf x]]) blast
  have pos: "0 < size_of st" "k \<noteq> UNDEFINED" using k by (auto simp: UNDEFINED_def)
  show ?thesis
  proof (cases "k = size_of st")
    case True
    let ?n = "size_of st" and ?xs = "vector_of st"
    have len: "nat ?n = Suc (nat (?n - 1))" "nat (?n - 1) < length ?xs"
      using wf pos by (auto simp: PRQ_wf_def)
    have "take (nat ?n) ?xs = take (nat (?n - 1)) ?xs @ [x]"
      unfolding len(1) using take_Suc_conv_app_nth [OF len(2)] k(4) True by (simp add: ith_def)
    then have M: "PRQ_elements (fst st) = add_mset x (mset (take (nat (?n - 1)) ?xs))"
      and d: "distinct (take (nat ?n) ?xs) \<Longrightarrow> distinct (take (nat (?n - 1)) ?xs)"
      by (simp_all add: PRQ_elements_def)
    have "PRQ_becomes st (PRQ_elements (fst st) - {#x#}) ((fst st)\<lparr>PRQ_size := ?n - 1\<rparr>, snd st)"
      using inv pos d unfolding M
      by (auto simp: PRQ_becomes_def PRQ_invar_def PRQ_wf_def ordered_def indexed_but_def PRQ_elements_def)
    with True pos show ?thesis by (simp add: PRQ_Remove_def k(1))
  next
    case False
    with k have lt: "k < size_of st" by simp
    let ?st1 = "((fst st)\<lparr>PRQ_size := size_of st - 1\<rparr>, snd st)"
    have bottom: "PRQ_Ith (fst st) (size_of st) = Inr (ith (vector_of st) (size_of st))"
      using pos by (intro PRQ_wf_read [OF wf]) simp_all
    obtain st2 where st2: "PRQ_Set_Ith ?st1 k (ith (vector_of st) (size_of st)) = Inr st2" "PRQ_wf st2"
      "size_of st2 = size_of st - 1" "before_in st2 = before_in st" "PRQ_get_index_fn (fst st2) = PRQ_get_index_fn (fst st)"
      "add_mset (ith (vector_of st) k) (PRQ_elements (fst st2)) = PRQ_elements (fst st)"
      "but_ok (before_in st2) (size_of st2) (ith (vector_of st2)) k"
      by (rule returnsE_E [OF replace_bottom [OF inv k(2) lt]]) blast
    have "returnsE (bindE (PRQ_Upheap st2 k) (\<lambda>(st', k').
           if k = k' then bindE (PRQ_Downheap st' k) (\<lambda>(st, _). Inr st) else Inr st'))
         (\<lambda>st'. PRQ_near st2 st' \<and> PRQ_invar st')"
      using k lt small st2 by (intro PRQ_sift_spec) simp_all
    moreover have "PRQ_elements (fst st2) = PRQ_elements (fst st) - {#x#}"
      unfolding st2(6) [symmetric] k(4) by simp
    ultimately have "returnsE (bindE (PRQ_Upheap st2 k) (\<lambda>(st', k').
           if k = k' then bindE (PRQ_Downheap st' k) (\<lambda>(st, _). Inr st) else Inr st'))
         (PRQ_becomes st (PRQ_elements (fst st) - {#x#}))"
      using near_becomes [of st2] st2(4,5) by (elim returnsE_mono) (auto simp: PRQ_becomes_def)
    with False pos show ?thesis
      by (simp add: PRQ_Remove_def k(1) bottom Let_def st2(1))
  qed
qed

lemma PRQ_Delete_Top_spec:
  assumes inv: "PRQ_invar st" and small: "size_of st < 2 ^ 30" and ne: "PRQ_elements (fst st) \<noteq> {#}"
  shows "returnsE (PRQ_Delete_Top st) (\<lambda>(st', x). x \<in># PRQ_elements (fst st)
      \<and> (\<forall>y \<in># PRQ_elements (fst st). \<not> before_in st y x)
      \<and> PRQ_becomes st (PRQ_elements (fst st) - {#x#}) st')"
proof -
  have wf: "PRQ_wf st" and ord: "ordered (before_in st) (size_of st) (ith (vector_of st))"
    and prec: "precedence (before_in st)" using inv by (auto simp: PRQ_invar_def PRQ_wf_def)
  define x where "x = ith (vector_of st) 1"
  have pos: "0 < size_of st"
    using ne PRQ_elements_size [OF wf] by (metis of_nat_0_less_iff size_eq_0_iff_empty zero_less_iff_neq_zero)
  have top: "PRQ_Ith (fst st) 1 = Inr x" using pos by (simp add: x_def PRQ_wf_read [OF wf])
  have x: "x \<in># PRQ_elements (fst st)"
    using pos PRQ_elements_ith [OF wf, of x] by (auto simp: x_def intro: exI [of _ 1])
  have least: "\<forall>y \<in># PRQ_elements (fst st). \<not> before_in st y x"
    using ordered_first [OF prec ord] PRQ_elements_ith [OF wf] by (auto simp: x_def)
  show ?thesis
  proof (cases "size_of st = 1")
    case True
    have "size (PRQ_elements (fst st)) = 1" using PRQ_elements_size [OF wf] True by simp
    then obtain y where "PRQ_elements (fst st) = {#y#}" by (rule size_1_singleton_mset [THEN exE])
    with x have "PRQ_elements (fst st) - {#x#} = {#}" by simp
    with PRQ_size_0 [OF inv] True pos x least show ?thesis
      by (simp add: PRQ_Delete_Top_def top)
  next
    case False
    with pos have lt: "1 < size_of st" by simp
    let ?st1 = "((fst st)\<lparr>PRQ_size := size_of st - 1\<rparr>, snd st)"
    have bottom: "PRQ_Ith (fst st) (size_of st) = Inr (ith (vector_of st) (size_of st))"
      using pos by (intro PRQ_wf_read [OF wf]) simp_all
    obtain st2 where st2: "PRQ_Set_Ith ?st1 1 (ith (vector_of st) (size_of st)) = Inr st2" "PRQ_wf st2"
      "size_of st2 = size_of st - 1" "before_in st2 = before_in st" "PRQ_get_index_fn (fst st2) = PRQ_get_index_fn (fst st)"
      "add_mset x (PRQ_elements (fst st2)) = PRQ_elements (fst st)"
      "but_ok (before_in st2) (size_of st2) (ith (vector_of st2)) 1"
      by (rule returnsE_E [OF replace_bottom [OF inv order_refl lt, folded x_def]]) blast
    have down: "down_ok (before_in st2) (size_of st2) (ith (vector_of st2)) 1"
      by (rule but_ok_down [OF st2(7)]) simp
    have bounds: "1 \<le> size_of st2" "size_of st2 < 2 ^ 30" using lt small st2(3) by simp_all
    have "returnsE (PRQ_Downheap st2 1) (\<lambda>(st', k'). PRQ_near st2 st' \<and> PRQ_invar st')"
      by (rule PRQ_Downheap_spec [OF st2(2) order_refl bounds down])
    moreover have "PRQ_elements (fst st2) = PRQ_elements (fst st) - {#x#}"
      unfolding st2(6) [symmetric] by simp
    ultimately have "returnsE (PRQ_Downheap st2 1) (\<lambda>r. PRQ_becomes st (PRQ_elements (fst st) - {#x#}) (fst r))"
      using near_becomes [of st2] st2(4,5) by (elim returnsE_mono) (auto simp: PRQ_becomes_def split_beta)
    with False pos x least show ?thesis
      by (simp add: PRQ_Delete_Top_def top bottom Let_def st2(1) split_beta)
  qed
qed

lemma PRQ_expand_spec:
  assumes inv: "PRQ_invar st" and small: "size_of st < 2 ^ 30 - 1"
  shows "returnsE (PRQ_expand zero (fst st)) (\<lambda>prq. PRQ_invar (prq, snd st) \<and> PRQ_size prq = size_of st
      \<and> PRQ_size prq < int (length (PRQ_heap_vector prq)) \<and> PRQ_elements prq = PRQ_elements (fst st)
      \<and> PRQ_comparison_fn prq = PRQ_comparison_fn (fst st) \<and> PRQ_get_index_fn prq = PRQ_get_index_fn (fst st))"
proof (cases "size_of st = PRQ_allocated_size (fst st)")
  case False
  with inv show ?thesis by (auto simp: PRQ_expand_def PRQ_invar_def PRQ_wf_def)
next
  case True
  let ?n = "size_of st" and ?xs = "vector_of st"
  have wf: "PRQ_wf st" using inv by (simp add: PRQ_invar_def)
  then have n: "0 \<le> ?n" "int (length ?xs) = ?n" "nat ?n = length ?xs" "PRQ_mem_pool (fst st) \<noteq> Bad_Pool"
    using True by (auto simp: PRQ_wf_def)
  define w where "w = cdiv (INT32 (?n * PRQ_expansion_factor (fst st))) 100"
  define new_size where "new_size = (if w \<le> ?n then INT32 (?n + 10) else w)"
  have "w \<le> \<bar>INT32 (?n * PRQ_expansion_factor (fst st))\<bar> div 100" unfolding w_def by (rule cdiv_numeral_le)
  also have "\<dots> \<le> 2 ^ 31 div 100"
    using INT32_range [of "?n * PRQ_expansion_factor (fst st)"] by (intro zdiv_mono1) simp_all
  finally have "w < 2 ^ 31" by simp
  moreover have "INT32 (?n + 10) = ?n + 10" using small n by (intro INT32_id) simp_all
  ultimately have new: "?n < new_size" "new_size < 2 ^ 31" using small by (auto simp: new_size_def)
  define ys where "ys = ?xs @ pool_memory zero (PRQ_mem_pool (fst st)) (length ?xs) (nat new_size - length ?xs)"
  have ys: "length ys = nat new_size" "take (length ?xs) ys = ?xs" "take (nat new_size) ys = ys"
    using new n by (auto simp: ys_def)
  have ith: "ith ys i = ith ?xs i" if "1 \<le> i" "i \<le> ?n" for i
    using that n by (simp add: ith_def ys_def nth_append nat_less_iff)
  let ?prq = "(fst st)\<lparr>PRQ_heap_vector := ys, PRQ_allocated_size := new_size\<rparr>"
  have call: "PRQ_expand zero (fst st) = Inr ?prq"
    using n ys(3) True [symmetric]
    unfolding PRQ_expand_def Let_def if_P [OF True] w_def [symmetric] new_size_def [symmetric]
    by (simp add: TYPE_MEM_POOL_REALLOC_N_def ys_def)
  have idx: "indexed_but (?prq, snd st) ys 0"
    using wf n ys ith by (simp add: PRQ_wf_def indexed_but_def)
  have "PRQ_wf (?prq, snd st)" using wf idx n new ys by (simp add: PRQ_wf_def)
  moreover have "ordered (before_in st) ?n (ith ys)"
    unfolding ordered_def
  proof
    fix i
    assume i: "i \<in> {2..?n}"
    then have "1 \<le> i div 2" "i div 2 \<le> ?n" using half_less [of i] by auto
    with inv i show "\<not> before_in st (ith ys i) (ith ys (i div 2))"
      by (simp add: PRQ_invar_def ordered_def ith)
  qed
  ultimately show ?thesis
    using n ys new by (simp add: call PRQ_invar_def PRQ_elements_def)
qed

text \<open>A new bottom element.\<close>

lemma add_bottom:
  assumes inv: "PRQ_invar st" and room: "size_of st < int (length (vector_of st))"
    and new: "PRQ_get_index_fn (fst st) \<noteq> None \<Longrightarrow> x \<notin># PRQ_elements (fst st)"
  defines "st1 \<equiv> ((fst st)\<lparr>PRQ_size := size_of st + 1\<rparr>, snd st)"
  shows "returnsE (PRQ_Set_Ith st1 (size_of st + 1) x) (\<lambda>st2. PRQ_wf st2
    \<and> size_of st2 = size_of st + 1 \<and> before_in st2 = before_in st \<and> PRQ_get_index_fn (fst st2) = PRQ_get_index_fn (fst st)
    \<and> PRQ_elements (fst st2) = add_mset x (PRQ_elements (fst st))
    \<and> up_ok (before_in st2) (size_of st2) (ith (vector_of st2)) (size_of st2))"
proof -
  let ?n = "size_of st" and ?xs = "vector_of st"
  have wf: "PRQ_wf st" and ord: "ordered (before_in st) ?n (ith ?xs)" using inv by (auto simp: PRQ_invar_def)
  have k: "1 \<le> ?n + 1" "?n + 1 \<le> int (length (vector_of st1))" "client_ok (fst st1)" "0 \<le> ?n"
    using wf room by (auto simp: PRQ_wf_def st1_def)
  have st1: "vector_of st1 = ?xs" "snd st1 = snd st" "PRQ_get_index_fn (fst st1) = PRQ_get_index_fn (fst st)"
    "PRQ_comparison_fn (fst st1) = PRQ_comparison_fn (fst st)" by (simp_all add: st1_def)
  obtain m where m: "PRQ_Set_Ith st1 (?n + 1) x = Inr ((fst st1)\<lparr>PRQ_heap_vector := put ?xs (?n + 1) x\<rparr>, m)"
    "PRQ_comparison_fn (fst st) m = before_in st"
    "\<And>get_index y. PRQ_get_index_fn (fst st) = Some get_index \<Longrightarrow>
       get_index m y = (if y = x then ?n + 1 else get_index (snd st) y)"
    by (rule PRQ_Set_Ith_put [OF k(1-3), of x, unfolded st1]) blast
  let ?ys = "put ?xs (?n + 1) x"
  let ?st2 = "((fst st1)\<lparr>PRQ_heap_vector := ?ys\<rparr>, m)"
  have at: "ith ?ys i = (if i = ?n + 1 then x else ith ?xs i)" if "1 \<le> i" for i
    using that k by (simp add: ith_put st1)
  have "nat (?n + 1) = Suc (nat ?n)" "nat ?n < length ?xs" using k room by auto
  then have grown: "take (nat (?n + 1)) ?ys = take (nat ?n) ?xs @ [x]"
    by (simp add: put_def take_Suc_conv_app_nth)
  have "indexed_but ?st2 ?ys 0"
    unfolding indexed_but_def
  proof (intro allI impI conjI ballI)
    fix get_index
    assume "PRQ_get_index_fn (fst ?st2) = Some get_index"
    then have get: "PRQ_get_index_fn (fst st) = Some get_index" by (simp add: st1_def)
    have fresh: "x \<notin> set (take (nat ?n) ?xs)" using new get by (simp add: PRQ_elements_def)
    then show "distinct (take (nat (size_of ?st2)) ?ys)"
      using wf get grown by (simp add: PRQ_wf_def indexed_but_def st1_def)
    fix i
    assume i: "i \<in> {1..size_of ?st2}"
    have "ith ?xs i \<noteq> x" "get_index (snd st) (ith ?xs i) = i" if "i \<noteq> ?n + 1"
      using that i wf get new PRQ_elements_ith [OF wf, of x] by (auto simp: PRQ_wf_def indexed_but_def st1_def)
    then show "get_index (snd ?st2) (ith ?ys i) = i"
      using i m(3) [OF get] by (simp add: at)
  qed
  then have "PRQ_wf ?st2" using wf room m(2) by (simp add: PRQ_wf_def st1_def)
  moreover have "up_ok (before_in st) (?n + 1) (ith ?ys) (?n + 1)"
  proof -
    have "\<not> before_in st (ith ?ys i) (ith ?ys (i div 2))" if "2 \<le> i" "i \<le> ?n + 1" "i \<noteq> ?n + 1" for i
      using that ord half_less [OF that(1)] by (simp add: at ordered_def)
    moreover have "bridged (before_in st) (?n + 1) (ith ?ys) (?n + 1)"
      unfolding bridged_def
    proof (intro impI ballI)
      fix i
      assume "i \<in> {2..?n + 1}" "i div 2 = ?n + 1"
      then show "\<not> before_in st (ith ?ys i) (ith ?ys ((?n + 1) div 2))" using half_less(1) [of i] by simp
    qed
    ultimately show ?thesis by (simp add: up_ok_def)
  qed
  ultimately show ?thesis
    unfolding m(1) using m(2) grown by (simp add: st1_def PRQ_elements_def)
qed

lemma PRQ_Insert_spec:
  assumes inv: "PRQ_invar st" and small: "size_of st < 2 ^ 30 - 1"
    and new: "PRQ_get_index_fn (fst st) \<noteq> None \<Longrightarrow> x \<notin># PRQ_elements (fst st)"
  shows "returnsE (PRQ_Insert zero st x) (PRQ_becomes st (add_mset x (PRQ_elements (fst st))))"
proof -
  obtain prq where prq: "PRQ_expand zero (fst st) = Inr prq" "PRQ_invar (prq, snd st)" "PRQ_size prq = size_of st"
    "PRQ_size prq < int (length (PRQ_heap_vector prq))" "PRQ_elements prq = PRQ_elements (fst st)"
    "PRQ_comparison_fn prq = PRQ_comparison_fn (fst st)" "PRQ_get_index_fn prq = PRQ_get_index_fn (fst st)"
    by (rule returnsE_E [OF PRQ_expand_spec [OF inv small]]) blast
  have n: "0 \<le> size_of st" using inv by (simp add: PRQ_invar_def PRQ_wf_def)
  have size: "INT32 (PRQ_size prq + 1) = size_of st + 1" using small n prq(3) by (simp add: INT32_id)
  have room: "size_of (prq, snd st) < int (length (vector_of (prq, snd st)))" using prq(4) by simp
  have fresh: "PRQ_get_index_fn (fst (prq, snd st)) \<noteq> None \<Longrightarrow> x \<notin># PRQ_elements (fst (prq, snd st))"
    using new prq(5,7) by simp
  obtain st2 where st2: "PRQ_Set_Ith (prq\<lparr>PRQ_size := size_of st + 1\<rparr>, snd st) (size_of st + 1) x = Inr st2"
    "PRQ_wf st2" "size_of st2 = size_of st + 1" "before_in st2 = before_in st" "PRQ_get_index_fn (fst st2) = PRQ_get_index_fn (fst st)"
    "PRQ_elements (fst st2) = add_mset x (PRQ_elements (fst st))"
    "up_ok (before_in st2) (size_of st2) (ith (vector_of st2)) (size_of st2)"
    by (rule returnsE_E [OF add_bottom [OF prq(2) room fresh, unfolded fst_conv snd_conv prq(3,5,6,7)]]) blast+
  have k: "1 \<le> size_of st2" using st2(3) n by simp
  have "returnsE (PRQ_Upheap st2 (size_of st2)) (\<lambda>(st', k'). PRQ_near st2 st' \<and> PRQ_invar st')"
    by (rule PRQ_Upheap_spec [OF st2(2) k order_refl st2(7)])
  then have "returnsE (PRQ_Upheap st2 (size_of st2)) (\<lambda>r. PRQ_becomes st (add_mset x (PRQ_elements (fst st))) (fst r))"
    using near_becomes [of st2] st2(4,5,6) by (elim returnsE_mono) (auto simp: PRQ_becomes_def split_beta)
  then show ?thesis
    by (simp add: PRQ_Insert_def prq(1) size Let_def st2(1) split_beta)
qed

text \<open>
  \<^verbatim>\<open>PRQ_Update\<close> is called after the client changed the precedence of one element: the memory is \<open>m\<close> now,
  and it was \<open>m0\<close> when the queue was last in order.
\<close>

lemma count_1_ith:
  assumes wf: "PRQ_wf st" and one: "count (PRQ_elements (fst st)) x = 1"
    and k: "1 \<le> k" "k \<le> size_of st" "ith (vector_of st) k = x" and i: "1 \<le> i" "i \<le> size_of st" "i \<noteq> k"
  shows "ith (vector_of st) i \<noteq> x"
proof
  assume x: "ith (vector_of st) i = x"
  let ?ys = "take (nat (size_of st)) (vector_of st)"
  have len: "length ?ys = nat (size_of st)" using wf by (auto simp: PRQ_wf_def)
  have "x = ?ys ! nat (i - 1)" "x = ?ys ! nat (k - 1)" using i k x by (simp_all add: ith_def)
  moreover have "nat (i - 1) < length ?ys" "nat (k - 1) < length ?ys" using i k unfolding len by simp_all
  ultimately have "{nat (i - 1), nat (k - 1)} \<subseteq> {j. j < length ?ys \<and> x = ?ys ! j}" by blast
  then have "card {nat (i - 1), nat (k - 1)} \<le> card {j. j < length ?ys \<and> x = ?ys ! j}"
    by (rule card_mono [rotated]) simp
  also have "\<dots> = length (filter ((=) x) ?ys)" by (simp only: length_filter_conv_card)
  also have "\<dots> = 1"
    using one by (simp add: PRQ_elements_def count_mset count_list_eq_length_filter)
  finally show False using i k by (simp add: eq_nat_nat_iff)
qed

lemma PRQ_Update_spec:
  assumes old: "PRQ_invar (prq, m0)" and wf: "PRQ_wf (prq, m)" and small: "PRQ_size prq < 2 ^ 30"
    and one: "count (PRQ_elements prq) x = 1"
    and same: "\<And>y z. y \<noteq> x \<Longrightarrow> z \<noteq> x \<Longrightarrow> PRQ_comparison_fn prq m y z = PRQ_comparison_fn prq m0 y z"
  shows "returnsE (PRQ_Update (prq, m) x) (PRQ_becomes (prq, m) (PRQ_elements prq))"
proof -
  let ?h = "ith (PRQ_heap_vector prq)" and ?n = "PRQ_size prq" and ?m = "PRQ_comparison_fn prq m"
  have x: "x \<in># PRQ_elements (fst (prq, m))" using one count_greater_zero_iff [of "PRQ_elements prq" x] by simp
  obtain k where k: "PRQ_find (prq, m) x = Inr k" "1 \<le> k" "k \<le> ?n" "?h k = x"
    by (rule returnsE_E [OF PRQ_find_spec [OF wf x]]) auto
  have other: "?h i \<noteq> x" if "1 \<le> i" "i \<le> ?n" "i \<noteq> k" for i
    using count_1_ith [OF wf, of x k i] one k that by simp
  have ord: "ordered (PRQ_comparison_fn prq m0) ?n ?h" and prec: "precedence (PRQ_comparison_fn prq m0)"
    using old by (simp_all add: PRQ_invar_def PRQ_wf_def)
  have ok: "but_ok ?m ?n ?h k"
  proof -
    have "\<not> ?m (?h i) (?h (i div 2))" if i: "2 \<le> i" "i \<le> ?n" "i \<noteq> k" "i div 2 \<noteq> k" for i
      using ord half_less [OF i(1)] i by (simp add: same other ordered_def)
    moreover have "\<not> ?m (?h i) (?h (k div 2))" if i: "2 \<le> k" "2 \<le> i" "i \<le> ?n" "i div 2 = k" for i
    proof -
      have "k < i" "k div 2 < k" "1 \<le> k div 2" using half_less [OF i(2)] half_less [OF i(1)] i(4) by simp_all
      then show ?thesis
        using ordered_up [OF prec ord, of k] i k by (simp add: same other bridged_def)
    qed
    ultimately show ?thesis by (simp add: but_ok_def bridged_def)
  qed
  have "returnsE (bindE (PRQ_Upheap (prq, m) k) (\<lambda>(st', k').
           if k = k' then bindE (PRQ_Downheap st' k) (\<lambda>(st, _). Inr st) else Inr st'))
         (\<lambda>st'. PRQ_near (prq, m) st' \<and> PRQ_invar st')"
    using k small ok by (intro PRQ_sift_spec [OF wf]) simp_all
  then have "returnsE (bindE (PRQ_Upheap (prq, m) k) (\<lambda>(st', k').
           if k = k' then bindE (PRQ_Downheap st' k) (\<lambda>(st, _). Inr st) else Inr st'))
         (PRQ_becomes (prq, m) (PRQ_elements prq))"
    using near_becomes [of "(prq, m)"] by (elim returnsE_mono) simp
  with k show ?thesis by (simp add: PRQ_Update_def UNDEFINED_def)
qed

text \<open>The remaining operations, and the errors.\<close>

lemma PRQ_Initialize_spec:
  fixes before :: "'m \<Rightarrow> 'a \<Rightarrow> 'a \<Rightarrow> bool"
  assumes "pool \<noteq> Bad_Pool" "initial_size < 2 ^ 31" "precedence (before m)"
    and "set_fn = None \<Longrightarrow> get_fn = None"
    and "\<And>set_index m x i. set_fn = Some set_index \<Longrightarrow> before (set_index m x i) = before m"
    and "\<And>get_index set_index m x i y. get_fn = Some get_index \<Longrightarrow> set_fn = Some set_index
      \<Longrightarrow> get_index (set_index m x i) y = (if y = x then i else get_index m y)"
  shows "returnsE (PRQ_Initialize zero before get_fn set_fn pool initial_size expansion_factor)
    (\<lambda>prq. PRQ_invar (prq, m) \<and> PRQ_elements prq = {#} \<and> PRQ_comparison_fn prq = before
       \<and> PRQ_get_index_fn prq = get_fn \<and> PRQ_set_index_fn prq = set_fn)"
proof -
  have "client_ok \<lparr>PRQ_comparison_fn = before, PRQ_mem_pool = p, PRQ_size = n, PRQ_allocated_size = a,
      PRQ_expansion_factor = e, PRQ_get_index_fn = get_fn, PRQ_set_index_fn = set_fn, PRQ_heap_vector = h\<rparr>"
    for p n a e h
    using assms(4) assms(5) [of "the set_fn"] assms(6) [of _ "the set_fn"]
    by (cases set_fn) (simp_all add: client_ok_def)
  with assms(1-3) show ?thesis
    by (simp add: PRQ_Initialize_def TYPE_MEM_POOL_ALLOC_N_def PRQ_invar_def PRQ_wf_def PRQ_elements_def
        indexed_but_def ordered_def Let_def)
qed

lemma PRQ_Reset_spec:
  "PRQ_invar (prq, m) \<Longrightarrow> PRQ_becomes (prq, m) {#} (PRQ_Reset prq, m)"
  by (auto simp: PRQ_Reset_def PRQ_becomes_def PRQ_invar_def PRQ_wf_def PRQ_elements_def indexed_but_def ordered_def)

lemma PRQ_Top_spec:
  assumes inv: "PRQ_invar st" and ne: "PRQ_elements (fst st) \<noteq> {#}"
  shows "returnsE (PRQ_Top (fst st))
    (\<lambda>x. x \<in># PRQ_elements (fst st) \<and> (\<forall>y \<in># PRQ_elements (fst st). \<not> before_in st y x))"
proof -
  have wf: "PRQ_wf st" and ord: "ordered (before_in st) (size_of st) (ith (vector_of st))"
    and prec: "precedence (before_in st)" using inv by (auto simp: PRQ_invar_def PRQ_wf_def)
  have pos: "0 < size_of st" using ne PRQ_elements_size [OF wf] by (simp add: nonempty_has_size flip: of_nat_0_less_iff)
  then show ?thesis
    using PRQ_elements_ith [OF wf] ordered_first [OF prec ord]
    by (auto simp: PRQ_Top_def PRQ_wf_read [OF wf] intro: exI [of _ 1])
qed

lemma PRQ_empty_errors:
  assumes "size_of st \<le> 0"
  shows "PRQ_Delete_Top st = Inl (Assertion ''Deleting from empty heap'')"
    "PRQ_Top (fst st) = Inl (Assertion ''Topping empty queue'')"
    "PRQ_Remove st x = Inl (Assertion ''PRQ_RemoveElement -- empty queue'')"
    "PRQ_Update st x = Inl (Assertion ''PRQ_Update -- empty queue'')"
  using assms by (simp_all add: PRQ_Delete_Top_def PRQ_Top_def PRQ_Remove_def PRQ_Update_def)

lemma PRQ_absent_errors:
  assumes "PRQ_wf st" "x \<notin># PRQ_elements (fst st)" "PRQ_get_index_fn (fst st) = None" "0 < size_of st"
  shows "PRQ_Remove st x = Inl (Assertion ''Remove a PRQ element not in queue'')"
    "PRQ_Update st x = Inl (Assertion ''Update a PRQ element not in queue'')"
  using assms(4) PRQ_find_absent [OF assms(1-3)] by (simp_all add: PRQ_Remove_def PRQ_Update_def)

section \<open>The contract of a priority queue\<close>

text \<open>
  The operations as an imperative client sees them: a state that holds a multiset, an element put in, and
  an element that no other precedes taken out.  \<open>fits\<close> says for which contents the provider promises anything.
\<close>

locale priority_queue =
  fixes insert :: "'s \<Rightarrow> 'a \<Rightarrow> 's outcome" and delete_top :: "'s \<Rightarrow> ('s \<times> 'a) outcome"
    and invar :: "'s \<Rightarrow> bool" and elements :: "'s \<Rightarrow> 'a multiset" and before :: "'s \<Rightarrow> 'a \<Rightarrow> 'a \<Rightarrow> bool"
    and fits :: "'s \<Rightarrow> 'a multiset \<Rightarrow> bool"
  assumes insert: "invar s \<Longrightarrow> fits s (add_mset x (elements s)) \<Longrightarrow>
      returnsE (insert s x) (\<lambda>s'. invar s' \<and> elements s' = add_mset x (elements s)
        \<and> before s' = before s \<and> fits s' = fits s)"
    and delete_top: "invar s \<Longrightarrow> fits s (elements s) \<Longrightarrow> elements s \<noteq> {#} \<Longrightarrow>
      returnsE (delete_top s) (\<lambda>(s', x). x \<in># elements s \<and> (\<forall>y \<in># elements s. \<not> before s y x)
        \<and> invar s' \<and> elements s' = elements s - {#x#} \<and> before s' = before s \<and> fits s' = fits s)"
    and fits_subset: "fits s M \<Longrightarrow> N \<subseteq># M \<Longrightarrow> fits s N"
begin

text \<open>Putting in a list, and taking out \<open>n\<close> elements.\<close>

primrec insert_all :: "'s \<Rightarrow> 'a list \<Rightarrow> 's outcome" where
  "insert_all s [] = Inr s"
| "insert_all s (x # xs) = bindE (insert s x) (\<lambda>s'. insert_all s' xs)"

primrec drain :: "nat \<Rightarrow> 's \<Rightarrow> ('s \<times> 'a list) outcome" where
  "drain 0 s = Inr (s, [])"
| "drain (Suc n) s = bindE (delete_top s) (\<lambda>(s', x). bindE (drain n s') (\<lambda>(s'', xs). Inr (s'', x # xs)))"

lemma insert_all_elements:
  "invar s \<Longrightarrow> fits s (elements s + mset xs) \<Longrightarrow>
     returnsE (insert_all s xs) (\<lambda>s'. invar s' \<and> elements s' = elements s + mset xs \<and> before s' = before s \<and> fits s' = fits s)"
proof (induction xs arbitrary: s)
  case (Cons x xs)
  have "fits s (add_mset x (elements s))"
    using fits_subset [OF Cons.prems(2), of "add_mset x (elements s)"] by simp
  from insert [OF Cons.prems(1) this] show ?case
    unfolding insert_all.simps returnsE_bindE
  proof (rule returnsE_mono)
    fix s'
    assume s': "invar s' \<and> elements s' = add_mset x (elements s) \<and> before s' = before s \<and> fits s' = fits s"
    with Cons.prems(2) have "fits s' (elements s' + mset xs)" by simp
    with s' Cons.IH [of s'] show "returnsE (insert_all s' xs)
      (\<lambda>s'. invar s' \<and> elements s' = elements s + mset (x # xs) \<and> before s' = before s \<and> fits s' = fits s)"
      by simp
  qed
qed simp

lemma drain_sorted:
  "invar s \<Longrightarrow> fits s (elements s) \<Longrightarrow> n = size (elements s) \<Longrightarrow>
     returnsE (drain n s) (\<lambda>(s', xs). invar s' \<and> elements s' = {#} \<and> mset xs = elements s
       \<and> sorted_wrt (\<lambda>x y. \<not> before s y x) xs)"
proof (induction n arbitrary: s)
  case (Suc n)
  then have "elements s \<noteq> {#}" by auto
  from delete_top [OF Suc.prems(1,2) this] obtain s' x where top: "delete_top s = Inr (s', x)" "x \<in># elements s"
    "\<forall>y \<in># elements s. \<not> before s y x" "invar s'" "elements s' = elements s - {#x#}" "before s' = before s" "fits s' = fits s"
    by (auto elim: returnsE_E)
  have "fits s' (elements s')" using fits_subset [OF Suc.prems(2)] top(5,7) by simp
  moreover have "n = size (elements s')" using Suc.prems(3) top(2,5) by (simp add: size_Diff_singleton)
  ultimately obtain s'' xs where rest: "drain n s' = Inr (s'', xs)" "invar s''" "elements s'' = {#}"
    "mset xs = elements s'" "sorted_wrt (\<lambda>x y. \<not> before s' y x) xs"
    using Suc.IH [OF top(4)] by (auto elim: returnsE_E)
  have "mset (x # xs) = elements s" using top(2,5) rest(4) by simp
  moreover have "\<forall>y \<in> set xs. \<not> before s y x"
    using top(3,5) rest(4) by (metis in_diffD set_mset_mset)
  ultimately show ?case using top rest by simp
qed simp

end

text \<open>
  The queue meets the contract for contents of fewer than \<open>2 ^ 30\<close> elements, all different when the
  client has positions stored in them.
\<close>

definition PRQ_fits :: "('a, 'm) prq_state \<Rightarrow> 'a multiset \<Rightarrow> bool" where
  "PRQ_fits st M \<longleftrightarrow> size M < 2 ^ 30 \<and> (PRQ_get_index_fn (fst st) \<noteq> None \<longrightarrow> (\<forall>x. count M x \<le> 1))"

lemma PRQ_fits_size:
  assumes "PRQ_invar st"
  shows "PRQ_fits st (PRQ_elements (fst st)) \<Longrightarrow> size_of st < 2 ^ 30"
    and "PRQ_fits st (add_mset x (PRQ_elements (fst st))) \<Longrightarrow> size_of st < 2 ^ 30 - 1"
proof -
  have "PRQ_wf st" using assms by (simp add: PRQ_invar_def)
  then have "int (size (PRQ_elements (fst st))) = size_of st" by (rule PRQ_elements_size)
  then show "PRQ_fits st (PRQ_elements (fst st)) \<Longrightarrow> size_of st < 2 ^ 30"
    and "PRQ_fits st (add_mset x (PRQ_elements (fst st))) \<Longrightarrow> size_of st < 2 ^ 30 - 1"
    unfolding PRQ_fits_def by simp_all
qed

lemma PRQ_becomes_contract:
  "PRQ_becomes st M st' \<Longrightarrow> PRQ_invar st' \<and> PRQ_elements (fst st') = M \<and> before_in st' = before_in st
     \<and> PRQ_fits st' = PRQ_fits st"
  by (auto simp: PRQ_becomes_def PRQ_fits_def)

interpretation prq: priority_queue "PRQ_Insert zero" PRQ_Delete_Top PRQ_invar "\<lambda>st. PRQ_elements (fst st)"
  "\<lambda>st. before_in st" PRQ_fits
proof
  fix s :: "('a, 'm) prq_state" and x
  assume s: "PRQ_invar s"
  show "returnsE (PRQ_Insert zero s x) (\<lambda>s'. PRQ_invar s' \<and> PRQ_elements (fst s') = add_mset x (PRQ_elements (fst s))
      \<and> before_in s' = before_in s \<and> PRQ_fits s' = PRQ_fits s)"
    if fits: "PRQ_fits s (add_mset x (PRQ_elements (fst s)))"
  proof -
    have "x \<notin># PRQ_elements (fst s)" if "PRQ_get_index_fn (fst s) \<noteq> None"
    proof -
      have "count (add_mset x (PRQ_elements (fst s))) x \<le> 1" using fits that unfolding PRQ_fits_def by blast
      then show ?thesis by (simp add: count_eq_zero_iff)
    qed
    then show ?thesis
      by (rule returnsE_mono [OF PRQ_Insert_spec [OF s PRQ_fits_size(2) [OF s fits]] PRQ_becomes_contract])
  qed
  show "returnsE (PRQ_Delete_Top s) (\<lambda>(s', x). x \<in># PRQ_elements (fst s)
      \<and> (\<forall>y \<in># PRQ_elements (fst s). \<not> before_in s y x)
      \<and> PRQ_invar s' \<and> PRQ_elements (fst s') = PRQ_elements (fst s) - {#x#}
      \<and> before_in s' = before_in s \<and> PRQ_fits s' = PRQ_fits s)"
    if "PRQ_fits s (PRQ_elements (fst s))" "PRQ_elements (fst s) \<noteq> {#}"
    by (rule returnsE_mono [OF PRQ_Delete_Top_spec [OF s PRQ_fits_size(1) [OF s that(1)] that(2)]])
      (use PRQ_becomes_contract in blast)
next
  show "PRQ_fits s N" if "PRQ_fits s M" "N \<subseteq># M" for s :: "('a, 'm) prq_state" and M N
    using that size_mset_mono [OF that(2)] mset_subset_eq_count [OF that(2)]
    unfolding PRQ_fits_def by (meson le_less_trans le_trans)
qed

end
