(* ===== verification/Leb128.thy ===== *)
theory Leb128
  imports Path64_Prelude
begin

text \<open>
  The LEB128 codecs of \<^verbatim>\<open>src/src/libelfutil\<close>: variable-length encodings of 32-bit and 64-bit numbers, as DWARF uses them.

  A buffer is a list of bytes; reading or writing outside it is \<open>Out_Of_Bounds\<close>.  The encoders return the number of
  bytes written and the buffer, the decoders the number of bytes read and the value.  \<^verbatim>\<open>char\<close> is signed or unsigned
  with the host, but every use of a \<^verbatim>\<open>char\<close> here masks it to 7 bits or tests one bit, so a byte is an \<open>8 word\<close>.
\<close>

section \<open>Buffers\<close>

definition load :: "8 word list \<Rightarrow> nat \<Rightarrow> 8 word outcome" where
  "load data i = (if i < length data then Inr (data ! i) else Inl Out_Of_Bounds)"

definition store :: "8 word list \<Rightarrow> nat \<Rightarrow> 8 word \<Rightarrow> 8 word list outcome" where
  "store buffer i byte = (if i < length buffer then Inr (buffer[i := byte]) else Inl Out_Of_Bounds)"

lemma store_Inr: "store buffer i byte = Inr buffer' \<Longrightarrow> i < length buffer \<and> length buffer' = length buffer"
  by (auto simp: store_def split: if_splits)

section \<open>Encoders\<close>

text \<open>The loop of the unsigned encoders, the same code for the two widths.\<close>

function unsigned_encode_loop :: "'a::len word \<Rightarrow> 8 word list \<Rightarrow> nat \<Rightarrow> (nat \<times> 8 word list) outcome" where
  "unsigned_encode_loop number buffer bufPtr =
     (let byte = ucast (number AND 0x7f); number = drop_bit 7 number in
      if number \<noteq> 0 then
        let byte = byte OR 0x80 in
        bindE (store buffer bufPtr byte) (\<lambda>buffer. unsigned_encode_loop number buffer (bufPtr + 1))
      else bindE (store buffer bufPtr byte) (\<lambda>buffer. Inr (bufPtr + 1, buffer)))"
  by pat_completeness auto
termination
  by (relation "measure (\<lambda>(number, buffer, bufPtr). length buffer - bufPtr)") (auto dest: store_Inr)

text \<open>
  The loop of the signed encoders.  The number is an integer in the range of its type, and \<^verbatim>\<open>>>\<close> keeps the sign, as the source
  relies on.
\<close>

function signed_encode_loop :: "int \<Rightarrow> int \<Rightarrow> 8 word list \<Rightarrow> nat \<Rightarrow> (nat \<times> 8 word list) outcome" where
  "signed_encode_loop sign number buffer bufPtr =
     (let byte = (of_int (number AND 0x7f) :: 8 word); number = drop_bit 7 number in
      if number = sign \<and> byte AND 0x40 = of_int sign AND 0x40 then
        bindE (store buffer bufPtr byte) (\<lambda>buffer. Inr (bufPtr + 1, buffer))
      else
        let byte = byte OR 0x80 in
        bindE (store buffer bufPtr byte) (\<lambda>buffer. signed_encode_loop sign number buffer (bufPtr + 1)))"
  by pat_completeness auto
termination
  by (relation "measure (\<lambda>(sign, number, buffer, bufPtr). length buffer - bufPtr)") (auto dest: store_Inr)

declare unsigned_encode_loop.simps [simp del]
declare signed_encode_loop.simps [simp del]

definition leb128_unsigned_encode32 :: "32 word \<Rightarrow> 8 word list \<Rightarrow> (nat \<times> 8 word list) outcome" where
  "leb128_unsigned_encode32 number buffer = unsigned_encode_loop number buffer 0"

definition leb128_unsigned_encode64 :: "64 word \<Rightarrow> 8 word list \<Rightarrow> (nat \<times> 8 word list) outcome" where
  "leb128_unsigned_encode64 number buffer = unsigned_encode_loop number buffer 0"

definition leb128_signed_encode32 :: "32 word \<Rightarrow> 8 word list \<Rightarrow> (nat \<times> 8 word list) outcome" where
  "leb128_signed_encode32 number buffer =
     (let number = sint number; sign = (if number < 0 then - 1 else 0) in signed_encode_loop sign number buffer 0)"

definition leb128_signed_encode64 :: "64 word \<Rightarrow> 8 word list \<Rightarrow> (nat \<times> 8 word list) outcome" where
  "leb128_signed_encode64 number buffer =
     (let number = sint number; sign = (if number < 0 then - 1 else 0) in signed_encode_loop sign number buffer 0)"

section \<open>Decoders\<close>

text \<open>
  \<^verbatim>\<open>( *(data + i) & 0x7f) << n\<close> has the type \<^verbatim>\<open>int\<close>, and is converted to the type of \<^verbatim>\<open>lvalue\<close>;
  \<^verbatim>\<open>((uint64_t)( *(data + i) & 0x7f)) << n\<close> is 64 bits wide.
\<close>

definition int_septet :: "8 word \<Rightarrow> nat \<Rightarrow> 32 word" where
  "int_septet byte n = push_bit n (ucast (byte AND 0x7f))"

definition int_septet64 :: "8 word \<Rightarrow> nat \<Rightarrow> 64 word" where
  "int_septet64 byte n = scast (int_septet byte n)"

definition u64_septet :: "8 word \<Rightarrow> nat \<Rightarrow> 64 word" where
  "u64_septet byte n = push_bit n (ucast (byte AND 0x7f))"

text \<open>The decoders, unrolled as in the source; a byte that the source reads twice is read once here.\<close>

definition leb128_unsigned_decode32 :: "8 word list \<Rightarrow> (nat \<times> 32 word) outcome" where
  "leb128_unsigned_decode32 data =
     bindE (load data 0) (\<lambda>b0. if b0 AND 0x80 = 0 then Inr (1, ucast b0) else
     bindE (load data 1) (\<lambda>b1. if b1 AND 0x80 = 0 then Inr (2, ucast (b0 AND 0x7f) OR int_septet b1 7) else
     bindE (load data 2) (\<lambda>b2. if b2 AND 0x80 = 0 then Inr (3, ucast (b0 AND 0x7f) OR int_septet b1 7 OR int_septet b2 14) else
     bindE (load data 3) (\<lambda>b3. if b3 AND 0x80 = 0 then Inr (4, ucast (b0 AND 0x7f) OR int_septet b1 7 OR int_septet b2 14 OR int_septet b3 21) else
     bindE (load data 4) (\<lambda>b4. Inr (5, ucast (b0 AND 0x7f) OR int_septet b1 7 OR int_septet b2 14 OR int_septet b3 21 OR int_septet b4 28))))))"

definition leb128_unsigned_decode64 :: "8 word list \<Rightarrow> (nat \<times> 64 word) outcome" where
  "leb128_unsigned_decode64 data =
     bindE (load data 0) (\<lambda>b0. if b0 AND 0x80 = 0 then Inr (1, ucast b0) else
     bindE (load data 1) (\<lambda>b1. if b1 AND 0x80 = 0 then Inr (2, ucast (b0 AND 0x7f) OR int_septet64 b1 7) else
     bindE (load data 2) (\<lambda>b2. if b2 AND 0x80 = 0 then Inr (3, ucast (b0 AND 0x7f) OR int_septet64 b1 7 OR int_septet64 b2 14) else
     bindE (load data 3) (\<lambda>b3. if b3 AND 0x80 = 0 then Inr (4, ucast (b0 AND 0x7f) OR int_septet64 b1 7 OR int_septet64 b2 14 OR int_septet64 b3 21) else
     bindE (load data 4) (\<lambda>b4. if b4 AND 0x80 = 0 then Inr (5, ucast (b0 AND 0x7f) OR int_septet64 b1 7 OR int_septet64 b2 14 OR int_septet64 b3 21 OR u64_septet b4 28) else
     bindE (load data 5) (\<lambda>b5. if b5 AND 0x80 = 0 then Inr (6, ucast (b0 AND 0x7f) OR int_septet64 b1 7 OR int_septet64 b2 14 OR int_septet64 b3 21 OR u64_septet b4 28 OR u64_septet b5 35) else
     bindE (load data 6) (\<lambda>b6. if b6 AND 0x80 = 0 then Inr (7, ucast (b0 AND 0x7f) OR int_septet64 b1 7 OR int_septet64 b2 14 OR int_septet64 b3 21 OR u64_septet b4 28 OR u64_septet b5 35 OR u64_septet b6 42) else
     bindE (load data 7) (\<lambda>b7. if b7 AND 0x80 = 0 then Inr (8, ucast (b0 AND 0x7f) OR int_septet64 b1 7 OR int_septet64 b2 14 OR int_septet64 b3 21 OR u64_septet b4 28 OR u64_septet b5 35 OR u64_septet b6 42 OR u64_septet b7 49) else
     bindE (load data 8) (\<lambda>b8. if b8 AND 0x80 = 0 then Inr (9, ucast (b0 AND 0x7f) OR int_septet64 b1 7 OR int_septet64 b2 14 OR int_septet64 b3 21 OR u64_septet b4 28 OR u64_septet b5 35 OR u64_septet b6 42 OR u64_septet b7 49 OR u64_septet b8 56) else
     bindE (load data 9) (\<lambda>b9. Inr (10, ucast (b0 AND 0x7f) OR int_septet64 b1 7 OR int_septet64 b2 14 OR int_septet64 b3 21 OR u64_septet b4 28 OR u64_septet b5 35 OR u64_septet b6 42 OR u64_septet b7 49 OR u64_septet b8 56 OR u64_septet b9 63)))))))))))"

definition leb128_signed_decode32 :: "8 word list \<Rightarrow> (nat \<times> 32 word) outcome" where
  "leb128_signed_decode32 data =
     bindE (load data 0) (\<lambda>b0. if b0 AND 0x80 = 0 then
       Inr (1, if b0 AND 0x40 \<noteq> 0 then ucast b0 OR - push_bit 7 1 else ucast b0) else
     bindE (load data 1) (\<lambda>b1. if b1 AND 0x80 = 0 then
       Inr (2, if b1 AND 0x40 \<noteq> 0 then (ucast (b0 AND 0x7f) OR int_septet b1 7) OR - push_bit 14 1 else (ucast (b0 AND 0x7f) OR int_septet b1 7)) else
     bindE (load data 2) (\<lambda>b2. if b2 AND 0x80 = 0 then
       Inr (3, if b2 AND 0x40 \<noteq> 0 then (ucast (b0 AND 0x7f) OR int_septet b1 7 OR int_septet b2 14) OR - push_bit 21 1 else (ucast (b0 AND 0x7f) OR int_septet b1 7 OR int_septet b2 14)) else
     bindE (load data 3) (\<lambda>b3. if b3 AND 0x80 = 0 then
       Inr (4, if b3 AND 0x40 \<noteq> 0 then (ucast (b0 AND 0x7f) OR int_septet b1 7 OR int_septet b2 14 OR int_septet b3 21) OR - push_bit 28 1 else (ucast (b0 AND 0x7f) OR int_septet b1 7 OR int_septet b2 14 OR int_septet b3 21)) else
     bindE (load data 4) (\<lambda>b4. Inr (5, (ucast (b0 AND 0x7f) OR int_septet b1 7 OR int_septet b2 14 OR int_septet b3 21 OR int_septet b4 28)))))))"

definition leb128_signed_decode64 :: "8 word list \<Rightarrow> (nat \<times> 64 word) outcome" where
  "leb128_signed_decode64 data =
     bindE (load data 0) (\<lambda>b0. if b0 AND 0x80 = 0 then
       Inr (1, if b0 AND 0x40 \<noteq> 0 then ucast b0 OR - push_bit 7 1 else ucast b0) else
     bindE (load data 1) (\<lambda>b1. if b1 AND 0x80 = 0 then
       Inr (2, if b1 AND 0x40 \<noteq> 0 then (ucast (b0 AND 0x7f) OR int_septet64 b1 7) OR - push_bit 14 1 else (ucast (b0 AND 0x7f) OR int_septet64 b1 7)) else
     bindE (load data 2) (\<lambda>b2. if b2 AND 0x80 = 0 then
       Inr (3, if b2 AND 0x40 \<noteq> 0 then (ucast (b0 AND 0x7f) OR int_septet64 b1 7 OR int_septet64 b2 14) OR - push_bit 21 1 else (ucast (b0 AND 0x7f) OR int_septet64 b1 7 OR int_septet64 b2 14)) else
     bindE (load data 3) (\<lambda>b3. if b3 AND 0x80 = 0 then
       Inr (4, if b3 AND 0x40 \<noteq> 0 then (ucast (b0 AND 0x7f) OR int_septet64 b1 7 OR int_septet64 b2 14 OR int_septet64 b3 21) OR - push_bit 28 1 else (ucast (b0 AND 0x7f) OR int_septet64 b1 7 OR int_septet64 b2 14 OR int_septet64 b3 21)) else
     bindE (load data 4) (\<lambda>b4. if b4 AND 0x80 = 0 then
       Inr (5, if b4 AND 0x40 \<noteq> 0 then (ucast (b0 AND 0x7f) OR int_septet64 b1 7 OR int_septet64 b2 14 OR int_septet64 b3 21 OR u64_septet b4 28) OR - push_bit 35 1 else (ucast (b0 AND 0x7f) OR int_septet64 b1 7 OR int_septet64 b2 14 OR int_septet64 b3 21 OR u64_septet b4 28)) else
     bindE (load data 5) (\<lambda>b5. if b5 AND 0x80 = 0 then
       Inr (6, if b5 AND 0x40 \<noteq> 0 then (ucast (b0 AND 0x7f) OR int_septet64 b1 7 OR int_septet64 b2 14 OR int_septet64 b3 21 OR u64_septet b4 28 OR u64_septet b5 35) OR - push_bit 42 1 else (ucast (b0 AND 0x7f) OR int_septet64 b1 7 OR int_septet64 b2 14 OR int_septet64 b3 21 OR u64_septet b4 28 OR u64_septet b5 35)) else
     bindE (load data 6) (\<lambda>b6. if b6 AND 0x80 = 0 then
       Inr (7, if b6 AND 0x40 \<noteq> 0 then (ucast (b0 AND 0x7f) OR int_septet64 b1 7 OR int_septet64 b2 14 OR int_septet64 b3 21 OR u64_septet b4 28 OR u64_septet b5 35 OR u64_septet b6 42) OR - push_bit 49 1 else (ucast (b0 AND 0x7f) OR int_septet64 b1 7 OR int_septet64 b2 14 OR int_septet64 b3 21 OR u64_septet b4 28 OR u64_septet b5 35 OR u64_septet b6 42)) else
     bindE (load data 7) (\<lambda>b7. if b7 AND 0x80 = 0 then
       Inr (8, if b7 AND 0x40 \<noteq> 0 then (ucast (b0 AND 0x7f) OR int_septet64 b1 7 OR int_septet64 b2 14 OR int_septet64 b3 21 OR u64_septet b4 28 OR u64_septet b5 35 OR u64_septet b6 42 OR u64_septet b7 49) OR - push_bit 56 1 else (ucast (b0 AND 0x7f) OR int_septet64 b1 7 OR int_septet64 b2 14 OR int_septet64 b3 21 OR u64_septet b4 28 OR u64_septet b5 35 OR u64_septet b6 42 OR u64_septet b7 49)) else
     bindE (load data 8) (\<lambda>b8. if b8 AND 0x80 = 0 then
       Inr (9, if b8 AND 0x40 \<noteq> 0 then (ucast (b0 AND 0x7f) OR int_septet64 b1 7 OR int_septet64 b2 14 OR int_septet64 b3 21 OR u64_septet b4 28 OR u64_septet b5 35 OR u64_septet b6 42 OR u64_septet b7 49 OR u64_septet b8 56) OR push_bit 63 1 else (ucast (b0 AND 0x7f) OR int_septet64 b1 7 OR int_septet64 b2 14 OR int_septet64 b3 21 OR u64_septet b4 28 OR u64_septet b5 35 OR u64_septet b6 42 OR u64_septet b7 49 OR u64_septet b8 56)) else
     bindE (load data 9) (\<lambda>b9. Inr (10, (ucast (b0 AND 0x7f) OR int_septet64 b1 7 OR int_septet64 b2 14 OR int_septet64 b3 21 OR u64_septet b4 28 OR u64_septet b5 35 OR u64_septet b6 42 OR u64_septet b7 49 OR u64_septet b8 56 OR u64_septet b9 63))))))))))))"

section \<open>The encoding\<close>

text \<open>
  The encoding as the DWARF document defines it, on numbers: groups of 7 bits from the least significant on, the high bit of
  a byte set when another follows.
\<close>

fun uleb :: "nat \<Rightarrow> 8 word list" where
  "uleb n = (if n < 128 then [of_nat n] else of_nat (n mod 128 + 128) # uleb (n div 128))"

function sleb :: "int \<Rightarrow> 8 word list" where
  "sleb n = (if - 64 \<le> n \<and> n < 64 then [of_int (n mod 128)] else of_int (n mod 128 + 128) # sleb (n div 128))"
  by pat_completeness auto
termination
  by (relation "measure (\<lambda>n. nat \<bar>n\<bar>)") (auto simp: abs_if)

declare uleb.simps [simp del]
declare sleb.simps [simp del]

primrec uleb_value :: "8 word list \<Rightarrow> nat" where
  "uleb_value [] = 0"
| "uleb_value (b # bs) = unat b mod 128 + 128 * uleb_value bs"

definition sleb_value :: "8 word list \<Rightarrow> int" where
  "sleb_value bs = int (uleb_value bs) - (if bit (last bs) 6 then 2 ^ (7 * length bs) else 0)"

text \<open>The bytes of the number at the start of \<open>data\<close>, of which there are at most \<open>n\<close>.\<close>

fun leb_bytes :: "nat \<Rightarrow> 8 word list \<Rightarrow> 8 word list outcome" where
  "leb_bytes n [] = Inl Out_Of_Bounds"
| "leb_bytes n (b # bs) =
     (if bit b 7 \<and> 1 < n then bindE (leb_bytes (n - 1) bs) (\<lambda>bs. Inr (b # bs)) else Inr [b])"

section \<open>Lemmas on bytes\<close>

lemma byte_tests:
  "b AND 0x80 = 0 \<longleftrightarrow> \<not> bit b 7" "b AND 0x40 = 0 \<longleftrightarrow> \<not> bit b 6" for b :: "8 word"
  using and_exp_eq_0_iff_not_bit [of b 7] and_exp_eq_0_iff_not_bit [of b 6] by simp_all

lemma and_7f: "w AND 0x7f = take_bit 7 w" for w :: "'a::len word"
proof -
  have "(0x7f :: 'a word) = mask 7" by (simp add: mask_eq_exp_minus_1)
  then show ?thesis by (simp only: take_bit_eq_mask)
qed

lemma and_7f_int: "n AND 0x7f = n mod 128" for n :: int
proof -
  have "(0x7f :: int) = mask 7" by (simp add: mask_eq_exp_minus_1)
  then show ?thesis by (simp only: flip: take_bit_eq_mask) (simp add: take_bit_eq_mod)
qed

lemma unat_and_7f: "unat (w AND 0x7f) = unat w mod 128" for w :: "'a::len word"
  by (subst and_7f, subst unsigned_take_bit_eq) (simp add: take_bit_eq_mod)

lemma ucast_and_7f: "ucast (w AND 0x7f) = (of_nat (unat w mod 128) :: 'b::len word)" for w :: "'a::len word"
  by (simp flip: unat_and_7f)

lemma continued_byte:
  assumes "n < 128"
  shows "of_nat n OR 0x80 = (of_nat (n + 128) :: 8 word)"
proof -
  have "of_nat n AND (0x80 :: 8 word) = 0"
    using assms by (simp only: byte_tests(1) bit_of_nat_iff) (simp add: bit_iff_odd)
  then show ?thesis by (simp add: disjunctive_add_eq_or)
qed

lemma high_byte:
  assumes "m < 128"
  shows "bit (of_nat (m + 128) :: 8 word) 7" "unat (of_nat (m + 128) :: 8 word) = m + 128"
proof -
  have "(m + 128) div 128 = Suc (m div 128)" by simp
  with assms show "bit (of_nat (m + 128) :: 8 word) 7"
    by (simp only: bit_of_nat_iff) (simp add: bit_iff_odd)
  have "m + 128 < 2 ^ 8" using assms by simp
  then show "unat (of_nat (m + 128) :: 8 word) = m + 128"
    by (simp only: unsigned_of_nat) (simp add: take_bit_nat_eq_self del: of_nat_add)
qed

lemma and_40: "x AND 0x40 = y AND 0x40 \<longleftrightarrow> bit x 6 = bit y 6" for x y :: "8 word"
proof -
  have b64: "bit (0x40 :: 8 word) n \<longleftrightarrow> n = 6" for n
  proof -
    have "(0x40 :: 8 word) = 2 ^ 6" by simp
    then show ?thesis by (simp only: bit_exp_iff) auto
  qed
  have "x AND 0x40 = (if bit x 6 then 0x40 else 0)" for x :: "8 word"
    by (rule bit_word_eqI) (simp only: bit_and_iff b64 split: if_split, auto)
  then show ?thesis by simp
qed

section \<open>The encoders\<close>

text \<open>Bytes written one after the other from \<open>p\<close> on.\<close>

definition splice :: "8 word list \<Rightarrow> nat \<Rightarrow> 8 word list \<Rightarrow> 8 word list" where
  "splice buffer p bs = take p buffer @ bs @ drop (p + length bs) buffer"

lemma splice_Cons:
  assumes "p < length buffer"
  shows "splice (buffer[p := b]) (Suc p) bs = splice buffer p (b # bs)"
  using assms by (simp add: splice_def take_Suc_conv_app_nth)

lemma splice_single: "p < length buffer \<Longrightarrow> buffer[p := b] = splice buffer p [b]"
  by (simp add: splice_def upd_conv_take_nth_drop)

lemma uleb_not_Nil [simp]: "uleb n \<noteq> []"
  by (subst uleb.simps) simp

lemma unsigned_encode_loop_spec:
  assumes "p + length (uleb (unat w)) \<le> length buffer"
  shows "unsigned_encode_loop w buffer p = Inr (p + length (uleb (unat w)), splice buffer p (uleb (unat w)))"
  using assms
proof (induction "unat w" arbitrary: w buffer p rule: less_induct)
  case less
  have shift: "unat (drop_bit 7 w) = unat w div 128" by (subst unat_drop_bit_eq) (simp add: drop_bit_eq_div)
  have zero: "drop_bit 7 w = 0 \<longleftrightarrow> unat w < 128" by (simp add: unat_eq_0 [symmetric] shift div_eq_0_iff)
  have p: "p < length buffer" using less.prems by (cases "uleb (unat w)") simp_all
  show ?case
  proof (cases "unat w < 128")
    case True
    then have "uleb (unat w) = [of_nat (unat w)]" by (subst uleb.simps) simp
    with True p show ?thesis
      by (subst unsigned_encode_loop.simps) (simp add: zero Let_def ucast_and_7f store_def splice_single)
  next
    case False
    let ?b = "of_nat (unat w mod 128 + 128) :: 8 word"
    have rec: "uleb (unat w) = ?b # uleb (unat (drop_bit 7 w))"
      using False unfolding shift by (subst uleb.simps) simp
    have "unsigned_encode_loop (drop_bit 7 w) (buffer[p := ?b]) (Suc p)
        = Inr (Suc p + length (uleb (unat (drop_bit 7 w))), splice (buffer[p := ?b]) (Suc p) (uleb (unat (drop_bit 7 w))))"
      using False less.prems by (intro less.hyps) (simp_all add: shift rec [unfolded shift])
    moreover have "ucast (w AND 0x7f) OR 0x80 = ?b" unfolding ucast_and_7f by (intro continued_byte) simp
    ultimately show ?thesis
      using False p by (subst unsigned_encode_loop.simps) (simp add: zero Let_def store_def rec splice_Cons)
  qed
qed

text \<open>A number below \<open>2 ^ (7 * k)\<close> takes \<open>k\<close> bytes at most, and no number above does.\<close>

lemma length_uleb: "0 < k \<Longrightarrow> length (uleb n) \<le> k \<longleftrightarrow> n < 2 ^ (7 * k)"
proof (induction n arbitrary: k rule: uleb.induct)
  case (1 n)
  obtain j where k: "k = Suc j" using "1.prems" by (cases k) auto
  have pow: "(2 :: nat) ^ (7 * k) = 128 * 2 ^ (7 * j)" by (simp add: k power_add)
  show ?case
  proof (cases "n < 128")
    case True
    then have "n < 2 ^ (7 * k)" unfolding pow by (rule less_le_trans) simp
    with True k show ?thesis by (subst uleb.simps) simp
  next
    case False
    then have len: "length (uleb n) = Suc (length (uleb (n div 128)))" by (subst uleb.simps) simp
    have less: "n < 2 ^ (7 * k) \<longleftrightarrow> n div 128 < 2 ^ (7 * j)"
      unfolding pow by (simp add: div_less_iff_less_mult mult.commute)
    show ?thesis
    proof (cases "j = 0")
      case True
      with False less k len show ?thesis by (simp add: div_eq_0_iff)
    next
      case False
      with "1.IH" [OF \<open>\<not> n < 128\<close>, of j] len less k show ?thesis by simp
    qed
  qed
qed

lemma uleb_value_uleb: "uleb_value (uleb n) = n"
proof (induction n rule: uleb.induct)
  case (1 n)
  show ?case
  proof (cases "n < 128")
    case True
    then have "unat (of_nat n :: 8 word) = n" by (simp add: unsigned_of_nat take_bit_nat_eq_self)
    with True show ?thesis by (subst uleb.simps) simp
  next
    case False
    then have "uleb n = of_nat (n mod 128 + 128) # uleb (n div 128)" by (subst uleb.simps) simp
    with 1 [OF False] high_byte(2) [of "n mod 128"] show ?thesis by (simp del: of_nat_add)
  qed
qed

lemma leb_bytes_uleb: "length (uleb n) \<le> k \<Longrightarrow> leb_bytes k (uleb n @ rest) = Inr (uleb n)"
proof (induction n arbitrary: k rule: uleb.induct)
  case (1 n)
  show ?case
  proof (cases "n < 128")
    case True
    then have "\<not> bit (of_nat n :: 8 word) 7" by (simp only: bit_of_nat_iff) (simp add: bit_iff_odd)
    with True show ?thesis by (subst (1 2) uleb.simps) simp
  next
    case False
    have bit: "bit (of_nat (n mod 128 + 128) :: 8 word) 7"
      by (intro high_byte) simp
    have rec: "uleb n = of_nat (n mod 128 + 128) # uleb (n div 128)" using False by (subst uleb.simps) simp
    have k: "length (uleb (n div 128)) \<le> k - 1" "1 < k"
      using "1.prems" rec by (cases "uleb (n div 128)"; simp)+
    with bit "1.IH" [OF False k(1)] show ?thesis by (simp add: rec)
  qed
qed

text \<open>The same for signed numbers.\<close>

lemma sleb_not_Nil [simp]: "sleb n \<noteq> []"
  by (subst sleb.simps) simp

lemma signed_byte:
  assumes "0 \<le> n" "n < 128"
  shows "of_int n OR 0x80 = (of_int (n + 128) :: 8 word)" "bit (of_int n :: 8 word) 7 = False"
    "bit (of_int n :: 8 word) 6 \<longleftrightarrow> 64 \<le> n" "bit (of_int (n + 128) :: 8 word) 7"
proof -
  define m where "m = nat n"
  have m: "n = int m" "m < 128" using assms by (simp_all add: m_def)
  show "of_int n OR 0x80 = (of_int (n + 128) :: 8 word)" using continued_byte [OF m(2)] m(1) by simp
  have "bit (of_nat m :: 8 word) 7 = False" using m(2) by (simp only: bit_of_nat_iff) (simp add: bit_iff_odd)
  then show "bit (of_int n :: 8 word) 7 = False" by (simp add: m(1))
  have "bit (of_nat m :: 8 word) 6 \<longleftrightarrow> odd (m div 64)" by (simp only: bit_of_nat_iff) (simp add: bit_iff_odd)
  moreover have "m div 64 = 0 \<or> m div 64 = 1" using m(2) by linarith
  ultimately show "bit (of_int n :: 8 word) 6 \<longleftrightarrow> 64 \<le> n" by (auto simp: m(1) div_eq_0_iff)
  show "bit (of_int (n + 128) :: 8 word) 7" using high_byte(1) [OF m(2)] by (simp add: m(1))
qed

lemma sign_byte: "bit (of_int (if n < 0 then - 1 else 0) :: 8 word) 6 \<longleftrightarrow> n < 0" for n :: int
  by simp

text \<open>The test by which the loop ends.\<close>

lemma sleb_last:
  fixes n :: int
  defines "sign \<equiv> if n < 0 then - 1 else 0"
  shows "drop_bit 7 n = sign \<and> (of_int (n mod 128) :: 8 word) AND 0x40 = of_int sign AND 0x40 \<longleftrightarrow> - 64 \<le> n \<and> n < 64"
proof -
  have "bit (of_int (n mod 128) :: 8 word) 6 \<longleftrightarrow> 64 \<le> n mod 128" by (intro signed_byte) simp_all
  moreover have "bit (of_int sign :: 8 word) 6 \<longleftrightarrow> n < 0" unfolding sign_def by (rule sign_byte)
  moreover have "drop_bit 7 n = n div 128" by (simp add: drop_bit_eq_div)
  moreover have "n div 128 = (if n < 0 then - 1 else 0) \<and> (64 \<le> n mod 128 \<longleftrightarrow> n < 0) \<longleftrightarrow> - 64 \<le> n \<and> n < 64"
    by presburger
  ultimately show ?thesis unfolding and_40 sign_def by simp
qed

lemma signed_encode_loop_spec:
  assumes "p + length (sleb n) \<le> length buffer"
  shows "signed_encode_loop (if n < 0 then - 1 else 0) n buffer p = Inr (p + length (sleb n), splice buffer p (sleb n))"
  using assms
proof (induction n arbitrary: buffer p rule: sleb.induct)
  case (1 n)
  let ?sign = "if n < 0 then - 1 else 0 :: int"
  have p: "p < length buffer" using "1.prems" by (cases "sleb n") simp_all
  show ?case
  proof (cases "- 64 \<le> n \<and> n < 64")
    case True
    then have s: "sleb n = [of_int (n mod 128)]" by (subst sleb.simps) simp
    have "signed_encode_loop ?sign n buffer p = bindE (store buffer p (of_int (n mod 128))) (\<lambda>buffer. Inr (p + 1, buffer))"
      using sleb_last [of n] True by (subst signed_encode_loop.simps) (simp only: Let_def and_7f_int simp_thms if_True)
    with s p show ?thesis by (simp add: store_def splice_single)
  next
    case False
    let ?b = "of_int (n mod 128 + 128) :: 8 word"
    have s: "sleb n = ?b # sleb (n div 128)" using False by (subst sleb.simps) auto
    have "of_int (n mod 128) OR 0x80 = ?b" by (intro signed_byte) simp_all
    then have step: "signed_encode_loop ?sign n buffer p
        = bindE (store buffer p ?b) (\<lambda>buffer. signed_encode_loop ?sign (n div 128) buffer (p + 1))"
      using sleb_last [of n] False
      by (subst signed_encode_loop.simps) (simp only: Let_def and_7f_int if_False, simp add: drop_bit_eq_div)
    have "n div 128 < 0 \<longleftrightarrow> n < 0" by (simp add: neg_imp_zdiv_neg_iff pos_imp_zdiv_neg_iff)
    then have "signed_encode_loop ?sign (n div 128) (buffer[p := ?b]) (p + 1)
        = Inr (p + 1 + length (sleb (n div 128)), splice (buffer[p := ?b]) (p + 1) (sleb (n div 128)))"
      using "1.IH" [OF False, of "p + 1" "buffer[p := ?b]"] "1.prems" s by simp
    with p show ?thesis unfolding step by (simp add: store_def s splice_Cons)
  qed
qed

lemma length_sleb: "0 < k \<Longrightarrow> length (sleb n) \<le> k \<longleftrightarrow> - (2 ^ (7 * k - 1)) \<le> n \<and> n < 2 ^ (7 * k - 1)"
proof (induction n arbitrary: k rule: sleb.induct)
  case (1 n)
  obtain j where k: "k = Suc j" using "1.prems" by (cases k) auto
  have pow: "(2 :: int) ^ (7 * k - 1) = 64 * 2 ^ (7 * j)" by (simp add: k power_add)
  have one: "(1 :: int) \<le> 2 ^ (7 * j)" by simp
  show ?case
  proof (cases "- 64 \<le> n \<and> n < 64")
    case True
    then have "- (2 ^ (7 * k - 1)) \<le> n" "n < 2 ^ (7 * k - 1)" unfolding pow using one by linarith+
    with True k show ?thesis by (subst sleb.simps) simp
  next
    case False
    then have len: "length (sleb n) = Suc (length (sleb (n div 128)))" by (subst sleb.simps) auto
    show ?thesis
    proof (cases "j = 0")
      case True
      with False k len show ?thesis by simp
    next
      case j: False
      have pow': "(2 :: int) ^ (7 * k - 1) = 128 * 2 ^ (7 * j - 1)"
        unfolding pow using j by (cases j) (simp_all add: power_add)
      have "- (2 ^ (7 * j - 1)) \<le> n div 128 \<longleftrightarrow> - (2 ^ (7 * k - 1)) \<le> n"
        "n div 128 < 2 ^ (7 * j - 1) \<longleftrightarrow> n < 2 ^ (7 * k - 1)"
        unfolding pow' by linarith+
      with "1.IH" [OF False, of j] j len k show ?thesis by simp
    qed
  qed
qed

lemma sleb_value_simps:
  "sleb_value [b] = int (unat b mod 128) - (if bit b 6 then 128 else 0)"
  "bs \<noteq> [] \<Longrightarrow> sleb_value (b # bs) = int (unat b mod 128) + 128 * sleb_value bs"
  by (simp_all add: sleb_value_def power_add algebra_simps)

lemma uint_of_int_byte: "0 \<le> n \<Longrightarrow> n < 256 \<Longrightarrow> uint (of_int n :: 8 word) = n"
  by (simp add: unsigned_of_int take_bit_int_eq_self)

lemma sleb_value_sleb: "sleb_value (sleb n) = n"
proof (induction n rule: sleb.induct)
  case (1 n)
  show ?case
  proof (cases "- 64 \<le> n \<and> n < 64")
    case True
    then have s: "sleb n = [of_int (n mod 128)]" by (subst sleb.simps) simp
    have b: "uint (of_int (n mod 128) :: 8 word) = n mod 128"
      using pos_mod_bound [of 128 n] by (intro uint_of_int_byte) simp_all
    have "bit (of_int (n mod 128) :: 8 word) 6 \<longleftrightarrow> 64 \<le> n mod 128" by (intro signed_byte) simp_all
    moreover have "n mod 128 - (if 64 \<le> n mod 128 then 128 else 0) = n" using True by presburger
    ultimately show ?thesis by (simp add: s sleb_value_simps zmod_int b)
  next
    case False
    then have s: "sleb n = of_int (n mod 128 + 128) # sleb (n div 128)" by (subst sleb.simps) auto
    have b: "uint (of_int (n mod 128 + 128) :: 8 word) = n mod 128 + 128"
      using pos_mod_bound [of 128 n] by (intro uint_of_int_byte) simp_all
    show ?thesis using 1 [OF False] unfolding s by (simp add: sleb_value_simps zmod_int b del: of_int_add)
  qed
qed

lemma leb_bytes_sleb: "length (sleb n) \<le> k \<Longrightarrow> leb_bytes k (sleb n @ rest) = Inr (sleb n)"
proof (induction n arbitrary: k rule: sleb.induct)
  case (1 n)
  show ?case
  proof (cases "- 64 \<le> n \<and> n < 64")
    case True
    then have s: "sleb n = [of_int (n mod 128)]" by (subst sleb.simps) simp
    have "\<not> bit (of_int (n mod 128) :: 8 word) 7" using signed_byte(2) [of "n mod 128"] by simp
    with s show ?thesis by simp
  next
    case False
    then have s: "sleb n = of_int (n mod 128 + 128) # sleb (n div 128)" by (subst sleb.simps) auto
    have bit: "bit (of_int (n mod 128 + 128) :: 8 word) 7" by (intro signed_byte) simp_all
    have k: "length (sleb (n div 128)) \<le> k - 1" "1 < k"
      using "1.prems" s by (cases "sleb (n div 128)"; simp)+
    with bit "1.IH" [OF False k(1)] show ?thesis by (simp add: s)
  qed
qed
section \<open>The decoders\<close>

text \<open>The value of a group of bytes as a word, in the way the unrolled code computes it.\<close>

primrec septets :: "8 word list \<Rightarrow> 'a::len word" where
  "septets [] = 0"
| "septets (b # bs) = ucast (b AND 0x7f) OR push_bit 7 (septets bs)"

lemma septets_value: "septets bs = (of_nat (uleb_value bs) :: 'a::len word)"
proof (induction bs)
  case (Cons b bs)
  have "ucast (b AND 0x7f) AND push_bit 7 (septets bs) = (0 :: 'a word)"
    by (rule bit_word_eqI) (auto simp: bit_simps and_7f)
  then have "septets (b # bs) = ucast (b AND 0x7f) + push_bit 7 (septets bs :: 'a word)"
    by (simp add: disjunctive_add_eq_or)
  also have "\<dots> = of_nat (unat b mod 128 + 128 * uleb_value bs)"
    by (simp add: ucast_and_7f Cons push_bit_eq_mult mult.commute)
  finally show ?case by simp
qed simp

lemma uleb_value_less: "uleb_value bs < 2 ^ (7 * length bs)"
proof (induction bs)
  case (Cons b bs)
  have "unat b mod 128 < 128" by simp
  with Cons have "unat b mod 128 + 128 * uleb_value bs < 128 * 2 ^ (7 * length bs)" by linarith
  then show ?case by (simp add: power_add)
qed simp

text \<open>Sign extension from the bits of \<open>k\<close> groups.\<close>

lemma extend_sign:
  assumes "bs \<noteq> []" "bit (last bs) 6"
  shows "septets bs OR - (push_bit (7 * length bs) 1) = (of_int (sleb_value bs) :: 'a::len word)"
proof -
  let ?k = "7 * length bs"
  have eq: "- (push_bit ?k 1) = NOT (mask ?k :: 'a word)"
    by (simp add: minus_exp_eq_not_mask push_bit_eq_mult)
  have "\<not> bit (septets bs :: 'a word) n" if "?k \<le> n" for n
  proof -
    have "uleb_value bs < 2 ^ n" using uleb_value_less [of bs] that by (meson le_less_trans less_le_trans one_le_numeral power_increasing)
    then show ?thesis unfolding septets_value by (simp only: bit_of_nat_iff) (simp add: bit_iff_odd)
  qed
  then have "septets bs AND NOT (mask ?k) = (0 :: 'a word)"
    by (intro bit_word_eqI) (auto simp: bit_simps not_less)
  then have "septets bs OR NOT (mask ?k) = septets bs + (NOT (mask ?k) :: 'a word)"
    by (simp add: disjunctive_add_eq_or)
  also have "\<dots> = of_int (sleb_value bs)"
    unfolding eq [symmetric] septets_value using assms(2) by (simp add: sleb_value_def push_bit_eq_mult)
  finally show ?thesis unfolding eq .
qed

lemma leb_bytes_drop:
  "leb_bytes n (drop k data) = bindE (load data k) (\<lambda>b.
     if bit b 7 \<and> 1 < n then bindE (leb_bytes (n - 1) (drop (Suc k) data)) (\<lambda>bs. Inr (b # bs)) else Inr [b])"
proof (cases "k < length data")
  case True
  then have "drop k data = data ! k # drop (Suc k) data" by (rule Cons_nth_drop_Suc [symmetric])
  with True show ?thesis by (simp add: load_def)
qed (simp add: load_def)

lemma int_septet64: "n \<le> 24 \<Longrightarrow> int_septet64 b n = u64_septet b n"
  unfolding int_septet64_def int_septet_def u64_septet_def and_7f
  by (rule bit_word_eqI) (auto simp: bit_simps)

lemma low_byte: "\<not> bit b 7 \<Longrightarrow> b AND 0x7f = b" for b :: "8 word"
  unfolding and_7f by (rule bit_word_eqI) (auto simp: bit_simps less_Suc_eq numeral_eq_Suc)

text \<open>A reader that collects the bytes of a number and gives their value by \<open>f\<close>: the loop that the decoders unroll.\<close>

fun scan :: "(8 word list \<Rightarrow> 'v) \<Rightarrow> 8 word list \<Rightarrow> nat \<Rightarrow> nat \<Rightarrow> 8 word list \<Rightarrow> 'v outcome" where
  "scan f data 0 k acc = Inl Diverges"
| "scan f data (Suc n) k acc = bindE (load data k) (\<lambda>b.
     if \<not> bit b 7 \<or> n = 0 then Inr (f (acc @ [b])) else scan f data n (k + 1) (acc @ [b]))"

lemma scan_leb_bytes:
  "scan f data (Suc n) k acc = bindE (leb_bytes (Suc n) (drop k data)) (\<lambda>bs. Inr (f (acc @ bs)))"
proof (induction n arbitrary: k acc)
  case (Suc n)
  show ?case
    by (subst leb_bytes_drop, subst scan.simps(2)) (simp add: Suc bindE_def del: scan.simps split: sum.split)
qed (subst leb_bytes_drop, simp add: bindE_def split: sum.split)

lemma scan_step:
  "1 < n \<Longrightarrow> scan f data n k acc = bindE (load data k) (\<lambda>b.
     if \<not> bit b 7 then Inr (f (acc @ [b])) else scan f data (n - 1) (k + 1) (acc @ [b]))"
  "scan f data (Suc 0) k acc = bindE (load data k) (\<lambda>b. Inr (f (acc @ [b])))"
  by (cases n) (simp_all cong: if_cong)

lemma decode_scan:
  "0 < n \<Longrightarrow> bindE (leb_bytes n data) (\<lambda>bs. Inr (f bs)) = scan f data n 0 []"
  using scan_leb_bytes [of f data "n - 1" 0 "[]"] by simp

lemmas decode_simps = decode_scan scan_step byte_tests low_byte push_bit_or ac_simps
  int_septet_def int_septet64 u64_septet_def numeral_2_eq_2 [symmetric]

lemma leb128_unsigned_decode32_spec:
  "leb128_unsigned_decode32 data = bindE (leb_bytes 5 data) (\<lambda>bs. Inr (length bs, of_nat (uleb_value bs)))"
  unfolding septets_value [symmetric] leb128_unsigned_decode32_def by (simp add: decode_simps cong: if_cong)

lemma leb128_unsigned_decode64_spec:
  "leb128_unsigned_decode64 data = bindE (leb_bytes 10 data) (\<lambda>bs. Inr (length bs, of_nat (uleb_value bs)))"
  unfolding septets_value [symmetric] leb128_unsigned_decode64_def by (simp add: decode_simps cong: if_cong)

text \<open>
  The value of a signed number as the code computes it: the bits, extended by the sign when there are fewer than the word has.
\<close>

definition signed_septets :: "8 word list \<Rightarrow> 'a::len word" where
  "signed_septets bs = (if bit (last bs) 6 then septets bs OR - push_bit (7 * length bs) 1 else septets bs)"

lemma signed_septets_value: "bs \<noteq> [] \<Longrightarrow> signed_septets bs = (of_int (sleb_value bs) :: 'a::len word)"
proof (cases "bit (last bs) 6")
  case True
  assume "bs \<noteq> []"
  with True show ?thesis unfolding signed_septets_def if_P [OF True] by (intro extend_sign)
qed (simp add: signed_septets_def sleb_value_def septets_value)

lemma leb_bytes_not_Nil: "leb_bytes n data = Inr bs \<Longrightarrow> bs \<noteq> []"
  by (cases data) (auto simp: bindE_eq_Inr split: if_splits)

lemma leb_bytes_signed:
  "bindE (leb_bytes n data) (\<lambda>bs. Inr (length bs, of_int (sleb_value bs) :: 'a::len word))
     = bindE (leb_bytes n data) (\<lambda>bs. Inr (length bs, signed_septets bs))"
  by (rule bindE_cong) (auto simp: signed_septets_value dest: leb_bytes_not_Nil)

text \<open>The constants where there is no bit left to extend to, or one.\<close>

lemma sign_constants:
  "(- 34359738368 :: 32 word) = 0" "(- 1180591620717411303424 :: 64 word) = 0"
  "(- 9223372036854775808 :: 64 word) = 9223372036854775808"
  by (simp_all add: word_eq_iff_unsigned [where 'a = int])

lemma leb128_signed_decode32_spec:
  "leb128_signed_decode32 data = bindE (leb_bytes 5 data) (\<lambda>bs. Inr (length bs, of_int (sleb_value bs)))"
  unfolding leb_bytes_signed leb128_signed_decode32_def
  by (simp add: decode_simps signed_septets_def sign_constants cong: if_cong)

lemma leb128_signed_decode64_spec:
  "leb128_signed_decode64 data = bindE (leb_bytes 10 data) (\<lambda>bs. Inr (length bs, of_int (sleb_value bs)))"
  unfolding leb_bytes_signed leb128_signed_decode64_def
  by (simp add: decode_simps signed_septets_def sign_constants cong: if_cong)

section \<open>The codecs\<close>

lemma splice_0: "splice buffer 0 bs = bs @ drop (length bs) buffer"
  by (simp add: splice_def)

lemma unsigned_fits:
  "0 < n \<Longrightarrow> LENGTH('a) \<le> 7 * n \<Longrightarrow> length (uleb (unat w)) \<le> n" for w :: "'a::len word"
proof -
  assume n: "0 < n" "LENGTH('a) \<le> 7 * n"
  have "unat w < 2 ^ LENGTH('a)" by (rule unsigned_less)
  also have "(2 :: nat) ^ LENGTH('a) \<le> 2 ^ (7 * n)" using n(2) by (intro power_increasing) simp_all
  finally show ?thesis using length_uleb [OF n(1)] by blast
qed

lemma signed_fits:
  "0 < n \<Longrightarrow> LENGTH('a) \<le> 7 * n \<Longrightarrow> length (sleb (sint w)) \<le> n" for w :: "'a::len word"
proof -
  assume n: "0 < n" "LENGTH('a) \<le> 7 * n"
  have le: "(2 :: int) ^ (LENGTH('a) - 1) \<le> 2 ^ (7 * n - 1)" using n(2) by (intro power_increasing) simp_all
  have "- (2 ^ (LENGTH('a) - 1)) \<le> sint w" "sint w < 2 ^ (LENGTH('a) - 1)"
    using sint_greater_eq [of w] sint_less [of w] by simp_all
  with le have "- (2 ^ (7 * n - 1)) \<le> sint w \<and> sint w < 2 ^ (7 * n - 1)" by linarith
  then show ?thesis using length_sleb [OF n(1)] by blast
qed

lemma unsigned_encode_spec:
  assumes "0 < n" "LENGTH('a) \<le> 7 * n" "n \<le> length buffer"
  shows "unsigned_encode_loop (w :: 'a::len word) buffer 0
    = Inr (length (uleb (unat w)), uleb (unat w) @ drop (length (uleb (unat w))) buffer)"
  using unsigned_encode_loop_spec [of 0 w buffer] unsigned_fits [OF assms(1,2), of w] assms(3)
  by (simp add: splice_0)

lemma signed_encode_spec:
  assumes "0 < n" "LENGTH('a) \<le> 7 * n" "n \<le> length buffer"
  shows "signed_encode_loop (if sint w < 0 then - 1 else 0) (sint (w :: 'a::len word)) buffer 0
    = Inr (length (sleb (sint w)), sleb (sint w) @ drop (length (sleb (sint w))) buffer)"
  using signed_encode_loop_spec [of 0 "sint w" buffer] signed_fits [OF assms(1,2), of w] assms(3)
  by (simp add: splice_0)

text \<open>What an encoder writes, and that it leaves the rest of the buffer alone.\<close>

definition writes :: "8 word list \<Rightarrow> 8 word list \<Rightarrow> nat \<times> 8 word list \<Rightarrow> bool" where
  "writes bs buffer r \<longleftrightarrow> r = (length bs, bs @ drop (length bs) buffer)"

lemma leb128_encode_specs:
  "5 \<le> length buffer \<Longrightarrow> returnsE (leb128_unsigned_encode32 u buffer) (writes (uleb (unat u)) buffer)"
  "10 \<le> length buffer \<Longrightarrow> returnsE (leb128_unsigned_encode64 v buffer) (writes (uleb (unat v)) buffer)"
  "5 \<le> length buffer \<Longrightarrow> returnsE (leb128_signed_encode32 u buffer) (writes (sleb (sint u)) buffer)"
  "10 \<le> length buffer \<Longrightarrow> returnsE (leb128_signed_encode64 v buffer) (writes (sleb (sint v)) buffer)"
  unfolding leb128_unsigned_encode32_def leb128_unsigned_encode64_def leb128_signed_encode32_def
    leb128_signed_encode64_def Let_def
  by (simp_all add: unsigned_encode_spec [of 5] unsigned_encode_spec [of 10] signed_encode_spec [of 5]
      signed_encode_spec [of 10] writes_def)

end
