(* ===== verification/Omp_Loop.thy ===== *)
theory Omp_Loop
  imports Path64_Prelude
begin

text \<open>
  Loops of the OpenMP runtime (\<^verbatim>\<open>src/src/libopenmp/loop.c\<close>, \<^verbatim>\<open>types.h\<close>): the structure that the threads of a team share while
  they execute a work-sharing loop, and the self-check (\<^verbatim>\<open>PMP_CHECK\<close>) that counts how often each iteration is executed.

  Loop bounds, increments and chunks are \<^verbatim>\<open>int64_t\<close>.  The runtime computes with them as if they never overflow (signed overflow
  is undefined in C); they are integers here.
\<close>

section \<open>Data\<close>

text \<open>\<^verbatim>\<open>pmp_param_t\<close>, as far as the loop scheduler reads it, and \<^verbatim>\<open>__pmp_profile.enabled\<close>.\<close>

record pmp_param =
  param_check :: bool
  profile_enabled :: bool
  static_fair :: bool
  runtime_chunk :: int
  runtime_schedule :: int
  guided_chunk_divisor :: int
  guided_chunk_max :: int

record pmp_loop =
  loop_id :: int
  looping_threads :: int
  loop_now_serving :: int
  loop_sched :: int
  loop_lower :: int
  loop_upper :: int
  loop_inc :: int
  loop_chunk :: int
  loop_current :: int
  loop_min_chunk :: int
  check_last :: int
  check_loop :: "int list option"     \<comment> \<open>\<^verbatim>\<open>NULL\<close> is \<open>None\<close>\<close>

definition pmp_assert :: "bool \<Rightarrow> string \<Rightarrow> unit outcome" where
  "pmp_assert = FmtAssert"

text \<open>The comparison that depends on the direction of the loop, and \<^verbatim>\<open>LOOPMIN\<close>.\<close>

definition within :: "int \<Rightarrow> int \<Rightarrow> int \<Rightarrow> bool" where
  "within inc a b = (if inc \<ge> 0 then a \<le> b else a \<ge> b)"

definition LOOPMIN :: "int \<Rightarrow> int \<Rightarrow> int \<Rightarrow> int" where
  "LOOPMIN inc a b = (if inc \<ge> 0 then min a b else max a b)"

section \<open>Checking\<close>

definition pmp_start_check :: "pmp_param \<Rightarrow> pmp_loop \<Rightarrow> pmp_loop outcome" where
  "pmp_start_check param loop =
     (if \<not> param_check param then Inr loop
      else
        bindE (pmp_assert (check_loop loop = None) ''loop->check_loop == NULL'') (\<lambda>_.
        let size = cdiv (loop_upper loop - loop_lower loop) (loop_inc loop) + 1 in
        if size < 0 then Inl (Fatal ''unable to allocate check array of %d entries'')
        else Inr (loop\<lparr>check_loop := Some (replicate (nat size) 0), check_last := 0\<rparr>)))"

definition pmp_loop_check :: "pmp_param \<Rightarrow> pmp_loop \<Rightarrow> int \<Rightarrow> pmp_loop outcome" where
  "pmp_loop_check param loop val =
     (if \<not> param_check param then Inr loop
      else
        bindE (pmp_assert (check_loop loop \<noteq> None) ''loop->check_loop != NULL'') (\<lambda>_.
        bindE (pmp_assert (if loop_inc loop \<ge> 0 then val \<ge> loop_lower loop \<and> val \<le> loop_upper loop
                           else val \<ge> loop_upper loop \<and> val \<le> loop_lower loop) ''value in the loop'') (\<lambda>_.
        bindE (pmp_assert (crem (val - loop_lower loop) (loop_inc loop) = 0) ''(value - loop->lower) % loop->inc == 0'') (\<lambda>_.
        let index = cdiv (val - loop_lower loop) (loop_inc loop);
            counts = the (check_loop loop) in
        if 0 \<le> index \<and> index < int (length counts)
        then Inr (loop\<lparr>check_loop := Some (counts[nat index := INT32 (counts ! nat index + 1)])\<rparr>)
        else Inl Out_Of_Bounds))))"

definition pmp_last_check :: "pmp_param \<Rightarrow> pmp_loop \<Rightarrow> pmp_loop" where
  "pmp_last_check param loop =
     (if \<not> param_check param then loop else loop\<lparr>check_last := INT32 (check_last loop + 1)\<rparr>)"

text \<open>
  \<^verbatim>\<open>__pmp_stop_check\<close>: the loop without its counts, and the warnings: a range of iterations with its count, or the count of
  last iterations.  \<^verbatim>\<open>PMP_MAX_CHECK_WARNINGS\<close>, which limits how many are printed, is left out.
\<close>

datatype check_warning = Warn_Range (first_index: int) (last_index: int) (warn_count: int) | Warn_Last int

fun pmp_stop_check_loop :: "int list \<Rightarrow> int \<Rightarrow> (int \<times> int) option \<Rightarrow> check_warning list" where
  "pmp_stop_check_loop [] i warn = (case warn of None \<Rightarrow> [] | Some (warn_first, warn_check) \<Rightarrow> [Warn_Range warn_first (i - 1) warn_check])"
| "pmp_stop_check_loop (c # cs) i warn =
     (if c \<noteq> 1 then
        (case warn of
           None \<Rightarrow> pmp_stop_check_loop cs (i + 1) (Some (i, c))
         | Some (warn_first, warn_check) \<Rightarrow>
             if warn_check \<noteq> c
             then Warn_Range warn_first (i - 1) warn_check # pmp_stop_check_loop cs (i + 1) (Some (i, c))
             else pmp_stop_check_loop cs (i + 1) warn)
      else
        (case warn of
           None \<Rightarrow> pmp_stop_check_loop cs (i + 1) None
         | Some (warn_first, warn_check) \<Rightarrow>
             Warn_Range warn_first (i - 1) warn_check # pmp_stop_check_loop cs (i + 1) None))"

definition pmp_stop_check :: "pmp_param \<Rightarrow> pmp_loop \<Rightarrow> (pmp_loop \<times> check_warning list) outcome" where
  "pmp_stop_check param loop =
     (if \<not> param_check param then Inr (loop, [])
      else
        bindE (pmp_assert (check_loop loop \<noteq> None) ''loop->check_loop != NULL'') (\<lambda>_.
        let size = cdiv (loop_upper loop - loop_lower loop) (loop_inc loop) + 1;
            counts = the (check_loop loop) in
        if size > int (length counts) then Inl Out_Of_Bounds
        else Inr (loop\<lparr>check_loop := None\<rparr>,
               pmp_stop_check_loop (take (nat size) counts) 0 None
                 @ (if check_last loop \<noteq> 1 then [Warn_Last (check_last loop)] else []))))"

section \<open>Iterations\<close>

text \<open>The number of iterations of a loop that has any.\<close>

definition trip_count :: "int \<Rightarrow> int \<Rightarrow> int \<Rightarrow> int" where
  "trip_count l u inc = cdiv (u - l) inc + 1"

text \<open>\<open>ends l inc x e\<close>: from \<open>l\<close> in steps of \<open>inc\<close>, the iterations up to \<open>x\<close> are those before the \<open>e\<close>th.\<close>

definition ends :: "int \<Rightarrow> int \<Rightarrow> int \<Rightarrow> int \<Rightarrow> bool" where
  "ends l inc x e \<longleftrightarrow> (\<forall>k. within inc (l + k * inc) x \<longleftrightarrow> k < e)"

lemma ends_upper:
  assumes "inc \<noteq> 0" "within inc l u"
  shows "ends l inc u (trip_count l u inc)" "1 \<le> trip_count l u inc"
proof -
  have "within inc (l + k * inc) u \<longleftrightarrow> k < trip_count l u inc" for k
  proof (cases "inc > 0")
    case True
    then have "within inc (l + k * inc) u \<longleftrightarrow> k * inc \<le> u - l" by (auto simp: within_def)
    also have "\<dots> \<longleftrightarrow> k \<le> (u - l) div inc" using True by (intro le_div_int [symmetric])
    finally show ?thesis using True assms(2) by (simp add: trip_count_def cdiv_nonneg within_def)
  next
    case False
    with assms have neg: "inc < 0" by simp
    then have "within inc (l + k * inc) u \<longleftrightarrow> k * - inc \<le> l - u" by (auto simp: within_def)
    also have "\<dots> \<longleftrightarrow> k \<le> (l - u) div - inc" using neg by (intro le_div_int [symmetric]) simp
    also have "(l - u) div - inc = cdiv (u - l) inc"
    proof -
      have "cdiv (u - l) inc = - (u - l) div - inc" using neg assms(2) by (intro cdiv_neg) (simp_all add: within_def)
      then show ?thesis by (simp only: minus_diff_eq)
    qed
    finally show ?thesis unfolding trip_count_def zle_add1_eq_le .
  qed
  then show ends: "ends l inc u (trip_count l u inc)" by (simp add: ends_def)
  then have "within inc (l + 0 * inc) u \<longleftrightarrow> 0 < trip_count l u inc" unfolding ends_def by blast
  with assms(2) show "1 \<le> trip_count l u inc" by simp
qed

lemma ends_point: "inc \<noteq> 0 \<Longrightarrow> ends l inc (l + j * inc) (j + 1)"
  by (auto simp: ends_def within_def mult_le_cancel_right)

lemma ends_LOOPMIN: "ends l inc x d \<Longrightarrow> ends l inc y e \<Longrightarrow> ends l inc (LOOPMIN inc x y) (min d e)"
  by (auto simp: ends_def within_def LOOPMIN_def split: if_splits)

lemma ends_shift: "ends l inc x e \<Longrightarrow> ends l inc (x + d * inc) (e + d)"
  unfolding ends_def
proof
  fix k
  assume "\<forall>k. within inc (l + k * inc) x \<longleftrightarrow> k < e"
  then have "within inc (l + (k - d) * inc) x \<longleftrightarrow> k - d < e" by blast
  then show "within inc (l + k * inc) (x + d * inc) \<longleftrightarrow> k < e + d"
    by (auto simp: within_def algebra_simps split: if_splits)
qed

lemma endsD: "ends l inc x e \<Longrightarrow> within inc (l + k * inc) x \<longleftrightarrow> k < e"
  by (simp add: ends_def)

end
