(* ===== verification/Omp_Static.thy ===== *)
theory Omp_Static
  imports Omp_Loop
begin

text \<open>
  Static scheduling of the OpenMP runtime (\<^verbatim>\<open>__pmp_static_init\<close> of \<^verbatim>\<open>src/src/libopenmp/schedule.c\<close>): the bounds and the stride a thread of a team
  gets for its share of a loop, and \<^verbatim>\<open>__pmp_loop_analyser\<close>, which goes through the iterations as the compiled loop does and counts them.
\<close>

section \<open>The schedule kinds\<close>

definition PMP_SCHED_STATIC :: int where "PMP_SCHED_STATIC = 1"
definition PMP_SCHED_STATIC_EVEN :: int where "PMP_SCHED_STATIC_EVEN = 2"
definition PMP_SCHED_DYNAMIC :: int where "PMP_SCHED_DYNAMIC = 3"
definition PMP_SCHED_GUIDED :: int where "PMP_SCHED_GUIDED = 4"
definition PMP_SCHED_RUNTIME :: int where "PMP_SCHED_RUNTIME = 5"
definition PMP_SCHED_ORDERED_STATIC :: int where "PMP_SCHED_ORDERED_STATIC = 33"
definition PMP_SCHED_ORDERED_STATIC_EVEN :: int where "PMP_SCHED_ORDERED_STATIC_EVEN = 34"
definition PMP_SCHED_ORDERED_DYNAMIC :: int where "PMP_SCHED_ORDERED_DYNAMIC = 35"
definition PMP_SCHED_ORDERED_GUIDED :: int where "PMP_SCHED_ORDERED_GUIDED = 36"
definition PMP_SCHED_ORDERED_RUNTIME :: int where "PMP_SCHED_ORDERED_RUNTIME = 37"
definition PMP_SCHED_ORDERED_OFFSET :: int where
  "PMP_SCHED_ORDERED_OFFSET = PMP_SCHED_ORDERED_STATIC - PMP_SCHED_STATIC"

lemmas pmp_sched_defs = PMP_SCHED_STATIC_def PMP_SCHED_STATIC_EVEN_def PMP_SCHED_DYNAMIC_def PMP_SCHED_GUIDED_def
  PMP_SCHED_RUNTIME_def PMP_SCHED_ORDERED_STATIC_def PMP_SCHED_ORDERED_STATIC_EVEN_def PMP_SCHED_ORDERED_DYNAMIC_def
  PMP_SCHED_ORDERED_GUIDED_def PMP_SCHED_ORDERED_RUNTIME_def PMP_SCHED_ORDERED_OFFSET_def

section \<open>The analyser\<close>

text \<open>
  The two nested loops of the analyser.  The source has them twice, for ascending and for descending loops; \<open>within\<close> and
  \<open>LOOPMIN\<close> make one of the two.  The count for the profile is left out.
\<close>

function analyse_inner ::
    "pmp_param \<Rightarrow> int \<Rightarrow> int \<Rightarrow> int \<Rightarrow> int \<Rightarrow> int \<Rightarrow> pmp_loop \<Rightarrow> (pmp_loop \<times> int) outcome" where
  "analyse_inner param inc chunk my_upper i inner loop =
     (if i < chunk \<and> within inc inner my_upper then
        bindE (pmp_loop_check param loop inner) (analyse_inner param inc chunk my_upper (i + 1) (inner + inc))
      else Inr (loop, inner))"
  by pat_completeness auto
termination
  by (relation "measure (\<lambda>(param, inc, chunk, my_upper, i, inner, loop). nat (chunk - i))") auto

function analyse_outer ::
    "pmp_param \<Rightarrow> int \<Rightarrow> int \<Rightarrow> int \<Rightarrow> int \<Rightarrow> int \<Rightarrow> int \<Rightarrow> pmp_loop \<Rightarrow> pmp_loop outcome" where
  "analyse_outer param upper inc chunk stride outer my_upper loop =
     (if within inc outer upper then
        bindE (analyse_inner param inc chunk my_upper 0 outer loop) (\<lambda>(loop, inner).
        let loop = (if \<not> within inc inner upper then pmp_last_check param loop else loop) in
        if stride = 0 then Inr loop
        else if (inc \<ge> 0) = (stride < 0) then Inl Diverges
        else analyse_outer param upper inc chunk stride (outer + stride) (LOOPMIN inc (my_upper + stride) upper) loop)
      else Inr loop)"
  by pat_completeness auto
termination
  by (relation "measure (\<lambda>(param, upper, inc, chunk, stride, outer, my_upper, loop).
        nat (if inc \<ge> 0 then upper + 1 - outer else outer + 1 - upper))") (auto simp: within_def)

declare analyse_inner.simps [simp del]
declare analyse_outer.simps [simp del]

text \<open>
  \<^verbatim>\<open>__pmp_loop_analyser\<close> on the loop structure that holds the counts (which the static case allocates before and frees after, once for
  the team).
\<close>

definition pmp_loop_analyser ::
    "pmp_param \<Rightarrow> pmp_loop \<Rightarrow> int \<Rightarrow> int \<Rightarrow> int \<Rightarrow> int \<Rightarrow> int \<Rightarrow> int \<Rightarrow> int \<Rightarrow> pmp_loop outcome" where
  "pmp_loop_analyser param loop lower upper my_lower my_upper inc chunk stride =
     (if \<not> profile_enabled param \<and> \<not> param_check param then Inr loop
      else
        let chunk = (if chunk = 0 \<and> stride = 0 then cdiv (my_upper - my_lower) inc + 1 else chunk) in
        bindE (pmp_assert (inc \<noteq> 0 \<and> chunk \<noteq> 0) ''inc != 0 && chunk != 0'') (\<lambda>_.
        bindE (pmp_assert (inc > 0 \<and> stride \<ge> 0 \<or> inc < 0 \<and> stride \<le> 0)
                 ''(inc > 0 && stride >= 0) || (inc < 0 && stride <= 0)'') (\<lambda>_.
        if within inc my_lower my_upper then
          bindE (pmp_assert (if inc \<ge> 0 then lower \<le> my_lower \<and> my_lower \<le> my_upper \<and> my_upper \<le> upper
                             else upper \<le> my_upper \<and> my_upper \<le> my_lower \<and> my_lower \<le> lower) ''my bounds in the loop'') (\<lambda>_.
          analyse_outer param upper inc chunk stride my_lower my_upper loop)
        else Inr loop)))"

section \<open>Static scheduling\<close>

text \<open>The share of thread \<open>local_id\<close> when the iterations are dealt out evenly: its first bound and its chunk.\<close>

definition even_share :: "pmp_param \<Rightarrow> int \<Rightarrow> int \<Rightarrow> int \<Rightarrow> int \<Rightarrow> int \<Rightarrow> int \<times> int" where
  "even_share param team_size local_id lower inc trip =
     (if \<not> static_fair param then
        let chunk = cdiv (trip + team_size - 1) team_size in (lower + local_id * chunk * inc, chunk)
      else
        let chunk = cdiv trip team_size;
            remainder = trip - chunk * team_size;
            index = min local_id remainder * (chunk + 1);
            index = (if local_id > remainder then index + (local_id - remainder) * chunk else index) in
        (lower + index * inc, chunk + (if local_id < remainder then 1 else 0)))"

definition pmp_static_init ::
    "pmp_param \<Rightarrow> int \<Rightarrow> int \<Rightarrow> int \<Rightarrow> int \<Rightarrow> int \<Rightarrow> int \<Rightarrow> int \<Rightarrow> pmp_loop \<Rightarrow> ((int \<times> int \<times> int) \<times> pmp_loop) outcome" where
  "pmp_static_init param team_size local_id sched lower0 upper0 inc chunk loop =
     bindE (pmp_assert (team_size > 0) ''team_size > 0'') (\<lambda>_.
     if team_size = 1 then
       Inr ((lower0, upper0, if inc > 0 then upper0 - lower0 + 1 else upper0 - lower0 - 1), loop)
     else if sched = PMP_SCHED_STATIC_EVEN then
       let trip = cdiv (upper0 - lower0) inc + 1 in
       bindE (pmp_assert (trip \<ge> 0) ''size >= 0'') (\<lambda>_.
       let (lower, chunk) = even_share param team_size local_id lower0 inc trip;
           (lower, upper, stride) =
             (if within inc lower upper0
              then (lower, LOOPMIN inc (lower + (chunk - 1) * inc) upper0, trip * inc)
              else (lower0 - inc, lower0 - inc - inc, inc)) in
       bindE (pmp_loop_analyser param loop lower0 upper0 lower upper inc chunk stride) (\<lambda>loop.
       Inr ((lower, upper, stride), loop)))
     else if sched = PMP_SCHED_STATIC then
       let stride = chunk * inc;
           lower = lower0 + local_id * stride;
           (lower, upper, stride) =
             (if within inc lower upper0
              then (lower, LOOPMIN inc (lower + (chunk - 1) * inc) upper0, stride * team_size)
              else (lower0 - inc, lower0 - inc - inc, inc)) in
       bindE (pmp_loop_analyser param loop lower0 upper0 lower upper inc chunk stride) (\<lambda>loop.
       Inr ((lower, upper, stride), loop))
     else Inl (Fatal ''unknown static scheduling type %d''))"

text \<open>The entry points for 64-bit and 32-bit loop variables.\<close>

definition ompc_static_init_8 ::
    "pmp_param \<Rightarrow> int \<Rightarrow> int \<Rightarrow> int \<Rightarrow> int \<Rightarrow> int \<Rightarrow> int \<Rightarrow> int \<Rightarrow> pmp_loop \<Rightarrow> ((int \<times> int \<times> int) \<times> pmp_loop) outcome" where
  "ompc_static_init_8 = pmp_static_init"

definition ompc_static_init_4 ::
    "pmp_param \<Rightarrow> int \<Rightarrow> int \<Rightarrow> int \<Rightarrow> int \<Rightarrow> int \<Rightarrow> int \<Rightarrow> int \<Rightarrow> pmp_loop \<Rightarrow> ((int \<times> int \<times> int) \<times> pmp_loop) outcome" where
  "ompc_static_init_4 param team_size local_id sched lower upper inc chunk loop =
     bindE (pmp_static_init param team_size local_id sched lower upper inc chunk loop) (\<lambda>((l, u, s), loop).
     Inr ((INT32 l, INT32 u, INT32 s), loop))"

section \<open>Counting iterations\<close>

text \<open>A loop whose iterations \<open>V\<close> (by number, from 0) have been counted, once each, and the last iteration \<open>c\<close> times.\<close>

definition trips :: "pmp_loop \<Rightarrow> int" where
  "trips L = trip_count (loop_lower L) (loop_upper L) (loop_inc L)"

definition marks :: "int \<Rightarrow> int set \<Rightarrow> int list" where
  "marks n V = map (\<lambda>k. of_bool (int k \<in> V)) [0..<nat n]"

definition marked :: "pmp_loop \<Rightarrow> int set \<Rightarrow> int \<Rightarrow> pmp_loop" where
  "marked L V c = L\<lparr>check_loop := Some (marks (trips L) V), check_last := c\<rparr>"

lemma marked_simps [simp]:
  "loop_lower (marked L V c) = loop_lower L" "loop_upper (marked L V c) = loop_upper L" "loop_inc (marked L V c) = loop_inc L"
  "check_loop (marked L V c) = Some (marks (trips L) V)" "check_last (marked L V c) = c"
  by (simp_all add: marked_def)

lemma length_marks [simp]: "length (marks n V) = nat n"
  by (simp add: marks_def)

lemma marks_insert:
  assumes "0 \<le> k" "k < n"
  shows "(marks n V)[nat k := 1] = marks n (insert k V)"
  using assms by (intro nth_equalityI) (auto simp: marks_def nth_list_update)

lemma marked_last: "0 \<le> c \<Longrightarrow> c < 2 ^ 31 - 1 \<Longrightarrow> param_check param \<Longrightarrow> pmp_last_check param (marked L V c) = marked L V (c + 1)"
  by (simp add: pmp_last_check_def marked_def INT32_id)

text \<open>The loops the check is about.\<close>

definition runs :: "pmp_param \<Rightarrow> pmp_loop \<Rightarrow> bool" where
  "runs param L \<longleftrightarrow> param_check param \<and> loop_inc L \<noteq> 0 \<and> within (loop_inc L) (loop_lower L) (loop_upper L)"

lemma runs_ends: "runs param L \<Longrightarrow> ends (loop_lower L) (loop_inc L) (loop_upper L) (trips L)"
  and runs_trips: "runs param L \<Longrightarrow> 1 \<le> trips L"
  using ends_upper by (auto simp: runs_def trips_def)

lemma pmp_loop_check_marked:
  assumes "runs param L" "0 \<le> k" "k < trips L" "k \<notin> V"
  shows "pmp_loop_check param (marked L V c) (loop_lower L + k * loop_inc L) = Inr (marked L (insert k V) c)"
proof -
  let ?l = "loop_lower L" and ?u = "loop_upper L" and ?inc = "loop_inc L"
  have inc: "?inc \<noteq> 0" and check: "param_check param" using assms(1) by (auto simp: runs_def)
  have "within ?inc (?l + k * ?inc) ?u" using endsD [OF runs_ends [OF assms(1)]] assms(3) by simp
  moreover have "within ?inc ?l (?l + k * ?inc)" using assms(2) by (simp add: within_def mult_nonneg_nonpos)
  ultimately have range: "if 0 \<le> ?inc then ?l \<le> ?l + k * ?inc \<and> ?l + k * ?inc \<le> ?u else ?u \<le> ?l + k * ?inc \<and> ?l + k * ?inc \<le> ?l"
    by (simp add: within_def split: if_splits)
  have nth: "marks (trips L) V ! nat k = 0" using assms(2-) by (simp add: marks_def)
  have "nat k < nat (trips L)" using assms(2,3) by simp
  with assms(2,3) inc check nth show ?thesis
    unfolding pmp_loop_check_def pmp_assert_def marked_simps FmtAssert_holds [OF range]
    by (simp add: marks_insert INT32_id marked_def)
qed

lemma analyse_inner_marked:
  assumes "runs param L" "ends (loop_lower L) (loop_inc L) my_upper e" "e \<le> trips L"
    and "0 \<le> j" "V \<inter> {j..<min (j + (chunk - i)) e} = {}"
  shows "analyse_inner param (loop_inc L) chunk my_upper i (loop_lower L + j * loop_inc L) (marked L V c)
    = Inr (marked L (V \<union> {j..<min (j + (chunk - i)) e}) c, loop_lower L + max j (min (j + (chunk - i)) e) * loop_inc L)"
  using assms(4,5)
proof (induction "nat (chunk - i)" arbitrary: i j V)
  case (0 i j V)
  then have "\<not> i < chunk" "min (j + (chunk - i)) e \<le> j" by auto
  then show ?case by (subst analyse_inner.simps) (simp add: max_absorb1)
next
  case (Suc x i j V)
  then have i: "i < chunk" by simp
  show ?case
  proof (cases "j < e")
    case False
    then have "\<not> within (loop_inc L) (loop_lower L + j * loop_inc L) my_upper" "min (j + (chunk - i)) e \<le> j"
      using endsD [OF assms(2)] by auto
    then show ?thesis by (subst analyse_inner.simps) (simp add: max_absorb1)
  next
    case True
    have split: "{j..<min (j + (chunk - i)) e} = insert j {j + 1..<min (j + 1 + (chunk - (i + 1))) e}"
      using True i by auto
    have "pmp_loop_check param (marked L V c) (loop_lower L + j * loop_inc L) = Inr (marked L (insert j V) c)"
      using assms(1,3) Suc.prems True i by (intro pmp_loop_check_marked) auto
    moreover have "analyse_inner param (loop_inc L) chunk my_upper (i + 1) (loop_lower L + (j + 1) * loop_inc L) (marked L (insert j V) c)
        = Inr (marked L (insert j V \<union> {j + 1..<min (j + 1 + (chunk - (i + 1))) e}) c,
               loop_lower L + max (j + 1) (min (j + 1 + (chunk - (i + 1))) e) * loop_inc L)"
      using Suc.prems Suc.hyps(2) split by (intro Suc.hyps(1)) auto
    moreover have "max (j + 1) (min (j + 1 + (chunk - (i + 1))) e) = max j (min (j + (chunk - i)) e)" using True i by auto
    moreover have "within (loop_inc L) (loop_lower L + j * loop_inc L) my_upper" using endsD [OF assms(2)] True by simp
    ultimately show ?thesis
      using i unfolding split by (subst analyse_inner.simps) (simp add: algebra_simps)
  qed
qed

text \<open>
  The iterations of a share: from number \<open>o\<close> on, \<open>c\<close> of every \<open>d\<close>, before \<open>n\<close>.
\<close>

definition share :: "int \<Rightarrow> int \<Rightarrow> int \<Rightarrow> int \<Rightarrow> int set" where
  "share n d c a = {k. a \<le> k \<and> k < n \<and> (k - a) mod d < c}"

lemma share_step:
  assumes "0 < c" "c \<le> d" "a < n"
  shows "share n d c a = {a..<min (a + c) n} \<union> share n d c (a + d)"
    and "share n d c (a + d) \<inter> {a..<min (a + c) n} = {}"
proof -
  have "k \<in> share n d c a \<longleftrightarrow> k \<in> {a..<min (a + c) n} \<or> k \<in> share n d c (a + d)" for k
  proof (cases "a + d \<le> k")
    case True
    have "(k - a) mod d = (k - (a + d)) mod d" using mod_add_self2 [of "k - (a + d)" d] by simp
    with True assms show ?thesis by (auto simp: share_def)
  next
    case False
    then have "a \<le> k \<Longrightarrow> (k - a) mod d = k - a" by (intro mod_pos_pos_trivial) simp_all
    with False show ?thesis by (auto simp: share_def)
  qed
  then show "share n d c a = {a..<min (a + c) n} \<union> share n d c (a + d)" by blast
  show "share n d c (a + d) \<inter> {a..<min (a + c) n} = {}" using assms by (auto simp: share_def)
qed

lemma share_empty: "n \<le> a \<Longrightarrow> share n d c a = {}"
  by (auto simp: share_def)

lemma analyse_outer_marked:
  assumes "runs param L" "0 < c" "c \<le> d" "0 \<le> a"
    and "ends (loop_lower L) (loop_inc L) my_upper (min (a + c) (trips L))"
    and "V \<inter> share (trips L) d c a = {}" "0 \<le> b" "b < 2 ^ 31 - 1"
  shows "analyse_outer param (loop_upper L) (loop_inc L) c (d * loop_inc L) (loop_lower L + a * loop_inc L) my_upper (marked L V b)
    = Inr (marked L (V \<union> share (trips L) d c a) (b + of_bool (trips L - 1 \<in> share (trips L) d c a)))"
  using assms(4-)
proof (induction "nat (trips L - a)" arbitrary: a my_upper V b rule: less_induct)
  case less
  let ?l = "loop_lower L" and ?inc = "loop_inc L" and ?n = "trips L"
  note upper = runs_ends [OF assms(1)]
  have inc: "?inc \<noteq> 0" and check: "param_check param" using assms(1) by (auto simp: runs_def)
  show ?case
  proof (cases "a < ?n")
    case False
    then have "\<not> within ?inc (?l + a * ?inc) (loop_upper L)" using endsD [OF upper] by simp
    with False show ?thesis by (subst analyse_outer.simps) (simp add: share_empty)
  next
    case True
    let ?m = "min (a + c) ?n"
    note step = share_step [OF assms(2,3) True]
    have within: "within ?inc (?l + a * ?inc) (loop_upper L)" using endsD [OF upper] True by simp
    have "analyse_inner param ?inc c my_upper 0 (?l + a * ?inc) (marked L V b)
        = Inr (marked L (V \<union> {a..<min (a + (c - 0)) ?m}) b, ?l + max a (min (a + (c - 0)) ?m) * ?inc)"
      using less.prems step by (intro analyse_inner_marked [OF assms(1)]) auto
    moreover have "max a (min (a + (c - 0)) ?m) = ?m" "min (a + (c - 0)) ?m = ?m" using True assms(2) by auto
    ultimately have inner: "analyse_inner param ?inc c my_upper 0 (?l + a * ?inc) (marked L V b)
        = Inr (marked L (V \<union> {a..<?m}) b, ?l + ?m * ?inc)" by simp
    define b' where "b' = (if a + c < ?n then b else b + 1)"
    have last: "(if \<not> within ?inc (?l + ?m * ?inc) (loop_upper L) then pmp_last_check param (marked L (V \<union> {a..<?m}) b)
        else marked L (V \<union> {a..<?m}) b) = marked L (V \<union> {a..<?m}) b'"
      using less.prems check by (auto simp: endsD [OF upper] marked_last b'_def min_def)
    have dir: "d * ?inc \<noteq> 0" "\<not> ((?inc \<ge> 0) = (d * ?inc < 0))"
      using inc assms(2,3) by (auto simp: mult_less_0_iff zero_le_mult_iff)
    have arg: "?l + a * ?inc + d * ?inc = ?l + (a + d) * ?inc" by (simp add: algebra_simps)
    have round: "analyse_outer param (loop_upper L) ?inc c (d * ?inc) (?l + a * ?inc) my_upper (marked L V b)
        = analyse_outer param (loop_upper L) ?inc c (d * ?inc) (?l + (a + d) * ?inc)
            (LOOPMIN ?inc (my_upper + d * ?inc) (loop_upper L)) (marked L (V \<union> {a..<?m}) b')"
      by (subst analyse_outer.simps)
        (simp only: if_P [OF within] inner bindE_Inr prod.case Let_def last if_not_P [OF dir(1)] if_not_P [OF dir(2)] arg)
    have next_upper: "ends ?l ?inc (LOOPMIN ?inc (my_upper + d * ?inc) (loop_upper L)) (min (a + d + c) ?n)"
    proof -
      have "ends ?l ?inc (LOOPMIN ?inc (my_upper + d * ?inc) (loop_upper L)) (min (?m + d) ?n)"
        by (intro ends_LOOPMIN ends_shift less.prems(2) upper)
      moreover have "min (?m + d) ?n = min (a + d + c) ?n" using assms(2,3) by auto
      ultimately show ?thesis by simp
    qed
    show ?thesis
    proof (cases "a + c < ?n")
      case more: True
      have "analyse_outer param (loop_upper L) ?inc c (d * ?inc) (?l + (a + d) * ?inc)
          (LOOPMIN ?inc (my_upper + d * ?inc) (loop_upper L)) (marked L (V \<union> {a..<?m}) b)
          = Inr (marked L (V \<union> {a..<?m} \<union> share ?n d c (a + d)) (b + of_bool (?n - 1 \<in> share ?n d c (a + d))))"
        using less.prems step True assms(2,3) by (intro less.hyps next_upper) auto
      moreover have "?n - 1 \<in> share ?n d c a \<longleftrightarrow> ?n - 1 \<in> share ?n d c (a + d)" using more step(1) by auto
      ultimately show ?thesis
        unfolding round using more step(1) by (simp add: b'_def Un_assoc)
    next
      case False
      then have "?n \<le> a + d" using assms(3) by simp
      then have "\<not> within ?inc (?l + (a + d) * ?inc) (loop_upper L)" "share ?n d c (a + d) = {}"
        using endsD [OF upper] by (simp_all add: share_empty)
      then have "analyse_outer param (loop_upper L) ?inc c (d * ?inc) (?l + (a + d) * ?inc) x loop = Inr loop" for x loop
        by (subst analyse_outer.simps) simp
      moreover have "?n - 1 \<in> {a..<?m}" using True False by simp
      ultimately show ?thesis
        unfolding round using False step(1) \<open>share ?n d c (a + d) = {}\<close> by (simp add: b'_def)
    qed
  qed
qed

section \<open>One thread\<close>

lemma analyser_marked:
  assumes run: "runs param L" and c: "0 < c" "c \<le> d" and a: "0 \<le> a" "a < trips L"
    and V: "V \<inter> share (trips L) d c a = {}" and b: "0 \<le> b" "b < 2 ^ 31 - 1"
  defines "my_lower \<equiv> loop_lower L + a * loop_inc L"
  defines "my_upper \<equiv> LOOPMIN (loop_inc L) (my_lower + (c - 1) * loop_inc L) (loop_upper L)"
  shows "pmp_loop_analyser param (marked L V b) (loop_lower L) (loop_upper L) my_lower my_upper (loop_inc L) c (d * loop_inc L)
    = Inr (marked L (V \<union> share (trips L) d c a) (b + of_bool (trips L - 1 \<in> share (trips L) d c a)))"
proof -
  let ?l = "loop_lower L" and ?u = "loop_upper L" and ?inc = "loop_inc L" and ?n = "trips L"
  have inc: "?inc \<noteq> 0" and check: "param_check param" using run by (auto simp: runs_def)
  have "my_lower + (c - 1) * ?inc = ?l + (a + c - 1) * ?inc" by (simp add: my_lower_def algebra_simps)
  with ends_LOOPMIN [OF ends_point [OF inc, of ?l "a + c - 1"] runs_ends [OF run]]
  have upper: "ends ?l ?inc my_upper (min (a + c) ?n)" by (simp add: my_upper_def)
  then have within: "within ?inc my_lower my_upper" using endsD [OF upper, of a] a c by (simp add: my_lower_def)
  have "within ?inc my_upper ?u" by (simp add: my_upper_def within_def LOOPMIN_def)
  moreover have "within ?inc ?l my_lower" using a(1) by (simp add: my_lower_def within_def mult_nonneg_nonpos)
  ultimately have bounds: "if ?inc \<ge> 0 then ?l \<le> my_lower \<and> my_lower \<le> my_upper \<and> my_upper \<le> ?u
      else ?u \<le> my_upper \<and> my_upper \<le> my_lower \<and> my_lower \<le> ?l"
    using within by (simp add: within_def split: if_splits)
  have dir: "?inc > 0 \<and> d * ?inc \<ge> 0 \<or> ?inc < 0 \<and> d * ?inc \<le> 0"
    using inc c by (cases "?inc > 0") (simp_all add: mult_nonneg_nonpos)
  have "pmp_loop_analyser param (marked L V b) ?l ?u my_lower my_upper ?inc c (d * ?inc)
      = analyse_outer param ?u ?inc c (d * ?inc) my_lower my_upper (marked L V b)"
    unfolding pmp_loop_analyser_def Let_def pmp_assert_def using check c inc
    by (simp add: FmtAssert_holds [OF dir] FmtAssert_holds [OF bounds] within)
  also have "\<dots> = Inr (marked L (V \<union> share ?n d c a) (b + of_bool (?n - 1 \<in> share ?n d c a)))"
    unfolding my_lower_def by (rule analyse_outer_marked [OF run c a(1) upper V b])
  finally show ?thesis .
qed

text \<open>A thread with a share of the iterations, or none.\<close>

lemma thread_marked:
  assumes run: "runs param L" and c: "0 < c" "c \<le> d" and a: "0 \<le> a"
    and V: "V \<inter> share (trips L) d c a = {}" and b: "0 \<le> b" "b < 2 ^ 31 - 1"
    and bounds: "(my_lower, my_upper, stride) =
      (if within (loop_inc L) (loop_lower L + a * loop_inc L) (loop_upper L)
       then (loop_lower L + a * loop_inc L,
             LOOPMIN (loop_inc L) (loop_lower L + a * loop_inc L + (c - 1) * loop_inc L) (loop_upper L), d * loop_inc L)
       else (loop_lower L - loop_inc L, loop_lower L - loop_inc L - loop_inc L, loop_inc L))"
  shows "pmp_loop_analyser param (marked L V b) (loop_lower L) (loop_upper L) my_lower my_upper (loop_inc L) c stride
    = Inr (marked L (V \<union> share (trips L) d c a) (b + of_bool (trips L - 1 \<in> share (trips L) d c a)))"
proof (cases "a < trips L")
  case True
  then have "within (loop_inc L) (loop_lower L + a * loop_inc L) (loop_upper L)" using endsD [OF runs_ends [OF run]] by simp
  with bounds analyser_marked [OF run c a True V b] show ?thesis by simp
next
  case False
  then have "\<not> within (loop_inc L) (loop_lower L + a * loop_inc L) (loop_upper L)" using endsD [OF runs_ends [OF run]] by simp
  with bounds have eq: "my_lower = loop_lower L - loop_inc L" "my_upper = loop_lower L - loop_inc L - loop_inc L" "stride = loop_inc L"
    by simp_all
  have "loop_inc L \<noteq> 0" using run by (simp add: runs_def)
  then have "\<not> within (loop_inc L) my_lower my_upper" "loop_inc L > 0 \<and> stride \<ge> 0 \<or> loop_inc L < 0 \<and> stride \<le> 0"
    unfolding eq by (auto simp: within_def)
  with False \<open>loop_inc L \<noteq> 0\<close> c show ?thesis
    by (simp add: pmp_loop_analyser_def pmp_assert_def share_empty)
qed

text \<open>The three ways to deal out the iterations: the first iteration of thread \<open>t\<close>, how many of how many it takes.\<close>

definition even_first :: "bool \<Rightarrow> int \<Rightarrow> int \<Rightarrow> int \<Rightarrow> int" where
  "even_first fair team_size n t =
     (if fair then t * (n div team_size) + min t (n mod team_size) else t * ((n + team_size - 1) div team_size))"

definition even_chunk :: "bool \<Rightarrow> int \<Rightarrow> int \<Rightarrow> int \<Rightarrow> int" where
  "even_chunk fair team_size n t =
     (if fair then n div team_size + (if t < n mod team_size then 1 else 0) else (n + team_size - 1) div team_size)"

lemma even_share_eq:
  assumes "0 < team_size" "0 \<le> n" "0 \<le> t"
  shows "even_share param team_size t l inc n
    = (l + even_first (static_fair param) team_size n t * inc, even_chunk (static_fair param) team_size n t)"
proof (cases "static_fair param")
  case False
  with assms show ?thesis by (simp add: even_share_def even_first_def even_chunk_def cdiv_nonneg Let_def)
next
  case True
  define q r where "q = n div team_size" "r = n mod team_size"
  have "n - q * team_size = r" by (simp add: q_r_def minus_div_mult_eq_mod)
  then show ?thesis
    using True assms
    by (simp add: even_share_def even_first_def even_chunk_def cdiv_nonneg Let_def flip: q_r_def) (simp add: algebra_simps)
qed

lemma even_chunk_bounds:
  assumes T: "0 < team_size" and n: "1 \<le> n" "0 \<le> t" and fair: "fair \<Longrightarrow> team_size \<le> n"
  shows "0 < even_chunk fair team_size n t" "even_chunk fair team_size n t \<le> n"
proof -
  show "0 < even_chunk fair team_size n t"
    using assms by (auto simp: even_chunk_def pos_imp_zdiv_pos_iff pos_imp_zdiv_nonneg_iff intro!: add_nonneg_pos)
  show "even_chunk fair team_size n t \<le> n"
  proof (cases fair)
    case True
    define q r where "q = n div team_size" "r = n mod team_size"
    have "n = q * team_size + r" "0 \<le> r" "0 \<le> q"
      using T n by (simp_all add: q_r_def pos_imp_zdiv_nonneg_iff)
    moreover have "q * 1 \<le> q * team_size" using T \<open>0 \<le> q\<close> by (intro mult_left_mono) simp_all
    moreover have "even_chunk fair team_size n t = q + (if t < r then 1 else 0)" using True by (simp add: even_chunk_def q_r_def)
    ultimately show ?thesis using n(2) by (cases "t < r") simp_all
  next
    case False
    have "n * 1 \<le> n * team_size" using T n by (intro mult_left_mono) simp_all
    then have "\<not> (n + 1) * team_size \<le> n + team_size - 1" by (simp add: algebra_simps)
    then have "\<not> n + 1 \<le> (n + team_size - 1) div team_size" unfolding le_div_int [OF T] .
    with False show ?thesis by (simp add: even_chunk_def)
  qed
qed

section \<open>The team\<close>

text \<open>Every iteration is in the share of one thread.\<close>

definition deals :: "int \<Rightarrow> int \<Rightarrow> (int \<Rightarrow> int set) \<Rightarrow> bool" where
  "deals team_size n S \<longleftrightarrow> (\<forall>s \<in> {0..<team_size}. \<forall>t \<in> {0..<team_size}. s \<noteq> t \<longrightarrow> S s \<inter> S t = {})
     \<and> (\<Union>t \<in> {0..<team_size}. S t) = {0..<n}"

text \<open>An assignment of every iteration to a thread deals them out.\<close>

lemma deals_owner:
  assumes "\<And>k t. 0 \<le> k \<Longrightarrow> k < n \<Longrightarrow> 0 \<le> t \<Longrightarrow> t < team_size \<Longrightarrow> k \<in> S t \<longleftrightarrow> owner k = t"
    and "\<And>k. 0 \<le> k \<Longrightarrow> k < n \<Longrightarrow> 0 \<le> owner k \<and> owner k < team_size"
    and "\<And>t. 0 \<le> t \<Longrightarrow> t < team_size \<Longrightarrow> S t \<subseteq> {0..<n}"
  shows "deals team_size n S"
  unfolding deals_def
proof (intro conjI ballI impI)
  fix s t
  assume st: "s \<in> {0..<team_size}" "t \<in> {0..<team_size}" "s \<noteq> t"
  have False if "k \<in> S s" "k \<in> S t" for k
  proof -
    have "0 \<le> k" "k < n" using assms(3) [of s] st that(1) by auto
    with assms(1) [of k s] assms(1) [of k t] st that show False by auto
  qed
  then show "S s \<inter> S t = {}" by blast
next
  have "k \<in> (\<Union>t \<in> {0..<team_size}. S t)" if "k \<in> {0..<n}" for k
    using assms(1) [of k "owner k"] assms(2) [of k] that by auto
  then show "(\<Union>t \<in> {0..<team_size}. S t) = {0..<n}" using assms(3) by fastforce
qed

lemma share_once: "0 < n \<Longrightarrow> 0 \<le> a \<Longrightarrow> share n n c a = {a..<min (a + c) n}"
  by (auto simp: share_def)

lemma deals_blocks:
  assumes "0 < c" "n \<le> c * team_size" "0 < n"
  shows "deals team_size n (\<lambda>t. share n n c (t * c))"
proof (rule deals_owner)
  show "k \<in> share n n c (t * c) \<longleftrightarrow> k div c = t" if "0 \<le> k" "k < n" "0 \<le> t" "t < team_size" for k t
  proof -
    have "t * c \<le> k \<longleftrightarrow> t \<le> k div c" using le_div_int [OF assms(1)] by blast
    moreover have "(t + 1) * c \<le> k \<longleftrightarrow> t + 1 \<le> k div c" using le_div_int [OF assms(1)] by blast
    ultimately show ?thesis
      using that assms by (subst share_once) (auto simp: algebra_simps)
  qed
  show "0 \<le> k div c \<and> k div c < team_size" if "0 \<le> k" "k < n" for k
    using that assms le_div_int [OF assms(1), of team_size k]
    by (auto simp: pos_imp_zdiv_nonneg_iff mult.commute)
  show "share n n c (t * c) \<subseteq> {0..<n}" if "0 \<le> t" "t < team_size" for t
    using that assms by (subst share_once) auto
qed

lemma deals_cyclic:
  assumes c: "0 < c" and T: "0 < team_size"
  shows "deals team_size n (\<lambda>t. share n (c * team_size) c (t * c))"
proof (rule deals_owner)
  show "k \<in> share n (c * team_size) c (t * c) \<longleftrightarrow> k div c mod team_size = t"
    if k: "0 \<le> k" "k < n" and t: "0 \<le> t" "t < team_size" for k t
  proof -
    define q r where "q = k div c" "r = k mod c"
    have kq: "k = q * c + r" "0 \<le> r" "r < c" "0 \<le> q" using c k by (simp_all add: q_r_def pos_imp_zdiv_nonneg_iff)
    have "k - t * c = c * (q - t) + r" using kq(1) by (simp add: algebra_simps)
    moreover have "(c * (q - t) + r) mod (c * team_size) = c * ((q - t) mod team_size) + r"
    proof -
      have "(c * (q - t) + r) mod (c * team_size) = c * ((c * (q - t) + r) div c mod team_size) + (c * (q - t) + r) mod c"
        by (rule zmod_zmult2_eq) (use T in simp)
      then show ?thesis using kq by simp
    qed
    ultimately have "(k - t * c) mod (c * team_size) = c * ((q - t) mod team_size) + r" by simp
    moreover have "c * ((q - t) mod team_size) + r < c \<longleftrightarrow> (q - t) mod team_size = 0"
    proof (cases "(q - t) mod team_size = 0")
      case False
      then have "1 \<le> (q - t) mod team_size" using pos_mod_sign [OF T, of "q - t"] by linarith
      then have "c * 1 \<le> c * ((q - t) mod team_size)" using c by (intro mult_left_mono) simp_all
      then have "\<not> c * ((q - t) mod team_size) + r < c" using kq(2) by linarith
      with False show ?thesis by simp
    qed (use kq in simp)
    moreover have "t * c \<le> k \<longleftrightarrow> t \<le> q" unfolding q_r_def(1) using le_div_int [OF c] by blast
    moreover have "t \<le> q \<and> (q - t) mod team_size = 0 \<longleftrightarrow> q mod team_size = t"
    proof
      assume "t \<le> q \<and> (q - t) mod team_size = 0"
      then have "q mod team_size = t mod team_size" by (simp add: mod_eq_dvd_iff mod_0_imp_dvd)
      with t show "q mod team_size = t" by simp
    next
      assume q: "q mod team_size = t"
      then have "(q - t) mod team_size = 0" by (metis minus_mod_eq_div_mult mod_mult_self2_is_0)
      moreover have "t \<le> q" using q kq(4) T zmod_le_nonneg_dividend by blast
      ultimately show "t \<le> q \<and> (q - t) mod team_size = 0" by simp
    qed
    ultimately show ?thesis using k by (auto simp: share_def simp flip: q_r_def(1))
  qed
  show "0 \<le> k div c mod team_size \<and> k div c mod team_size < team_size" for k using T by simp
  show "share n (c * team_size) c (t * c) \<subseteq> {0..<n}" if "0 \<le> t" "t < team_size" for t
  proof -
    have "0 \<le> t * c" using that c by simp
    then show ?thesis by (auto simp: share_def)
  qed
qed

lemma deals_fair:
  assumes T: "0 < team_size" and n: "team_size \<le> n"
  shows "deals team_size n (\<lambda>t. share n n (even_chunk True team_size n t) (even_first True team_size n t))"
proof -
  define q r where "q = n div team_size" "r = n mod team_size"
  have qr: "n = q * team_size + r" "0 \<le> r" "r < team_size" "1 \<le> q"
    using T n le_div_int [OF T, of 1 n] by (simp_all add: q_r_def)
  define f where "f t = t * q + min t r" for t
  have f: "even_first True team_size n t = f t" "even_first True team_size n t + even_chunk True team_size n t = f (t + 1)" for t
    by (auto simp: even_first_def even_chunk_def f_def algebra_simps simp flip: q_r_def)
  have mono: "f s \<le> f t" if "s \<le> t" for s t
    unfolding f_def using that qr(4) by (intro add_mono mult_right_mono) auto
  have zero: "f 0 = 0" "f team_size = n" using qr by (simp_all add: f_def)
  have S: "share n n (even_chunk True team_size n t) (even_first True team_size n t) = {f t..<f (t + 1)}"
    if "0 \<le> t" "t < team_size" for t
  proof -
    have "0 \<le> f t" "f (t + 1) \<le> n" using mono [of 0 t] mono [of "t + 1" team_size] that zero by simp_all
    moreover have "f t + even_chunk True team_size n t = f (t + 1)" using f [of t] by simp
    ultimately show ?thesis using T n by (subst share_once) (simp_all add: f(1) min_absorb1)
  qed
  show ?thesis
    unfolding deals_def
  proof (intro conjI ballI impI)
    fix s t
    assume st: "s \<in> {0..<team_size}" "t \<in> {0..<team_size}" "s \<noteq> t"
    have "{f s..<f (s + 1)} \<inter> {f t..<f (t + 1)} = {}"
      using st(3) mono [of "s + 1" t] mono [of "t + 1" s] by (cases "s < t") auto
    with st S show "share n n (even_chunk True team_size n s) (even_first True team_size n s)
        \<inter> share n n (even_chunk True team_size n t) (even_first True team_size n t) = {}" by simp
  next
    have "(\<Union>t \<in> {0..<m}. {f t..<f (t + 1)}) = {0..<f m}" if "0 \<le> m" for m
      using that
    proof (induction m rule: int_ge_induct)
      case (step i)
      have "{0..<i + 1} = insert i {0..<i}" using step(1) by auto
      with step mono [of 0 i] mono [of i "i + 1"] zero show ?case by (auto simp: ivl_disj_un)
    qed (simp add: zero)
    from this [of team_size] T zero
    show "(\<Union>t \<in> {0..<team_size}. share n n (even_chunk True team_size n t) (even_first True team_size n t)) = {0..<n}"
      using S by simp
  qed
qed

text \<open>\<^verbatim>\<open>__pmp_static_init\<close> as called by one thread of a team of several.\<close>

lemma pmp_static_init_even:
  assumes run: "runs param L" and T: "1 < team_size" and t: "0 \<le> t" and fair: "static_fair param \<Longrightarrow> team_size \<le> trips L"
    and V: "V \<inter> share (trips L) (trips L) (even_chunk (static_fair param) team_size (trips L) t)
                (even_first (static_fair param) team_size (trips L) t) = {}"
    and b: "0 \<le> b" "b < 2 ^ 31 - 1"
  defines "S \<equiv> share (trips L) (trips L) (even_chunk (static_fair param) team_size (trips L) t)
                (even_first (static_fair param) team_size (trips L) t)"
  shows "returnsE (pmp_static_init param team_size t PMP_SCHED_STATIC_EVEN (loop_lower L) (loop_upper L) (loop_inc L) ch (marked L V b))
    (\<lambda>(bounds, loop). loop = marked L (V \<union> S) (b + of_bool (trips L - 1 \<in> S)))"
proof -
  let ?n = "trips L" and ?l = "loop_lower L" and ?u = "loop_upper L" and ?inc = "loop_inc L"
  let ?c = "even_chunk (static_fair param) team_size ?n t" and ?a = "even_first (static_fair param) team_size ?n t"
  have n: "1 \<le> ?n" "0 < team_size" using runs_trips [OF run] T by simp_all
  have size: "cdiv (?u - ?l) ?inc + 1 = ?n" by (simp add: trips_def trip_count_def)
  have share: "even_share param team_size t ?l ?inc ?n = (?l + ?a * ?inc, ?c)" using n t by (intro even_share_eq) simp_all
  have c: "0 < ?c" "?c \<le> ?n" using even_chunk_bounds [OF n(2,1) t fair] by simp_all
  have a: "0 \<le> ?a" using n t by (auto simp: even_first_def pos_imp_zdiv_nonneg_iff)
  obtain lo up st where bounds: "(lo, up, st) = (if within ?inc (?l + ?a * ?inc) ?u
       then (?l + ?a * ?inc, LOOPMIN ?inc (?l + ?a * ?inc + (?c - 1) * ?inc) ?u, ?n * ?inc)
       else (?l - ?inc, ?l - ?inc - ?inc, ?inc))" by (metis prod_cases3)
  have "pmp_loop_analyser param (marked L V b) ?l ?u lo up ?inc ?c st = Inr (marked L (V \<union> S) (b + of_bool (?n - 1 \<in> S)))"
    unfolding S_def by (rule thread_marked [OF run c a V b bounds])
  then show ?thesis
    using T n(1) unfolding pmp_static_init_def size pmp_assert_def Let_def share prod.case bounds [symmetric]
    by (simp add: pmp_sched_defs)
qed

lemma pmp_static_init_chunked:
  assumes run: "runs param L" and T: "1 < team_size" and t: "0 \<le> t" and ch: "0 < ch"
    and V: "V \<inter> share (trips L) (ch * team_size) ch (t * ch) = {}" and b: "0 \<le> b" "b < 2 ^ 31 - 1"
  defines "S \<equiv> share (trips L) (ch * team_size) ch (t * ch)"
  shows "returnsE (pmp_static_init param team_size t PMP_SCHED_STATIC (loop_lower L) (loop_upper L) (loop_inc L) ch (marked L V b))
    (\<lambda>(bounds, loop). loop = marked L (V \<union> S) (b + of_bool (trips L - 1 \<in> S)))"
proof -
  let ?l = "loop_lower L" and ?u = "loop_upper L" and ?inc = "loop_inc L"
  have d: "ch \<le> ch * team_size" using ch T by simp
  have a: "0 \<le> t * ch" using t ch by simp
  have eq: "?l + t * (ch * ?inc) = ?l + t * ch * ?inc" "ch * ?inc * team_size = ch * team_size * ?inc" by (simp_all add: ac_simps)
  obtain lo up st where bounds: "(lo, up, st) = (if within ?inc (?l + t * ch * ?inc) ?u
       then (?l + t * ch * ?inc, LOOPMIN ?inc (?l + t * ch * ?inc + (ch - 1) * ?inc) ?u, ch * team_size * ?inc)
       else (?l - ?inc, ?l - ?inc - ?inc, ?inc))" by (metis prod_cases3)
  have "pmp_loop_analyser param (marked L V b) ?l ?u lo up ?inc ch st = Inr (marked L (V \<union> S) (b + of_bool (trips L - 1 \<in> S)))"
    unfolding S_def by (rule thread_marked [OF run ch d a V b bounds])
  then show ?thesis
    using T unfolding pmp_static_init_def pmp_assert_def Let_def eq bounds [symmetric]
    by (simp add: pmp_sched_defs)
qed

text \<open>All threads of the team, one after the other.\<close>

definition pmp_team_static ::
    "pmp_param \<Rightarrow> int \<Rightarrow> int \<Rightarrow> int \<Rightarrow> int \<Rightarrow> int \<Rightarrow> int \<Rightarrow> pmp_loop \<Rightarrow> pmp_loop outcome" where
  "pmp_team_static param team_size sched lower upper inc ch loop =
     for_loop 0 team_size (\<lambda>t loop.
       bindE (pmp_static_init param team_size t sched lower upper inc ch loop) (\<lambda>(bounds, loop). Inr loop)) loop"

lemma team_counts_once:
  assumes thread: "\<And>t V b. 0 \<le> t \<Longrightarrow> t < team_size \<Longrightarrow> V \<inter> S t = {} \<Longrightarrow> 0 \<le> b \<Longrightarrow> b < 2 ^ 31 - 1 \<Longrightarrow>
      returnsE (pmp_static_init param team_size t sched (loop_lower L) (loop_upper L) (loop_inc L) ch (marked L V b))
        (\<lambda>(bounds, loop). loop = marked L (V \<union> S t) (b + of_bool (trips L - 1 \<in> S t)))"
    and deals: "deals team_size (trips L) S" and T: "0 \<le> team_size" and n: "1 \<le> trips L"
  shows "pmp_team_static param team_size sched (loop_lower L) (loop_upper L) (loop_inc L) ch (marked L {} 0)
    = Inr (marked L {0..<trips L} 1)"
proof -
  let ?W = "\<lambda>t. \<Union>s \<in> {0..<t}. S s"
  have disjoint: "S s \<inter> S t = {}" if "s \<noteq> t" "0 \<le> s" "s < team_size" "0 \<le> t" "t < team_size" for s t
    using deals that by (simp add: deals_def)
  have "returnsE (for_loop 0 team_size (\<lambda>t loop.
      bindE (pmp_static_init param team_size t sched (loop_lower L) (loop_upper L) (loop_inc L) ch loop) (\<lambda>(bounds, loop). Inr loop))
      (marked L {} 0)) (\<lambda>loop. loop = marked L (?W team_size) (of_bool (trips L - 1 \<in> ?W team_size)))"
  proof (rule for_loop_invariant [where I = "\<lambda>t loop. loop = marked L (?W t) (of_bool (trips L - 1 \<in> ?W t))"])
    fix t loop
    assume t: "0 \<le> t" "t < team_size" and loop: "loop = marked L (?W t) (of_bool (trips L - 1 \<in> ?W t))"
    have new: "?W t \<inter> S t = {}" using disjoint [of _ t] t by fastforce
    have "{0..<t + 1} = insert t {0..<t}" using t by auto
    then have W: "?W (t + 1) = ?W t \<union> S t" by auto
    define b where "b = (of_bool (trips L - 1 \<in> ?W t) :: int)"
    have b: "0 \<le> b" "b < 2 ^ 31 - 1" by (simp_all add: b_def of_bool_def)
    have sum: "b + of_bool (trips L - 1 \<in> S t) = of_bool (trips L - 1 \<in> ?W t \<union> S t)"
      using new unfolding b_def by auto
    obtain r where r: "pmp_static_init param team_size t sched (loop_lower L) (loop_upper L) (loop_inc L) ch (marked L (?W t) b) = Inr r"
      "snd r = marked L (?W t \<union> S t) (b + of_bool (trips L - 1 \<in> S t))"
      by (rule returnsE_E [OF thread [OF t new b]]) (auto simp: split_beta)
    show "returnsE (bindE (pmp_static_init param team_size t sched (loop_lower L) (loop_upper L) (loop_inc L) ch loop)
        (\<lambda>(bounds, loop). Inr loop)) (\<lambda>loop. loop = marked L (?W (t + 1)) (of_bool (trips L - 1 \<in> ?W (t + 1))))"
      unfolding loop W b_def [symmetric] r(1) by (simp only: bindE_Inr split_beta returnsE_Inr r(2) sum)
  qed (use T in simp_all)
  moreover have "?W team_size = {0..<trips L}" using deals by (simp add: deals_def)
  ultimately show ?thesis using n by (auto simp: pmp_team_static_def returnsE_iff)
qed

text \<open>Counts that are all 1 give no warning.\<close>

lemma stop_check_silent: "\<forall>c \<in> set cs. c = 1 \<Longrightarrow> pmp_stop_check_loop cs i None = []"
  by (induction cs arbitrary: i) simp_all

lemma pmp_stop_check_silent:
  assumes "runs param L"
  shows "pmp_stop_check param (marked L {0..<trips L} 1) = Inr ((marked L {0..<trips L} 1)\<lparr>check_loop := None\<rparr>, [])"
proof -
  have "\<forall>c \<in> set (marks (trips L) {0..<trips L}). c = 1" by (auto simp: marks_def)
  then show ?thesis
    using assms runs_trips [OF assms]
    by (simp add: pmp_stop_check_def pmp_assert_def runs_def stop_check_silent Let_def flip: trip_count_def trips_def)
qed

lemma pmp_start_check_marked:
  assumes "runs param L" "check_loop L = None"
  shows "pmp_start_check param L = Inr (marked L {} 0)"
proof -
  have "marks (trips L) {} = replicate (nat (trips L)) 0" by (simp add: marks_def map_replicate_const)
  with assms runs_trips [OF assms(1)] show ?thesis
    by (simp add: pmp_start_check_def pmp_assert_def runs_def marked_def flip: trip_count_def trips_def)
qed

section \<open>Failures\<close>

text \<open>
  With fair static scheduling, a thread that gets no iteration because there are fewer iterations than threads has a chunk of 0,
  and the analyser's assertion fails, when it is on.
\<close>

lemma pmp_static_init_fair_small:
  assumes run: "runs param L" and fair: "static_fair param" and t: "trips L \<le> t" "t < team_size"
  shows "pmp_static_init param team_size t PMP_SCHED_STATIC_EVEN (loop_lower L) (loop_upper L) (loop_inc L) ch loop
    = Inl (Assertion ''inc != 0 && chunk != 0'')"
proof -
  let ?n = "trips L" and ?l = "loop_lower L" and ?u = "loop_upper L" and ?inc = "loop_inc L"
  have n: "1 \<le> ?n" using run by (rule runs_trips)
  have size: "cdiv (?u - ?l) ?inc + 1 = ?n" by (simp add: trips_def trip_count_def)
  have "even_first True team_size ?n t = ?n" "even_chunk True team_size ?n t = 0"
    using n t by (simp_all add: even_first_def even_chunk_def)
  with even_share_eq [of team_size ?n t param ?l ?inc] fair n t
  have share: "even_share param team_size t ?l ?inc ?n = (?l + ?n * ?inc, 0)" by simp
  have "\<not> within ?inc (?l + ?n * ?inc) ?u" using endsD [OF runs_ends [OF run]] by simp
  moreover have "?inc \<noteq> 0" "param_check param" using run by (auto simp: runs_def)
  ultimately show ?thesis
    using n t unfolding pmp_static_init_def size pmp_assert_def Let_def share prod.case
    by (simp add: pmp_sched_defs pmp_loop_analyser_def pmp_assert_def)
qed

text \<open>A loop whose upper bound is two increments or more below its lower bound fails the assertion on the size.\<close>

lemma pmp_static_init_negative_size:
  assumes "1 < team_size" "0 < inc" "u \<le> l - 2 * inc"
  shows "pmp_static_init param team_size t PMP_SCHED_STATIC_EVEN l u inc ch loop = Inl (Assertion ''size >= 0'')"
proof -
  have "2 \<le> (l - u) div inc" using assms by (subst le_div_int) simp_all
  moreover have "cdiv (u - l) inc = - ((l - u) div inc)" using assms by (simp add: cdiv_def)
  ultimately have "\<not> cdiv (u - l) inc + 1 \<ge> 0" by simp
  then show ?thesis using assms(1) by (simp add: pmp_static_init_def pmp_assert_def Let_def pmp_sched_defs)
qed

section \<open>The whole team\<close>

text \<open>From the allocation of the counts to the warnings: every iteration is executed once, and there is no warning.\<close>

definition check_static :: "pmp_param \<Rightarrow> int \<Rightarrow> int \<Rightarrow> int \<Rightarrow> pmp_loop \<Rightarrow> (pmp_loop \<times> check_warning list) outcome" where
  "check_static param team_size sched ch loop =
     bindE (pmp_start_check param loop) (\<lambda>loop'.
     bindE (pmp_team_static param team_size sched (loop_lower loop) (loop_upper loop) (loop_inc loop) ch loop') (\<lambda>loop'.
     pmp_stop_check param loop'))"

lemma check_static_silent:
  assumes run: "runs param L" and none: "check_loop L = None" and T: "1 < team_size"
    and sched: "sched = PMP_SCHED_STATIC \<and> 0 < ch \<or> sched = PMP_SCHED_STATIC_EVEN \<and> (static_fair param \<longrightarrow> team_size \<le> trips L)"
  shows "returnsE (check_static param team_size sched ch L) (\<lambda>(loop, warnings). warnings = [] \<and> check_loop loop = None)"
proof -
  have n: "1 \<le> trips L" using run by (rule runs_trips)
  have "pmp_team_static param team_size sched (loop_lower L) (loop_upper L) (loop_inc L) ch (marked L {} 0)
      = Inr (marked L {0..<trips L} 1)"
    using sched
  proof (elim disjE conjE)
    assume "sched = PMP_SCHED_STATIC" "0 < ch"
    with run T n show ?thesis
      by (intro team_counts_once [where S = "\<lambda>t. share (trips L) (ch * team_size) ch (t * ch)"])
        (simp_all add: pmp_static_init_chunked deals_cyclic)
  next
    assume sched: "sched = PMP_SCHED_STATIC_EVEN" and fair: "static_fair param \<longrightarrow> team_size \<le> trips L"
    let ?S = "\<lambda>t. share (trips L) (trips L) (even_chunk (static_fair param) team_size (trips L) t)
                (even_first (static_fair param) team_size (trips L) t)"
    have "deals team_size (trips L) ?S"
    proof (cases "static_fair param")
      case True
      with fair T show ?thesis by (simp add: deals_fair)
    next
      case False
      define c where "c = (trips L + team_size - 1) div team_size"
      have mod: "(trips L + team_size - 1) mod team_size < team_size" using T by simp
      have "c * team_size = trips L + team_size - 1 - (trips L + team_size - 1) mod team_size"
        by (simp only: c_def minus_mod_eq_div_mult)
      with mod have "trips L \<le> c * team_size" by linarith
      moreover have "0 < c" using T n le_div_int [of team_size 1 "trips L + team_size - 1"] by (simp add: c_def)
      ultimately have "deals team_size (trips L) (\<lambda>t. share (trips L) (trips L) c (t * c))" using n by (intro deals_blocks) simp_all
      with False show ?thesis by (simp add: even_chunk_def even_first_def c_def)
    qed
    with run T n fair show ?thesis unfolding sched
      by (intro team_counts_once [where S = ?S]) (simp_all add: pmp_static_init_even)
  qed
  then show ?thesis
    by (simp add: check_static_def pmp_start_check_marked [OF run none] pmp_stop_check_silent [OF run] bindE_def returnsE_def)
qed

end
