(* ===== verification/Omp_Schedule.thy ===== *)
theory Omp_Schedule
  imports Omp_Static
begin

text \<open>
  The loop scheduler of the OpenMP runtime (\<^verbatim>\<open>src/src/libopenmp/schedule.c\<close>): \<^verbatim>\<open>__pmp_scheduler_init\<close>, which sets up a loop that
  the threads of a team share, and \<^verbatim>\<open>__pmp_schedule_next\<close>, which each thread calls for its next chunk of iterations until there is none.

  The code of the 64-bit hosts is modelled, where the loop counter is advanced by an atomic 64-bit addition.
\<close>

section \<open>Threads\<close>

record pmp_thread =
  local_id :: int
  iteration :: int
  ticket_number :: int
  thread_loop_count :: int
  in_loop :: bool           \<comment> \<open>\<^verbatim>\<open>thread->loop != NULL\<close>\<close>

definition PMP_LOOP_UNUSED :: int where "PMP_LOOP_UNUSED = - 1"
definition PMP_MASK_LOOP_ID :: int where "PMP_MASK_LOOP_ID = 0x7FFFFFFF"

text \<open>\<^verbatim>\<open>__pmp_loop_free\<close>: the last thread to leave the loop stops the check and gives the structure back.\<close>

definition pmp_loop_free ::
    "pmp_param \<Rightarrow> pmp_thread \<Rightarrow> pmp_loop \<Rightarrow> (pmp_thread \<times> pmp_loop \<times> check_warning list) outcome" where
  "pmp_loop_free param thread loop =
     bindE (pmp_assert (loop_id loop = (thread_loop_count thread - 1) AND PMP_MASK_LOOP_ID) ''loop->loop_id == loop_id'') (\<lambda>_.
     let count = looping_threads loop;
         loop = loop\<lparr>looping_threads := INT32 (looping_threads loop - 1)\<rparr> in
     bindE (pmp_assert (count \<ge> 1) ''count >= 1'') (\<lambda>_.
     bindE (if count = 1 then
              bindE (pmp_stop_check param loop) (\<lambda>(loop, warnings).
              Inr (loop\<lparr>loop_id := PMP_LOOP_UNUSED\<rparr>, warnings))
            else Inr (loop, [])) (\<lambda>(loop, warnings).
     Inr (thread\<lparr>in_loop := False\<rparr>, loop, warnings))))"

section \<open>The next chunk\<close>

text \<open>
  The result of \<^verbatim>\<open>__pmp_schedule_next\<close>: the bounds and the increment of a chunk (\<^verbatim>\<open>return 1\<close>) or none (\<^verbatim>\<open>return 0\<close>), with the thread, the loop
  and the warnings of the check.
\<close>

type_synonym next_result = "((int \<times> int \<times> int) option \<times> pmp_thread \<times> pmp_loop \<times> check_warning list) outcome"

definition hand_out :: "pmp_param \<Rightarrow> pmp_thread \<Rightarrow> pmp_loop \<Rightarrow> int \<Rightarrow> int \<Rightarrow> next_result" where
  "hand_out param thread loop lower upper =
     bindE (pmp_loop_analyser param loop (loop_lower loop) (loop_upper loop) lower upper (loop_inc loop) 0 0) (\<lambda>loop.
     Inr (Some (lower, upper, loop_inc loop),
          thread\<lparr>ticket_number := lower, iteration := iteration thread + 1\<rparr>, loop, []))"

definition release :: "pmp_param \<Rightarrow> pmp_thread \<Rightarrow> pmp_loop \<Rightarrow> next_result" where
  "release param thread loop =
     bindE (pmp_loop_free param thread loop) (\<lambda>(thread, loop, warnings). Inr (None, thread, loop, warnings))"

definition next_static :: "pmp_param \<Rightarrow> int \<Rightarrow> pmp_thread \<Rightarrow> pmp_loop \<Rightarrow> next_result" where
  "next_static param team_size thread loop =
     (let upper = loop_upper loop; inc = loop_inc loop; chunk = loop_chunk loop;
          trip = cdiv (upper - loop_lower loop) inc + 1;
          size_per_thread = (cdiv (trip - 1) team_size + 1) * inc;
          thread_lower = loop_lower loop + local_id thread * size_per_thread;
          thread_upper = thread_lower + size_per_thread - inc;
          this_lower = thread_lower + iteration thread * chunk * inc;
          this_upper = this_lower + (chunk - 1) * inc;
          thread_upper = LOOPMIN inc thread_upper upper;
          this_upper = LOOPMIN inc this_upper thread_upper in
      if \<not> within inc this_lower thread_upper then release param thread loop
      else hand_out param thread loop this_lower this_upper)"

definition next_static_even :: "pmp_param \<Rightarrow> int \<Rightarrow> pmp_thread \<Rightarrow> pmp_loop \<Rightarrow> next_result" where
  "next_static_even param team_size thread loop =
     (if iteration thread = 0 then
        let lower = loop_lower loop; upper = loop_upper loop; inc = loop_inc loop;
            trip = cdiv (upper - lower) inc + 1;
            (thread_lower, thread_upper) =
              (if \<not> static_fair param then
                 let size_per_thread = (cdiv (trip - 1) team_size + 1) * inc;
                     thread_lower = lower + local_id thread * size_per_thread in
                 (thread_lower, thread_lower + size_per_thread - inc)
               else
                 let (thread_lower, chunk) = even_share param team_size (local_id thread) lower inc trip in
                 (thread_lower, thread_lower + (chunk - 1) * inc));
            thread_upper = LOOPMIN inc thread_upper upper in
        if \<not> within inc thread_lower thread_upper then release param thread loop
        else hand_out param thread loop thread_lower thread_upper
      else
        bindE (pmp_assert (iteration thread = 1) ''iteration == 1'') (\<lambda>_. release param thread loop))"

text \<open>
  The dynamic and the guided schedule in three parts: the stride, from what the thread reads of the loop; the atomic addition to
  \<^verbatim>\<open>loop->current\<close>, which gives the value it had; and the rest.
\<close>

definition guided_stride :: "pmp_loop \<Rightarrow> int" where
  "guided_stride loop =
     (let remaining = loop_upper loop - loop_current loop + 1;
          my_chunk = max (loop_min_chunk loop) (min (loop_chunk loop) remaining) in
      loop_inc loop * my_chunk)"

definition dynamic_stride :: "pmp_loop \<Rightarrow> int" where
  "dynamic_stride loop = loop_inc loop * loop_chunk loop"

definition xadd_current :: "pmp_loop \<Rightarrow> int \<Rightarrow> int \<times> pmp_loop" where
  "xadd_current loop stride = (loop_current loop, loop\<lparr>loop_current := loop_current loop + stride\<rparr>)"

definition dynamic_finish :: "pmp_param \<Rightarrow> pmp_thread \<Rightarrow> int \<Rightarrow> int \<Rightarrow> pmp_loop \<Rightarrow> next_result" where
  "dynamic_finish param thread stride cur loop =
     (if \<not> within (loop_inc loop) cur (loop_upper loop) then release param thread loop
      else hand_out param thread loop cur (LOOPMIN (loop_inc loop) (loop_upper loop) (cur + stride - loop_inc loop)))"

definition guided_new_chunk :: "pmp_param \<Rightarrow> int \<Rightarrow> pmp_loop \<Rightarrow> int \<Rightarrow> int" where
  "guided_new_chunk param team_size loop my_upper =
     (let remaining = loop_upper loop - my_upper;
          divisor = team_size * guided_chunk_divisor param;
          new_chunk = cdiv (remaining + divisor - 1) divisor;
          new_chunk = min (guided_chunk_max param) new_chunk in
      max (loop_min_chunk loop) new_chunk)"

definition guided_finish :: "pmp_param \<Rightarrow> int \<Rightarrow> pmp_thread \<Rightarrow> int \<Rightarrow> int \<Rightarrow> int \<Rightarrow> pmp_loop \<Rightarrow> next_result" where
  "guided_finish param team_size thread chunk stride cur loop =
     (if \<not> within (loop_inc loop) cur (loop_upper loop) then release param thread loop
      else
        let my_upper = LOOPMIN (loop_inc loop) (loop_upper loop) (cur + stride - loop_inc loop);
            new_chunk = guided_new_chunk param team_size loop my_upper;
            loop = (if loop_chunk loop = chunk then loop\<lparr>loop_chunk := new_chunk\<rparr> else loop) in
        hand_out param thread loop cur my_upper)"

definition pmp_schedule_next :: "pmp_param \<Rightarrow> int \<Rightarrow> pmp_thread \<Rightarrow> pmp_loop \<Rightarrow> next_result" where
  "pmp_schedule_next param team_size thread loop =
     bindE (pmp_assert (in_loop thread) ''loop != NULL'') (\<lambda>_.
     bindE (pmp_assert (local_id thread < team_size) ''local_id < team_size'') (\<lambda>_.
     if team_size = 1 then
       if iteration thread = 0 then hand_out param thread loop (loop_lower loop) (loop_upper loop)
       else bindE (pmp_assert (iteration thread = 1) ''iteration == 1'') (\<lambda>_. release param thread loop)
     else if loop_sched loop = PMP_SCHED_STATIC \<or> loop_sched loop = PMP_SCHED_ORDERED_STATIC then
       next_static param team_size thread loop
     else if loop_sched loop = PMP_SCHED_STATIC_EVEN \<or> loop_sched loop = PMP_SCHED_ORDERED_STATIC_EVEN then
       next_static_even param team_size thread loop
     else if loop_sched loop = PMP_SCHED_DYNAMIC \<or> loop_sched loop = PMP_SCHED_ORDERED_DYNAMIC then
       let stride = dynamic_stride loop; (cur, loop) = xadd_current loop stride in
       dynamic_finish param thread stride cur loop
     else if loop_sched loop = PMP_SCHED_GUIDED \<or> loop_sched loop = PMP_SCHED_ORDERED_GUIDED then
       let chunk = loop_chunk loop; stride = guided_stride loop; (cur, loop) = xadd_current loop stride in
       bindE (pmp_assert (stride \<noteq> 0) ''stride != 0'') (\<lambda>_.
       guided_finish param team_size thread chunk stride cur loop)
     else Inl (Fatal ''unknown dynamic scheduling type %d'')))"

section \<open>Setting up the loop\<close>

text \<open>What \<^verbatim>\<open>__pmp_scheduler_init\<close> passes to \<^verbatim>\<open>__pmp_loop_alloc\<close>: the schedule, the chunk and the least chunk.\<close>

definition scheduler_parameters :: "pmp_param \<Rightarrow> int \<Rightarrow> int \<Rightarrow> int \<Rightarrow> int \<Rightarrow> int \<Rightarrow> int \<Rightarrow> (int \<times> int \<times> int) outcome" where
  "scheduler_parameters param team_size sched lower upper inc chunk =
     (let min_chunk = max 1 chunk;
          (sched, chunk) =
            (if sched = PMP_SCHED_RUNTIME \<or> sched = PMP_SCHED_ORDERED_RUNTIME then
               (if sched = PMP_SCHED_ORDERED_RUNTIME then runtime_schedule param + PMP_SCHED_ORDERED_OFFSET
                else runtime_schedule param, runtime_chunk param)
             else (sched, chunk));
          chunk =
            (if sched = PMP_SCHED_GUIDED \<or> sched = PMP_SCHED_ORDERED_GUIDED then
               let divisor = team_size * guided_chunk_divisor param;
                   chunk = cdiv (upper - lower + divisor) divisor;
                   chunk = min (guided_chunk_max param) chunk in
               max min_chunk chunk
             else chunk) in
      bindE (pmp_assert (inc \<noteq> 0 \<and> chunk \<noteq> 0 \<and> min_chunk \<noteq> 0) ''inc != 0 && chunk != 0 && min_chunk != 0'') (\<lambda>_.
      Inr (sched, chunk, min_chunk)))"

text \<open>The fields that the first thread at the loop sets (\<^verbatim>\<open>__pmp_loop_alloc\<close>).\<close>

definition loop_setup :: "pmp_param \<Rightarrow> int \<Rightarrow> int \<Rightarrow> int \<Rightarrow> int \<Rightarrow> int \<Rightarrow> int \<Rightarrow> int \<Rightarrow> int \<Rightarrow> pmp_loop \<Rightarrow> pmp_loop outcome" where
  "loop_setup param team_size new_id sched lower upper inc chunk min_chunk loop =
     (let loop = loop\<lparr>looping_threads := team_size, loop_now_serving := lower, loop_sched := sched, loop_lower := lower,
                     loop_upper := upper, loop_inc := inc, loop_chunk := chunk, loop_current := lower,
                     loop_min_chunk := min_chunk\<rparr> in
      bindE (pmp_start_check param loop) (\<lambda>loop.
      bindE (pmp_assert (loop_id loop = PMP_LOOP_UNUSED) ''old_loop_id == PMP_LOOP_UNUSED'') (\<lambda>_.
      Inr (loop\<lparr>loop_id := new_id\<rparr>))))"

end
