(* ===== verification/Ranked_Steps.thy ===== *)
theory Ranked_Steps
  imports Main
begin

text \<open>
  State machines with an invariant and a measure that every step decreases, as the concurrent parts of the OpenMP run time have them: every run keeps the
  invariant and is shorter than the measure of its first state, and every run can be continued to its end.
\<close>

locale ranked_steps =
  fixes step :: "'s \<Rightarrow> 's \<Rightarrow> bool" and inv :: "'s \<Rightarrow> bool" and rank :: "'s \<Rightarrow> int"
  assumes step_inv: "step s s' \<Longrightarrow> inv s \<Longrightarrow> inv s'"
    and step_rank: "step s s' \<Longrightarrow> inv s \<Longrightarrow> rank s' < rank s"
    and rank_nonneg: "inv s \<Longrightarrow> 0 \<le> rank s"
begin

lemma run_inv:
  assumes "(step ^^ n) s s'" "inv s"
  shows "inv s'" "rank s' + int n \<le> rank s"
  using assms
proof (induction n arbitrary: s')
  case (Suc n)
  {
    case 1
    then show ?case using Suc.IH(1) step_inv by auto
  next
    case 2
    then obtain u where u: "(step ^^ n) s u" "step u s'" by auto
    with Suc.IH [OF u(1) 2(2)] step_rank [OF u(2)] show ?case by simp
  }
qed simp_all

lemma run_bound: "(step ^^ n) s s' \<Longrightarrow> inv s \<Longrightarrow> int n \<le> rank s"
  using run_inv [of n s s'] rank_nonneg [of s'] by simp

lemma run_end:
  assumes "inv s"
  shows "\<exists>n s'. (step ^^ n) s s' \<and> (\<nexists>s''. step s' s'')"
  using assms
proof (induction "nat (rank s)" arbitrary: s rule: less_induct)
  case less
  show ?case
  proof (cases "\<exists>u. step s u")
    case True
    then obtain u where u: "step s u" by blast
    note u' = step_inv [OF u less.prems] step_rank [OF u less.prems]
    with less.hyps [of u] rank_nonneg [of u] obtain n s' where "(step ^^ n) u s'" "\<nexists>s''. step s' s''" by auto
    with relpowp_Suc_I2 [of step, OF u] show ?thesis by blast
  next
    case False
    then show ?thesis by (intro exI [of _ 0] exI [of _ s]) simp
  qed
qed

end

end
