(* ===== verification/Omp_Dynamic.thy ===== *)
theory Omp_Dynamic
  imports Omp_Schedule Ranked_Steps "HOL-Library.Multiset"
begin

text \<open>
  Dynamic and guided scheduling as a state machine.  The threads of a team call \<^verbatim>\<open>__pmp_schedule_next\<close> concurrently on one loop; a call is
  four steps, between which the other threads may do any number of steps: read \<^verbatim>\<open>loop->chunk\<close>; read \<^verbatim>\<open>loop->current\<close> and compute the
  stride; the atomic addition; and the rest, which either updates \<^verbatim>\<open>loop->chunk\<close> by compare-and-exchange and returns a chunk, or leaves the loop.
  What a thread has read may be stale when it uses it.
\<close>

section \<open>The values of a chunk\<close>

text \<open>\<^verbatim>\<open>for (i = lower; i <= upper; i += inc)\<close>, or with \<^verbatim>\<open>>=\<close> for a negative increment: the values of \<^verbatim>\<open>i\<close>.\<close>

function loop_values :: "int \<Rightarrow> int \<Rightarrow> int \<Rightarrow> int list" where
  "loop_values inc lower upper =
     (if inc \<noteq> 0 \<and> within inc lower upper then lower # loop_values inc (lower + inc) upper else [])"
  by pat_completeness auto
termination
  by (relation "measure (\<lambda>(inc, lower, upper). nat (if inc \<ge> 0 then upper + 1 - lower else lower + 1 - upper))")
    (auto simp: within_def)

declare loop_values.simps [simp del]

lemma loop_values_ends:
  assumes inc: "inc \<noteq> 0" and "ends l inc x e"
  shows "loop_values inc (l + a * inc) x = map (\<lambda>k. l + k * inc) [a..e - 1]"
proof (induction "nat (e - a)" arbitrary: a)
  case 0
  then have "\<not> within inc (l + a * inc) x" using endsD [OF assms(2)] by simp
  with 0 show ?case by (subst loop_values.simps) simp
next
  case (Suc m)
  then have a: "a < e" by simp
  then have "within inc (l + a * inc) x" using endsD [OF assms(2)] by simp
  then have "loop_values inc (l + a * inc) x = (l + a * inc) # loop_values inc (l + (a + 1) * inc) x"
    using inc by (subst loop_values.simps) (simp add: distrib_right add.assoc)
  moreover have "[a..e - 1] = a # [a + 1..e - 1]" using a by (intro upto_rec1) simp
  ultimately show ?case using Suc.hyps(1) [of "a + 1"] Suc.hyps(2) by simp
qed

section \<open>The machine\<close>

text \<open>Where a thread is: between two calls (or out of the loop), or in a call, with what it has read and computed.\<close>

datatype call_stage =
    Idle
  | Seen (seen_chunk: int)
  | Ready (ready_chunk: int) (ready_stride: int)
  | Taken (taken_chunk: int) (taken_stride: int) (taken_current: int)

record omp_state =
  team_loop :: pmp_loop
  members :: "int \<Rightarrow> pmp_thread"
  stage :: "int \<Rightarrow> call_stage"
  given :: "(int \<times> int) list"     \<comment> \<open>the bounds of the chunks that the calls have returned\<close>

definition guided :: "pmp_loop \<Rightarrow> bool" where
  "guided L \<longleftrightarrow> loop_sched L = PMP_SCHED_GUIDED \<or> loop_sched L = PMP_SCHED_ORDERED_GUIDED"

definition dynamic :: "pmp_loop \<Rightarrow> bool" where
  "dynamic L \<longleftrightarrow> loop_sched L = PMP_SCHED_DYNAMIC \<or> loop_sched L = PMP_SCHED_ORDERED_DYNAMIC"

text \<open>The stride from the chunk that was read before, and the end of the call.\<close>

definition stride_from :: "pmp_loop \<Rightarrow> int \<Rightarrow> int" where
  "stride_from L ch = (if guided L then guided_stride (L\<lparr>loop_chunk := ch\<rparr>) else dynamic_stride (L\<lparr>loop_chunk := ch\<rparr>))"

definition finish :: "pmp_param \<Rightarrow> int \<Rightarrow> pmp_thread \<Rightarrow> int \<Rightarrow> int \<Rightarrow> int \<Rightarrow> pmp_loop \<Rightarrow> next_result" where
  "finish param team_size thread ch stride cur L =
     (if guided L then guided_finish param team_size thread ch stride cur L else dynamic_finish param thread stride cur L)"

fun bounds_of :: "(int \<times> int \<times> int) option \<Rightarrow> (int \<times> int) list" where
  "bounds_of None = []"
| "bounds_of (Some (lower, upper, inc)) = [(lower, upper)]"

inductive omp_step :: "pmp_param \<Rightarrow> int \<Rightarrow> omp_state \<Rightarrow> omp_state \<Rightarrow> bool" for param team_size where
  see: "0 \<le> t \<Longrightarrow> t < team_size \<Longrightarrow> in_loop (members s t) \<Longrightarrow> stage s t = Idle \<Longrightarrow>
    omp_step param team_size s (s\<lparr>stage := (stage s)(t := Seen (loop_chunk (team_loop s)))\<rparr>)"
| prepare: "stage s t = Seen ch \<Longrightarrow>
    omp_step param team_size s (s\<lparr>stage := (stage s)(t := Ready ch (stride_from (team_loop s) ch))\<rparr>)"
| take: "stage s t = Ready ch stride \<Longrightarrow> xadd_current (team_loop s) stride = (cur, L) \<Longrightarrow>
    omp_step param team_size s (s\<lparr>stage := (stage s)(t := Taken ch stride cur), team_loop := L\<rparr>)"
| give: "stage s t = Taken ch stride cur \<Longrightarrow>
    finish param team_size (members s t) ch stride cur (team_loop s) = Inr (r, thread, L, warnings) \<Longrightarrow>
    omp_step param team_size s (s\<lparr>stage := (stage s)(t := Idle), members := (members s)(t := thread), team_loop := L,
      given := given s @ bounds_of r\<rparr>)"

inductive_simps omp_step_iff: "omp_step param team_size s s'"

text \<open>One call with no other thread in between is \<^verbatim>\<open>__pmp_schedule_next\<close>.\<close>

lemma pmp_schedule_next_steps:
  assumes "team_size \<noteq> 1" "dynamic L \<or> guided L" "in_loop thread" "local_id thread < team_size" "stride_from L (loop_chunk L) \<noteq> 0"
  shows "pmp_schedule_next param team_size thread L =
    (let stride = stride_from L (loop_chunk L); (cur, L') = xadd_current L stride in
     finish param team_size thread (loop_chunk L) stride cur L')"
  using assms
  by (auto simp: pmp_schedule_next_def pmp_assert_def stride_from_def finish_def guided_def dynamic_def pmp_sched_defs
      xadd_current_def Let_def)

text \<open>The state in which a team starts on a loop.\<close>

definition omp_start :: "int \<Rightarrow> omp_state \<Rightarrow> bool" where
  "omp_start team_size s \<longleftrightarrow>
     (let L = team_loop s in
      1 < team_size \<and> team_size < 2 ^ 31 \<and> (dynamic L \<or> guided L) \<and> loop_inc L \<noteq> 0 \<and> within (loop_inc L) (loop_lower L) (loop_upper L)
      \<and> 1 \<le> loop_chunk L \<and> 1 \<le> loop_min_chunk L \<and> loop_current L = loop_lower L
      \<and> looping_threads L = team_size \<and> loop_id L \<noteq> PMP_LOOP_UNUSED
      \<and> (\<forall>t \<in> {0..<team_size}. in_loop (members s t) \<and> loop_id L = (thread_loop_count (members s t) - 1) AND PMP_MASK_LOOP_ID)
      \<and> (\<forall>t. stage s t = Idle) \<and> given s = [])"

section \<open>The end of a call\<close>

lemma release_returns:
  assumes "\<not> param_check param" "loop_id L = (thread_loop_count thread - 1) AND PMP_MASK_LOOP_ID"
    "1 \<le> looping_threads L" "looping_threads L < 2 ^ 31"
  shows "release param thread L =
    Inr (None, thread\<lparr>in_loop := False\<rparr>,
         L\<lparr>looping_threads := looping_threads L - 1,
           loop_id := (if looping_threads L = 1 then PMP_LOOP_UNUSED else loop_id L)\<rparr>, [])"
  using assms
  by (simp add: release_def pmp_loop_free_def pmp_assert_def pmp_stop_check_def INT32_id Let_def)

lemma hand_out_returns:
  assumes "\<not> param_check param" "\<not> profile_enabled param"
  shows "hand_out param thread L lower upper =
    Inr (Some (lower, upper, loop_inc L), thread\<lparr>ticket_number := lower, iteration := iteration thread + 1\<rparr>, L, [])"
  using assms by (simp add: hand_out_def pmp_loop_analyser_def)

lemma finish_inside:
  assumes off: "\<not> param_check param" "\<not> profile_enabled param" and inside: "within (loop_inc L) cur (loop_upper L)"
  shows "\<exists>c. (c = loop_chunk L \<or> loop_min_chunk L \<le> c)
    \<and> finish param team_size thread ch stride cur L =
        Inr (Some (cur, LOOPMIN (loop_inc L) (loop_upper L) (cur + stride - loop_inc L), loop_inc L),
             thread\<lparr>ticket_number := cur, iteration := iteration thread + 1\<rparr>, L\<lparr>loop_chunk := c\<rparr>, [])"
proof (cases "guided L \<and> loop_chunk L = ch")
  case True
  let ?up = "LOOPMIN (loop_inc L) (loop_upper L) (cur + stride - loop_inc L)"
  have "loop_min_chunk L \<le> guided_new_chunk param team_size L ?up" by (simp add: guided_new_chunk_def Let_def)
  with True show ?thesis using inside unfolding finish_def guided_finish_def Let_def hand_out_returns [OF off]
    by (intro exI [of _ "guided_new_chunk param team_size L ?up"]) simp
next
  case False
  then show ?thesis using inside unfolding finish_def guided_finish_def dynamic_finish_def Let_def hand_out_returns [OF off]
    by (intro exI [of _ "loop_chunk L"]) auto
qed

lemma finish_outside:
  assumes "\<not> within (loop_inc L) cur (loop_upper L)"
  shows "finish param team_size thread ch stride cur L = release param thread L"
  using assms by (simp add: finish_def guided_finish_def dynamic_finish_def)

section \<open>The team\<close>

definition looping :: "int \<Rightarrow> omp_state \<Rightarrow> int set" where
  "looping team_size s = {t \<in> {0..<team_size}. in_loop (members s t)}"

text \<open>The number of threads that have still to leave, and that a thread in a call is one of them.\<close>

definition omp_team :: "int \<Rightarrow> omp_state \<Rightarrow> bool" where
  "omp_team team_size s \<longleftrightarrow>
     team_size < 2 ^ 31 \<and> looping_threads (team_loop s) = int (card (looping team_size s))
     \<and> (\<forall>t \<in> looping team_size s. loop_id (team_loop s) = (thread_loop_count (members s t) - 1) AND PMP_MASK_LOOP_ID)
     \<and> (looping team_size s = {} \<longrightarrow> loop_id (team_loop s) = PMP_LOOP_UNUSED)
     \<and> (\<forall>t. stage s t \<noteq> Idle \<longrightarrow> t \<in> looping team_size s)"

lemma looping_finite [simp]: "finite (looping team_size s)"
  by (rule finite_subset [of _ "{0..<team_size}"]) (auto simp: looping_def)

lemma looping_bound: "int (card (looping team_size s)) \<le> max 0 team_size"
proof -
  have "card (looping team_size s) \<le> card {0..<team_size}" by (intro card_mono) (auto simp: looping_def)
  then show ?thesis by simp
qed

lemma omp_team_release:
  assumes team: "omp_team team_size s" and t: "t \<in> looping team_size s" and off: "\<not> param_check param"
  shows "release param (members s t) (team_loop s) =
    Inr (None, (members s t)\<lparr>in_loop := False\<rparr>,
         (team_loop s)\<lparr>looping_threads := looping_threads (team_loop s) - 1,
           loop_id := (if looping_threads (team_loop s) = 1 then PMP_LOOP_UNUSED else loop_id (team_loop s))\<rparr>, [])"
proof (intro release_returns)
  have "0 < card (looping team_size s)" using t by (auto simp: card_gt_0_iff)
  then show "1 \<le> looping_threads (team_loop s)" using team by (simp add: omp_team_def)
  have "int (card (looping team_size s)) < 2 ^ 31" using team looping_bound [of team_size s] by (auto simp: omp_team_def)
  then show "looping_threads (team_loop s) < 2 ^ 31" using team by (simp add: omp_team_def)
qed (use assms in \<open>simp_all add: omp_team_def\<close>)

lemma omp_start_team: "omp_start team_size s \<Longrightarrow> omp_team team_size s"
proof -
  assume start: "omp_start team_size s"
  then have "looping team_size s = {0..<team_size}" by (auto simp: omp_start_def looping_def Let_def)
  with start show ?thesis by (simp add: omp_start_def omp_team_def Let_def)
qed

text \<open>What a call ends with: a chunk, or one thread less in the loop.\<close>

lemma give_cases:
  assumes team: "omp_team team_size s" and stage: "stage s t = Taken ch stride cur"
    and off: "\<not> param_check param" "\<not> profile_enabled param"
    and returns: "finish param team_size (members s t) ch stride cur (team_loop s) = Inr (r, thread, L, warnings)"
  obtains c where "within (loop_inc (team_loop s)) cur (loop_upper (team_loop s))"
      "c = loop_chunk (team_loop s) \<or> loop_min_chunk (team_loop s) \<le> c" "L = (team_loop s)\<lparr>loop_chunk := c\<rparr>"
      "thread = (members s t)\<lparr>ticket_number := cur, iteration := iteration (members s t) + 1\<rparr>"
      "bounds_of r = [(cur, LOOPMIN (loop_inc (team_loop s)) (loop_upper (team_loop s)) (cur + stride - loop_inc (team_loop s)))]"
  | "\<not> within (loop_inc (team_loop s)) cur (loop_upper (team_loop s))" "thread = (members s t)\<lparr>in_loop := False\<rparr>" "bounds_of r = []"
      "L = (team_loop s)\<lparr>looping_threads := looping_threads (team_loop s) - 1,
             loop_id := (if looping_threads (team_loop s) = 1 then PMP_LOOP_UNUSED else loop_id (team_loop s))\<rparr>"
proof (cases "within (loop_inc (team_loop s)) cur (loop_upper (team_loop s))")
  case True
  let ?up = "LOOPMIN (loop_inc (team_loop s)) (loop_upper (team_loop s)) (cur + stride - loop_inc (team_loop s))"
  obtain c where c: "c = loop_chunk (team_loop s) \<or> loop_min_chunk (team_loop s) \<le> c"
    and "finish param team_size (members s t) ch stride cur (team_loop s) =
      Inr (Some (cur, ?up, loop_inc (team_loop s)),
           (members s t)\<lparr>ticket_number := cur, iteration := iteration (members s t) + 1\<rparr>, (team_loop s)\<lparr>loop_chunk := c\<rparr>, [])"
    using finish_inside [OF off True, of team_size "members s t" ch stride] by blast
  with returns have "L = (team_loop s)\<lparr>loop_chunk := c\<rparr>" "bounds_of r = [(cur, ?up)]"
    "thread = (members s t)\<lparr>ticket_number := cur, iteration := iteration (members s t) + 1\<rparr>" by auto
  with True c show ?thesis by (intro that(1))
next
  case False
  have "t \<in> looping team_size s" using team stage by (auto simp: omp_team_def)
  from omp_team_release [OF team this off(1)] finish_outside [OF False] returns that(2) False show ?thesis by auto
qed

text \<open>A call never fails.\<close>

lemma give_returns:
  assumes team: "omp_team team_size s" and stage: "stage s t = Taken ch stride cur"
    and off: "\<not> param_check param" "\<not> profile_enabled param"
  shows "\<exists>r thread L warnings. finish param team_size (members s t) ch stride cur (team_loop s) = Inr (r, thread, L, warnings)"
proof (cases "within (loop_inc (team_loop s)) cur (loop_upper (team_loop s))")
  case True
  with finish_inside [OF off True, of team_size "members s t" ch stride] show ?thesis by auto
next
  case False
  have "t \<in> looping team_size s" using team stage by (auto simp: omp_team_def)
  from omp_team_release [OF team this off(1)] finish_outside [OF False] show ?thesis by auto
qed

lemma looping_same:
  assumes "\<And>t. in_loop (members s' t) = in_loop (members s t)"
  shows "looping team_size s' = looping team_size s"
  using assms by (simp add: looping_def)

lemma omp_team_leave:
  assumes team: "omp_team team_size s" and t: "t \<in> looping team_size s" and th: "thread = (members s t)\<lparr>in_loop := False\<rparr>"
    and L: "L = (team_loop s)\<lparr>looping_threads := looping_threads (team_loop s) - 1,
           loop_id := (if looping_threads (team_loop s) = 1 then PMP_LOOP_UNUSED else loop_id (team_loop s))\<rparr>"
    and s': "s' = s\<lparr>stage := (stage s)(t := Idle), members := (members s)(t := thread), team_loop := L, given := given s @ bounds_of r\<rparr>"
  shows "omp_team team_size s'"
proof -
  have looping: "looping team_size s' = looping team_size s - {t}" by (auto simp: looping_def s' th)
  have card: "card (looping team_size s) = Suc (card (looping team_size s'))"
    using t unfolding looping by (intro card.remove) simp_all
  have "looping team_size s' = {} \<longleftrightarrow> looping_threads (team_loop s) = 1"
    using team card by (simp add: omp_team_def)
  then have empty: "loop_id L = (if looping team_size s' = {} then PMP_LOOP_UNUSED else loop_id (team_loop s))" by (simp add: L)
  have "looping_threads L = int (card (looping team_size s'))" using team card by (simp add: L omp_team_def)
  moreover have "\<forall>t' \<in> looping team_size s'. loop_id L = (thread_loop_count (members s' t') - 1) AND PMP_MASK_LOOP_ID"
  proof
    fix t'
    assume t': "t' \<in> looping team_size s'"
    then have "loop_id L = loop_id (team_loop s)" using empty by auto
    moreover have "t' \<in> looping team_size s" "members s' t' = members s t'" using t' unfolding looping by (auto simp: s')
    ultimately show "loop_id L = (thread_loop_count (members s' t') - 1) AND PMP_MASK_LOOP_ID"
      using team by (simp add: omp_team_def)
  qed
  moreover have "\<forall>t'. stage s' t' \<noteq> Idle \<longrightarrow> t' \<in> looping team_size s'"
    using team by (simp add: omp_team_def looping) (simp add: s')
  ultimately show ?thesis using team empty by (simp add: omp_team_def) (simp add: s')
qed

lemma omp_step_team:
  assumes "omp_step param team_size s s'" and off: "\<not> param_check param" "\<not> profile_enabled param" and team: "omp_team team_size s"
  shows "omp_team team_size s'"
  using assms(1)
proof cases
  case (see t)
  then show ?thesis using team by (auto simp: omp_team_def looping_def)
next
  case (prepare t ch)
  then show ?thesis using team by (auto simp: omp_team_def looping_def split: if_splits)
next
  case (take t ch stride cur L)
  then show ?thesis using team by (auto simp: omp_team_def looping_def xadd_current_def split: if_splits)
next
  case (give t ch stride cur r thread L warnings)
  have t: "t \<in> looping team_size s" using team give(2) by (auto simp: omp_team_def)
  show ?thesis
  proof (rule give_cases [OF team give(2) off give(3)])
    fix c
    assume c: "L = (team_loop s)\<lparr>loop_chunk := c\<rparr>"
      and th: "thread = (members s t)\<lparr>ticket_number := cur, iteration := iteration (members s t) + 1\<rparr>"
    have "looping team_size s' = looping team_size s" by (rule looping_same) (simp add: give(1) th)
    then show ?thesis using team by (auto simp: omp_team_def give(1) c th)
  next
    assume th: "thread = (members s t)\<lparr>in_loop := False\<rparr>"
      and L: "L = (team_loop s)\<lparr>looping_threads := looping_threads (team_loop s) - 1,
             loop_id := (if looping_threads (team_loop s) = 1 then PMP_LOOP_UNUSED else loop_id (team_loop s))\<rparr>"
    show ?thesis by (rule omp_team_leave [OF team t th L give(1)])
  qed
qed

section \<open>The iterations\<close>

text \<open>The iterations of the chunk of a thread, of the chunks on the way, and of the chunks returned.\<close>

definition chunk_values :: "pmp_loop \<Rightarrow> int \<Rightarrow> int \<Rightarrow> int list" where
  "chunk_values L stride cur = loop_values (loop_inc L) cur (LOOPMIN (loop_inc L) (loop_upper L) (cur + stride - loop_inc L))"

fun stage_values :: "pmp_loop \<Rightarrow> call_stage \<Rightarrow> int multiset" where
  "stage_values L (Taken ch stride cur) = mset (chunk_values L stride cur)"
| "stage_values L _ = {#}"

definition pending_values :: "int \<Rightarrow> omp_state \<Rightarrow> int multiset" where
  "pending_values team_size s = (\<Sum>t \<in> {0..<team_size}. stage_values (team_loop s) (stage s t))"

definition given_values :: "int \<Rightarrow> (int \<times> int) list \<Rightarrow> int list" where
  "given_values inc bs = concat (map (\<lambda>(lower, upper). loop_values inc lower upper) bs)"

lemma chunk_values_outside:
  assumes "\<not> within (loop_inc L) cur (loop_upper L)"
  shows "chunk_values L stride cur = []"
proof -
  have "\<not> within (loop_inc L) cur (LOOPMIN (loop_inc L) (loop_upper L) (cur + stride - loop_inc L))"
    using assms by (auto simp: within_def LOOPMIN_def split: if_splits)
  then show ?thesis by (simp add: chunk_values_def loop_values.simps)
qed

lemma chunk_values_range:
  assumes "loop_inc L \<noteq> 0" "within (loop_inc L) (loop_lower L) (loop_upper L)"
  defines "n \<equiv> trip_count (loop_lower L) (loop_upper L) (loop_inc L)"
  shows "chunk_values L (m * loop_inc L) (loop_lower L + g * loop_inc L) = map (\<lambda>k. loop_lower L + k * loop_inc L) [g..min n (g + m) - 1]"
proof -
  let ?l = "loop_lower L" and ?inc = "loop_inc L"
  have end_eq: "?l + g * ?inc + m * ?inc - ?inc = ?l + (g + m - 1) * ?inc" by (simp add: algebra_simps)
  have "ends ?l ?inc (?l + (g + m - 1) * ?inc) (g + m)" using ends_point [OF assms(1), of ?l "g + m - 1"] by simp
  with ends_upper(1) [OF assms(1,2)]
  have "ends ?l ?inc (LOOPMIN ?inc (loop_upper L) (?l + (g + m - 1) * ?inc)) (min n (g + m))"
    unfolding n_def by (intro ends_LOOPMIN)
  from loop_values_ends [OF assms(1) this] show ?thesis unfolding chunk_values_def end_eq .
qed

lemma sum_upd:
  fixes F :: "'a \<Rightarrow> 'b::comm_monoid_add"
  assumes "finite A" "t \<in> A"
  shows "(\<Sum>x\<in>A. F ((h(t := y)) x)) + F (h t) = (\<Sum>x\<in>A. F (h x)) + F y"
proof -
  have "(\<Sum>x\<in>A. F ((h(t := y)) x)) = F y + (\<Sum>x\<in>A - {t}. F (h x))"
    using assms by (subst sum.remove [of A t]) (auto intro!: sum.cong)
  moreover have "(\<Sum>x\<in>A. F (h x)) = F (h t) + (\<Sum>x\<in>A - {t}. F (h x))"
    using assms by (intro sum.remove)
  ultimately show ?thesis by (simp add: ac_simps)
qed

text \<open>The invariant: \<open>g\<close> iterations, counting those past the end, have been taken, each of them returned or on the way.\<close>

definition taken_until :: "int \<Rightarrow> int \<Rightarrow> pmp_loop \<Rightarrow> int multiset" where
  "taken_until n g L = mset (map (\<lambda>k. loop_lower L + k * loop_inc L) [0..min n g - 1])"

definition omp_inv :: "int \<Rightarrow> int \<Rightarrow> omp_state \<Rightarrow> bool" where
  "omp_inv team_size g s \<longleftrightarrow>
     (let L = team_loop s; n = trip_count (loop_lower L) (loop_upper L) (loop_inc L) in
      loop_inc L \<noteq> 0 \<and> within (loop_inc L) (loop_lower L) (loop_upper L)
      \<and> 1 \<le> loop_chunk L \<and> 1 \<le> loop_min_chunk L \<and> 0 \<le> g \<and> loop_current L = loop_lower L + g * loop_inc L
      \<and> (\<forall>t ch. stage s t = Seen ch \<longrightarrow> 1 \<le> ch)
      \<and> (\<forall>t ch st. stage s t = Ready ch st \<longrightarrow> (\<exists>m \<ge> 1. st = m * loop_inc L))
      \<and> (\<forall>t ch st cur. stage s t = Taken ch st cur \<longrightarrow> (\<exists>a \<le> g. cur = loop_lower L + a * loop_inc L))
      \<and> (looping team_size s \<noteq> {0..<team_size} \<longrightarrow> n \<le> g)
      \<and> mset (given_values (loop_inc L) (given s)) + pending_values team_size s = taken_until n g L)"

lemma omp_start_inv:
  assumes "omp_start team_size s"
  shows "omp_inv team_size 0 s"
proof -
  let ?L = "team_loop s"
  have "1 \<le> trip_count (loop_lower ?L) (loop_upper ?L) (loop_inc ?L)"
    using assms by (intro ends_upper) (simp_all add: omp_start_def Let_def)
  moreover have "looping team_size s = {0..<team_size}" using assms by (auto simp: omp_start_def looping_def Let_def)
  ultimately show ?thesis using assms
    by (simp add: omp_start_def omp_inv_def Let_def given_values_def pending_values_def taken_until_def)
qed

lemma stride_from_pos:
  assumes "1 \<le> ch" "1 \<le> loop_min_chunk L"
  shows "\<exists>m \<ge> 1. stride_from L ch = m * loop_inc L"
  using assms
  by (intro exI [of _ "if guided L then max (loop_min_chunk L) (min ch (loop_upper L - loop_current L + 1)) else ch"])
    (auto simp: stride_from_def guided_stride_def dynamic_stride_def Let_def)

lemma taken_until_extend:
  assumes "0 \<le> g" "1 \<le> m" "1 \<le> n"
  shows "taken_until n g L + mset (map (\<lambda>k. loop_lower L + k * loop_inc L) [g..min n (g + m) - 1]) = taken_until n (g + m) L"
proof (cases "n \<le> g")
  case True
  with assms show ?thesis by (simp add: taken_until_def min_def)
next
  case False
  with assms have "[0..min n (g + m) - 1] = [0..g - 1] @ [g..min n (g + m) - 1]" by (intro upto_split1) auto
  with False show ?thesis by (simp add: taken_until_def min_def)
qed

lemma stage_values_cong:
  assumes "loop_inc L' = loop_inc L" "loop_upper L' = loop_upper L"
  shows "stage_values L' c = stage_values L c"
  using assms by (cases c) (simp_all add: chunk_values_def)

lemma pending_values_stage:
  assumes "t \<in> {0..<team_size}" "stage s' = (stage s)(t := c)"
    "loop_inc (team_loop s') = loop_inc (team_loop s)" "loop_upper (team_loop s') = loop_upper (team_loop s)"
  shows "pending_values team_size s' + stage_values (team_loop s) (stage s t) = pending_values team_size s + stage_values (team_loop s) c"
  unfolding pending_values_def stage_values_cong [OF assms(3,4)] assms(2)
  by (rule sum_upd) (use assms(1) in simp_all)

lemmas omp_invD = omp_inv_def [unfolded Let_def, THEN iffD1]

lemma omp_inv_see:
  assumes "omp_inv team_size g s" "t \<in> {0..<team_size}" "stage s t = Idle" "s' = s\<lparr>stage := (stage s)(t := Seen (loop_chunk (team_loop s)))\<rparr>"
  shows "omp_inv team_size g s'"
proof -
  have "pending_values team_size s' = pending_values team_size s"
    using pending_values_stage [of t team_size s' s "Seen (loop_chunk (team_loop s))"] assms(2-4) by simp
  with omp_invD [OF assms(1)] assms(2-4) show ?thesis by (simp add: omp_inv_def Let_def looping_def)
qed

lemma omp_inv_prepare:
  assumes "omp_inv team_size g s" "t \<in> {0..<team_size}" "stage s t = Seen ch"
    "s' = s\<lparr>stage := (stage s)(t := Ready ch (stride_from (team_loop s) ch))\<rparr>"
  shows "omp_inv team_size g s'"
proof -
  have "pending_values team_size s' = pending_values team_size s"
    using pending_values_stage [of t team_size s' s "Ready ch (stride_from (team_loop s) ch)"] assms(2-4) by simp
  moreover have "\<exists>m \<ge> 1. stride_from (team_loop s) ch = m * loop_inc (team_loop s)"
    using omp_invD [OF assms(1)] assms(3) by (intro stride_from_pos) simp_all
  ultimately show ?thesis using omp_invD [OF assms(1)] assms(2-4) by (simp add: omp_inv_def Let_def looping_def)
qed

lemma omp_inv_take:
  assumes inv: "omp_inv team_size g s" and t: "t \<in> {0..<team_size}" "stage s t = Ready ch (m * loop_inc (team_loop s))" and m: "1 \<le> m"
    and L: "xadd_current (team_loop s) (m * loop_inc (team_loop s)) = (cur, L)"
    and s': "s' = s\<lparr>stage := (stage s)(t := Taken ch (m * loop_inc (team_loop s)) cur), team_loop := L\<rparr>"
  shows "omp_inv team_size (g + m) s'"
proof -
  let ?L = "team_loop s"
  let ?n = "trip_count (loop_lower ?L) (loop_upper ?L) (loop_inc ?L)"
  let ?c = "Taken ch (m * loop_inc ?L) cur"
  from inv have inc: "loop_inc ?L \<noteq> 0" "within (loop_inc ?L) (loop_lower ?L) (loop_upper ?L)" and g: "0 \<le> g"
    and cur: "loop_current ?L = loop_lower ?L + g * loop_inc ?L"
    and sum: "mset (given_values (loop_inc ?L) (given s)) + pending_values team_size s = taken_until ?n g ?L"
    by (simp_all add: omp_inv_def Let_def)
  from L cur have cur': "cur = loop_lower ?L + g * loop_inc ?L" and L': "L = ?L\<lparr>loop_current := loop_lower ?L + (g + m) * loop_inc ?L\<rparr>"
    by (auto simp: xadd_current_def algebra_simps)
  have "pending_values team_size s' = pending_values team_size s + stage_values ?L ?c"
    using pending_values_stage [of t team_size s' s ?c] t s' L' by simp
  also have "stage_values ?L ?c = mset (map (\<lambda>k. loop_lower ?L + k * loop_inc ?L) [g..min ?n (g + m) - 1])"
    using chunk_values_range [OF inc, of m g] by (simp add: cur')
  finally have "mset (given_values (loop_inc ?L) (given s)) + pending_values team_size s' = taken_until ?n (g + m) ?L"
    unfolding taken_until_extend [OF g m ends_upper(2) [OF inc], of ?L, symmetric] sum [symmetric] by (simp only: ac_simps)
  moreover have "taken_until ?n (g + m) L = taken_until ?n (g + m) ?L" by (simp add: taken_until_def L')
  moreover have "\<exists>a \<le> g + m. x = loop_lower ?L + a * loop_inc ?L" if "stage s' t' = Taken ch' st x" for t' ch' st x
  proof (cases "t' = t")
    case True
    with that m show ?thesis by (intro exI [of _ g]) (simp add: s' cur')
  next
    case False
    with that obtain a where "a \<le> g" "x = loop_lower ?L + a * loop_inc ?L" using omp_invD [OF inv] by (simp add: s') blast
    with m show ?thesis by (intro exI [of _ a]) simp
  qed
  moreover have "looping team_size s' = looping team_size s" by (rule looping_same) (simp add: s')
  ultimately show ?thesis using omp_invD [OF inv] m g
    by (auto simp: omp_inv_def Let_def s' L' split: if_splits)
qed

lemma omp_inv_give:
  assumes inv: "omp_inv team_size g s" and t: "t \<in> {0..<team_size}" "stage s t = Taken ch stride cur"
    and team: "omp_team team_size s" and off: "\<not> param_check param" "\<not> profile_enabled param"
    and returns: "finish param team_size (members s t) ch stride cur (team_loop s) = Inr (r, thread, L, warnings)"
    and s': "s' = s\<lparr>stage := (stage s)(t := Idle), members := (members s)(t := thread), team_loop := L, given := given s @ bounds_of r\<rparr>"
  shows "omp_inv team_size g s'"
proof (rule give_cases [OF team t(2) off returns])
  let ?L = "team_loop s"
  fix c
  assume c: "c = loop_chunk ?L \<or> loop_min_chunk ?L \<le> c" and L: "L = ?L\<lparr>loop_chunk := c\<rparr>"
    and th: "thread = (members s t)\<lparr>ticket_number := cur, iteration := iteration (members s t) + 1\<rparr>"
    and r: "bounds_of r = [(cur, LOOPMIN (loop_inc ?L) (loop_upper ?L) (cur + stride - loop_inc ?L))]"
  have "pending_values team_size s' + mset (chunk_values ?L stride cur) = pending_values team_size s"
    using pending_values_stage [of t team_size s' s Idle] t s' L by simp
  moreover have "mset (given_values (loop_inc ?L) (given s')) = mset (given_values (loop_inc ?L) (given s)) + mset (chunk_values ?L stride cur)"
    by (simp add: s' r given_values_def chunk_values_def)
  ultimately have "mset (given_values (loop_inc ?L) (given s')) + pending_values team_size s'
      = mset (given_values (loop_inc ?L) (given s)) + pending_values team_size s" by (simp add: ac_simps)
  moreover have "looping team_size s' = looping team_size s" by (rule looping_same) (simp add: s' th)
  moreover have "1 \<le> c" using c omp_invD [OF inv] by auto
  ultimately show ?thesis using omp_invD [OF inv] by (simp add: omp_inv_def Let_def s' L taken_until_def)
next
  let ?L = "team_loop s"
  assume out: "\<not> within (loop_inc ?L) cur (loop_upper ?L)" and r: "bounds_of r = []" and th: "thread = (members s t)\<lparr>in_loop := False\<rparr>"
    and L: "L = ?L\<lparr>looping_threads := looping_threads ?L - 1,
             loop_id := (if looping_threads ?L = 1 then PMP_LOOP_UNUSED else loop_id ?L)\<rparr>"
  have "pending_values team_size s' = pending_values team_size s"
    using pending_values_stage [of t team_size s' s Idle] t s' L chunk_values_outside [OF out] by simp
  moreover obtain a where a: "a \<le> g" "cur = loop_lower ?L + a * loop_inc ?L" using omp_invD [OF inv] t(2) by blast
  have "trip_count (loop_lower ?L) (loop_upper ?L) (loop_inc ?L) \<le> a"
    using endsD [OF ends_upper(1), of "loop_inc ?L" "loop_lower ?L" "loop_upper ?L" a] omp_invD [OF inv] out a(2) by simp
  ultimately show ?thesis using omp_invD [OF inv] a(1) by (simp add: omp_inv_def Let_def s' L r taken_until_def)
qed

section \<open>Runs\<close>

text \<open>
  A measure that every step makes smaller: four for each iteration that is not taken, and for each thread the steps it has still to
  do if its next addition is past the end.  A thread that holds a chunk has one more round before it.
\<close>

fun stage_rank :: "pmp_loop \<Rightarrow> call_stage \<Rightarrow> int" where
  "stage_rank L Idle = 4"
| "stage_rank L (Seen ch) = 3"
| "stage_rank L (Ready ch stride) = 2"
| "stage_rank L (Taken ch stride cur) = (if within (loop_inc L) cur (loop_upper L) then 5 else 1)"

definition loop_trips :: "omp_state \<Rightarrow> int" where
  "loop_trips s = trip_count (loop_lower (team_loop s)) (loop_upper (team_loop s)) (loop_inc (team_loop s))"

definition omp_rank :: "int \<Rightarrow> int \<Rightarrow> omp_state \<Rightarrow> int" where
  "omp_rank team_size g s = 4 * max 0 (loop_trips s - g) + (\<Sum>t \<in> looping team_size s. stage_rank (team_loop s) (stage s t))"

lemma stage_rank_pos: "1 \<le> stage_rank L c"
  by (cases c) simp_all

lemma omp_rank_nonneg: "0 \<le> omp_rank team_size g s"
proof -
  have "0 \<le> (\<Sum>t \<in> looping team_size s. stage_rank (team_loop s) (stage s t))"
    using order_trans [OF _ stage_rank_pos] by (intro sum_nonneg) simp
  then show ?thesis by (simp add: omp_rank_def)
qed

lemma stage_rank_cong:
  "loop_inc L' = loop_inc L \<Longrightarrow> loop_upper L' = loop_upper L \<Longrightarrow> stage_rank L' c = stage_rank L c"
  by (cases c) simp_all

lemma omp_rank_stage:
  assumes "t \<in> looping team_size s" "stage s' = (stage s)(t := c)" "looping team_size s' = looping team_size s"
    "loop_inc (team_loop s') = loop_inc (team_loop s)" "loop_upper (team_loop s') = loop_upper (team_loop s)"
    "loop_trips s' = loop_trips s"
  shows "omp_rank team_size g' s' = omp_rank team_size g s + 4 * max 0 (loop_trips s - g') - 4 * max 0 (loop_trips s - g)
    + stage_rank (team_loop s) c - stage_rank (team_loop s) (stage s t)"
  using sum_upd [OF looping_finite assms(1), of "stage_rank (team_loop s)" "stage s" c]
  unfolding omp_rank_def assms(2,3,6) stage_rank_cong [OF assms(4,5)] by simp

lemma omp_rank_leave:
  assumes "t \<in> looping team_size s" "stage s' = (stage s)(t := c)" "looping team_size s' = looping team_size s - {t}"
    "loop_inc (team_loop s') = loop_inc (team_loop s)" "loop_upper (team_loop s') = loop_upper (team_loop s)"
    "loop_trips s' = loop_trips s"
  shows "omp_rank team_size g s' < omp_rank team_size g s"
proof -
  have "(\<Sum>x \<in> looping team_size s - {t}. stage_rank (team_loop s) (((stage s)(t := c)) x))
      = (\<Sum>x \<in> looping team_size s - {t}. stage_rank (team_loop s) (stage s x))"
    by (intro sum.cong) auto
  with sum.remove [OF looping_finite assms(1), of "\<lambda>x. stage_rank (team_loop s) (stage s x)"]
    stage_rank_pos [of "team_loop s" "stage s t"]
  show ?thesis unfolding omp_rank_def assms(2,3,6) stage_rank_cong [OF assms(4,5)] by simp
qed

text \<open>One step: the invariants stay, the bounds of the loop stay, and the measure decreases.\<close>

definition omp_good :: "int \<Rightarrow> int \<Rightarrow> omp_state \<Rightarrow> bool" where
  "omp_good team_size g s \<longleftrightarrow> omp_team team_size s \<and> omp_inv team_size g s"

definition same_loop :: "omp_state \<Rightarrow> omp_state \<Rightarrow> bool" where
  "same_loop s s' \<longleftrightarrow> loop_lower (team_loop s') = loop_lower (team_loop s) \<and> loop_upper (team_loop s') = loop_upper (team_loop s)
     \<and> loop_inc (team_loop s') = loop_inc (team_loop s)"

lemma same_loop_trips: "same_loop s s' \<Longrightarrow> loop_trips s' = loop_trips s"
  by (simp add: same_loop_def loop_trips_def)

lemma omp_inv_inside:
  assumes "omp_inv team_size g s"
  shows "within (loop_inc (team_loop s)) (loop_current (team_loop s)) (loop_upper (team_loop s)) \<longleftrightarrow> g < loop_trips s"
  using endsD [OF ends_upper(1), of "loop_inc (team_loop s)" "loop_lower (team_loop s)" "loop_upper (team_loop s)" g] omp_invD [OF assms]
  by (simp add: loop_trips_def)

lemma omp_good_give:
  assumes inv: "omp_inv team_size g s" and stage: "stage s t = Taken ch stride cur"
    and team: "omp_team team_size s" and team': "omp_team team_size s'" and off: "\<not> param_check param" "\<not> profile_enabled param"
    and returns: "finish param team_size (members s t) ch stride cur (team_loop s) = Inr (r, thread, L, warnings)"
    and s': "s' = s\<lparr>stage := (stage s)(t := Idle), members := (members s)(t := thread), team_loop := L, given := given s @ bounds_of r\<rparr>"
  shows "\<exists>g'. omp_good team_size g' s' \<and> same_loop s s' \<and> omp_rank team_size g' s' < omp_rank team_size g s"
proof -
  have busy: "t \<in> looping team_size s" using team stage by (simp add: omp_team_def)
  have inv': "omp_inv team_size g s'" using omp_inv_give [OF inv _ stage team off returns s'] busy by (simp add: looping_def)
  show ?thesis
  proof (rule give_cases [OF team stage off returns])
    fix c
    assume w: "within (loop_inc (team_loop s)) cur (loop_upper (team_loop s))" and c: "L = (team_loop s)\<lparr>loop_chunk := c\<rparr>"
      and th: "thread = (members s t)\<lparr>ticket_number := cur, iteration := iteration (members s t) + 1\<rparr>"
    have same: "same_loop s s'" "looping team_size s' = looping team_size s"
      by (simp add: s' c same_loop_def, intro looping_same, simp add: s' th)
    have "omp_rank team_size g s' < omp_rank team_size g s"
      by (subst omp_rank_stage [OF busy _ same(2) _ _ same_loop_trips [OF same(1)], where c = Idle and g = g])
        (use s' stage c w in simp_all)
    then show ?thesis using team' same(1) inv' by (auto simp: omp_good_def)
  next
    assume th: "thread = (members s t)\<lparr>in_loop := False\<rparr>"
      and L: "L = (team_loop s)\<lparr>looping_threads := looping_threads (team_loop s) - 1,
           loop_id := (if looping_threads (team_loop s) = 1 then PMP_LOOP_UNUSED else loop_id (team_loop s))\<rparr>"
    have same: "same_loop s s'" "looping team_size s' = looping team_size s - {t}"
      by (auto simp: s' L th same_loop_def looping_def)
    have "omp_rank team_size g s' < omp_rank team_size g s"
      by (rule omp_rank_leave [OF busy _ same(2) _ _ same_loop_trips [OF same(1)], where c = Idle])
        (use s' stage L in simp_all)
    then show ?thesis using team' same(1) inv' by (auto simp: omp_good_def)
  qed
qed

lemma omp_step_good:
  assumes step: "omp_step param team_size s s'" and off: "\<not> param_check param" "\<not> profile_enabled param"
    and good: "omp_good team_size g s"
  shows "\<exists>g'. omp_good team_size g' s' \<and> same_loop s s' \<and> omp_rank team_size g' s' < omp_rank team_size g s"
proof -
  from good have team: "omp_team team_size s" and inv: "omp_inv team_size g s" by (simp_all add: omp_good_def)
  note team' = omp_step_team [OF step off team]
  have busy: "t \<in> looping team_size s" if "stage s t \<noteq> Idle" for t using team that by (simp add: omp_team_def)
  then have busy': "t \<in> {0..<team_size}" if "stage s t \<noteq> Idle" for t using that by (auto simp: looping_def)
  from step show ?thesis
  proof cases
    case (see t)
    then have same: "same_loop s s'" "looping team_size s' = looping team_size s" "t \<in> looping team_size s"
      by (simp_all add: same_loop_def looping_def)
    have "omp_inv team_size g s'" using omp_inv_see [OF inv _ see(5,1)] see by simp
    moreover have "omp_rank team_size g s' < omp_rank team_size g s"
      by (subst omp_rank_stage [OF same(3) _ same(2) _ _ same_loop_trips [OF same(1)], where c = "Seen (loop_chunk (team_loop s))" and g = g])
        (use see in simp_all)
    ultimately show ?thesis using team' same(1) by (auto simp: omp_good_def)
  next
    case (prepare t ch)
    then have same: "same_loop s s'" "looping team_size s' = looping team_size s" by (simp_all add: same_loop_def looping_def)
    have "omp_inv team_size g s'" using omp_inv_prepare [OF inv busy' prepare(2,1)] prepare by simp
    moreover have "omp_rank team_size g s' < omp_rank team_size g s"
      by (subst omp_rank_stage [OF busy [of t] _ same(2) _ _ same_loop_trips [OF same(1)],
            where c = "Ready ch (stride_from (team_loop s) ch)" and g = g])
        (use prepare in simp_all)
    ultimately show ?thesis using team' same(1) by (auto simp: omp_good_def)
  next
    case (take t ch stride cur L)
    from take(3) have L: "L = (team_loop s)\<lparr>loop_current := loop_current (team_loop s) + stride\<rparr>" and cur: "cur = loop_current (team_loop s)"
      by (auto simp: xadd_current_def)
    then have same: "same_loop s s'" "looping team_size s' = looping team_size s" by (simp_all add: take(1) same_loop_def looping_def)
    obtain m where m: "1 \<le> m" "stride = m * loop_inc (team_loop s)" using omp_invD [OF inv] take(2) by blast
    have "omp_inv team_size (g + m) s'"
      using omp_inv_take [OF inv _ _ m(1), of t ch cur L s'] take m(2) busy' [of t] by simp
    moreover have "omp_rank team_size (g + m) s' < omp_rank team_size g s"
      by (subst omp_rank_stage [OF busy [of t] _ same(2) _ _ same_loop_trips [OF same(1)], where c = "Taken ch stride cur" and g = g])
        (use take m(1) omp_inv_inside [OF inv] cur L in \<open>auto simp: max_def\<close>)
    ultimately show ?thesis using team' same(1) by (auto simp: omp_good_def)
  next
    case (give t ch stride cur r thread L warnings)
    show ?thesis by (rule omp_good_give [OF inv give(2) team team' off give(3,1)])
  qed
qed

text \<open>The run of a team is a ranked state machine; \<open>omp_taken\<close> is the number \<open>g\<close> of the invariant.\<close>

definition omp_taken :: "omp_state \<Rightarrow> int" where
  "omp_taken s = (loop_current (team_loop s) - loop_lower (team_loop s)) div loop_inc (team_loop s)"

lemma omp_good_taken: "omp_good team_size g s \<Longrightarrow> omp_taken s = g"
  by (simp add: omp_good_def omp_inv_def omp_taken_def Let_def)

lemma same_loop_refl [simp]: "same_loop s s"
  and same_loop_trans: "same_loop s u \<Longrightarrow> same_loop u v \<Longrightarrow> same_loop s v"
  by (simp_all add: same_loop_def)

interpretation omp: ranked_steps "omp_step param team_size"
  "\<lambda>s. \<not> param_check param \<and> \<not> profile_enabled param \<and> omp_good team_size (omp_taken s) s \<and> same_loop s0 s"
  "\<lambda>s. omp_rank team_size (omp_taken s) s" for param team_size s0
proof (unfold_locales, goal_cases)
  case (1 s s')
  then obtain g' where g': "omp_good team_size g' s'" "same_loop s s'" using omp_step_good [OF 1(1), of "omp_taken s"] by blast
  have "same_loop s0 s'" using same_loop_trans [OF _ g'(2)] 1(2) by blast
  with 1(2) g'(1) show ?case unfolding omp_good_taken [OF g'(1)] by blast
next
  case (2 s s')
  then obtain g' where g': "omp_good team_size g' s'" "omp_rank team_size g' s' < omp_rank team_size (omp_taken s) s"
    using omp_step_good [OF 2(1), of "omp_taken s"] by blast
  then show ?case unfolding omp_good_taken [OF g'(1)] by blast
qed (rule omp_rank_nonneg)

lemma omp_run:
  assumes "(omp_step param team_size ^^ k) s s'" "\<not> param_check param" "\<not> profile_enabled param" "omp_good team_size g s"
  shows "\<exists>g'. omp_good team_size g' s' \<and> same_loop s s' \<and> omp_rank team_size g' s' + int k \<le> omp_rank team_size g s"
proof -
  note g = omp_good_taken [OF assms(4)]
  have "\<not> param_check param \<and> \<not> profile_enabled param \<and> omp_good team_size (omp_taken s) s \<and> same_loop s s"
    unfolding g using assms(2-) by simp
  from omp.run_inv [OF assms(1) this] show ?thesis unfolding g by blast
qed

lemma omp_start_good: "omp_start team_size s \<Longrightarrow> omp_good team_size 0 s"
  by (simp add: omp_good_def omp_start_team omp_start_inv)

lemma omp_start_rank:
  assumes "omp_start team_size s"
  shows "omp_rank team_size 0 s = 4 * (loop_trips s + team_size)"
proof -
  have "looping team_size s = {0..<team_size}" and "\<forall>t. stage s t = Idle" and "1 < team_size"
    using assms by (auto simp: omp_start_def looping_def Let_def)
  moreover have "1 \<le> loop_trips s"
    unfolding loop_trips_def using assms by (intro ends_upper(2)) (simp_all add: omp_start_def Let_def)
  ultimately show ?thesis by (simp add: omp_rank_def)
qed

lemma omp_progress:
  assumes off: "\<not> param_check param" "\<not> profile_enabled param" and team: "omp_team team_size s" and t: "t \<in> looping team_size s"
  shows "\<exists>s'. omp_step param team_size s s'"
proof (cases "stage s t")
  case Idle
  with t show ?thesis by (auto simp: looping_def intro: omp_step.see)
next
  case (Taken ch stride cur)
  from give_returns [OF team this off] obtain r thread L warnings
    where "finish param team_size (members s t) ch stride cur (team_loop s) = Inr (r, thread, L, warnings)" by blast
  from omp_step.give [OF Taken this] show ?thesis by blast
next
  case (Ready ch stride)
  from omp_step.take [OF this xadd_current_def] show ?thesis by blast
qed (blast intro: omp_step.prepare)

lemma loop_values_whole:
  assumes "inc \<noteq> 0" "within inc l u"
  shows "loop_values inc l u = map (\<lambda>k. l + k * inc) [0..trip_count l u inc - 1]"
  using loop_values_ends [OF assms(1) ends_upper(1) [OF assms], of 0] by simp

lemma loop_values_distinct:
  assumes "inc \<noteq> 0" "within inc l u"
  shows "distinct (loop_values inc l u)"
  unfolding loop_values_whole [OF assms] using assms(1) by (simp add: distinct_map inj_on_def)

lemma omp_inv_given:
  assumes "omp_inv team_size g s"
  shows "mset (given_values (loop_inc (team_loop s)) (given s)) \<subseteq>#
    mset (loop_values (loop_inc (team_loop s)) (loop_lower (team_loop s)) (loop_upper (team_loop s)))"
proof -
  let ?L = "team_loop s"
  let ?n = "trip_count (loop_lower ?L) (loop_upper ?L) (loop_inc ?L)"
  have w: "loop_inc ?L \<noteq> 0" "within (loop_inc ?L) (loop_lower ?L) (loop_upper ?L)" using omp_invD [OF assms] by simp_all
  have "mset (given_values (loop_inc ?L) (given s)) \<subseteq># taken_until ?n g ?L"
    using omp_invD [OF assms] by (metis mset_subset_eq_add_left)
  also have "\<dots> \<subseteq># taken_until ?n (max g ?n) ?L"
  proof (cases "g < ?n")
    case True
    have "0 \<le> g" using omp_invD [OF assms] by simp
    from taken_until_extend [OF this _ ends_upper(2) [OF w], of "?n - g" ?L] True
    have "taken_until ?n ?n ?L = taken_until ?n g ?L + mset (map (\<lambda>k. loop_lower ?L + k * loop_inc ?L) [g..?n - 1])" by simp
    then show ?thesis using True by simp
  qed (simp add: max_def)
  also have "\<dots> = mset (loop_values (loop_inc ?L) (loop_lower ?L) (loop_upper ?L))"
    by (simp add: taken_until_def loop_values_whole [OF w])
  finally show ?thesis .
qed

lemma omp_good_end:
  assumes good: "omp_good team_size g s" and "looping team_size s = {}" "1 < team_size"
  shows "mset (given_values (loop_inc (team_loop s)) (given s)) =
    mset (loop_values (loop_inc (team_loop s)) (loop_lower (team_loop s)) (loop_upper (team_loop s)))"
proof -
  let ?L = "team_loop s"
  let ?n = "trip_count (loop_lower ?L) (loop_upper ?L) (loop_inc ?L)"
  have inv: "omp_inv team_size g s" and team: "omp_team team_size s" using good by (simp_all add: omp_good_def)
  have w: "loop_inc ?L \<noteq> 0" "within (loop_inc ?L) (loop_lower ?L) (loop_upper ?L)" using omp_invD [OF inv] by simp_all
  have "stage s t = Idle" for t using team assms(2) by (auto simp: omp_team_def)
  then have "pending_values team_size s = {#}" by (simp add: pending_values_def)
  moreover have "0 \<in> {0..<team_size}" using assms(3) by simp
  then have "?n \<le> g" using omp_invD [OF inv] assms(2) by auto
  ultimately show ?thesis using omp_invD [OF inv] by (simp add: taken_until_def loop_values_whole [OF w] min_def)
qed

lemma distinct_count_le: "distinct ys \<Longrightarrow> count (mset ys) x \<le> 1"
  using count_mset_0_iff [of ys x] by (cases "x \<in> set ys") (simp_all add: distinct_count_atmost_1)

lemma distinct_subset_mset:
  assumes "mset xs \<subseteq># mset ys" "distinct ys"
  shows "distinct xs"
proof -
  have le: "count (mset xs) x \<le> 1" for x
    using mset_subset_eq_count [OF assms(1), of x] distinct_count_le [OF assms(2), of x] by linarith
  show ?thesis unfolding distinct_count_atmost_1
  proof
    fix x
    show "count (mset xs) x = (if x \<in> set xs then 1 else 0)"
    proof (cases "x \<in> set xs")
      case True
      then have "count (mset xs) x \<noteq> 0" by (simp only: count_mset_0_iff not_not)
      with le [of x] have "count (mset xs) x = 1" by linarith
      with True show ?thesis by simp
    next
      case False
      then have "count (mset xs) x = 0" by (simp only: count_mset_0_iff not_False_eq_True)
      with False show ?thesis by simp
    qed
  qed
qed

text \<open>Every run can be continued until no thread can do a step.\<close>

lemma omp_run_end:
  assumes "\<not> param_check param" "\<not> profile_enabled param" "omp_good team_size g s"
  shows "\<exists>k s'. (omp_step param team_size ^^ k) s s' \<and> (\<nexists>s''. omp_step param team_size s' s'')"
proof -
  have "\<not> param_check param \<and> \<not> profile_enabled param \<and> omp_good team_size (omp_taken s) s \<and> same_loop s s"
    unfolding omp_good_taken [OF assms(3)] using assms by simp
  from omp.run_end [OF this] show ?thesis .
qed

section \<open>From the call to the loop\<close>

text \<open>
  What \<^verbatim>\<open>__pmp_scheduler_init\<close> establishes of the loop, in the first thread of the team to reach it: the part of \<open>omp_start\<close> that is about
  the loop.
\<close>

definition loop_ready :: "int \<Rightarrow> pmp_loop \<Rightarrow> bool" where
  "loop_ready team_size L \<longleftrightarrow>
     (dynamic L \<or> guided L) \<and> loop_inc L \<noteq> 0 \<and> 1 \<le> loop_chunk L \<and> 1 \<le> loop_min_chunk L \<and> loop_current L = loop_lower L
     \<and> looping_threads L = team_size \<and> loop_id L \<noteq> PMP_LOOP_UNUSED"

definition scheduler_init_first ::
    "pmp_param \<Rightarrow> int \<Rightarrow> int \<Rightarrow> int \<Rightarrow> int \<Rightarrow> int \<Rightarrow> int \<Rightarrow> int \<Rightarrow> pmp_loop \<Rightarrow> pmp_loop outcome" where
  "scheduler_init_first param team_size new_id sched lower upper inc chunk loop =
     bindE (scheduler_parameters param team_size sched lower upper inc chunk) (\<lambda>(sched, chunk, min_chunk).
     loop_setup param team_size new_id sched lower upper inc chunk min_chunk loop)"

lemma scheduler_init_ready:
  assumes "sched = PMP_SCHED_DYNAMIC \<and> 1 \<le> chunk \<or> sched = PMP_SCHED_GUIDED \<or>
      sched = PMP_SCHED_RUNTIME \<and> (runtime_schedule param = PMP_SCHED_DYNAMIC \<and> 1 \<le> runtime_chunk param \<or> runtime_schedule param = PMP_SCHED_GUIDED)"
    and "inc \<noteq> 0" "\<not> param_check param" "loop_id L = PMP_LOOP_UNUSED" "0 \<le> new_id"
  shows "returnsE (scheduler_init_first param team_size new_id sched lower upper inc chunk L)
    (\<lambda>L'. loop_ready team_size L' \<and> loop_lower L' = lower \<and> loop_upper L' = upper \<and> loop_inc L' = inc \<and> loop_id L' = new_id)"
proof -
  have ge: "1 \<le> max (max 1 chunk) x" for x by simp
  then have "max (max 1 chunk) x \<noteq> 0" for x by (metis not_one_le_zero)
  with assms ge show ?thesis
    by (auto simp: scheduler_init_first_def scheduler_parameters_def loop_setup_def loop_ready_def dynamic_def guided_def pmp_sched_defs
        pmp_assert_def pmp_start_check_def PMP_LOOP_UNUSED_def Let_def)
qed

text \<open>The team when all its threads have reached the loop (\<^verbatim>\<open>thread->loop_count\<close> is \<open>loops\<close> after it).\<close>

definition team_at :: "pmp_loop \<Rightarrow> int \<Rightarrow> omp_state" where
  "team_at L loops = \<lparr>team_loop = L,
     members = \<lambda>t. \<lparr>local_id = t, iteration = 0, ticket_number = 0, thread_loop_count = loops, in_loop = True\<rparr>, stage = \<lambda>t. Idle, given = []\<rparr>"

lemma loop_ready_start:
  assumes "loop_ready team_size L" "1 < team_size" "team_size < 2 ^ 31" "within (loop_inc L) (loop_lower L) (loop_upper L)"
    "loop_id L = (loops - 1) AND PMP_MASK_LOOP_ID"
  shows "omp_start team_size (team_at L loops)"
  using assms by (simp add: omp_start_def loop_ready_def team_at_def Let_def)

section \<open>An example\<close>

definition example_param :: pmp_param where
  "example_param = \<lparr>param_check = True, profile_enabled = False, static_fair = True, runtime_chunk = 7, runtime_schedule = 4,
     guided_chunk_divisor = 2, guided_chunk_max = 300\<rparr>"

definition example_loop :: "int \<Rightarrow> int \<Rightarrow> int \<Rightarrow> pmp_loop" where
  "example_loop lower upper inc = \<lparr>loop_id = 0, looping_threads = 2, loop_now_serving = lower, loop_sched = PMP_SCHED_DYNAMIC, loop_lower = lower,
     loop_upper = upper, loop_inc = inc, loop_chunk = 2, loop_current = lower, loop_min_chunk = 2, check_last = 0, check_loop = None\<rparr>"

lemmas example_defs = example_param_def example_loop_def runs_def within_def trips_def trip_count_def cdiv_def


definition quiet_param :: pmp_param where
  "quiet_param = example_param\<lparr>param_check := False\<rparr>"

definition example_start :: "int \<Rightarrow> int \<Rightarrow> int \<Rightarrow> omp_state" where
  "example_start lower upper inc = team_at (example_loop lower upper inc) 1"

lemma example_start_ok: "inc \<noteq> 0 \<Longrightarrow> within inc lower upper \<Longrightarrow> omp_start 2 (example_start lower upper inc)"
  unfolding example_start_def
  by (rule loop_ready_start) (simp_all add: loop_ready_def example_loop_def dynamic_def PMP_LOOP_UNUSED_def)

end
