(* ===== verification/Omp_Next.thy ===== *)
theory Omp_Next
  imports Omp_Dynamic
begin

text \<open>
  Static scheduling through \<^verbatim>\<open>__pmp_schedule_next\<close>, which the compiler uses for ordered loops and for schedules chosen at run time: the chunks that
  each thread gets from its calls, and that together they are the loop.
\<close>

section \<open>The calls of a thread\<close>

text \<open>
  A thread calls \<^verbatim>\<open>__pmp_schedule_next\<close> until it returns 0: the bounds of the chunks, the thread and the loop at the end; \<open>None\<close> when \<open>n\<close> calls are
  not enough.
\<close>

fun schedule_all ::
    "nat \<Rightarrow> pmp_param \<Rightarrow> int \<Rightarrow> pmp_thread \<Rightarrow> pmp_loop \<Rightarrow> ((int \<times> int) list \<times> pmp_thread \<times> pmp_loop) option outcome" where
  "schedule_all 0 param team_size thread loop = Inr None"
| "schedule_all (Suc n) param team_size thread loop =
     bindE (pmp_schedule_next param team_size thread loop) (\<lambda>(r, thread, loop, warnings).
     case r of
       None \<Rightarrow> Inr (Some ([], thread, loop))
     | Some (lower, upper, inc) \<Rightarrow>
         bindE (schedule_all n param team_size thread loop) (\<lambda>x.
         Inr (map_option (\<lambda>(bs, thread, loop). ((lower, upper) # bs, thread, loop)) x)))"

text \<open>A thread that can leave the loop.\<close>

definition may_leave :: "pmp_thread \<Rightarrow> pmp_loop \<Rightarrow> bool" where
  "may_leave thread L \<longleftrightarrow> loop_id L = (thread_loop_count thread - 1) AND PMP_MASK_LOOP_ID
     \<and> 1 \<le> looping_threads L \<and> looping_threads L < 2 ^ 31"

definition left_loop :: "pmp_loop \<Rightarrow> pmp_loop" where
  "left_loop L = L\<lparr>looping_threads := looping_threads L - 1,
     loop_id := (if looping_threads L = 1 then PMP_LOOP_UNUSED else loop_id L)\<rparr>"

lemma release_left:
  assumes "\<not> param_check param" "may_leave thread L"
  shows "release param thread L = Inr (None, thread\<lparr>in_loop := False\<rparr>, left_loop L, [])"
  using assms by (simp add: release_returns may_leave_def left_loop_def)

lemma may_leave_thread [simp]: "may_leave (thread\<lparr>ticket_number := x, iteration := y\<rparr>) L = may_leave thread L"
  by (simp add: may_leave_def)

text \<open>The iterations \<open>a .. e - 1\<close> of a loop, by their values.\<close>

definition iterations :: "pmp_loop \<Rightarrow> int \<Rightarrow> int \<Rightarrow> int list" where
  "iterations L a e = map (\<lambda>k. loop_lower L + k * loop_inc L) [a..e - 1]"

lemma iterations_split:
  assumes "a \<le> b" "b \<le> e"
  shows "iterations L a b @ iterations L b e = iterations L a e"
proof (cases "b < e")
  case True
  then have "[a..e - 1] = [a..b - 1] @ [b..e - 1]" using assms by (intro upto_split1) simp_all
  then show ?thesis by (simp add: iterations_def)
qed (use assms in \<open>simp add: iterations_def\<close>)

lemma iterations_empty: "e \<le> a \<Longrightarrow> iterations L a e = []"
  by (simp add: iterations_def)

lemma iterations_ends:
  assumes "loop_inc L \<noteq> 0" "ends (loop_lower L) (loop_inc L) up e"
  shows "loop_values (loop_inc L) (loop_lower L + a * loop_inc L) up = iterations L a e"
  using loop_values_ends [OF assms] by (simp add: iterations_def)

lemma given_values_Cons: "given_values inc ((lower, upper) # bs) = loop_values inc lower upper @ given_values inc bs"
  by (simp add: given_values_def)

section \<open>Chunks\<close>

definition static_block :: "int \<Rightarrow> int \<Rightarrow> int" where
  "static_block team_size n = (n - 1) div team_size + 1"

text \<open>One call, for the chunk that starts at iteration \<open>a\<close> of the block of the thread, which ends before \<open>e\<close>.\<close>

lemma next_static_call:
  assumes off: "\<not> param_check param" "\<not> profile_enabled param" and L: "loop_inc L \<noteq> 0" "within (loop_inc L) (loop_lower L) (loop_upper L)"
    and T: "1 < team_size" "local_id thread < team_size" and th: "in_loop thread"
    and sched: "loop_sched L = PMP_SCHED_STATIC \<or> loop_sched L = PMP_SCHED_ORDERED_STATIC"
  defines "q \<equiv> static_block team_size (trips L)"
  defines "a \<equiv> local_id thread * q + iteration thread * loop_chunk L" and "e \<equiv> min (local_id thread * q + q) (trips L)"
  shows "\<exists>up. ends (loop_lower L) (loop_inc L) up (min (a + loop_chunk L) e)
    \<and> pmp_schedule_next param team_size thread L =
        (if a < e
         then Inr (Some (loop_lower L + a * loop_inc L, up, loop_inc L),
                   thread\<lparr>ticket_number := loop_lower L + a * loop_inc L, iteration := iteration thread + 1\<rparr>, L, [])
         else release param thread L)"
proof -
  let ?l = "loop_lower L" and ?u = "loop_upper L" and ?inc = "loop_inc L" and ?c = "loop_chunk L" and ?t = "local_id thread"
  have n: "1 \<le> trips L" using ends_upper(2) [OF L] by (simp add: trips_def)
  have "cdiv (trips L - 1) team_size + 1 = q" using n T by (simp add: q_def static_block_def cdiv_nonneg)
  then have q: "cdiv (cdiv (?u - ?l) ?inc + 1 - 1) team_size + 1 = q" by (simp add: trips_def trip_count_def)
  define tu where "tu = LOOPMIN ?inc (?l + ?t * (q * ?inc) + q * ?inc - ?inc) ?u"
  define up where "up = LOOPMIN ?inc (?l + a * ?inc + (?c - 1) * ?inc) tu"
  have tu_eq: "?l + ?t * (q * ?inc) + q * ?inc - ?inc = ?l + (?t * q + q - 1) * ?inc" by (simp add: algebra_simps)
  have "ends ?l ?inc (?l + (?t * q + q - 1) * ?inc) (?t * q + q)" using ends_point [OF L(1), of ?l "?t * q + q - 1"] by simp
  from ends_LOOPMIN [OF this ends_upper(1) [OF L]] have tu: "ends ?l ?inc tu e" by (simp add: tu_def tu_eq e_def trips_def)
  have "?l + (a + ?c - 1) * ?inc = ?l + a * ?inc + (?c - 1) * ?inc" by (simp add: algebra_simps)
  from ends_point [OF L(1), of ?l "a + ?c - 1", unfolded this] have "ends ?l ?inc (?l + a * ?inc + (?c - 1) * ?inc) (a + ?c)"
    by (simp only: diff_add_cancel)
  from ends_LOOPMIN [OF this tu] have up: "ends ?l ?inc up (min (a + ?c) e)" by (simp add: up_def)
  have a: "?l + ?t * (q * ?inc) + iteration thread * ?c * ?inc = ?l + a * ?inc" by (simp add: a_def algebra_simps)
  have "pmp_schedule_next param team_size thread L = next_static param team_size thread L"
    using T th sched by (auto simp: pmp_schedule_next_def pmp_assert_def)
  also have "\<dots> = (if \<not> within ?inc (?l + a * ?inc) tu then release param thread L else hand_out param thread L (?l + a * ?inc) up)"
    unfolding next_static_def Let_def q a by (simp only: tu_def up_def)
  also have "within ?inc (?l + a * ?inc) tu \<longleftrightarrow> a < e" using endsD [OF tu] .
  finally show ?thesis using up hand_out_returns [OF off] by (intro exI [of _ up]) simp
qed

lemma static_block_calls:
  assumes off: "\<not> param_check param" "\<not> profile_enabled param" and L: "loop_inc L \<noteq> 0" "within (loop_inc L) (loop_lower L) (loop_upper L)"
    and sched: "loop_sched L = PMP_SCHED_STATIC \<or> loop_sched L = PMP_SCHED_ORDERED_STATIC" and T: "1 < team_size" and c: "1 \<le> loop_chunk L"
    and q: "q = static_block team_size (trips L)" and e: "e = min (t * q + q) (trips L)" and t: "t < team_size"
  shows "in_loop thread \<Longrightarrow> local_id thread = t \<Longrightarrow> may_leave thread L \<Longrightarrow> a = t * q + iteration thread * loop_chunk L \<Longrightarrow> nat (e - a) < n \<Longrightarrow>
    \<exists>bs th. schedule_all n param team_size thread L = Inr (Some (bs, th, left_loop L)) \<and> given_values (loop_inc L) bs = iterations L a e"
proof (induction n arbitrary: thread a)
  case (Suc n)
  let ?l = "loop_lower L" and ?inc = "loop_inc L"
  from next_static_call [OF off L T, of thread] Suc.prems sched t obtain up where up: "ends ?l ?inc up (min (a + loop_chunk L) e)"
    and call: "pmp_schedule_next param team_size thread L =
      (if a < e
       then Inr (Some (?l + a * ?inc, up, ?inc), thread\<lparr>ticket_number := ?l + a * ?inc, iteration := iteration thread + 1\<rparr>, L, [])
       else release param thread L)"
    by (auto simp: q e)
  show ?case
  proof (cases "a < e")
    case True
    let ?a = "a + loop_chunk L"
    have "?a = t * q + (iteration thread + 1) * loop_chunk L" using Suc.prems(4) by (simp add: distrib_right)
    then have "\<exists>bs th. schedule_all n param team_size (thread\<lparr>ticket_number := ?l + a * ?inc, iteration := iteration thread + 1\<rparr>) L
        = Inr (Some (bs, th, left_loop L)) \<and> given_values ?inc bs = iterations L ?a e"
      using Suc.prems True c by (intro Suc.IH) simp_all
    moreover have "iterations L a (min ?a e) @ iterations L ?a e = iterations L a e"
    proof (cases "?a \<le> e")
      case True
      with c show ?thesis using iterations_split [of a ?a e L] by (simp add: min_def)
    qed (simp add: min_def iterations_empty)
    ultimately show ?thesis using True iterations_ends [OF L(1) up, of a] by (auto simp: call given_values_Cons)
  next
    case False
    then show ?thesis using release_left [OF off(1) Suc.prems(3)] by (simp add: call given_values_def iterations_empty)
  qed
qed simp

section \<open>Even shares\<close>

text \<open>The share of a thread is its block, in one chunk: from \<open>F t\<close> to before \<open>F (t + 1)\<close>, where \<open>F\<close> is one of the following.\<close>

definition next_first :: "bool \<Rightarrow> int \<Rightarrow> int \<Rightarrow> int \<Rightarrow> int" where
  "next_first fair team_size n t = (if fair then even_first True team_size n t else min (t * static_block team_size n) n)"

lemma even_first_Suc: "0 \<le> t \<Longrightarrow> even_first True team_size n (t + 1) = even_first True team_size n t + even_chunk True team_size n t"
  by (auto simp: even_first_def even_chunk_def algebra_simps)

lemma even_first_team: "0 < team_size \<Longrightarrow> even_first True team_size n team_size = n"
  by (simp add: even_first_def min_def not_less [symmetric] pos_mod_bound mult.commute [of team_size])

lemma static_block_covers:
  assumes "0 < team_size"
  shows "n \<le> team_size * static_block team_size n"
proof -
  have "(n - 1) mod team_size < team_size" using assms by simp
  moreover have "team_size * ((n - 1) div team_size) + (n - 1) mod team_size = n - 1" by (rule mult_div_mod_eq)
  ultimately show ?thesis unfolding static_block_def distrib_left by linarith
qed

text \<open>Adjacent blocks in the order of the threads are the whole range.\<close>

lemma iterations_blocks:
  assumes "F 0 = 0" "\<And>t. 0 \<le> t \<Longrightarrow> F t \<le> F (t + 1)"
  shows "0 \<le> F (int m) \<and> concat (map (\<lambda>t. iterations L (F (int t)) (F (int t + 1))) [0..<m]) = iterations L 0 (F (int m))"
proof (induction m)
  case (Suc m)
  with assms(2) [of "int m"] show ?case by (simp add: iterations_split add.commute)
qed (use assms in \<open>simp add: iterations_empty\<close>)

lemma next_first_0: "0 < team_size \<Longrightarrow> 0 \<le> n \<Longrightarrow> next_first fair team_size n 0 = 0"
  by (simp add: next_first_def even_first_def)

lemma next_first_mono:
  assumes "0 < team_size" "1 \<le> n" "0 \<le> t"
  shows "next_first fair team_size n t \<le> next_first fair team_size n (t + 1)"
proof (cases fair)
  case True
  have "0 \<le> even_chunk True team_size n t" using assms by (simp add: even_chunk_def pos_imp_zdiv_nonneg_iff)
  with True show ?thesis using even_first_Suc [OF assms(3), of team_size n] by (simp add: next_first_def)
next
  case False
  have "0 \<le> static_block team_size n" using assms by (simp add: static_block_def pos_imp_zdiv_nonneg_iff)
  with False show ?thesis by (simp add: next_first_def distrib_right min_le_iff_disj)
qed

lemma next_first_team: "0 < team_size \<Longrightarrow> next_first fair team_size n team_size = n"
  using static_block_covers [of team_size n] by (simp add: next_first_def even_first_team)

lemma next_first_le:
  assumes "0 < team_size" "1 \<le> n" "0 \<le> s" "s \<le> t"
  shows "next_first fair team_size n s \<le> next_first fair team_size n t"
  using assms(4)
proof (induction t rule: int_ge_induct)
  case (step t)
  with next_first_mono [OF assms(1,2), of t fair] assms(3) show ?case by simp
qed simp

lemma next_even_block:
  fixes fair :: bool
  assumes n: "1 \<le> trips L" and T: "0 < team_size" "0 \<le> t" "t < team_size"
  defines "F \<equiv> next_first fair team_size (trips L)"
  defines "a \<equiv> (if fair then even_first True team_size (trips L) t else t * static_block team_size (trips L))"
    and "c \<equiv> (if fair then even_chunk True team_size (trips L) t else static_block team_size (trips L))"
  shows "iterations L a (min (a + c) (trips L)) = iterations L (F t) (F (t + 1))"
    and "a < min (a + c) (trips L) \<longleftrightarrow> F t < F (t + 1)"
proof -
  let ?n = "trips L"
  have "F t = min a ?n \<and> F (t + 1) = min (a + c) ?n"
  proof (cases fair)
    case True
    have "F (t + 1) \<le> F team_size"
      unfolding F_def using T n by (intro next_first_le) simp_all
    also have "\<dots> = ?n" using T by (simp add: F_def next_first_team)
    finally have "F (t + 1) \<le> ?n" .
    moreover have "F t \<le> F (t + 1)" unfolding F_def using T n by (intro next_first_mono)
    ultimately show ?thesis using True even_first_Suc [OF T(2), of team_size ?n] by (simp add: F_def a_def c_def next_first_def)
  next
    case False
    then show ?thesis by (simp add: F_def a_def c_def next_first_def distrib_right)
  qed
  moreover have "0 \<le> c"
    using n T by (simp add: c_def even_chunk_def static_block_def pos_imp_zdiv_nonneg_iff)
  ultimately show "iterations L a (min (a + c) ?n) = iterations L (F t) (F (t + 1))" "a < min (a + c) ?n \<longleftrightarrow> F t < F (t + 1)"
    by (auto simp: iterations_empty min_def)
qed

lemma next_even_call:
  assumes off: "\<not> param_check param" "\<not> profile_enabled param" and L: "loop_inc L \<noteq> 0" "within (loop_inc L) (loop_lower L) (loop_upper L)"
    and T: "1 < team_size" "0 \<le> local_id thread" "local_id thread < team_size" and th: "in_loop thread" "iteration thread = 0"
    and sched: "loop_sched L = PMP_SCHED_STATIC_EVEN \<or> loop_sched L = PMP_SCHED_ORDERED_STATIC_EVEN"
  defines "F \<equiv> next_first (static_fair param) team_size (trips L)" and "t \<equiv> local_id thread"
  shows "\<exists>lo up. loop_values (loop_inc L) lo up = iterations L (F t) (F (t + 1))
    \<and> pmp_schedule_next param team_size thread L =
        (if F t < F (t + 1)
         then Inr (Some (lo, up, loop_inc L), thread\<lparr>ticket_number := lo, iteration := 1\<rparr>, L, [])
         else release param thread L)"
proof -
  let ?l = "loop_lower L" and ?u = "loop_upper L" and ?inc = "loop_inc L" and ?n = "trips L"
  have n: "1 \<le> ?n" using ends_upper(2) [OF L] by (simp add: trips_def)
  have size: "cdiv (?u - ?l) ?inc + 1 = ?n" by (simp add: trips_def trip_count_def)
  define q where "q = static_block team_size ?n"
  have q: "cdiv (?n - 1) team_size + 1 = q" using n T by (simp add: q_def static_block_def cdiv_nonneg)
  define a c where "a = (if static_fair param then even_first True team_size ?n t else t * q)"
    and "c = (if static_fair param then even_chunk True team_size ?n t else q)"
  define up where "up = LOOPMIN ?inc (?l + a * ?inc + (c - 1) * ?inc) ?u"
  have bounds: "(if \<not> static_fair param
      then (?l + local_id thread * (q * ?inc), ?l + local_id thread * (q * ?inc) + q * ?inc - ?inc)
      else (case even_share param team_size (local_id thread) ?l ?inc ?n of (lo, ch) \<Rightarrow> (lo, lo + (ch - 1) * ?inc)))
    = (?l + a * ?inc, ?l + a * ?inc + (c - 1) * ?inc)"
    using even_share_eq [of team_size ?n "local_id thread" param ?l ?inc] T n by (simp add: a_def c_def t_def algebra_simps)
  have "ends ?l ?inc (?l + (a + c - 1) * ?inc) (a + c)" using ends_point [OF L(1), of ?l "a + c - 1"] by simp
  moreover have "?l + (a + c - 1) * ?inc = ?l + a * ?inc + (c - 1) * ?inc" by (simp add: algebra_simps)
  ultimately have "ends ?l ?inc up (min (a + c) ?n)"
    using ends_LOOPMIN [OF _ ends_upper(1) [OF L]] by (simp only: up_def trips_def)
  note up = this endsD [OF this, of a] iterations_ends [OF L(1) this, of a]
  have F: "iterations L a (min (a + c) ?n) = iterations L (F t) (F (t + 1)) \<and> (a < min (a + c) ?n \<longleftrightarrow> F t < F (t + 1))"
    unfolding F_def a_def c_def q_def t_def using T by (intro conjI next_even_block [OF n]) simp_all
  have "pmp_schedule_next param team_size thread L = next_static_even param team_size thread L"
    using T th sched by (auto simp: pmp_schedule_next_def pmp_assert_def pmp_sched_defs)
  also have "\<dots> = (if \<not> within ?inc (?l + a * ?inc) up then release param thread L else hand_out param thread L (?l + a * ?inc) up)"
    unfolding next_static_even_def Let_def size q bounds prod.case by (simp add: up_def th(2))
  also have "within ?inc (?l + a * ?inc) up \<longleftrightarrow> F t < F (t + 1)" using up(2) F by blast
  finally have "pmp_schedule_next param team_size thread L = (if F t < F (t + 1)
      then Inr (Some (?l + a * ?inc, up, ?inc), thread\<lparr>ticket_number := ?l + a * ?inc, iteration := 1\<rparr>, L, [])
      else release param thread L)" using hand_out_returns [OF off] th(2) by simp
  moreover have "loop_values ?inc (?l + a * ?inc) up = iterations L (F t) (F (t + 1))" using up(3) F by simp
  ultimately show ?thesis by blast
qed

lemma static_even_calls:
  assumes off: "\<not> param_check param" "\<not> profile_enabled param" and L: "loop_inc L \<noteq> 0" "within (loop_inc L) (loop_lower L) (loop_upper L)"
    and T: "1 < team_size" "0 \<le> local_id thread" "local_id thread < team_size" and th: "in_loop thread" "iteration thread = 0" "may_leave thread L"
    and sched: "loop_sched L = PMP_SCHED_STATIC_EVEN \<or> loop_sched L = PMP_SCHED_ORDERED_STATIC_EVEN"
  defines "F \<equiv> next_first (static_fair param) team_size (trips L)" and "t \<equiv> local_id thread"
  shows "\<exists>bs th. schedule_all (Suc (Suc n)) param team_size thread L = Inr (Some (bs, th, left_loop L))
    \<and> given_values (loop_inc L) bs = iterations L (F t) (F (t + 1))"
proof -
  from next_even_call [OF off L T th(1,2) sched] obtain lo up
    where vals: "loop_values (loop_inc L) lo up = iterations L (F t) (F (t + 1))"
      and call: "pmp_schedule_next param team_size thread L =
        (if F t < F (t + 1) then Inr (Some (lo, up, loop_inc L), thread\<lparr>ticket_number := lo, iteration := 1\<rparr>, L, [])
         else release param thread L)"
    unfolding F_def t_def by blast
  let ?th = "thread\<lparr>ticket_number := lo, iteration := 1\<rparr>"
  have "pmp_schedule_next param team_size ?th L = release param ?th L"
    using T th(1) sched by (auto simp: pmp_schedule_next_def next_static_even_def pmp_assert_def pmp_sched_defs)
  moreover have "iterations L (F t) (F (t + 1)) = []" if "\<not> F t < F (t + 1)" using that by (simp add: iterations_empty)
  ultimately show ?thesis
    using vals release_left [OF off(1), of thread L] release_left [OF off(1), of ?th L] th(3)
    by (auto simp: call given_values_def)
qed

section \<open>The team\<close>

text \<open>Both schedules at once: what a thread gets, and that the threads together get the loop.\<close>

definition thread_first :: "pmp_param \<Rightarrow> int \<Rightarrow> pmp_loop \<Rightarrow> int \<Rightarrow> int" where
  "thread_first param team_size L =
     next_first ((loop_sched L = PMP_SCHED_STATIC_EVEN \<or> loop_sched L = PMP_SCHED_ORDERED_STATIC_EVEN) \<and> static_fair param) team_size (trips L)"

definition static_loop :: "pmp_loop \<Rightarrow> bool" where
  "static_loop L \<longleftrightarrow> loop_inc L \<noteq> 0 \<and> within (loop_inc L) (loop_lower L) (loop_upper L)
     \<and> ((loop_sched L = PMP_SCHED_STATIC \<or> loop_sched L = PMP_SCHED_ORDERED_STATIC) \<and> 1 \<le> loop_chunk L
        \<or> loop_sched L = PMP_SCHED_STATIC_EVEN \<or> loop_sched L = PMP_SCHED_ORDERED_STATIC_EVEN)"

lemma schedule_all_static:
  assumes off: "\<not> param_check param" "\<not> profile_enabled param" and L: "static_loop L"
    and T: "1 < team_size" "0 \<le> local_id thread" "local_id thread < team_size" and th: "in_loop thread" "iteration thread = 0" "may_leave thread L"
    and n: "nat (trips L) + 2 \<le> n"
  shows "\<exists>bs th. schedule_all n param team_size thread L = Inr (Some (bs, th, left_loop L)) \<and> given_values (loop_inc L) bs =
    iterations L (thread_first param team_size L (local_id thread)) (thread_first param team_size L (local_id thread + 1))"
proof (cases "loop_sched L = PMP_SCHED_STATIC_EVEN \<or> loop_sched L = PMP_SCHED_ORDERED_STATIC_EVEN")
  case True
  obtain k where "n = Suc (Suc k)" using n by (metis add_2_eq_Suc' le_iff_add add_Suc)
  with static_even_calls [OF off _ _ T th True, of k] L True show ?thesis by (auto simp: static_loop_def thread_first_def)
next
  case False
  let ?t = "local_id thread" and ?q = "static_block team_size (trips L)"
  have tr: "1 \<le> trips L" using L ends_upper(2) by (simp add: static_loop_def trips_def)
  have q: "0 \<le> ?q" using tr T by (simp add: static_block_def pos_imp_zdiv_nonneg_iff)
  then have "0 \<le> ?t * ?q" using T by simp
  then have "nat (min (?t * ?q + ?q) (trips L) - ?t * ?q) < n" using n by linarith
  moreover have "thread_first param team_size L ?t = min (?t * ?q) (trips L)" "thread_first param team_size L (?t + 1) = min (?t * ?q + ?q) (trips L)"
    using False by (simp_all add: thread_first_def next_first_def distrib_right)
  moreover have "iterations L (?t * ?q) (min (?t * ?q + ?q) (trips L)) = iterations L (min (?t * ?q) (trips L)) (min (?t * ?q + ?q) (trips L))"
    using q by (auto simp: min_def iterations_empty)
  ultimately show ?thesis
    using static_block_calls [OF off _ _ _ T(1) _ refl refl T(3) th(1) refl th(3), of "?t * ?q" n] L False th(2)
    by (auto simp: static_loop_def)
qed

lemma team_iterations:
  assumes L: "static_loop L" and T: "0 < team_size"
  shows "concat (map (\<lambda>t. iterations L (thread_first param team_size L (int t)) (thread_first param team_size L (int t + 1))) [0..<nat team_size])
    = loop_values (loop_inc L) (loop_lower L) (loop_upper L)"
proof -
  let ?F = "thread_first param team_size L"
  have L': "loop_inc L \<noteq> 0" "within (loop_inc L) (loop_lower L) (loop_upper L)" using L by (simp_all add: static_loop_def)
  have n: "1 \<le> trips L" using ends_upper(2) [OF L'] by (simp add: trips_def)
  have "?F 0 = 0" "?F t \<le> ?F (t + 1)" if "0 \<le> t" for t
    unfolding thread_first_def using T n that by (simp_all add: next_first_0 next_first_mono)
  from iterations_blocks [of ?F, OF this, of 0 "nat team_size" L] T
  show ?thesis by (simp add: thread_first_def next_first_team iterations_def loop_values_whole [OF L'] trips_def)
qed

lemma schedule_team_static:
  assumes off: "\<not> param_check param" "\<not> profile_enabled param" and L: "static_loop L" and T: "1 < team_size"
    and th: "\<And>t. 0 \<le> t \<Longrightarrow> t < team_size \<Longrightarrow> local_id (thread t) = t \<and> in_loop (thread t) \<and> iteration (thread t) = 0 \<and> may_leave (thread t) L"
  shows "\<exists>bss. (\<forall>t \<in> {0..<team_size}. \<exists>th. schedule_all (nat (trips L) + 2) param team_size (thread t) L = Inr (Some (bss t, th, left_loop L)))
    \<and> concat (map (\<lambda>t. given_values (loop_inc L) (bss (int t))) [0..<nat team_size]) = loop_values (loop_inc L) (loop_lower L) (loop_upper L)"
proof -
  let ?F = "thread_first param team_size L"
  have "\<forall>t. \<exists>bs. t \<in> {0..<team_size} \<longrightarrow> (\<exists>th. schedule_all (nat (trips L) + 2) param team_size (thread t) L = Inr (Some (bs, th, left_loop L)))
      \<and> given_values (loop_inc L) bs = iterations L (?F t) (?F (t + 1))"
  proof
    fix t
    show "\<exists>bs. t \<in> {0..<team_size} \<longrightarrow> (\<exists>th. schedule_all (nat (trips L) + 2) param team_size (thread t) L = Inr (Some (bs, th, left_loop L)))
      \<and> given_values (loop_inc L) bs = iterations L (?F t) (?F (t + 1))"
      using schedule_all_static [OF off L T, of "thread t" "nat (trips L) + 2"] th [of t] by auto
  qed
  then obtain bss where bss: "\<And>t. t \<in> {0..<team_size} \<Longrightarrow>
      (\<exists>th. schedule_all (nat (trips L) + 2) param team_size (thread t) L = Inr (Some (bss t, th, left_loop L)))
      \<and> given_values (loop_inc L) (bss t) = iterations L (?F t) (?F (t + 1))" by metis
  then have blocks: "map (\<lambda>t. given_values (loop_inc L) (bss (int t))) [0..<nat team_size]
      = map (\<lambda>t. iterations L (?F (int t)) (?F (int t + 1))) [0..<nat team_size]" by auto
  have "concat (map (\<lambda>t. given_values (loop_inc L) (bss (int t))) [0..<nat team_size]) = loop_values (loop_inc L) (loop_lower L) (loop_upper L)"
    unfolding blocks by (rule team_iterations [OF L]) (use T in simp)
  with bss show ?thesis by blast
qed

end
