(* ===== verification/Omp_Ordered.thy ===== *)
theory Omp_Ordered
  imports Omp_Next
begin

text \<open>
  Ordered regions (\<^verbatim>\<open>__ompc_ordered\<close> and \<^verbatim>\<open>__ompc_end_ordered\<close> in \<^verbatim>\<open>src/src/libopenmp/schedule.c\<close>).  The threads of a team execute their chunks; in
  each iteration a thread waits until the loop serves its ticket, executes the region, and passes the turn on.
\<close>

section \<open>The calls\<close>

text \<open>
  What \<^verbatim>\<open>__ompc_ordered\<close> does with the value of \<^verbatim>\<open>loop->now_serving\<close> that it finds: enter the region, wait (after a warning when the ticket
  has passed already), or return with a warning because the thread is not in an ordered loop.
\<close>

datatype ordered_result = Enter | Wait (deadlock_warning: bool) | Not_Ordered

definition ompc_ordered :: "int \<Rightarrow> pmp_thread \<Rightarrow> pmp_loop \<Rightarrow> ordered_result" where
  "ompc_ordered team_size thread loop =
     (if team_size > 1 then
        if \<not> in_loop thread \<or> loop_sched loop \<le> PMP_SCHED_ORDERED_OFFSET then Not_Ordered
        else if loop_now_serving loop \<noteq> ticket_number thread
        then Wait (if loop_inc loop \<ge> 0 then loop_now_serving loop > ticket_number thread
                   else loop_now_serving loop < ticket_number thread)
        else Enter
      else Enter)"

definition ompc_end_ordered :: "int \<Rightarrow> pmp_thread \<Rightarrow> pmp_loop \<Rightarrow> (pmp_thread \<times> pmp_loop) outcome" where
  "ompc_end_ordered team_size thread loop =
     (if team_size > 1 then
        if \<not> in_loop thread \<or> loop_sched loop \<le> PMP_SCHED_ORDERED_OFFSET then Inr (thread, loop)
        else
          bindE (pmp_assert (loop_now_serving loop = ticket_number thread) ''loop->now_serving == ticket_number'') (\<lambda>_.
          Inr (thread\<lparr>ticket_number := ticket_number thread + loop_inc loop\<rparr>,
               loop\<lparr>loop_now_serving := loop_now_serving loop + loop_inc loop\<rparr>))
      else Inr (thread, loop))"

section \<open>The machine\<close>

text \<open>
  A worker has the chunks that it is still to get, the iteration it is at and the upper bound of its chunk, and may be inside a region.
  Getting a chunk sets the ticket to its lower bound, as all branches of \<^verbatim>\<open>__pmp_schedule_next\<close> do.  \<open>needs\<close> tells which iterations execute the
  ordered construct.
\<close>

record worker =
  self :: pmp_thread
  chunks_left :: "(int \<times> int) list"
  position :: "(int \<times> int) option"
  inside :: bool

record ordered_state =
  ord_loop :: pmp_loop
  workers :: "int \<Rightarrow> worker"
  executed :: "int list"      \<comment> \<open>the iterations whose ordered regions have been executed, in order\<close>

definition set_worker :: "ordered_state \<Rightarrow> int \<Rightarrow> worker \<Rightarrow> ordered_state" where
  "set_worker s t w = s\<lparr>workers := (workers s)(t := w)\<rparr>"

inductive ordered_step :: "int \<Rightarrow> (int \<Rightarrow> bool) \<Rightarrow> ordered_state \<Rightarrow> ordered_state \<Rightarrow> bool" for team_size needs where
  fetch: "t \<in> {0..<team_size} \<Longrightarrow> w = workers s t \<Longrightarrow> position w = None \<Longrightarrow> chunks_left w = (lower, upper) # bs \<Longrightarrow>
    ordered_step team_size needs s (set_worker s t (w\<lparr>self := (self w)\<lparr>ticket_number := lower, iteration := iteration (self w) + 1\<rparr>,
      chunks_left := bs, position := Some (lower, upper)\<rparr>))"
| enter: "t \<in> {0..<team_size} \<Longrightarrow> w = workers s t \<Longrightarrow> position w = Some (i, upper) \<Longrightarrow> within (loop_inc (ord_loop s)) i upper \<Longrightarrow> needs i \<Longrightarrow>
    \<not> inside w \<Longrightarrow> ompc_ordered team_size (self w) (ord_loop s) = Enter \<Longrightarrow>
    ordered_step team_size needs s (set_worker s t (w\<lparr>inside := True\<rparr>))"
| leave: "t \<in> {0..<team_size} \<Longrightarrow> w = workers s t \<Longrightarrow> position w = Some (i, upper) \<Longrightarrow> inside w \<Longrightarrow>
    ompc_end_ordered team_size (self w) (ord_loop s) = Inr (thread, L) \<Longrightarrow>
    ordered_step team_size needs s
      ((set_worker s t (w\<lparr>self := thread, inside := False, position := Some (i + loop_inc (ord_loop s), upper)\<rparr>))
         \<lparr>ord_loop := L, executed := executed s @ [i]\<rparr>)"
| skip: "t \<in> {0..<team_size} \<Longrightarrow> w = workers s t \<Longrightarrow> position w = Some (i, upper) \<Longrightarrow> within (loop_inc (ord_loop s)) i upper \<Longrightarrow> \<not> needs i \<Longrightarrow>
    \<not> inside w \<Longrightarrow>
    ordered_step team_size needs s (set_worker s t (w\<lparr>position := Some (i + loop_inc (ord_loop s), upper)\<rparr>))"
| chunk_end: "t \<in> {0..<team_size} \<Longrightarrow> w = workers s t \<Longrightarrow> position w = Some (i, upper) \<Longrightarrow> \<not> within (loop_inc (ord_loop s)) i upper \<Longrightarrow>
    ordered_step team_size needs s (set_worker s t (w\<lparr>position := None\<rparr>))"

text \<open>The iterations that a worker has still to execute.\<close>

definition work_left :: "int \<Rightarrow> worker \<Rightarrow> int list" where
  "work_left inc w = (case position w of None \<Rightarrow> [] | Some (i, upper) \<Rightarrow> loop_values inc i upper) @ given_values inc (chunks_left w)"

text \<open>
  The start: an ordered loop whose iterations are dealt out to the threads, each of which gets its own in the order of the loop.
\<close>

definition runs_before :: "int \<Rightarrow> int \<Rightarrow> int \<Rightarrow> bool" where
  "runs_before inc a b \<longleftrightarrow> within inc a b \<and> a \<noteq> b"

definition ordered_start :: "int \<Rightarrow> ordered_state \<Rightarrow> bool" where
  "ordered_start team_size s \<longleftrightarrow>
     (let L = ord_loop s in
      1 < team_size \<and> PMP_SCHED_ORDERED_OFFSET < loop_sched L \<and> loop_inc L \<noteq> 0 \<and> within (loop_inc L) (loop_lower L) (loop_upper L)
      \<and> loop_now_serving L = loop_lower L \<and> executed s = []
      \<and> (\<forall>t \<in> {0..<team_size}. in_loop (self (workers s t)) \<and> position (workers s t) = None \<and> \<not> inside (workers s t)
           \<and> sorted_wrt (runs_before (loop_inc L)) (work_left (loop_inc L) (workers s t)))
      \<and> (\<Sum>t \<in> {0..<team_size}. mset (work_left (loop_inc L) (workers s t)))
          = mset (loop_values (loop_inc L) (loop_lower L) (loop_upper L)))"

section \<open>The invariant\<close>

definition ordered_inv :: "int \<Rightarrow> pmp_loop \<Rightarrow> ordered_state \<Rightarrow> bool" where
  "ordered_inv team_size L0 s \<longleftrightarrow>
     (\<exists>now. ord_loop s = L0\<lparr>loop_now_serving := now\<rparr> \<and> now = loop_lower L0 + int (length (executed s)) * loop_inc L0)
     \<and> executed s = iterations L0 0 (int (length (executed s)))
     \<and> (\<forall>t \<in> {0..<team_size}. in_loop (self (workers s t)) \<and> sorted_wrt (runs_before (loop_inc L0)) (work_left (loop_inc L0) (workers s t))
          \<and> (\<forall>i upper. position (workers s t) = Some (i, upper) \<longrightarrow> ticket_number (self (workers s t)) = i)
          \<and> (inside (workers s t) \<longrightarrow> (\<exists>i upper. position (workers s t) = Some (i, upper) \<and> within (loop_inc L0) i upper
               \<and> i = loop_now_serving (ord_loop s))))
     \<and> mset (executed s) + (\<Sum>t \<in> {0..<team_size}. mset (work_left (loop_inc L0) (workers s t)))
         = mset (loop_values (loop_inc L0) (loop_lower L0) (loop_upper L0))"

definition ordered_loop :: "pmp_loop \<Rightarrow> bool" where
  "ordered_loop L \<longleftrightarrow> PMP_SCHED_ORDERED_OFFSET < loop_sched L \<and> loop_inc L \<noteq> 0 \<and> within (loop_inc L) (loop_lower L) (loop_upper L)"

lemma ordered_start_inv:
  assumes "ordered_start team_size s"
  shows "ordered_inv team_size (ord_loop s) s"
  using assms by (auto simp: ordered_start_def ordered_inv_def Let_def iterations_def)

text \<open>An iteration is executed already or left to one thread, and to no other.\<close>

lemma mset_sum_one: "finite A \<Longrightarrow> t \<in> A \<Longrightarrow> M t \<subseteq># (\<Sum>x\<in>A. M x :: 'a multiset)"
  by (simp only: sum.remove [of A t] mset_subset_eq_add_left)

lemma mset_sum_two:
  assumes "finite A" "s \<in> A" "t \<in> A" "s \<noteq> t"
  shows "M s + M t \<subseteq># (\<Sum>x\<in>A. M x :: 'a multiset)"
proof -
  have "M t \<subseteq># (\<Sum>x\<in>A - {s}. M x)" using assms by (intro mset_sum_one) simp_all
  then have "M s + M t \<subseteq># M s + (\<Sum>x\<in>A - {s}. M x)" by (intro subset_mset.add_left_mono)
  then show ?thesis using assms by (simp only: sum.remove [of A s])
qed

lemma work_left_once:
  assumes inv: "ordered_inv team_size L s" and L: "ordered_loop L" and s: "t \<in> {0..<team_size}" "v \<in> set (work_left (loop_inc L) (workers s t))"
  shows "v \<notin> set (executed s)" "t' \<in> {0..<team_size} \<Longrightarrow> t' \<noteq> t \<Longrightarrow> v \<notin> set (work_left (loop_inc L) (workers s t'))"
    "v \<in> set (loop_values (loop_inc L) (loop_lower L) (loop_upper L))"
proof -
  let ?W = "\<lambda>t. mset (work_left (loop_inc L) (workers s t))"
  let ?all = "loop_values (loop_inc L) (loop_lower L) (loop_upper L)"
  have sum: "mset (executed s) + (\<Sum>t \<in> {0..<team_size}. ?W t) = mset ?all" using inv by (simp add: ordered_inv_def)
  have "distinct ?all" using L by (intro loop_values_distinct) (simp_all add: ordered_loop_def)
  then have one: "count (mset ?all) v \<le> 1" by (rule distinct_count_le)
  have W: "?W t \<subseteq># (\<Sum>t \<in> {0..<team_size}. ?W t)" using s(1) by (intro mset_sum_one) simp_all
  have c: "0 < count (?W t) v" using s(2) by (simp add: count_greater_zero_iff)
  have le: "count (mset (executed s)) v + count (\<Sum>t \<in> {0..<team_size}. ?W t) v \<le> 1" using one unfolding sum [symmetric] by simp
  then have "count (mset (executed s)) v = 0" using c mset_subset_eq_count [OF W, of v] by linarith
  then show "v \<notin> set (executed s)" by (simp only: count_mset_0_iff not_False_eq_True)
  show "v \<notin> set (work_left (loop_inc L) (workers s t'))" if t': "t' \<in> {0..<team_size}" "t' \<noteq> t"
  proof -
    have "?W t + ?W t' \<subseteq># (\<Sum>t \<in> {0..<team_size}. ?W t)" using s(1) t' by (intro mset_sum_two) simp_all
    from mset_subset_eq_count [OF this, of v] have "count (?W t) v + count (?W t') v \<le> count (\<Sum>t \<in> {0..<team_size}. ?W t) v"
      by (simp only: count_union)
    with c le have "count (?W t') v = 0" by linarith
    then show ?thesis by (simp only: count_mset_0_iff not_False_eq_True)
  qed
  have "v \<in># mset ?all" unfolding sum [symmetric] using s(2) W by (auto dest: mset_subset_eqD)
  then show "v \<in> set ?all" by simp
qed

text \<open>A step of a worker that executes no iteration.\<close>

definition worker_ok :: "pmp_loop \<Rightarrow> int \<Rightarrow> worker \<Rightarrow> bool" where
  "worker_ok L now w \<longleftrightarrow> in_loop (self w) \<and> sorted_wrt (runs_before (loop_inc L)) (work_left (loop_inc L) w)
     \<and> (\<forall>i upper. position w = Some (i, upper) \<longrightarrow> ticket_number (self w) = i)
     \<and> (inside w \<longrightarrow> (\<exists>i upper. position w = Some (i, upper) \<and> within (loop_inc L) i upper \<and> i = now))"

lemma ordered_inv_alt:
  "ordered_inv team_size L s \<longleftrightarrow>
     (\<exists>now. ord_loop s = L\<lparr>loop_now_serving := now\<rparr> \<and> now = loop_lower L + int (length (executed s)) * loop_inc L)
     \<and> executed s = iterations L 0 (int (length (executed s)))
     \<and> (\<forall>t \<in> {0..<team_size}. worker_ok L (loop_now_serving (ord_loop s)) (workers s t))
     \<and> mset (executed s) + (\<Sum>t \<in> {0..<team_size}. mset (work_left (loop_inc L) (workers s t)))
         = mset (loop_values (loop_inc L) (loop_lower L) (loop_upper L))"
  by (simp add: ordered_inv_def worker_ok_def)

lemma length_iterations [simp]: "length (iterations L a e) = nat (e - a)"
  by (simp add: iterations_def)

lemma ordered_inv_workerD:
  "ordered_inv team_size L s \<Longrightarrow> t \<in> {0..<team_size} \<Longrightarrow> worker_ok L (loop_now_serving (ord_loop s)) (workers s t)"
  and ordered_inv_inc: "ordered_inv team_size L s \<Longrightarrow> loop_inc (ord_loop s) = loop_inc L"
  by (auto simp: ordered_inv_alt)

lemma sum_set_worker:
  assumes "t \<in> {0..<team_size}"
  shows "(\<Sum>x \<in> {0..<team_size}. mset (work_left inc (((workers s)(t := w)) x))) + mset (work_left inc (workers s t))
    = (\<Sum>x \<in> {0..<team_size}. mset (work_left inc (workers s x))) + mset (work_left inc w)"
  using assms by (intro sum_upd) simp_all

lemma ordered_inv_worker:
  assumes inv: "ordered_inv team_size L s" and t: "t \<in> {0..<team_size}" and w: "worker_ok L (loop_now_serving (ord_loop s)) w"
    and same: "work_left (loop_inc L) w = work_left (loop_inc L) (workers s t)"
  shows "ordered_inv team_size L (set_worker s t w)"
proof -
  have "(\<Sum>x \<in> {0..<team_size}. mset (work_left (loop_inc L) (((workers s)(t := w)) x)))
      = (\<Sum>x \<in> {0..<team_size}. mset (work_left (loop_inc L) (workers s x)))"
    using sum_set_worker [OF t, of "loop_inc L" s w] same by simp
  with inv w show ?thesis by (auto simp: ordered_inv_alt set_worker_def)
qed

lemma work_left_position:
  assumes "position w = Some (i, upper)" "inc \<noteq> 0"
  shows "work_left inc w = (if within inc i upper then i # loop_values inc (i + inc) upper else []) @ given_values inc (chunks_left w)"
  using assms by (simp add: work_left_def loop_values.simps [of inc i upper])

text \<open>The step that executes one.\<close>

lemma ordered_inv_leave:
  assumes inv: "ordered_inv team_size L s" and L: "ordered_loop L" and t: "t \<in> {0..<team_size}"
    and w: "w = workers s t" "position w = Some (i, upper)" "inside w" and T: "1 < team_size"
    and returns: "ompc_end_ordered team_size (self w) (ord_loop s) = Inr (thread, L')"
  shows "ordered_inv team_size L ((set_worker s t (w\<lparr>self := thread, inside := False, position := Some (i + loop_inc L, upper)\<rparr>))
    \<lparr>ord_loop := L', executed := executed s @ [i]\<rparr>)"
    and "work_left (loop_inc L) w = i # work_left (loop_inc L)
      (w\<lparr>self := thread, inside := False, position := Some (i + loop_inc L, upper)\<rparr>)"
proof -
  let ?inc = "loop_inc L" and ?k = "int (length (executed s))"
  let ?w = "w\<lparr>self := thread, inside := False, position := Some (i + loop_inc L, upper)\<rparr>"
  have inc: "?inc \<noteq> 0" using L by (simp add: ordered_loop_def)
  obtain now where now: "ord_loop s = L\<lparr>loop_now_serving := now\<rparr>" "now = loop_lower L + ?k * ?inc" using inv by (auto simp: ordered_inv_alt)
  have ok: "worker_ok L now w" using inv t w(1) now(1) by (simp add: ordered_inv_alt)
  then have i: "i = now" "within ?inc i upper" "ticket_number (self w) = i" "in_loop (self w)"
    using w(2,3) by (auto simp: worker_ok_def)
  from returns T i L now(1) have th: "thread = (self w)\<lparr>ticket_number := i + ?inc\<rparr>" and L': "L' = L\<lparr>loop_now_serving := now + ?inc\<rparr>"
    by (auto simp: ompc_end_ordered_def pmp_assert_def ordered_loop_def)
  show left: "work_left ?inc w = i # work_left ?inc ?w" using work_left_position [OF w(2) inc] i(2) by (simp add: work_left_def)
  have "worker_ok L (now + ?inc) ?w" using ok left by (simp add: worker_ok_def th i(1))
  moreover have "worker_ok L (now + ?inc) (workers s t')" if t': "t' \<in> {0..<team_size}" "t' \<noteq> t" for t'
  proof -
    have "i \<notin> set (work_left ?inc (workers s t'))" using work_left_once(2) [OF inv L t, of i t'] t' left w(1) by simp
    then have "\<not> inside (workers s t')" using inv t'(1) now(1) i(1) inc
      by (auto simp: ordered_inv_alt worker_ok_def work_left_position)
    then show ?thesis using inv t'(1) by (simp add: ordered_inv_alt worker_ok_def)
  qed
  moreover have "executed s @ [i] = iterations L 0 (?k + 1)"
    using inv iterations_split [of 0 ?k "?k + 1" L] by (simp add: ordered_inv_alt) (simp add: iterations_def i(1) now(2))
  moreover have "mset (executed s @ [i]) + (\<Sum>x \<in> {0..<team_size}. mset (work_left ?inc (((workers s)(t := ?w)) x)))
      = mset (loop_values ?inc (loop_lower L) (loop_upper L))"
  proof -
    let ?new = "\<Sum>x \<in> {0..<team_size}. mset (work_left ?inc (((workers s)(t := ?w)) x))"
    have "?new + mset (work_left ?inc w) = (\<Sum>x \<in> {0..<team_size}. mset (work_left ?inc (workers s x))) + mset (work_left ?inc ?w)"
      unfolding w(1) by (rule sum_set_worker [OF t])
    then have "add_mset i ?new = (\<Sum>x \<in> {0..<team_size}. mset (work_left ?inc (workers s x)))" by (simp add: left)
    then show ?thesis using inv by (simp add: ordered_inv_alt flip: add_mset_add_single union_mset_add_mset_right)
  qed
  moreover have "now + ?inc = loop_lower L + (?k + 1) * ?inc" by (simp add: now(2) distrib_right)
  ultimately show "ordered_inv team_size L ((set_worker s t ?w)\<lparr>ord_loop := L', executed := executed s @ [i]\<rparr>)"
    by (simp add: ordered_inv_alt set_worker_def L' add.commute [of 1])
qed

section \<open>Runs\<close>

text \<open>The steps that a worker has still to do: two for each iteration, and two for each chunk.\<close>

definition worker_rank :: "int \<Rightarrow> worker \<Rightarrow> int" where
  "worker_rank inc w = 2 * int (length (work_left inc w)) + 2 * int (length (chunks_left w)) - of_bool (inside w) + of_bool (position w \<noteq> None)"

definition ordered_rank :: "int \<Rightarrow> int \<Rightarrow> ordered_state \<Rightarrow> int" where
  "ordered_rank team_size inc s = (\<Sum>t \<in> {0..<team_size}. worker_rank inc (workers s t))"

lemma ordered_rank_worker:
  assumes "t \<in> {0..<team_size}" "workers s' = (workers s)(t := w)" "worker_rank inc w < worker_rank inc (workers s t)"
  shows "ordered_rank team_size inc s' < ordered_rank team_size inc s"
proof -
  have "(\<Sum>x \<in> {0..<team_size}. worker_rank inc (((workers s)(t := w)) x)) + worker_rank inc (workers s t)
      = (\<Sum>x \<in> {0..<team_size}. worker_rank inc (workers s x)) + worker_rank inc w"
    using assms(1) by (intro sum_upd) simp_all
  with assms(3) show ?thesis unfolding ordered_rank_def assms(2) by linarith
qed

lemma worker_rank_nonneg:
  assumes "worker_ok L now w" "loop_inc L \<noteq> 0"
  shows "0 \<le> worker_rank (loop_inc L) w"
  using assms by (auto simp: worker_rank_def worker_ok_def work_left_position)

lemma ordered_rank_nonneg:
  assumes "ordered_inv team_size L s" "ordered_loop L"
  shows "0 \<le> ordered_rank team_size (loop_inc L) s"
  unfolding ordered_rank_def
proof (intro sum_nonneg)
  fix t assume "t \<in> {0..<team_size}"
  from worker_rank_nonneg [OF ordered_inv_workerD [OF assms(1) this]] assms(2)
  show "0 \<le> worker_rank (loop_inc L) (workers s t)" by (simp add: ordered_loop_def)
qed

lemma ordered_step_inv:
  assumes step: "ordered_step team_size (\<lambda>_. True) s s'" and inv: "ordered_inv team_size L s" and L: "ordered_loop L" and T: "1 < team_size"
  shows "ordered_inv team_size L s' \<and> ordered_rank team_size (loop_inc L) s' < ordered_rank team_size (loop_inc L) s"
  using step
proof cases
  case (fetch t w lower upper bs)
  let ?w = "w\<lparr>self := (self w)\<lparr>ticket_number := lower, iteration := iteration (self w) + 1\<rparr>, chunks_left := bs, position := Some (lower, upper)\<rparr>"
  have ok: "worker_ok L (loop_now_serving (ord_loop s)) w" using ordered_inv_workerD [OF inv fetch(2)] fetch(3) by simp
  have left: "work_left (loop_inc L) ?w = work_left (loop_inc L) w" using fetch(4,5) by (simp add: work_left_def given_values_Cons)
  have "worker_ok L (loop_now_serving (ord_loop s)) ?w" using ok left fetch(4) by (simp add: worker_ok_def)
  from ordered_inv_worker [OF inv fetch(2) this] left fetch(3) have "ordered_inv team_size L s'" unfolding fetch(1) by simp
  moreover have "worker_rank (loop_inc L) ?w < worker_rank (loop_inc L) (workers s t)"
    using left fetch(3,4,5) by (simp add: worker_rank_def)
  ultimately show ?thesis using ordered_rank_worker [OF fetch(2), of s' s ?w] by (simp add: fetch(1) set_worker_def)
next
  case (enter t w i upper)
  note inc = ordered_inv_inc [OF inv]
  have ok: "worker_ok L (loop_now_serving (ord_loop s)) w" using ordered_inv_workerD [OF inv enter(2)] enter(3) by simp
  have "ticket_number (self w) = loop_now_serving (ord_loop s)"
    using enter(8) T ok by (auto simp: ompc_ordered_def worker_ok_def split: if_splits)
  then have "worker_ok L (loop_now_serving (ord_loop s)) (w\<lparr>inside := True\<rparr>)"
    using ok enter(4,5) inc by (auto simp: worker_ok_def work_left_def)
  from ordered_inv_worker [OF inv enter(2) this] enter(3) have "ordered_inv team_size L s'" unfolding enter(1) by (simp add: work_left_def)
  moreover have "worker_rank (loop_inc L) (w\<lparr>inside := True\<rparr>) < worker_rank (loop_inc L) (workers s t)"
    using enter(3,7) by (simp add: worker_rank_def work_left_def)
  ultimately show ?thesis using ordered_rank_worker [OF enter(2), of s' s "w\<lparr>inside := True\<rparr>"] by (simp add: enter(1) set_worker_def)
next
  case (leave t w i upper thread L')
  note inc = ordered_inv_inc [OF inv]
  let ?w = "w\<lparr>self := thread, inside := False, position := Some (i + loop_inc L, upper)\<rparr>"
  note left = ordered_inv_leave [OF inv L leave(2-5) T leave(6)]
  have "worker_rank (loop_inc L) ?w < worker_rank (loop_inc L) (workers s t)"
    using left(2) leave(3,4,5) by (simp add: worker_rank_def)
  with left(1) show ?thesis using ordered_rank_worker [OF leave(2), of s' s ?w] by (simp add: leave(1) set_worker_def inc)
next
  case (chunk_end t w i upper)
  note inc = ordered_inv_inc [OF inv]
  have ok: "worker_ok L (loop_now_serving (ord_loop s)) w" using ordered_inv_workerD [OF inv chunk_end(2)] chunk_end(3) by simp
  have left: "work_left (loop_inc L) (w\<lparr>position := None\<rparr>) = work_left (loop_inc L) w"
    using work_left_position [OF chunk_end(4)] chunk_end(5) L inc by (simp add: work_left_def ordered_loop_def)
  have out: "\<not> inside w" using ok chunk_end(4,5) inc by (auto simp: worker_ok_def)
  then have "worker_ok L (loop_now_serving (ord_loop s)) (w\<lparr>position := None\<rparr>)" using ok left by (simp add: worker_ok_def)
  from ordered_inv_worker [OF inv chunk_end(2) this] left chunk_end(3) have "ordered_inv team_size L s'" unfolding chunk_end(1) by simp
  moreover have "worker_rank (loop_inc L) (w\<lparr>position := None\<rparr>) < worker_rank (loop_inc L) (workers s t)"
    using left chunk_end(3,4) by (simp add: worker_rank_def)
  ultimately show ?thesis using ordered_rank_worker [OF chunk_end(2), of s' s "w\<lparr>position := None\<rparr>"] by (simp add: chunk_end(1) set_worker_def)
qed simp

text \<open>Until all iterations are executed, the thread that has the first of the rest can go on.\<close>

lemma next_worker:
  assumes inv: "ordered_inv team_size L s" and L: "ordered_loop L" and k: "int (length (executed s)) < trips L"
  shows "\<exists>t \<in> {0..<team_size}. \<exists>vs. work_left (loop_inc L) (workers s t) = loop_now_serving (ord_loop s) # vs"
proof -
  let ?f = "\<lambda>k. loop_lower L + k * loop_inc L" and ?k = "int (length (executed s))"
  let ?W = "\<lambda>t. work_left (loop_inc L) (workers s t)"
  have inc: "loop_inc L \<noteq> 0" and w: "within (loop_inc L) (loop_lower L) (loop_upper L)" using L by (simp_all add: ordered_loop_def)
  have now: "loop_now_serving (ord_loop s) = ?f ?k" using inv by (auto simp: ordered_inv_alt)
  have all: "set (loop_values (loop_inc L) (loop_lower L) (loop_upper L)) = ?f ` {0..trips L - 1}"
    using loop_values_whole [OF inc w] by (simp add: trips_def)
  have "executed s = iterations L 0 ?k" using inv by (simp add: ordered_inv_alt)
  moreover have "set (iterations L 0 ?k) = ?f ` {0..?k - 1}" by (simp add: iterations_def)
  ultimately have ex_set: "set (executed s) = ?f ` {0..?k - 1}" by argo
  have "?f ?k \<notin> set (executed s)" unfolding ex_set using inc by auto
  moreover have "?f ?k \<in> set (loop_values (loop_inc L) (loop_lower L) (loop_upper L))" unfolding all using k by (intro imageI) simp
  then have "?f ?k \<in># mset (executed s) + (\<Sum>t \<in> {0..<team_size}. mset (?W t))"
    using inv by (simp add: ordered_inv_alt)
  ultimately obtain t where t: "t \<in> {0..<team_size}" "?f ?k \<in> set (?W t)" by (auto simp: set_mset_sum)
  then obtain h vs where h: "?W t = h # vs" by (cases "?W t") auto
  have "h = ?f ?k"
  proof (rule ccontr)
    assume "h \<noteq> ?f ?k"
    with t(2) h have "runs_before (loop_inc L) h (?f ?k)"
      using ordered_inv_workerD [OF inv t(1)] by (auto simp: worker_ok_def)
    moreover have "h \<in> ?f ` {0..trips L - 1}" using work_left_once(3) [OF inv L t(1), of h] h unfolding all by simp
    then obtain j where j: "h = ?f j" "j \<in> {0..trips L - 1}" by (rule imageE)
    ultimately have "j < ?k" using endsD [OF ends_point [OF inc, of "loop_lower L" ?k], of j] inc by (auto simp: runs_before_def)
    then have "h \<in> set (executed s)" unfolding ex_set using j by auto
    then show False using work_left_once(1) [OF inv L t(1), of h] h by simp
  qed
  with t(1) h now show ?thesis by auto
qed

lemma ordered_progress:
  assumes inv: "ordered_inv team_size L s" and L: "ordered_loop L" and T: "1 < team_size" and k: "int (length (executed s)) < trips L"
  shows "\<exists>s'. ordered_step team_size (\<lambda>_. True) s s'"
proof -
  let ?inc = "loop_inc L" and ?now = "loop_now_serving (ord_loop s)"
  obtain t vs where t: "t \<in> {0..<team_size}" "work_left ?inc (workers s t) = ?now # vs" using next_worker [OF inv L k] by blast
  have ok: "worker_ok L ?now (workers s t)" by (rule ordered_inv_workerD [OF inv t(1)])
  note inc = ordered_inv_inc [OF inv]
  show ?thesis
  proof (cases "position (workers s t)")
    case None
    with t(2) obtain lo up bs where "chunks_left (workers s t) = (lo, up) # bs"
      by (cases "chunks_left (workers s t)") (auto simp: work_left_def given_values_def)
    from ordered_step.fetch [OF t(1) refl None this] show ?thesis by blast
  next
    case (Some p)
    obtain i up where p: "position (workers s t) = Some (i, up)" using Some by (cases p) simp
    show ?thesis
    proof (cases "within ?inc i up")
      case True
      then have i: "i = ?now" using t(2) work_left_position [OF p, of ?inc] L by (simp add: ordered_loop_def)
      have self: "in_loop (self (workers s t))" "ticket_number (self (workers s t)) = ?now" using ok p i by (auto simp: worker_ok_def)
      have sched: "\<not> loop_sched (ord_loop s) \<le> PMP_SCHED_ORDERED_OFFSET" using inv L by (auto simp: ordered_inv_alt ordered_loop_def)
      show ?thesis
      proof (cases "inside (workers s t)")
        case True
        obtain thread L' where "ompc_end_ordered team_size (self (workers s t)) (ord_loop s) = Inr (thread, L')"
          using that self sched T by (simp add: ompc_end_ordered_def pmp_assert_def)
        from ordered_step.leave [OF t(1) refl p True this] show ?thesis by blast
      next
        case False
        have "ompc_ordered team_size (self (workers s t)) (ord_loop s) = Enter" using self sched by (simp add: ompc_ordered_def)
        with ordered_step.enter [OF t(1) refl p _ TrueI False] True inc show ?thesis by auto
      qed
    next
      case False
      with ordered_step.chunk_end [OF t(1) refl p] inc show ?thesis by auto
    qed
  qed
qed

interpretation ordered: ranked_steps "ordered_step team_size (\<lambda>_. True)"
  "\<lambda>s. ordered_inv team_size L s \<and> ordered_loop L \<and> 1 < team_size" "ordered_rank team_size (loop_inc L)" for team_size L
  by unfold_locales (use ordered_step_inv ordered_rank_nonneg in blast)+

lemma ordered_inv_exclusive:
  assumes inv: "ordered_inv team_size L s" and L: "ordered_loop L" and t: "t \<in> {0..<team_size}" "u \<in> {0..<team_size}"
    and "inside (workers s t)" "inside (workers s u)"
  shows "t = u"
proof -
  have head: "loop_now_serving (ord_loop s) \<in> set (work_left (loop_inc L) (workers s v))" if "v \<in> {0..<team_size}" "inside (workers s v)" for v
    using ordered_inv_workerD [OF inv that(1)] that(2) L by (auto simp: worker_ok_def ordered_loop_def work_left_position)
  with work_left_once(2) [OF inv L t(1), of _ u] assms show ?thesis by metis
qed

lemma ordered_inv_prefix:
  assumes inv: "ordered_inv team_size L s" and L: "ordered_loop L"
  shows "executed s = take (length (executed s)) (loop_values (loop_inc L) (loop_lower L) (loop_upper L))"
    and "int (length (executed s)) \<le> trips L"
proof -
  let ?all = "loop_values (loop_inc L) (loop_lower L) (loop_upper L)" and ?k = "int (length (executed s))"
  have all: "?all = iterations L 0 (trips L)" and n: "1 \<le> trips L"
    using L loop_values_whole ends_upper(2) by (simp_all add: ordered_loop_def iterations_def trips_def)
  have ex: "executed s = iterations L 0 ?k" using inv by (simp add: ordered_inv_alt)
  have "mset (executed s) \<subseteq># mset ?all" using inv unfolding ordered_inv_alt by (metis mset_subset_eq_add_left)
  then have "size (mset (executed s)) \<le> size (mset ?all)" by (rule size_mset_mono)
  then show k: "?k \<le> trips L" using n by (simp add: all)
  have "iterations L 0 ?k @ iterations L ?k (trips L) = ?all" unfolding all using k by (intro iterations_split) simp_all
  then have "?all = executed s @ iterations L ?k (trips L)" using ex by argo
  then show "executed s = take (length (executed s)) ?all" by simp
qed

lemma loop_values_length:
  assumes "loop_inc L \<noteq> 0" "within (loop_inc L) (loop_lower L) (loop_upper L)"
  shows "int (length (loop_values (loop_inc L) (loop_lower L) (loop_upper L))) = trips L"
  using loop_values_whole [OF assms] ends_upper(2) [OF assms] by (simp add: trips_def)

text \<open>At the start the measure is twice the number of iterations and chunks.\<close>

lemma ordered_start_rank:
  assumes "ordered_start team_size s"
  shows "ordered_rank team_size (loop_inc (ord_loop s)) s =
    2 * trips (ord_loop s) + 2 * (\<Sum>t \<in> {0..<team_size}. int (length (chunks_left (workers s t))))"
proof -
  let ?L = "ord_loop s"
  let ?W = "\<lambda>t. work_left (loop_inc ?L) (workers s t)"
  have "size (\<Sum>t \<in> {0..<team_size}. mset (?W t)) = length (loop_values (loop_inc ?L) (loop_lower ?L) (loop_upper ?L))"
    using assms by (simp add: ordered_start_def Let_def)
  then have "(\<Sum>t \<in> {0..<team_size}. int (length (?W t))) = int (length (loop_values (loop_inc ?L) (loop_lower ?L) (loop_upper ?L)))"
    by (simp add: size_multiset_sum flip: of_nat_sum)
  also have "\<dots> = trips ?L"
    using assms loop_values_whole [of "loop_inc ?L" "loop_lower ?L" "loop_upper ?L"] ends_upper(2) [of "loop_inc ?L" "loop_lower ?L" "loop_upper ?L"]
    by (simp add: ordered_start_def Let_def trips_def)
  moreover have "worker_rank (loop_inc ?L) (workers s t) = 2 * int (length (?W t)) + 2 * int (length (chunks_left (workers s t)))"
    if "t \<in> {0..<team_size}" for t
    using assms that by (auto simp: ordered_start_def Let_def worker_rank_def)
  ultimately show ?thesis by (simp add: ordered_rank_def sum.distrib flip: sum_distrib_left)
qed

section \<open>Iterations without an ordered region\<close>

text \<open>
  An iteration that does not execute the ordered construct does not pass its turn on.  Let the chunk \<open>a .. b - 1\<close> hold an iteration \<open>j\<close> that
  skips the construct: the number of turns never gets past \<open>b - 1\<close>, so no thread ever enters a region of a later chunk.
\<close>

definition chunk_at :: "pmp_loop \<Rightarrow> int \<Rightarrow> int \<Rightarrow> int \<Rightarrow> int \<Rightarrow> int \<times> int \<Rightarrow> bool" where
  "chunk_at L a b c e bounds \<longleftrightarrow> fst bounds = loop_lower L + c * loop_inc L \<and> ends (loop_lower L) (loop_inc L) (snd bounds) e
     \<and> (e \<le> a \<or> c = a \<and> e = b \<or> b \<le> c)"

definition turn_ok :: "pmp_loop \<Rightarrow> int \<Rightarrow> int \<Rightarrow> int \<Rightarrow> worker \<Rightarrow> bool" where
  "turn_ok L a b j w \<longleftrightarrow>
     (\<forall>bounds \<in> set (chunks_left w). \<exists>c e. chunk_at L a b c e bounds)
     \<and> (\<forall>i upper. position w = Some (i, upper) \<longrightarrow>
          (\<exists>c e p tk. chunk_at L a b c e (loop_lower L + c * loop_inc L, upper) \<and> i = loop_lower L + p * loop_inc L \<and> c \<le> p
             \<and> ticket_number (self w) = loop_lower L + tk * loop_inc L \<and> c \<le> tk \<and> tk \<le> p - of_bool (c = a \<and> e = b \<and> j < p)
             \<and> (inside w \<longrightarrow> within (loop_inc L) i upper \<and> \<not> (c = a \<and> e = b \<and> p = j))))
     \<and> (inside w \<longrightarrow> position w \<noteq> None)"

definition skip_inv :: "int \<Rightarrow> pmp_loop \<Rightarrow> int \<Rightarrow> int \<Rightarrow> int \<Rightarrow> ordered_state \<Rightarrow> bool" where
  "skip_inv team_size L a b j s \<longleftrightarrow>
     (\<exists>now. ord_loop s = L\<lparr>loop_now_serving := loop_lower L + now * loop_inc L\<rparr> \<and> now \<le> b - 1
        \<and> (\<forall>t \<in> {0..<team_size}. in_loop (self (workers s t)) \<and> turn_ok L a b j (workers s t)))
     \<and> (\<forall>i \<in> set (executed s). \<exists>k < b. i = loop_lower L + k * loop_inc L)"

lemma skip_inv_worker:
  assumes "skip_inv team_size L a b j s" "in_loop (self w)" "turn_ok L a b j w"
  shows "skip_inv team_size L a b j (set_worker s t w)"
  using assms unfolding skip_inv_def set_worker_def by auto

lemma turn_ok_position:
  assumes "turn_ok L a b j w" "position w = Some (i, upper)"
  obtains c e p tk where "chunk_at L a b c e (loop_lower L + c * loop_inc L, upper)" "i = loop_lower L + p * loop_inc L" "c \<le> p"
    "ticket_number (self w) = loop_lower L + tk * loop_inc L" "c \<le> tk" "tk \<le> p - of_bool (c = a \<and> e = b \<and> j < p)"
    "inside w \<longrightarrow> within (loop_inc L) i upper \<and> \<not> (c = a \<and> e = b \<and> p = j)"
  using assms unfolding turn_ok_def by blast

lemma turn_ok_move:
  assumes "chunk_at L a b c e (loop_lower L + c * loop_inc L, upper)" "c \<le> p" "c \<le> tk" "tk \<le> p - of_bool (c = a \<and> e = b \<and> j < p)"
    and "position w = Some (loop_lower L + p * loop_inc L, upper)" "ticket_number (self w) = loop_lower L + tk * loop_inc L"
    and "inside w \<Longrightarrow> within (loop_inc L) (loop_lower L + p * loop_inc L) upper \<and> \<not> (c = a \<and> e = b \<and> p = j)"
    and "\<forall>bounds \<in> set (chunks_left w). \<exists>c e. chunk_at L a b c e bounds"
  shows "turn_ok L a b j w"
  unfolding turn_ok_def
proof (intro conjI allI impI)
  fix i up
  assume "position w = Some (i, up)"
  with assms(5) have "i = loop_lower L + p * loop_inc L" "up = upper" by simp_all
  with assms show "\<exists>c e p tk. chunk_at L a b c e (loop_lower L + c * loop_inc L, up) \<and> i = loop_lower L + p * loop_inc L \<and> c \<le> p
      \<and> ticket_number (self w) = loop_lower L + tk * loop_inc L \<and> c \<le> tk \<and> tk \<le> p - of_bool (c = a \<and> e = b \<and> j < p)
      \<and> (inside w \<longrightarrow> within (loop_inc L) i up \<and> \<not> (c = a \<and> e = b \<and> p = j))" by blast
qed (use assms in auto)

lemma skip_inv_leave:
  assumes inv: "skip_inv team_size L a b j s" and L: "ordered_loop L" and j: "a \<le> j" "j < b" and T: "1 < team_size"
    and t: "t \<in> {0..<team_size}" "w = workers s t" "position w = Some (i, upper)" "inside w"
    and returns: "ompc_end_ordered team_size (self w) (ord_loop s) = Inr (thread, L')"
  shows "skip_inv team_size L a b j ((set_worker s t (w\<lparr>self := thread, inside := False, position := Some (i + loop_inc L, upper)\<rparr>))
    \<lparr>ord_loop := L', executed := executed s @ [i]\<rparr>)"
proof -
  let ?inc = "loop_inc L" and ?l = "loop_lower L"
  let ?w = "w\<lparr>self := thread, inside := False, position := Some (i + ?inc, upper)\<rparr>"
  have inc: "?inc \<noteq> 0" using L by (simp add: ordered_loop_def)
  obtain now where now: "ord_loop s = L\<lparr>loop_now_serving := ?l + now * ?inc\<rparr>" "now \<le> b - 1"
    and others: "\<And>t. t \<in> {0..<team_size} \<Longrightarrow> in_loop (self (workers s t)) \<and> turn_ok L a b j (workers s t)"
    using inv by (auto simp: skip_inv_def)
  have w: "in_loop (self w)" "turn_ok L a b j w" using others [OF t(1)] t(2) by simp_all
  from turn_ok_position [OF w(2) t(3)] t(4) obtain c e p tk where c: "chunk_at L a b c e (?l + c * ?inc, upper)" "i = ?l + p * ?inc" "c \<le> p"
    and tk: "ticket_number (self w) = ?l + tk * ?inc" "c \<le> tk" "tk \<le> p - of_bool (c = a \<and> e = b \<and> j < p)"
    and inside: "within ?inc (?l + p * ?inc) upper" "\<not> (c = a \<and> e = b \<and> p = j)" by metis
  have p: "p < e" using c(1) inside(1) endsD [of ?l ?inc upper e p] by (simp add: chunk_at_def)
  from returns T w(1) L now(1) tk(1) inc have tk_now: "tk = now" and th: "thread = (self w)\<lparr>ticket_number := ?l + tk * ?inc + ?inc\<rparr>"
    and L': "L' = L\<lparr>loop_now_serving := ?l + (now + 1) * ?inc\<rparr>"
    by (auto simp: ompc_end_ordered_def pmp_assert_def ordered_loop_def FmtAssert_def distrib_right split: if_splits)
  have chunk: "e \<le> a \<or> c = a \<and> e = b" using c(1) tk(2) tk_now now(2) by (auto simp: chunk_at_def)
  then have next_turn: "now + 1 \<le> b - 1" and "p < b" using tk(3) tk_now p j inside(2) by (auto simp: of_bool_def split: if_splits)
  have "turn_ok L a b j ?w"
    by (rule turn_ok_move [OF c(1), of "p + 1" "tk + 1"])
      (use c tk inside(2) w(2) in \<open>auto simp: th turn_ok_def distrib_right split: if_splits\<close>)
  moreover have "\<exists>k < b. i = ?l + k * ?inc" using \<open>p < b\<close> c(2) by blast
  ultimately show ?thesis using inv next_turn w(1) others
    by (auto simp: skip_inv_def set_worker_def L' th intro!: exI [of _ "now + 1"])
qed

lemma skip_inv_step:
  assumes step: "ordered_step team_size needs s s'" and inv: "skip_inv team_size L a b j s" and L: "ordered_loop L" and j: "a \<le> j" "j < b"
    and T: "1 < team_size" and skips: "\<not> needs (loop_lower L + j * loop_inc L)"
  shows "skip_inv team_size L a b j s'"
proof -
  let ?inc = "loop_inc L" and ?l = "loop_lower L"
  have inc: "loop_inc (ord_loop s) = ?inc" using inv by (auto simp: skip_inv_def)
  have ok: "in_loop (self (workers s t)) \<and> turn_ok L a b j (workers s t)" if "t \<in> {0..<team_size}" for t
    using inv that by (auto simp: skip_inv_def)
  from step show ?thesis
  proof cases
    case (fetch t w lower upper bs)
    obtain c e where "chunk_at L a b c e (lower, upper)" using ok [OF fetch(2)] fetch(3,5) by (auto simp: turn_ok_def)
    moreover from this have "lower = ?l + c * ?inc" by (simp add: chunk_at_def)
    moreover have "\<not> inside w" using ok [OF fetch(2)] fetch(3,4) by (auto simp: turn_ok_def)
    ultimately show ?thesis unfolding fetch(1) using ok [OF fetch(2)] fetch(3,5) j
      by (intro skip_inv_worker [OF inv] turn_ok_move [of L a b c e upper c c j]) (auto simp: turn_ok_def)
  next
    case (enter t w i upper)
    from turn_ok_position [of L a b j w i upper] ok [OF enter(2)] enter(3,4) obtain c e p tk
      where c: "chunk_at L a b c e (?l + c * ?inc, upper)" "i = ?l + p * ?inc" "c \<le> p"
        "ticket_number (self w) = ?l + tk * ?inc" "c \<le> tk" "tk \<le> p - of_bool (c = a \<and> e = b \<and> j < p)" by metis
    have "p \<noteq> j" using skips enter(6) c(2) by blast
    then show ?thesis unfolding enter(1) using ok [OF enter(2)] enter(3,4,5) c inc
      by (intro skip_inv_worker [OF inv] turn_ok_move [of L a b c e upper p tk j]) (auto simp: turn_ok_def)
  next
    case (leave t w i upper thread L')
    then show ?thesis using skip_inv_leave [OF inv L j T leave(2-6)] by (simp add: inc)
  next
    case (skip t w i upper)
    from turn_ok_position [of L a b j w i upper] ok [OF skip(2)] skip(3,4) obtain c e p tk
      where c: "chunk_at L a b c e (?l + c * ?inc, upper)" "i = ?l + p * ?inc" "c \<le> p"
        "ticket_number (self w) = ?l + tk * ?inc" "c \<le> tk" "tk \<le> p - of_bool (c = a \<and> e = b \<and> j < p)" by metis
    then show ?thesis unfolding skip(1) inc using ok [OF skip(2)] skip(3,7)
      by (intro skip_inv_worker [OF inv] turn_ok_move [of L a b c e upper "p + 1" tk j])
        (auto simp: turn_ok_def distrib_right of_bool_def split: if_splits)
  next
    case (chunk_end t w i upper)
    from turn_ok_position [of L a b j w i upper] ok [OF chunk_end(2)] chunk_end(3,4,5) inc have "\<not> inside w" by metis
    then show ?thesis unfolding chunk_end(1) using ok [OF chunk_end(2)] chunk_end(3)
      by (intro skip_inv_worker [OF inv]) (auto simp: turn_ok_def)
  qed
qed

lemma skip_start:
  assumes start: "ordered_start team_size s" and "0 \<le> a" "a < b"
    and chunks: "\<And>t bounds. t \<in> {0..<team_size} \<Longrightarrow> bounds \<in> set (chunks_left (workers s t)) \<Longrightarrow> \<exists>c e. chunk_at (ord_loop s) a b c e bounds"
  shows "skip_inv team_size (ord_loop s) a b j s"
proof -
  let ?L = "ord_loop s"
  have "ord_loop s = ?L\<lparr>loop_now_serving := loop_lower ?L + 0 * loop_inc ?L\<rparr>" using start by (simp add: ordered_start_def Let_def)
  moreover have "in_loop (self (workers s t)) \<and> turn_ok ?L a b j (workers s t)" if "t \<in> {0..<team_size}" for t
    using start chunks [OF that] that by (auto simp: ordered_start_def turn_ok_def Let_def)
  moreover have "executed s = []" using start by (simp add: ordered_start_def Let_def)
  ultimately show ?thesis unfolding skip_inv_def using assms(2,3) by (intro conjI exI [of _ 0]) auto
qed

lemma skip_inv_run:
  assumes "(ordered_step team_size needs)\<^sup>*\<^sup>* s s'" "skip_inv team_size L a b j s" "ordered_loop L" "a \<le> j" "j < b" "1 < team_size"
    "\<not> needs (loop_lower L + j * loop_inc L)"
  shows "skip_inv team_size L a b j s'"
  using assms(1,2) by (induction rule: rtranclp_induct) (use assms skip_inv_step in blast)+

section \<open>An example\<close>

definition example_ordered :: ordered_state where
  "example_ordered = \<lparr>ord_loop = (example_loop 0 3 1)\<lparr>loop_sched := PMP_SCHED_ORDERED_STATIC\<rparr>,
     workers = \<lambda>t. \<lparr>self = \<lparr>local_id = t, iteration = 0, ticket_number = 0, thread_loop_count = 1, in_loop = True\<rparr>,
                    chunks_left = (if t = 0 then [(0, 1)] else [(2, 3)]), position = None, inside = False\<rparr>,
     executed = []\<rparr>"

lemma two_threads: "{0..<2 :: int} = {0, 1}"
  by auto

lemma example_ordered_start: "ordered_start 2 example_ordered"
  by (simp add: ordered_start_def example_ordered_def example_loop_def two_threads work_left_def given_values_def loop_values.simps within_def
      runs_before_def pmp_sched_defs Let_def)

lemma ordered_start_loop: "ordered_start team_size s \<Longrightarrow> ordered_loop (ord_loop s)"
  by (simp add: ordered_start_def ordered_loop_def Let_def)

end
