(* ===== verification/Gensyn_Avl.thy ===== *)
theory Gensyn_Avl
  imports Path64_Prelude "HOL-Library.List_Lexorder" "HOL-Library.Char_ord"
begin

text \<open>
  The string tables of the parser generator (\<^verbatim>\<open>src/src/common/targ_info/parser/gensyn/src/avl.c\<close>): AVL trees with balance factors.
  \<^verbatim>\<open>AVLadd\<close> descends from the root and keeps the deepest node whose balance is not 0, hangs the new node in, corrects the balances below
  that node, and rotates there if need be.

  A tree is a value; a pointer to a node of the tree is its path from the root.
\<close>

section \<open>Strings\<close>

fun strcmp :: "string \<Rightarrow> string \<Rightarrow> int" where
  "strcmp [] [] = 0"
| "strcmp [] (d # ds) = - 1"
| "strcmp (c # cs) [] = 1"
| "strcmp (c # cs) (d # ds) = (if c = d then strcmp cs ds else int (of_char c) - int (of_char d))"

lemma strcmp_less [simp]: "strcmp s t < 0 \<longleftrightarrow> s < t"
  and strcmp_eq [simp]: "strcmp s t = 0 \<longleftrightarrow> s = t"
proof (induction s t rule: strcmp.induct)
  case (4 c cs d ds)
  {
    case 1
    from 4 show ?case by (auto simp: less_char_def)
  next
    case 2
    from 4 show ?case by (auto simp: of_char_eq_iff)
  }
qed simp_all

lemma strcmp_same [simp]: "strcmp s s = 0"
  by simp

section \<open>Trees\<close>

record s_StrInd =
  valStr :: string
  indStr :: int

definition MAX_SEM_LEN :: nat where "MAX_SEM_LEN = 256"

text \<open>\<^verbatim>\<open>strcpy\<close> into \<^verbatim>\<open>char valStr[MAX_SEM_LEN]\<close>, with the terminating null character.\<close>

definition SETSTR :: "s_StrInd \<Rightarrow> string \<Rightarrow> s_StrInd outcome" where
  "SETSTR sstr val = (if length val < MAX_SEM_LEN then Inr (sstr\<lparr>valStr := val\<rparr>) else Inl Out_Of_Bounds)"

datatype AVLnode =
    NULL
  | AVL (balance: int) (token: s_StrInd) (leftNode: AVLnode) (rightNode: AVLnode)

datatype side = Left_Side | Right_Side

fun subtree :: "AVLnode \<Rightarrow> side list \<Rightarrow> AVLnode" where
  "subtree A [] = A"
| "subtree (AVL b tk l r) (Left_Side # p) = subtree l p"
| "subtree (AVL b tk l r) (Right_Side # p) = subtree r p"
| "subtree NULL (d # p) = NULL"

text \<open>The tree after an assignment to the link at a path.\<close>

fun set_subtree :: "AVLnode \<Rightarrow> side list \<Rightarrow> AVLnode \<Rightarrow> AVLnode" where
  "set_subtree A [] N = N"
| "set_subtree (AVL b tk l r) (Left_Side # p) N = AVL b tk (set_subtree l p N) r"
| "set_subtree (AVL b tk l r) (Right_Side # p) N = AVL b tk l (set_subtree r p N)"
| "set_subtree NULL (d # p) N = NULL"

fun set_balance :: "int \<Rightarrow> AVLnode \<Rightarrow> AVLnode" where
  "set_balance b' NULL = NULL"
| "set_balance b' (AVL b tk l r) = AVL b' tk l r"

fun set_left_balance :: "int \<Rightarrow> AVLnode \<Rightarrow> AVLnode" where
  "set_left_balance b' NULL = NULL"
| "set_left_balance b' (AVL b tk l r) = AVL b tk (set_balance b' l) r"

fun set_right_balance :: "int \<Rightarrow> AVLnode \<Rightarrow> AVLnode" where
  "set_right_balance b' NULL = NULL"
| "set_right_balance b' (AVL b tk l r) = AVL b tk l (set_balance b' r)"

section \<open>Rotations\<close>

fun ReadjustRight :: "AVLnode \<Rightarrow> AVLnode outcome" where
  "ReadjustRight (AVL b tk (AVL bl tkl ll lr) r) = Inr (AVL bl tkl ll (AVL b tk lr r))"
| "ReadjustRight A = Inl Null_Pointer"

fun ReadjustLeft :: "AVLnode \<Rightarrow> AVLnode outcome" where
  "ReadjustLeft (AVL b tk l (AVL br tkr rl rr)) = Inr (AVL br tkr (AVL b tk l rl) rr)"
| "ReadjustLeft A = Inl Null_Pointer"

fun ReadjustLeftRight :: "AVLnode \<Rightarrow> AVLnode outcome" where
  "ReadjustLeftRight (AVL b tk l r) = bindE (ReadjustLeft l) (\<lambda>l. ReadjustRight (AVL b tk l r))"
| "ReadjustLeftRight NULL = Inl Null_Pointer"

fun ReadjustRightLeft :: "AVLnode \<Rightarrow> AVLnode outcome" where
  "ReadjustRightLeft (AVL b tk l r) = bindE (ReadjustRight r) (\<lambda>r. ReadjustLeft (AVL b tk l r))"
| "ReadjustRightLeft NULL = Inl Null_Pointer"

text \<open>The \<^verbatim>\<open>switch\<close> on the balance after a double rotation to either side.\<close>

definition double_balances :: "AVLnode \<Rightarrow> AVLnode" where
  "double_balances A = set_balance 0
     (if balance A = 1 then set_right_balance (- 1) (set_left_balance 0 A)
      else if balance A = - 1 then set_left_balance 1 (set_right_balance 0 A)
      else if balance A = 0 then set_left_balance 0 (set_right_balance 0 A)
      else A)"

definition AVL_rebalance :: "AVLnode \<Rightarrow> AVLnode outcome" where
  "AVL_rebalance A =
     (if balance A = 2 then
        (if leftNode A = NULL then Inl Null_Pointer
         else if balance (leftNode A) = 1 then
           bindE (ReadjustRight A) (\<lambda>A. Inr (set_right_balance 0 (set_balance 0 A)))
         else if balance (leftNode A) = - 1 then
           bindE (ReadjustLeftRight A) (\<lambda>A. Inr (double_balances A))
         else Inr A)
      else if balance A = - 2 then
        (if rightNode A = NULL then Inl Null_Pointer
         else if balance (rightNode A) = - 1 then
           bindE (ReadjustLeft A) (\<lambda>A. Inr (set_left_balance 0 (set_balance 0 A)))
         else if balance (rightNode A) = 1 then
           bindE (ReadjustRightLeft A) (\<lambda>A. Inr (double_balances A))
         else Inr A)
      else Inr A)"

section \<open>Insertion\<close>

text \<open>
  The descent: \<open>p\<close> is the path to \<^verbatim>\<open>P\<close> (whose parent is \<^verbatim>\<open>PP\<close>) and \<open>a\<close> the path to \<^verbatim>\<open>A\<close> (whose parent is \<^verbatim>\<open>PA\<close>).
  It ends with the token found, or with the paths.
\<close>

fun AVL_descend :: "string \<Rightarrow> AVLnode \<Rightarrow> side list \<Rightarrow> side list \<Rightarrow> s_StrInd + side list \<times> side list" where
  "AVL_descend val NULL p a = Inr (p, a)"
| "AVL_descend val (AVL b tk l r) p a =
     (let a = (if b \<noteq> 0 then p else a); comp = strcmp val (valStr tk) in
      if comp < 0 then AVL_descend val l (p @ [Left_Side]) a
      else if comp > 0 then AVL_descend val r (p @ [Right_Side]) a
      else Inl tk)"

text \<open>The side of a node on which a string belongs, by another comparison.\<close>

definition side_of :: "string \<Rightarrow> AVLnode \<Rightarrow> side" where
  "side_of val A = (if strcmp val (valStr (token A)) < 0 then Left_Side else Right_Side)"

text \<open>\<^verbatim>\<open>while (D != N)\<close>: \<open>n\<close> nodes from \<^verbatim>\<open>A\<close> down to the new node.\<close>

fun AVL_adjust :: "string \<Rightarrow> nat \<Rightarrow> AVLnode \<Rightarrow> AVLnode" where
  "AVL_adjust val (Suc n) (AVL b tk l r) =
     (if strcmp val (valStr tk) < 0 then AVL (b + 1) tk (AVL_adjust val n l) r
      else AVL (b - 1) tk l (AVL_adjust val n r))"
| "AVL_adjust val n A = A"

definition AVLadd :: "string \<Rightarrow> AVLnode \<Rightarrow> (s_StrInd \<times> AVLnode) outcome" where
  "AVLadd val R =
     bindE (SETSTR \<lparr>valStr = [], indStr = 0\<rparr> val) (\<lambda>newStrIndex.
     let newStrIndex = newStrIndex\<lparr>indStr := - 1\<rparr>;
         N = AVL 0 newStrIndex NULL NULL in
     if R = NULL then Inr (newStrIndex, N)
     else
       (case AVL_descend val R [] [] of
          Inl tk \<Rightarrow> Inr (tk, R)
        | Inr (p, a) \<Rightarrow>
            let PP = butlast p;
                R = set_subtree R (PP @ [side_of val (subtree R PP)]) N in
            bindE (AVL_rebalance (AVL_adjust val (length p - length a) (subtree R a))) (\<lambda>A.
            if a = [] then Inr (newStrIndex, A)
            else
              let PA = butlast a in
              Inr (newStrIndex, set_subtree R (PA @ [side_of (valStr (token A)) (subtree R PA)]) A))))"

section \<open>The invariant\<close>

fun tokens :: "AVLnode \<Rightarrow> s_StrInd list" where
  "tokens NULL = []"
| "tokens (AVL b tk l r) = tokens l @ tk # tokens r"

definition strings :: "AVLnode \<Rightarrow> string list" where
  "strings t = map valStr (tokens t)"

fun avl_height :: "AVLnode \<Rightarrow> nat" where
  "avl_height NULL = 0"
| "avl_height (AVL b tk l r) = Suc (max (avl_height l) (avl_height r))"

fun avl_balanced :: "AVLnode \<Rightarrow> bool" where
  "avl_balanced NULL = True"
| "avl_balanced (AVL b tk l r) \<longleftrightarrow> b = int (avl_height l) - int (avl_height r) \<and> - 1 \<le> b \<and> b \<le> 1 \<and> avl_balanced l \<and> avl_balanced r"

definition AVL_invar :: "AVLnode \<Rightarrow> bool" where
  "AVL_invar t \<longleftrightarrow> avl_balanced t \<and> sorted_wrt (<) (strings t)"

lemma strings_simps [simp]: "strings NULL = []" "strings (AVL b tk l r) = strings l @ valStr tk # strings r"
  by (simp_all add: strings_def)

lemma sorted_strings_node:
  "sorted_wrt (<) (strings (AVL b tk l r)) \<longleftrightarrow> sorted_wrt (<) (strings l) \<and> sorted_wrt (<) (strings r)
     \<and> (\<forall>x \<in> set (strings l). x < valStr tk) \<and> (\<forall>x \<in> set (strings r). valStr tk < x)"
  by (auto simp: sorted_wrt_append dest: order.strict_trans)

section \<open>Insertion by recursion\<close>

text \<open>The search path of a string that is not in the tree, and the deepest node on it whose balance is not 0.\<close>

fun search_path :: "string \<Rightarrow> AVLnode \<Rightarrow> side list" where
  "search_path val NULL = []"
| "search_path val (AVL b tk l r) = (if val < valStr tk then Left_Side # search_path val l else Right_Side # search_path val r)"

fun deepest :: "string \<Rightarrow> AVLnode \<Rightarrow> side list option" where
  "deepest val NULL = None"
| "deepest val (AVL b tk l r) =
     (case (if val < valStr tk then map_option ((#) Left_Side) (deepest val l) else map_option ((#) Right_Side) (deepest val r)) of
        Some q \<Rightarrow> Some q
      | None \<Rightarrow> if b \<noteq> 0 then Some [] else None)"

fun hang :: "AVLnode \<Rightarrow> string \<Rightarrow> AVLnode \<Rightarrow> AVLnode" where
  "hang N val NULL = N"
| "hang N val (AVL b tk l r) = (if val < valStr tk then AVL b tk (hang N val l) r else AVL b tk l (hang N val r))"

fun hang_adjust :: "AVLnode \<Rightarrow> string \<Rightarrow> AVLnode \<Rightarrow> AVLnode" where
  "hang_adjust N val NULL = N"
| "hang_adjust N val (AVL b tk l r) =
     (if val < valStr tk then AVL (b + 1) tk (hang_adjust N val l) r else AVL (b - 1) tk l (hang_adjust N val r))"

fun avl_insert :: "AVLnode \<Rightarrow> string \<Rightarrow> AVLnode \<Rightarrow> AVLnode outcome" where
  "avl_insert N val NULL = Inr N"
| "avl_insert N val (AVL b tk l r) =
     (if val < valStr tk then
        if deepest val l = None then AVL_rebalance (hang_adjust N val (AVL b tk l r))
        else bindE (avl_insert N val l) (\<lambda>l. Inr (AVL b tk l r))
      else
        if deepest val r = None then AVL_rebalance (hang_adjust N val (AVL b tk l r))
        else bindE (avl_insert N val r) (\<lambda>r. Inr (AVL b tk l r)))"

lemma descend_new:
  assumes "val \<notin> set (strings t)"
  shows "AVL_descend val t p a = Inr (p @ search_path val t, case deepest val t of None \<Rightarrow> a | Some q \<Rightarrow> p @ q)"
  using assms
proof (induction t arbitrary: p a)
  case (AVL b tk l r)
  have "strcmp val (valStr tk) \<noteq> 0" using AVL.prems by (simp add: strcmp_eq del: strcmp_less)
  then have gt: "strcmp val (valStr tk) > 0 \<longleftrightarrow> \<not> val < valStr tk" using strcmp_less [of val "valStr tk"] by linarith
  with AVL show ?case by (auto simp: Let_def split: option.splits)
qed simp

lemma descend_found:
  assumes "val \<in> set (strings t)" "sorted_wrt (<) (strings t)"
  shows "\<exists>tk \<in> set (tokens t). valStr tk = val \<and> AVL_descend val t p a = Inl tk"
  using assms
proof (induction t arbitrary: p a)
  case (AVL b tk l r)
  note sorted = AVL.prems(2) [unfolded sorted_strings_node]
  consider "val < valStr tk" "val \<in> set (strings l)" | "val = valStr tk" | "valStr tk < val" "val \<in> set (strings r)"
    using AVL.prems(1) sorted by auto
  then show ?case
  proof cases
    case 1
    then show ?thesis using AVL.IH(1) sorted by (auto simp: Let_def)
  next
    case 2
    then show ?thesis by (simp add: Let_def)
  next
    case 3
    then have "\<not> strcmp val (valStr tk) < 0" "strcmp val (valStr tk) \<noteq> 0" by auto
    then have "strcmp val (valStr tk) > 0" by linarith
    with 3 show ?thesis using AVL.IH(2) sorted by (auto simp: Let_def)
  qed
qed simp

text \<open>The new node hangs where the search path ends.\<close>

lemma hang_path: "set_subtree t (search_path val t) N = hang N val t"
  by (induction t) auto

lemma last_search_path:
  assumes "t \<noteq> NULL"
  shows "search_path val t \<noteq> [] \<and> side_of val (subtree t (butlast (search_path val t))) = last (search_path val t)"
  using assms
proof (induction t)
  case (AVL b tk l r)
  let ?sub = "if val < valStr tk then l else r"
  show ?case
  proof (cases "?sub = NULL")
    case True
    then show ?thesis by (auto simp: side_of_def split: if_splits)
  next
    case False
    then show ?thesis using AVL.IH by (auto split: if_splits)
  qed
qed simp

lemma hang_link:
  fixes val :: string
  assumes "t \<noteq> NULL"
  defines "PP \<equiv> butlast (search_path val t)"
  shows "set_subtree t (PP @ [side_of val (subtree t PP)]) N = hang N val t"
  using last_search_path [OF assms(1), of val] by (simp add: PP_def hang_path)

lemma adjust_hang: "AVL_adjust val (length (search_path val t)) (hang (AVL 0 tk NULL NULL) val t) = hang_adjust (AVL 0 tk NULL NULL) val t"
  by (induction t) auto

text \<open>The code is the recursive insertion, up to the link from \<^verbatim>\<open>PA\<close>.\<close>

definition A_path :: "string \<Rightarrow> AVLnode \<Rightarrow> side list" where
  "A_path val t = (case deepest val t of None \<Rightarrow> [] | Some q \<Rightarrow> q)"

lemma deepest_NULL: "deepest val t = Some q \<Longrightarrow> t \<noteq> NULL"
  by (cases t) simp_all

lemma insert_at_A:
  assumes "t \<noteq> NULL"
  shows "bindE (AVL_rebalance (AVL_adjust val (length (search_path val t) - length (A_path val t))
      (subtree (hang (AVL 0 tk NULL NULL) val t) (A_path val t))))
    (\<lambda>A. Inr (set_subtree (hang (AVL 0 tk NULL NULL) val t) (A_path val t) A)) = avl_insert (AVL 0 tk NULL NULL) val t"
  using assms
proof (induction t)
  case (AVL b k l r)
  let ?N = "AVL 0 tk NULL NULL"
  define sub where "sub = (if val < valStr k then l else r)"
  show ?case
  proof (cases "deepest val sub")
    case None
    then have "A_path val (AVL b k l r) = []" by (auto simp: A_path_def sub_def split: if_splits)
    with None adjust_hang [of val "AVL b k l r" tk] show ?thesis
      by (auto simp: sub_def bindE_def split: sum.splits if_splits simp del: AVL_adjust.simps hang.simps)
  next
    case (Some q)
    then have path: "A_path val (AVL b k l r) = (if val < valStr k then Left_Side else Right_Side) # q" "A_path val sub = q"
      by (auto simp: A_path_def sub_def split: if_splits)
    have "bindE (AVL_rebalance (AVL_adjust val (length (search_path val sub) - length q) (subtree (hang ?N val sub) q)))
        (\<lambda>A. Inr (set_subtree (hang ?N val sub) q A)) = avl_insert ?N val sub"
      using AVL.IH deepest_NULL [OF Some] path(2) by (auto simp: sub_def split: if_splits)
    with Some path show ?thesis by (auto simp: sub_def bindE_def split: sum.splits if_splits)
  qed
qed simp

section \<open>The tree after an insertion\<close>

lemma tokens_rebalance:
  assumes "AVL_rebalance A = Inr A'"
  shows "tokens A' = tokens A" "A \<noteq> NULL \<Longrightarrow> A' \<noteq> NULL"
proof -
  have bal: "tokens (set_balance x t) = tokens t" "set_balance x t = NULL \<longleftrightarrow> t = NULL" for x t by (cases t; simp)+
  then have bal_lr: "tokens (set_left_balance x t) = tokens t" "set_left_balance x t = NULL \<longleftrightarrow> t = NULL"
    "tokens (set_right_balance x t) = tokens t" "set_right_balance x t = NULL \<longleftrightarrow> t = NULL" for x t by (cases t; simp)+
  have right: "tokens t' = tokens t \<and> t' \<noteq> NULL" if "ReadjustRight t = Inr t'" for t t'
    using that by (cases t rule: ReadjustRight.cases) auto
  have left: "tokens t' = tokens t \<and> t' \<noteq> NULL" if "ReadjustLeft t = Inr t'" for t t'
    using that by (cases t rule: ReadjustLeft.cases) auto
  have "tokens t' = tokens t \<and> t' \<noteq> NULL" if "ReadjustLeftRight t = Inr t'" for t t'
    using that by (cases t) (auto simp: bindE_eq_Inr dest!: right left)
  moreover have "tokens t' = tokens t \<and> t' \<noteq> NULL" if "ReadjustRightLeft t = Inr t'" for t t'
    using that by (cases t) (auto simp: bindE_eq_Inr dest!: right left)
  ultimately have "tokens A' = tokens A \<and> (A \<noteq> NULL \<longrightarrow> A' \<noteq> NULL)"
    using assms right left
    by (auto simp: AVL_rebalance_def double_balances_def bindE_eq_Inr bal bal_lr split: if_splits)
  then show "tokens A' = tokens A" "A \<noteq> NULL \<Longrightarrow> A' \<noteq> NULL" by simp_all
qed

lemma tokens_hang_adjust: "tokens (hang_adjust N val t) = tokens (hang N val t)"
  by (induction t) auto

lemma set_tokens_hang: "set (tokens (hang (AVL 0 tk NULL NULL) val t)) = insert tk (set (tokens t))"
  by (induction t) auto

lemma sorted_hang:
  assumes "sorted_wrt (<) (strings t)" "valStr tk \<notin> set (strings t)"
  shows "sorted_wrt (<) (strings (hang (AVL 0 tk NULL NULL) (valStr tk) t))"
  using assms
proof (induction t)
  case (AVL b k l r)
  have set: "set (strings (hang (AVL 0 tk NULL NULL) (valStr tk) x)) = insert (valStr tk) (set (strings x))" for x
    by (simp add: strings_def set_tokens_hang)
  have ne: "valStr tk \<notin> set (strings l)" "valStr tk \<notin> set (strings r)" "valStr tk \<noteq> valStr k" using AVL.prems(2) by auto
  note sorted = AVL.prems(1) [unfolded sorted_strings_node]
  show ?case
  proof (cases "valStr tk < valStr k")
    case True
    with AVL.IH(1) sorted ne show ?thesis by (simp add: sorted_strings_node set del: strings_simps)
  next
    case False
    with ne(3) have "valStr k < valStr tk" by simp
    with False AVL.IH(2) sorted ne show ?thesis by (simp add: sorted_strings_node set del: strings_simps)
  qed
qed simp

text \<open>Below the deepest node that is out of balance, the subtree grows by one level and its root leans to the side of the new node.\<close>

lemma hang_adjust_zero:
  fixes tk :: s_StrInd
  assumes "avl_balanced t" "deepest val t = None"
  defines "t' \<equiv> hang_adjust (AVL 0 tk NULL NULL) val t"
  shows "avl_balanced t' \<and> avl_height t' = Suc (avl_height t) \<and> (t \<noteq> NULL \<longrightarrow> balance t' = 1 \<or> balance t' = - 1)"
  using assms(1,2) unfolding t'_def
proof (induction t)
  case (AVL b k l r)
  then show ?case by (auto split: if_splits option.splits)
qed simp

text \<open>The rotations restore the balance and the height.\<close>

lemma rebalance_left_high:
  assumes "avl_balanced l" "avl_balanced r" "avl_height l = avl_height r + 2" "balance l = 1 \<or> balance l = - 1"
  shows "returnsE (AVL_rebalance (AVL 2 k l r)) (\<lambda>A. avl_balanced A \<and> avl_height A = avl_height l)"
proof (cases l)
  case (AVL bl kl ll lr)
  show ?thesis
  proof (cases "bl = 1")
    case True
    with assms AVL show ?thesis by (auto simp: AVL_rebalance_def)
  next
    case False
    with assms AVL have "bl = - 1" "avl_height lr = Suc (avl_height ll)" by auto
    then obtain b kk x y where lr: "lr = AVL b kk x y" by (cases lr) auto
    with \<open>bl = - 1\<close> assms AVL show ?thesis
      by (auto simp: AVL_rebalance_def double_balances_def)
  qed
qed (use assms in simp)

lemma rebalance_right_high:
  assumes "avl_balanced l" "avl_balanced r" "avl_height r = avl_height l + 2" "balance r = 1 \<or> balance r = - 1"
  shows "returnsE (AVL_rebalance (AVL (- 2) k l r)) (\<lambda>A. avl_balanced A \<and> avl_height A = avl_height r)"
proof (cases r)
  case (AVL br kr rl rr)
  show ?thesis
  proof (cases "br = - 1")
    case True
    with assms AVL show ?thesis by (auto simp: AVL_rebalance_def)
  next
    case False
    with assms AVL have "br = 1" "avl_height rl = Suc (avl_height rr)" by auto
    then obtain b kk x y where rl: "rl = AVL b kk x y" by (cases rl) auto
    with \<open>br = 1\<close> assms AVL show ?thesis
      by (auto simp: AVL_rebalance_def double_balances_def)
  qed
qed (use assms in simp)

lemma insert_here:
  fixes tk :: s_StrInd
  assumes t: "avl_balanced (AVL b k l r)" and zero: "deepest val (if val < valStr k then l else r) = None"
  defines "t' \<equiv> hang_adjust (AVL 0 tk NULL NULL) val (AVL b k l r)"
  shows "returnsE (AVL_rebalance t') (\<lambda>A. avl_balanced A \<and> (b \<noteq> 0 \<longrightarrow> avl_height A = avl_height (AVL b k l r)))"
proof (cases "val < valStr k")
  case True
  define l' where "l' = hang_adjust (AVL 0 tk NULL NULL) val l"
  have l': "avl_balanced l'" "avl_height l' = Suc (avl_height l)" "l \<noteq> NULL \<longrightarrow> balance l' = 1 \<or> balance l' = - 1"
    using hang_adjust_zero [of l val tk] t zero True by (simp_all add: l'_def)
  have t': "t' = AVL (b + 1) k l' r" using True by (simp add: t'_def l'_def)
  show ?thesis
  proof (cases "b = 1")
    case True
    then have "l \<noteq> NULL" using t by auto
    with rebalance_left_high [of l' r k] l' t True show ?thesis by (auto simp: t' elim!: returnsE_mono)
  next
    case False
    with t l' have "b = 0 \<or> b = - 1" by auto
    with t l' show ?thesis by (auto simp: t' AVL_rebalance_def)
  qed
next
  case False
  define r' where "r' = hang_adjust (AVL 0 tk NULL NULL) val r"
  have r': "avl_balanced r'" "avl_height r' = Suc (avl_height r)" "r \<noteq> NULL \<longrightarrow> balance r' = 1 \<or> balance r' = - 1"
    using hang_adjust_zero [of r val tk] t zero False by (simp_all add: r'_def)
  have t': "t' = AVL (b - 1) k l r'" using False by (simp add: t'_def r'_def)
  show ?thesis
  proof (cases "b = - 1")
    case True
    then have r: "r \<noteq> NULL" "avl_height r = Suc (avl_height l)" using t by auto
    with rebalance_right_high [of l r' k] r' t
    have "returnsE (AVL_rebalance (AVL (- 2) k l r')) (\<lambda>A. avl_balanced A \<and> avl_height A = avl_height r')" by simp
    with True r r' show ?thesis by (simp add: t')
  next
    case False
    with t r' have "b = 0 \<or> b = 1" by auto
    with t r' show ?thesis by (auto simp: t' AVL_rebalance_def)
  qed
qed

lemma avl_insert_balanced:
  assumes "avl_balanced t"
  shows "returnsE (avl_insert (AVL 0 tk NULL NULL) val t)
    (\<lambda>t'. avl_balanced t' \<and> (deepest val t \<noteq> None \<longrightarrow> avl_height t' = avl_height t) \<and> tokens t' = tokens (hang (AVL 0 tk NULL NULL) val t))"
  using assms
proof (induction t)
  case (AVL b k l r)
  let ?N = "AVL 0 tk NULL NULL"
  show ?case
  proof (cases "deepest val (if val < valStr k then l else r) = None")
    case True
    have ins: "avl_insert ?N val (AVL b k l r) = AVL_rebalance (hang_adjust ?N val (AVL b k l r))" using True by (auto split: if_splits)
    have deep: "deepest val (AVL b k l r) \<noteq> None \<longleftrightarrow> b \<noteq> 0" using True by (auto split: if_splits)
    obtain A where A: "AVL_rebalance (hang_adjust ?N val (AVL b k l r)) = Inr A"
      "avl_balanced A \<and> (b \<noteq> 0 \<longrightarrow> avl_height A = avl_height (AVL b k l r))"
      using insert_here [OF AVL.prems True, of tk] by (rule returnsE_E)
    have "tokens A = tokens (hang ?N val (AVL b k l r))"
      using tokens_rebalance(1) [OF A(1)] tokens_hang_adjust [of ?N val "AVL b k l r"] by (rule trans)
    with A(2) show ?thesis unfolding ins A(1) returnsE_Inr deep by blast
  next
    case False
    with AVL show ?thesis by (auto simp: returnsE_def bindE_def split: sum.splits if_splits option.splits)
  qed
qed simp

text \<open>The link from the parent of \<^verbatim>\<open>A\<close>: a string of the subtree belongs on the side where the subtree hangs.\<close>

lemma strings_subtree: "set (strings (subtree R p)) \<subseteq> set (strings R)"
  by (induction R p rule: subtree.induct) auto

lemma side_of_subtree:
  assumes "sorted_wrt (<) (strings R)" "a \<noteq> []" "k \<in> set (strings (subtree R a))"
  shows "side_of k (subtree R (butlast a)) = last a"
  using assms
proof (induction R a rule: subtree.induct)
  case (2 b tk l r p)
  note sorted = 2(2) [unfolded sorted_strings_node]
  have "k \<in> set (strings l)" using strings_subtree [of l p] 2(4) by auto
  with 2 sorted show ?case by (cases p) (auto simp: side_of_def)
next
  case (3 b tk l r p)
  note sorted = 3(2) [unfolded sorted_strings_node]
  have "k \<in> set (strings r)" using strings_subtree [of r p] 3(4) by auto
  with 3 sorted show ?case by (cases p) (auto simp: side_of_def)
qed simp_all

lemma tokens_adjust: "tokens (AVL_adjust val n B) = tokens B" "AVL_adjust val n B = NULL \<longleftrightarrow> B = NULL"
  by (induction val n B rule: AVL_adjust.induct) auto

lemma strings_A:
  assumes "AVL_rebalance (AVL_adjust val n B) = Inr A" "B \<noteq> NULL"
  shows "valStr (token A) \<in> set (strings B)"
proof -
  have "tokens A = tokens B" "A \<noteq> NULL" using tokens_rebalance [OF assms(1)] tokens_adjust [of val n B] assms(2) by simp_all
  moreover have "token A \<in> set (tokens A)" using \<open>A \<noteq> NULL\<close> by (cases A) simp_all
  ultimately show ?thesis by (simp add: strings_def)
qed

lemma subtree_A_path: "t \<noteq> NULL \<Longrightarrow> subtree (hang (AVL 0 tk NULL NULL) val t) (A_path val t) \<noteq> NULL"
proof (induction t)
  case (AVL b k l r)
  have "subtree (hang (AVL 0 tk NULL NULL) val x) q \<noteq> NULL" if "x = l \<or> x = r" "deepest val x = Some q" for x q
    using that AVL.IH deepest_NULL [OF that(2)] by (auto simp: A_path_def split: option.splits)
  then show ?case by (auto simp: A_path_def split: option.splits if_splits)
qed simp

section \<open>The contract of the table\<close>

lemma AVLadd_new:
  assumes invar: "AVL_invar R" and val: "length val < MAX_SEM_LEN" "val \<notin> set (strings R)"
  defines "tk \<equiv> \<lparr>valStr = val, indStr = - 1\<rparr>"
  shows "returnsE (AVLadd val R) (\<lambda>(tk', R'). tk' = tk \<and> AVL_invar R' \<and> set (tokens R') = insert tk (set (tokens R)))"
proof -
  let ?N = "AVL 0 tk NULL NULL"
  define a where "a = A_path val R"
  have bal: "avl_balanced R" and sorted: "sorted_wrt (<) (strings R)" using invar by (simp_all add: AVL_invar_def)
  obtain R' where R': "avl_insert ?N val R = Inr R'" "avl_balanced R'" "tokens R' = tokens (hang ?N val R)"
    using avl_insert_balanced [OF bal, of tk val] by (auto elim: returnsE_E)
  have sorted': "sorted_wrt (<) (strings (hang ?N val R))" using sorted_hang [OF sorted, of tk] val(2) by (simp add: tk_def)
  have "AVL_invar R'" using R'(2,3) sorted' by (simp add: AVL_invar_def strings_def)
  moreover have "set (tokens R') = insert tk (set (tokens R))" using R'(3) by (simp add: set_tokens_hang)
  moreover have "AVLadd val R = Inr (tk, R')"
  proof (cases "R = NULL")
    case True
    then show ?thesis using R'(1) val by (simp add: AVLadd_def SETSTR_def tk_def)
  next
    case False
    from insert_at_A [OF False, of val tk] R'(1) obtain A
      where A: "AVL_rebalance (AVL_adjust val (length (search_path val R) - length a) (subtree (hang ?N val R) a)) = Inr A"
        "set_subtree (hang ?N val R) a A = R'"
      unfolding a_def by (auto simp: bindE_eq_Inr)
    have side: "butlast a @ [side_of (valStr (token A)) (subtree (hang ?N val R) (butlast a))] = a" if "a \<noteq> []"
      using side_of_subtree [OF sorted' that strings_A [OF A(1)]] subtree_A_path [OF False, of tk val] that by (simp add: a_def)
    have "AVL_descend val R [] [] = Inr (search_path val R, a)"
      using descend_new [OF val(2), of "[]" "[]"] by (simp add: a_def A_path_def split: option.splits)
    then show ?thesis using False val(1) A side hang_link [OF False, of val ?N]
      by (auto simp: AVLadd_def SETSTR_def tk_def Let_def)
  qed
  ultimately show ?thesis by simp
qed

lemma AVLadd_old:
  assumes "AVL_invar R" "length val < MAX_SEM_LEN" "val \<in> set (strings R)"
  shows "returnsE (AVLadd val R) (\<lambda>(tk, R'). R' = R \<and> tk \<in> set (tokens R) \<and> valStr tk = val)"
proof -
  have "R \<noteq> NULL" using assms(3) by auto
  with descend_found [OF assms(3), of "[]" "[]"] assms(1,2) show ?thesis by (auto simp: AVLadd_def SETSTR_def AVL_invar_def Let_def)
qed

lemma AVLadd_overflow: "MAX_SEM_LEN \<le> length val \<Longrightarrow> AVLadd val R = Inl Out_Of_Bounds"
  by (simp add: AVLadd_def SETSTR_def)

section \<open>Bounds\<close>

text \<open>A descent compares with at most as many strings as the tree is high, and a balanced tree is not high.\<close>

lemma search_path_height: "length (search_path val t) \<le> avl_height t"
  by (induction t) auto

lemma avl_height_bound:
  assumes "avl_balanced t"
  shows "2 ^ (avl_height t div 2) \<le> Suc (length (tokens t))"
  using assms
proof (induction t)
  case (AVL b k l r)
  let ?h = "max (avl_height l) (avl_height r)"
  show ?case
  proof (cases "?h = 0")
    case False
    then obtain m where m: "?h = Suc m" by (cases ?h) simp_all
    have lr: "m \<le> avl_height l" "m \<le> avl_height r" using AVL.prems m by (auto simp: max_def split: if_splits)
    have p: "2 ^ (m div 2) \<le> (2 :: nat) ^ (avl_height l div 2)" "2 ^ (m div 2) \<le> (2 :: nat) ^ (avl_height r div 2)"
      using lr by (simp_all add: div_le_mono)
    have "2 ^ (m div 2) \<le> Suc (length (tokens l))" "2 ^ (m div 2) \<le> Suc (length (tokens r))"
      using order_trans [OF p(1) AVL.IH(1)] order_trans [OF p(2) AVL.IH(2)] AVL.prems by simp_all
    moreover have "(2 :: nat) ^ (avl_height (AVL b k l r) div 2) = 2 * 2 ^ (m div 2)" using m by simp
    ultimately show ?thesis by simp
  qed simp
qed simp

lemma AVL_descend_bound:
  assumes "AVL_invar R" "AVL_descend val R [] [] = Inr (p, a)"
  shows "2 ^ (length p div 2) \<le> length (strings R) + 1"
proof -
  have "val \<notin> set (strings R)" using descend_found [of val R "[]" "[]"] assms by (auto simp: AVL_invar_def)
  from descend_new [OF this, of "[]" "[]"] assms(2) have "length p \<le> avl_height R" using search_path_height by simp
  then have "(2 :: nat) ^ (length p div 2) \<le> 2 ^ (avl_height R div 2)" by (simp add: div_le_mono)
  also have "\<dots> \<le> length (strings R) + 1" using avl_height_bound [of R] assms(1) by (simp add: AVL_invar_def strings_def)
  finally show ?thesis .
qed

end
