(* ===== verification/Gensyn_Table.thy ===== *)
theory Gensyn_Table
  imports Gensyn_Avl
begin

text \<open>
  The symbol tables of the parser generator (\<^verbatim>\<open>src/src/common/targ_info/parser/gensyn/src/table.c\<close>): terminals, non-terminals, lexemes and
  variables, each an AVL tree of strings.  When the grammar has been read, the strings are numbered in their order and the tables
  are printed in the same order; the generated parser uses the numbers to index the tables.
\<close>

section \<open>The contract of a table of strings\<close>

locale string_table =
  fixes add :: "string \<Rightarrow> 't \<Rightarrow> ('k \<times> 't) outcome" and invar :: "'t \<Rightarrow> bool" and entries :: "'t \<Rightarrow> 'k set"
    and name_of :: "'k \<Rightarrow> string" and fits :: "string \<Rightarrow> bool"
  assumes add_new: "invar t \<Longrightarrow> fits s \<Longrightarrow> s \<notin> name_of ` entries t \<Longrightarrow>
      returnsE (add s t) (\<lambda>(k, t'). invar t' \<and> name_of k = s \<and> entries t' = insert k (entries t))"
    and add_old: "invar t \<Longrightarrow> fits s \<Longrightarrow> s \<in> name_of ` entries t \<Longrightarrow>
      returnsE (add s t) (\<lambda>(k, t'). t' = t \<and> k \<in> entries t \<and> name_of k = s)"
    and names_inj: "invar t \<Longrightarrow> inj_on name_of (entries t)"
begin

lemma add_any:
  assumes "invar t" "fits s"
  shows "returnsE (add s t) (\<lambda>(k, t'). invar t' \<and> name_of k = s \<and> entries t' = insert k (entries t))"
proof (cases "s \<in> name_of ` entries t")
  case True
  from add_old [OF assms True] show ?thesis by (rule returnsE_mono) (use assms in auto)
qed (rule add_new [OF assms])

text \<open>All strings of a list, with the entries that they got.\<close>

fun add_all :: "string list \<Rightarrow> 't \<Rightarrow> ('k list \<times> 't) outcome" where
  "add_all [] t = Inr ([], t)"
| "add_all (s # ss) t = bindE (add s t) (\<lambda>(k, t). bindE (add_all ss t) (\<lambda>(ks, t). Inr (k # ks, t)))"

lemma add_all_entries:
  assumes "invar t" "\<forall>s \<in> set ss. fits s"
  shows "returnsE (add_all ss t) (\<lambda>(ks, t'). invar t' \<and> map name_of ks = ss \<and> entries t' = set ks \<union> entries t)"
  using assms
proof (induction ss arbitrary: t)
  case (Cons s ss)
  obtain k u where u: "add s t = Inr (k, u)" "invar u" "name_of k = s" "entries u = insert k (entries t)"
    using add_any [of t s] Cons.prems by (auto elim!: returnsE_E)
  from Cons.IH [OF u(2)] Cons.prems show ?case by (auto simp: u elim!: returnsE_E)
qed simp

text \<open>Equal strings get the same entry, and entries of the table are told apart by their strings.\<close>

lemma add_all_interns:
  assumes "invar t" "\<forall>s \<in> set ss. fits s"
  shows "returnsE (add_all ss t) (\<lambda>(ks, t'). \<forall>i < length ss. \<forall>j < length ss. ss ! i = ss ! j \<longleftrightarrow> ks ! i = ks ! j)"
  using add_all_entries [OF assms]
proof (rule returnsE_mono, clarify)
  fix ks t' i j
  assume t': "invar t'" "entries t' = set ks \<union> entries t" and ij: "i < length (map name_of ks)" "j < length (map name_of ks)"
  then have "ks ! i \<in> entries t'" "ks ! j \<in> entries t'" by simp_all
  with names_inj [OF t'(1)] ij show "map name_of ks ! i = map name_of ks ! j \<longleftrightarrow> ks ! i = ks ! j"
    by (auto simp: inj_on_def)
qed

end

lemma strings_inj: "AVL_invar t \<Longrightarrow> inj_on valStr (set (tokens t))"
proof -
  assume "AVL_invar t"
  then have "sorted_wrt (<) (strings t)" by (simp add: AVL_invar_def)
  then have "distinct (strings t)" by (simp add: strict_sorted_iff)
  then show ?thesis by (simp add: strings_def distinct_map)
qed

interpretation avl: string_table AVLadd AVL_invar "\<lambda>t. set (tokens t)" valStr "\<lambda>s. length s < MAX_SEM_LEN"
proof (unfold_locales, goal_cases)
  case (1 t s)
  then show ?case using AVLadd_new [of t s] by (auto simp: strings_def elim!: returnsE_mono)
next
  case (2 t s)
  then show ?case using AVLadd_old [of t s] by (auto simp: strings_def)
qed (rule strings_inj)

section \<open>The tables\<close>

record gensyn_tables =
  termTable :: AVLnode
  nontermTable :: AVLnode
  lexTable :: AVLnode
  varTable :: AVLnode

definition InitAllTables :: gensyn_tables where
  "InitAllTables = \<lparr>termTable = NULL, nontermTable = NULL, lexTable = NULL, varTable = NULL\<rparr>"

definition AddVar :: "string \<Rightarrow> gensyn_tables \<Rightarrow> (s_StrInd \<times> gensyn_tables) outcome" where
  "AddVar val T = bindE (AVLadd val (varTable T)) (\<lambda>(tk, t). Inr (tk, T\<lparr>varTable := t\<rparr>))"

definition AddLexem :: "string \<Rightarrow> gensyn_tables \<Rightarrow> (s_StrInd \<times> gensyn_tables) outcome" where
  "AddLexem val T = bindE (AVLadd val (lexTable T)) (\<lambda>(tk, t). Inr (tk, T\<lparr>lexTable := t\<rparr>))"

definition AddTerminal :: "string \<Rightarrow> gensyn_tables \<Rightarrow> (s_StrInd \<times> gensyn_tables) outcome" where
  "AddTerminal val T = bindE (AVLadd val (termTable T)) (\<lambda>(tk, t). Inr (tk, T\<lparr>termTable := t\<rparr>))"

definition AddNonTerminal :: "string \<Rightarrow> gensyn_tables \<Rightarrow> (s_StrInd \<times> gensyn_tables) outcome" where
  "AddNonTerminal val T = bindE (AVLadd val (nontermTable T)) (\<lambda>(tk, t). Inr (tk, T\<lparr>nontermTable := t\<rparr>))"

section \<open>Numbering\<close>

text \<open>\<^verbatim>\<open>assignAVLindex\<close>, with the value of \<^verbatim>\<open>indexAVL\<close> before and after.\<close>

fun assignAVLindex :: "AVLnode \<Rightarrow> int \<Rightarrow> AVLnode \<times> int" where
  "assignAVLindex NULL i = (NULL, i)"
| "assignAVLindex (AVL b tk l r) i =
     (let (l, i) = assignAVLindex l i;
          tk = tk\<lparr>indStr := i\<rparr>; i = i + 1;
          (r, i) = assignAVLindex r i in
      (AVL b tk l r, i))"

definition AssignTermIndex :: "gensyn_tables \<Rightarrow> gensyn_tables" where
  "AssignTermIndex T = T\<lparr>termTable := fst (assignAVLindex (termTable T) 0)\<rparr>"

definition AssignNonTermIndex :: "gensyn_tables \<Rightarrow> gensyn_tables" where
  "AssignNonTermIndex T = T\<lparr>nontermTable := fst (assignAVLindex (nontermTable T) 0)\<rparr>"

section \<open>Printing\<close>

text \<open>The static variables of the printing functions, with what has been written.\<close>

record display_state =
  firstPrint :: bool
  numPrinted :: int
  table_idx :: int
  out :: string

fun AVLSize :: "AVLnode \<Rightarrow> int \<Rightarrow> int" where
  "AVLSize NULL n = n"
| "AVLSize (AVL b tk l r) n = AVLSize r (AVLSize l n + 1)"

text \<open>Between the two recursive calls of \<^verbatim>\<open>DisplayAVL\<close>.\<close>

definition display_one :: "s_StrInd \<Rightarrow> int \<Rightarrow> string \<Rightarrow> display_state \<Rightarrow> display_state" where
  "display_one tk numPerLine format s =
     (let s = (if firstPrint s then s\<lparr>firstPrint := False\<rparr>
               else
                 let s = s\<lparr>out := out s @ '', /* '' @ print_int (table_idx s) @ '' */'', table_idx := table_idx s + 1\<rparr> in
                 if crem (numPrinted s) numPerLine = 0 then s\<lparr>out := out s @ NL\<rparr> else s);
          s = s\<lparr>numPrinted := numPrinted s + 1\<rparr> in
      s\<lparr>out := out s @ printf_s format (valStr tk)\<rparr>)"

fun DisplayAVL :: "AVLnode \<Rightarrow> int \<Rightarrow> string \<Rightarrow> display_state \<Rightarrow> display_state" where
  "DisplayAVL NULL numPerLine format s = s"
| "DisplayAVL (AVL b tk l r) numPerLine format s =
     DisplayAVL r numPerLine format (display_one tk numPerLine format (DisplayAVL l numPerLine format s))"

text \<open>What the functions print: first the display of a table with the comment that follows it.\<close>

definition display_table :: "AVLnode \<Rightarrow> int \<Rightarrow> string \<Rightarrow> string" where
  "display_table t numPerLine format =
     (let s = DisplayAVL t numPerLine format \<lparr>firstPrint = True, numPrinted = 0, table_idx = 0, out = []\<rparr> in
      out s @ ''  /* '' @ print_int (table_idx s) @ '' */'')"

definition PrintTermTable :: "gensyn_tables \<Rightarrow> string" where
  "PrintTermTable T =
     (if AVLSize (termTable T) 0 > 0 then
        ''static PARSER_stringT stringTable[] = {'' @ NL
        @ display_table (termTable T) 8 (TAB @ QUOTE @ ''%s'' @ QUOTE)
        @ NL @ ''} ;'' @ NL @ NL
        @ ''static PARSER_u16T stringTableSize = ''
        @ print_int (numPrinted (DisplayAVL (termTable T) 8 (TAB @ QUOTE @ ''%s'' @ QUOTE)
                                  \<lparr>firstPrint = True, numPrinted = 0, table_idx = 0, out = []\<rparr>))
        @ '' ;'' @ NL @ NL
      else [])"

definition PrintNonTermTable :: "gensyn_tables \<Rightarrow> string" where
  "PrintNonTermTable T =
     (if AVLSize (nontermTable T) 0 > 0 then
        ''static PARSER_nodeSemT *semTable[] = {'' @ NL
        @ display_table (nontermTable T) 4 (TAB @ ''NTR_%s'')
        @ NL @ ''} ;'' @ NL @ NL
        @ ''static PARSER_u16T semTableSize = ''
        @ print_int (numPrinted (DisplayAVL (nontermTable T) 4 (TAB @ ''NTR_%s'')
                                  \<lparr>firstPrint = True, numPrinted = 0, table_idx = 0, out = []\<rparr>))
        @ '' ;'' @ NL @ NL
      else [])"

definition PrintLexTable :: "gensyn_tables \<Rightarrow> string" where
  "PrintLexTable T = display_table (lexTable T) 8 (TAB @ ''LEX_%s'')"

definition PrintVarTable :: "gensyn_tables \<Rightarrow> string" where
  "PrintVarTable T =
     (if AVLSize (varTable T) 0 > 0 then
        ''PARSER_FieldT '' @ display_table (varTable T) 16 '' %s'' @ '' ;'' @ NL @ NL
        @ ''PARSER_FieldT *ffieldTable[] = {'' @ NL
        @ display_table (varTable T) 32 '' &%s''
        @ NL @ ''} ;'' @ NL @ NL
        @ ''PARSER_u16T ffieldTableSize = ''
        @ print_int (numPrinted (DisplayAVL (varTable T) 32 '' &%s''
                                  \<lparr>firstPrint = True, numPrinted = 0, table_idx = 0, out = []\<rparr>))
        @ '' ;'' @ NL @ NL
      else [])"


section \<open>The numbers\<close>

text \<open>Numbering goes through the tokens in their order.\<close>

fun number :: "int \<Rightarrow> s_StrInd list \<Rightarrow> s_StrInd list" where
  "number i [] = []"
| "number i (tk # tks) = tk\<lparr>indStr := i\<rparr> # number (i + 1) tks"

lemma number_append: "number i (xs @ ys) = number i xs @ number (i + int (length xs)) ys"
  by (induction xs arbitrary: i) (simp_all add: algebra_simps)

lemma length_number [simp]: "length (number i tks) = length tks"
  by (induction tks arbitrary: i) simp_all

lemma number_nth: "k < length tks \<Longrightarrow> number i tks ! k = (tks ! k)\<lparr>indStr := i + int k\<rparr>"
  by (induction tks arbitrary: i k) (auto simp: less_Suc_eq_0_disj algebra_simps)

lemma map_valStr_number [simp]: "map valStr (number i tks) = map valStr tks"
  by (induction tks arbitrary: i) simp_all

lemma assignAVLindex_tokens:
  "tokens (fst (assignAVLindex t i)) = number i (tokens t) \<and> snd (assignAVLindex t i) = i + int (length (tokens t))"
  by (induction t arbitrary: i) (simp_all add: Let_def split_beta number_append algebra_simps)

lemma assignAVLindex_strings [simp]: "strings (fst (assignAVLindex t i)) = strings t"
  by (simp add: strings_def assignAVLindex_tokens)

lemma assignAVLindex_balanced: "avl_balanced t \<Longrightarrow> avl_balanced (fst (assignAVLindex t i)) \<and> avl_height (fst (assignAVLindex t i)) = avl_height t"
  by (induction t arbitrary: i) (auto simp: Let_def split_beta)

lemma assignAVLindex_invar: "AVL_invar t \<Longrightarrow> AVL_invar (fst (assignAVLindex t i))"
  using assignAVLindex_balanced [of t i] by (simp add: AVL_invar_def)

lemma assignAVLindex_nth:
  assumes "k < length (strings t)"
  shows "valStr (tokens (fst (assignAVLindex t 0)) ! k) = strings t ! k" "indStr (tokens (fst (assignAVLindex t 0)) ! k) = int k"
  using assms by (simp_all add: assignAVLindex_tokens number_nth strings_def)

section \<open>The rows\<close>

lemma AVLSize_tokens: "AVLSize t n = n + int (length (tokens t))"
  by (induction t arbitrary: n) simp_all

text \<open>What the printing functions write for the string of number \<open>i\<close>, after the comment that ends the row before it.\<close>

definition display_entry :: "int \<Rightarrow> string \<Rightarrow> nat \<Rightarrow> string \<Rightarrow> string" where
  "display_entry numPerLine format i s =
     (if i = 0 then [] else '', /* '' @ print_int (int i - 1) @ '' */'' @ (if crem (int i) numPerLine = 0 then NL else []))
     @ printf_s format s"

definition displayed :: "nat \<Rightarrow> string \<Rightarrow> display_state" where
  "displayed i w = \<lparr>firstPrint = (i = 0), numPrinted = int i, table_idx = int i - (if i = 0 then 0 else 1), out = w\<rparr>"

fun display_rows :: "int \<Rightarrow> string \<Rightarrow> nat \<Rightarrow> string list \<Rightarrow> string" where
  "display_rows numPerLine format i [] = []"
| "display_rows numPerLine format i (s # ss) = display_entry numPerLine format i s @ display_rows numPerLine format (Suc i) ss"

lemma display_rows_append:
  "display_rows numPerLine format i (xs @ ys) = display_rows numPerLine format i xs @ display_rows numPerLine format (i + length xs) ys"
  by (induction xs arbitrary: i) simp_all

lemma display_rows_concat: "display_rows numPerLine format i ss = concat (map (\<lambda>k. display_entry numPerLine format (i + k) (ss ! k)) [0..<length ss])"
  by (induction ss arbitrary: i) (simp_all add: map_upt_Suc del: upt_Suc)

lemma display_one_entry: "display_one tk numPerLine format (displayed i w) = displayed (Suc i) (w @ display_entry numPerLine format i (valStr tk))"
  by (cases i) (simp_all add: display_one_def displayed_def display_entry_def)

lemma DisplayAVL_rows:
  "DisplayAVL t numPerLine format (displayed i w) =
     displayed (i + length (strings t)) (w @ display_rows numPerLine format i (strings t))"
  by (induction t arbitrary: i w) (simp_all add: display_one_entry display_rows_append add.assoc)

lemma display_table_rows:
  assumes "0 < length (strings t)"
  shows "display_table t numPerLine format =
    display_rows numPerLine format 0 (strings t) @ ''  /* '' @ print_int (int (length (strings t)) - 1) @ '' */''"
    and "numPrinted (DisplayAVL t numPerLine format \<lparr>firstPrint = True, numPrinted = 0, table_idx = 0, out = []\<rparr>) = int (length (strings t))"
proof -
  have start: "\<lparr>firstPrint = True, numPrinted = 0, table_idx = 0, out = []\<rparr> = displayed 0 []" by (simp add: displayed_def)
  show "display_table t numPerLine format =
    display_rows numPerLine format 0 (strings t) @ ''  /* '' @ print_int (int (length (strings t)) - 1) @ '' */''"
    "numPrinted (DisplayAVL t numPerLine format \<lparr>firstPrint = True, numPrinted = 0, table_idx = 0, out = []\<rparr>) = int (length (strings t))"
    using assms unfolding display_table_def start by (simp_all add: DisplayAVL_rows Let_def) (simp_all add: displayed_def)
qed


section \<open>The four tables\<close>

definition tables_ok :: "gensyn_tables \<Rightarrow> bool" where
  "tables_ok T \<longleftrightarrow> AVL_invar (termTable T) \<and> AVL_invar (nontermTable T) \<and> AVL_invar (lexTable T) \<and> AVL_invar (varTable T)"

lemma InitAllTables_ok: "tables_ok InitAllTables"
  by (simp add: tables_ok_def InitAllTables_def AVL_invar_def)

lemma AssignIndex_ok: "tables_ok T \<Longrightarrow> tables_ok (AssignTermIndex T) \<and> tables_ok (AssignNonTermIndex T)"
  by (simp add: tables_ok_def AssignTermIndex_def AssignNonTermIndex_def assignAVLindex_invar)

text \<open>An addition to a table is an addition to its tree, and leaves the other tables alone.\<close>

lemma returnsE_table:
  assumes "returnsE (AVLadd s t) P" "\<And>tk t'. P (tk, t') \<Longrightarrow> Q (tk, upd t')"
  shows "returnsE (bindE (AVLadd s t) (\<lambda>(tk, t). Inr (tk, upd t))) Q"
  using assms by (auto elim!: returnsE_E)

lemmas table_laws = tables_ok_def AddVar_def AddLexem_def AddTerminal_def AddNonTerminal_def

interpretation terms: string_table AddTerminal tables_ok "\<lambda>T. set (tokens (termTable T))" valStr "\<lambda>s. length s < MAX_SEM_LEN"
proof (unfold_locales, goal_cases)
  case (1 T s)
  then show ?case unfolding table_laws by (intro returnsE_table [OF avl.add_new [of "termTable T" s]]) simp_all
next
  case (2 T s)
  then show ?case unfolding table_laws by (intro returnsE_table [OF avl.add_old [of "termTable T" s]]) simp_all
qed (simp add: table_laws avl.names_inj)

interpretation nonterms: string_table AddNonTerminal tables_ok "\<lambda>T. set (tokens (nontermTable T))" valStr "\<lambda>s. length s < MAX_SEM_LEN"
proof (unfold_locales, goal_cases)
  case (1 T s)
  then show ?case unfolding table_laws by (intro returnsE_table [OF avl.add_new [of "nontermTable T" s]]) simp_all
next
  case (2 T s)
  then show ?case unfolding table_laws by (intro returnsE_table [OF avl.add_old [of "nontermTable T" s]]) simp_all
qed (simp add: table_laws avl.names_inj)

interpretation lexems: string_table AddLexem tables_ok "\<lambda>T. set (tokens (lexTable T))" valStr "\<lambda>s. length s < MAX_SEM_LEN"
proof (unfold_locales, goal_cases)
  case (1 T s)
  then show ?case unfolding table_laws by (intro returnsE_table [OF avl.add_new [of "lexTable T" s]]) simp_all
next
  case (2 T s)
  then show ?case unfolding table_laws by (intro returnsE_table [OF avl.add_old [of "lexTable T" s]]) simp_all
qed (simp add: table_laws avl.names_inj)

interpretation vars: string_table AddVar tables_ok "\<lambda>T. set (tokens (varTable T))" valStr "\<lambda>s. length s < MAX_SEM_LEN"
proof (unfold_locales, goal_cases)
  case (1 T s)
  then show ?case unfolding table_laws by (intro returnsE_table [OF avl.add_new [of "varTable T" s]]) simp_all
next
  case (2 T s)
  then show ?case unfolding table_laws by (intro returnsE_table [OF avl.add_old [of "varTable T" s]]) simp_all
qed (simp add: table_laws avl.names_inj)


section \<open>The terminals of a grammar\<close>

lemma strings_sorted_list:
  assumes "AVL_invar t"
  shows "strings t = sorted_list_of_set (set (strings t))"
proof -
  have "sorted_wrt (<) (strings t)" using assms by (simp add: AVL_invar_def)
  then have "sorted (strings t) \<and> distinct (strings t)" by (simp add: strict_sorted_iff)
  then show ?thesis by (simp add: sorted_list_of_set.idem_if_sorted_distinct)
qed

text \<open>After numbering, the strings of a table and their numbers.\<close>

lemma assignAVLindex_zip:
  "map (\<lambda>tk. (valStr tk, indStr tk)) (tokens (fst (assignAVLindex t 0))) = zip (strings t) (map int [0..<length (strings t)])"
  by (rule nth_equalityI) (simp_all add: assignAVLindex_tokens number_nth strings_def)

lemma terminals_numbered:
  assumes "\<forall>s \<in> set ss. length s < MAX_SEM_LEN"
  shows "returnsE (terms.add_all ss InitAllTables) (\<lambda>(tks, T). tables_ok T \<and> map valStr tks = ss
    \<and> strings (termTable T) = sorted_list_of_set (set ss) \<and> set (tokens (termTable T)) = set tks)"
proof -
  obtain tks T where T: "terms.add_all ss InitAllTables = Inr (tks, T)" "tables_ok T" "map valStr tks = ss"
    "set (tokens (termTable T)) = set tks \<union> set (tokens (termTable InitAllTables))"
    using terms.add_all_entries [OF InitAllTables_ok assms] by (auto elim!: returnsE_E)
  then have tks: "set (tokens (termTable T)) = set tks" by (simp add: InitAllTables_def)
  then have "set (strings (termTable T)) = set ss" by (simp add: strings_def flip: T(3))
  with T(2) strings_sorted_list [of "termTable T"] have "strings (termTable T) = sorted_list_of_set (set ss)" by (simp add: tables_ok_def)
  with T(1-3) tks show ?thesis by simp
qed

lemma PrintTermTable_rows:
  assumes "strings (termTable T) \<noteq> []"
  defines "names \<equiv> strings (termTable T)"
  shows "PrintTermTable T = ''static PARSER_stringT stringTable[] = {'' @ NL
    @ concat (map (\<lambda>i. display_entry 8 (TAB @ QUOTE @ ''%s'' @ QUOTE) i (names ! i)) [0..<length names])
    @ ''  /* '' @ print_int (int (length names) - 1) @ '' */'' @ NL @ ''} ;'' @ NL @ NL
    @ ''static PARSER_u16T stringTableSize = '' @ print_int (int (length names)) @ '' ;'' @ NL @ NL"
proof -
  have n: "0 < length (strings (termTable T))" using assms(1) by simp
  then have "0 < AVLSize (termTable T) 0" by (simp add: AVLSize_tokens strings_def)
  then show ?thesis using display_table_rows [OF n] by (simp add: PrintTermTable_def names_def display_rows_concat)
qed

end
