(* ===== verification/Gensyn_Arbsem.thy ===== *)
theory Gensyn_Arbsem
  imports Gensyn_Table
begin

text \<open>
  The semantic trees of the parser generator and the table of its rules (\<^verbatim>\<open>src/src/common/targ_info/parser/gensyn/src/arbsem.c\<close>), with the check of
  \<^verbatim>\<open>table.c\<close> that every rule is defined.  A rule is a name with a tree; the table is an array in the order of the names, searched by bisection.

  A tree is a value.  The token of a node is a pointer into one of the tables of strings, or to a token of its own; since a table has one token for
  each string, the string is the pointer.  Of \<^verbatim>\<open>Axiome\<close>, which no code reads, only its being set is kept.
\<close>

section \<open>Trees\<close>

datatype ATOME =
    COLUMN | COMMA | CONCAT | OPENACC | CLOSACC | OPENBRA | CLOSBRA | IDNTER | EXPR | RANGE | UCSTEXP | SCSTEXP | ELTER | LINEN | FILEN
  | OR_ATOM | AND_ATOM | SPACE | GLBDEC | SYNKEYWORD | ACTKEYWORD | DESKEYWORD | LEXEM | EMPTY | LEXERR | REPEAT | OPTION | FORMAT | NUMVAL
  | STAR | CLASS | RELOC | ELF | INIT | GROUPING | ROOT | XOR_ATOM | PORT | MULTIPLY

datatype token_ref = Term_Ref string | Nonterm_Ref string | Lex_Ref string | Own_Ref string

datatype noeudSEM =
    NULL_SEM
  | SEM (action: ATOME) (semIndex: int) (encIndex: int) (popSemIndex: int) (sem_token: "token_ref option") (fg: noeudSEM) (fd: noeudSEM)

definition GenSEM :: "ATOME \<Rightarrow> token_ref option \<Rightarrow> noeudSEM" where
  "GenSEM lexeme val = SEM lexeme (- 1) (- 1) 0 val NULL_SEM NULL_SEM"

fun SetPopSemIndex :: "noeudSEM \<Rightarrow> int \<Rightarrow> noeudSEM outcome" where
  "SetPopSemIndex (SEM a s e p tk l r) index = Inr (SEM a s e index tk l r)"
| "SetPopSemIndex NULL_SEM index = Inl Null_Pointer"

fun SetEncInfo :: "noeudSEM \<Rightarrow> int \<Rightarrow> noeudSEM outcome" where
  "SetEncInfo (SEM a s e p tk l r) index = Inr (SEM a s index p tk l r)"
| "SetEncInfo NULL_SEM index = Inl Null_Pointer"

fun SetGauche :: "noeudSEM \<Rightarrow> noeudSEM \<Rightarrow> noeudSEM outcome" where
  "SetGauche (SEM a s e p tk l r) x = Inr (SEM a s e p tk x r)"
| "SetGauche NULL_SEM x = Inl Null_Pointer"

fun SetDroite :: "noeudSEM \<Rightarrow> noeudSEM \<Rightarrow> noeudSEM outcome" where
  "SetDroite (SEM a s e p tk l r) x = Inr (SEM a s e p tk l x)"
| "SetDroite NULL_SEM x = Inl Null_Pointer"

fun set_action :: "ATOME \<Rightarrow> noeudSEM \<Rightarrow> noeudSEM" where
  "set_action a (SEM a' s e p tk l r) = SEM a s e p tk l r"
| "set_action a NULL_SEM = NULL_SEM"

section \<open>The stack of trees\<close>

type_synonym s_ACT = "string \<times> noeudSEM"

record sem_state =
  Axiome :: bool
  PileSEM :: "noeudSEM list"
  TabACT :: "s_ACT list"

definition MAX_SEM_STACK_SIZE :: nat where "MAX_SEM_STACK_SIZE = 600"

definition InitPile :: "sem_state \<Rightarrow> sem_state" where
  "InitPile S = S\<lparr>PileSEM := []\<rparr>"

definition InitTab :: "sem_state \<Rightarrow> sem_state" where
  "InitTab S = S\<lparr>TabACT := []\<rparr>"

text \<open>The first tree of the list is the last one pushed.\<close>

definition EmpilerSEM :: "noeudSEM \<Rightarrow> sem_state \<Rightarrow> sem_state outcome" where
  "EmpilerSEM Elem S =
     (if length (PileSEM S) < MAX_SEM_STACK_SIZE - 1 then Inr (S\<lparr>PileSEM := Elem # PileSEM S\<rparr>) else Inl (Fatal ''Stack full''))"

definition DepilerSEM :: "sem_state \<Rightarrow> (noeudSEM \<times> sem_state) outcome" where
  "DepilerSEM S = (case PileSEM S of [] \<Rightarrow> Inl (Fatal ''Stack empty'') | t # ts \<Rightarrow> Inr (t, S\<lparr>PileSEM := ts\<rparr>))"

section \<open>The table of rules\<close>

definition table_read :: "'a list \<Rightarrow> int \<Rightarrow> 'a outcome" where
  "table_read tab i = (if 0 \<le> i \<and> i < int (length tab) then Inr (tab ! nat i) else Inl Out_Of_Bounds)"

definition table_write :: "'a list \<Rightarrow> int \<Rightarrow> 'a \<Rightarrow> 'a list outcome" where
  "table_write tab i x = (if 0 \<le> i \<and> i < int (length tab) then Inr (tab[nat i := x]) else Inl Out_Of_Bounds)"

lemma cdiv_middle: "deb \<le> fin \<Longrightarrow> deb \<le> cdiv (deb + fin) 2 \<and> cdiv (deb + fin) 2 \<le> fin"
proof -
  assume "deb \<le> fin"
  moreover have "0 \<le> x \<Longrightarrow> cdiv x 2 = x div 2" "x < 0 \<Longrightarrow> cdiv x 2 = - (- x div 2)" for x
    by (simp_all add: cdiv_nonneg) (simp add: cdiv_def)
  ultimately show ?thesis by (cases "0 \<le> deb + fin") (simp_all, linarith+)
qed

text \<open>The loop of \<^verbatim>\<open>RechAct\<close>, with the value of \<^verbatim>\<open>fin\<close> after it.\<close>

function RechAct_loop :: "string \<Rightarrow> s_ACT list \<Rightarrow> int \<Rightarrow> int \<Rightarrow> int outcome" where
  "RechAct_loop nom Table deb fin =
     (if deb \<le> fin then
        let mil = cdiv (deb + fin) 2 in
        bindE (table_read Table mil) (\<lambda>(NomAction, Arbre).
          let cmp = strcmp nom NomAction;
              fin = (if cmp \<le> 0 then mil - 1 else fin);
              deb = (if cmp \<ge> 0 then mil + 1 else deb) in
          RechAct_loop nom Table deb fin)
      else Inr fin)"
  by pat_completeness auto
termination
proof (relation "measure (\<lambda>(nom, Table, deb, fin). nat (fin - deb + 1))", goal_cases)
  case (2 nom Table deb fin)
  then show ?case using cdiv_middle [of deb fin] by auto
qed simp

declare RechAct_loop.simps [simp del]

definition RechAct :: "string \<Rightarrow> sem_state \<Rightarrow> (noeudSEM \<times> int) outcome" where
  "RechAct nom S =
     (let nbelem = int (length (TabACT S)) in
      bindE (RechAct_loop nom (TabACT S) 0 (nbelem - 1)) (\<lambda>fin.
      let pl = fin + 1 in
      if nbelem \<noteq> pl then
        bindE (table_read (TabACT S) pl) (\<lambda>(NomAction, Arbre).
        Inr (if strcmp nom NomAction = 0 then Arbre else NULL_SEM, pl))
      else Inr (NULL_SEM, pl)))"

text \<open>The tree of a rule that has one, with another alternative.\<close>

definition alternative :: "noeudSEM \<Rightarrow> noeudSEM \<Rightarrow> noeudSEM outcome" where
  "alternative old Action =
     (if Action = NULL_SEM then Inl Null_Pointer
      else if action Action = EMPTY then SetGauche (set_action OPTION Action) old
      else if action old = EMPTY then SetGauche (set_action OPTION old) Action
      else bindE (SetGauche (GenSEM OR_ATOM None) old) (\<lambda>rac. SetDroite rac Action))"

text \<open>\<^verbatim>\<open>while ((--nb) > ind) Table[nb] = Table[nb-1];\<close>\<close>

function shift_up :: "int \<Rightarrow> int \<Rightarrow> 'a list \<Rightarrow> 'a list outcome" where
  "shift_up ind nb Table =
     (let nb = nb - 1 in
      if nb > ind then
        bindE (table_read Table (nb - 1)) (\<lambda>x. bindE (table_write Table nb x) (shift_up ind nb))
      else Inr Table)"
  by pat_completeness auto
termination
  by (relation "measure (\<lambda>(ind, nb, Table). nat (nb - ind))") auto

declare shift_up.simps [simp del]

text \<open>\<open>fresh\<close> is what the new slot of the array holds after \<^verbatim>\<open>realloc\<close>.\<close>

definition AjoutAct :: "string \<Rightarrow> noeudSEM \<Rightarrow> s_ACT \<Rightarrow> sem_state \<Rightarrow> sem_state outcome" where
  "AjoutAct nom Action fresh S =
     bindE (RechAct nom S) (\<lambda>(found, ind).
     if found \<noteq> NULL_SEM then
       bindE (table_read (TabACT S) ind) (\<lambda>(NomAction, Arbre).
       bindE (alternative Arbre Action) (\<lambda>Arbre.
       bindE (table_write (TabACT S) ind (NomAction, Arbre)) (\<lambda>Table.
       Inr (S\<lparr>TabACT := Table\<rparr>))))
     else
       let S = S\<lparr>Axiome := Axiome S \<or> Action \<noteq> NULL_SEM\<rparr>;
           nb = int (length (TabACT S)) + 1 in
       bindE (shift_up ind nb (TabACT S @ [fresh])) (\<lambda>Table.
       if length nom < MAX_SEM_LEN then
         bindE (table_write Table ind (nom, Action)) (\<lambda>Table. Inr (S\<lparr>TabACT := Table\<rparr>))
       else Inl Out_Of_Bounds))"

section \<open>Undefined rules\<close>

text \<open>\<^verbatim>\<open>nbnid\<close> and the names for which an error is printed.\<close>

fun VerifTableNonTerm :: "AVLnode \<Rightarrow> sem_state \<Rightarrow> bool \<times> string list \<Rightarrow> (bool \<times> string list) outcome" where
  "VerifTableNonTerm NULL S st = Inr st"
| "VerifTableNonTerm (AVL b tk l r) S st =
     bindE (VerifTableNonTerm l S st) (\<lambda>(nbnid, errors).
     bindE (RechAct (valStr tk) S) (\<lambda>(t, ind).
     VerifTableNonTerm r S
       (if t = NULL_SEM \<and> strcmp (valStr tk) ''__GLOBDECL'' \<noteq> 0 then (True, errors @ [valStr tk]) else (nbnid, errors))))"

definition TouteRegleDefinie :: "gensyn_tables \<Rightarrow> sem_state \<Rightarrow> (bool \<times> string list) outcome" where
  "TouteRegleDefinie T S = bindE (VerifTableNonTerm (nontermTable T) S (False, [])) (\<lambda>(nbnid, errors). Inr (\<not> nbnid, errors))"


section \<open>The search\<close>

definition rules :: "sem_state \<Rightarrow> string \<rightharpoonup> noeudSEM" where
  "rules S = map_of (TabACT S)"

definition actions_ok :: "sem_state \<Rightarrow> bool" where
  "actions_ok S \<longleftrightarrow> sorted_wrt (<) (map fst (TabACT S)) \<and> (\<forall>t \<in> snd ` set (TabACT S). t \<noteq> NULL_SEM)"

text \<open>Where a name is in the table, or belongs.\<close>

definition place :: "string \<Rightarrow> s_ACT list \<Rightarrow> nat \<Rightarrow> bool" where
  "place nom Table k \<longleftrightarrow> k \<le> length Table \<and> (\<forall>j < k. fst (Table ! j) < nom) \<and> (\<forall>j. k \<le> j \<and> j < length Table \<longrightarrow> nom \<le> fst (Table ! j))"

lemma sorted_names:
  assumes "sorted_wrt (<) (map fst Table)" "i < j" "j < length Table"
  shows "fst (Table ! i) < (fst (Table ! j) :: string)"
  using sorted_wrt_nth_less [OF assms(1), of i j] assms by simp

lemma strcmp_order: "strcmp s t \<le> 0 \<longleftrightarrow> s \<le> t" "0 \<le> strcmp s t \<longleftrightarrow> t \<le> s"
proof -
  have "strcmp s t \<le> 0 \<longleftrightarrow> strcmp s t < 0 \<or> strcmp s t = 0" "0 \<le> strcmp s t \<longleftrightarrow> \<not> strcmp s t < 0" by linarith+
  then show "strcmp s t \<le> 0 \<longleftrightarrow> s \<le> t" "0 \<le> strcmp s t \<longleftrightarrow> t \<le> s" by (simp_all only: strcmp_less strcmp_eq le_less not_less)
qed

lemma RechAct_loop_place:
  assumes sorted: "sorted_wrt (<) (map fst Table)" and "0 \<le> deb" "deb \<le> fin + 1" "fin < int (length Table)"
    and "\<And>j. int j < deb \<Longrightarrow> fst (Table ! j) < nom" "\<And>j. fin < int j \<Longrightarrow> j < length Table \<Longrightarrow> nom \<le> fst (Table ! j)"
  shows "returnsE (RechAct_loop nom Table deb fin) (\<lambda>fin'. - 1 \<le> fin' \<and> place nom Table (nat (fin' + 1)))"
  using assms(2-)
proof (induction "nat (fin - deb + 1)" arbitrary: deb fin rule: less_induct)
  case less
  show ?case
  proof (cases "deb \<le> fin")
    case False
    with less.prems show ?thesis by (subst RechAct_loop.simps) (auto simp: place_def zless_nat_eq_int_zless)
  next
    case True
    define mil where "mil = cdiv (deb + fin) 2"
    define name where "name = fst (Table ! nat mil)"
    have mil: "deb \<le> mil" "mil \<le> fin" using cdiv_middle [OF True] by (simp_all add: mil_def)
    then have in_table: "nat mil < length Table" "int (nat mil) = mil" using less.prems by linarith+
    have read: "table_read Table mil = Inr (Table ! nat mil)" using mil less.prems by (simp add: table_read_def)
    have below: "fst (Table ! j) < name" if "int j < mil" for j
      using sorted_names [OF sorted, of j "nat mil"] that in_table by (simp add: name_def)
    have above: "name < fst (Table ! j)" if "mil < int j" "j < length Table" for j
      using sorted_names [OF sorted, of "nat mil" j] that in_table by (simp add: name_def)
    have step: "RechAct_loop nom Table deb fin =
        RechAct_loop nom Table (if name \<le> nom then mil + 1 else deb) (if nom \<le> name then mil - 1 else fin)"
      using True by (subst RechAct_loop.simps) (simp add: read Let_def split_beta strcmp_order flip: mil_def name_def)
    have upper: "name \<le> fst (Table ! j)" if "mil - 1 < int j" "j < length Table" for j
      using above [of j] that by (cases "int j = mil") (auto simp: name_def le_less)
    have lower: "fst (Table ! j) \<le> name" if "int j < mil + 1" for j
      using below [of j] that by (cases "int j = mil") (auto simp: name_def le_less)
    consider "nom < name" | "nom = name" | "name < nom" by (rule linorder_cases)
    then show ?thesis
    proof cases
      case 1
      have "returnsE (RechAct_loop nom Table deb (mil - 1)) (\<lambda>fin'. - 1 \<le> fin' \<and> place nom Table (nat (fin' + 1)))"
      proof (rule less.hyps)
        show "nom \<le> fst (Table ! j)" if "mil - 1 < int j" "j < length Table" for j using upper [OF that] 1 by simp
      qed (use mil less.prems in simp_all)
      moreover have "\<not> name \<le> nom" "nom \<le> name" using 1 by simp_all
      ultimately show ?thesis by (subst step) (simp only: if_True if_False)
    next
      case 2
      have "place nom Table (nat mil)" using 2 below upper in_table less.prems(1) mil
        by (auto simp: place_def zless_nat_eq_int_zless)
      with 2 mil less.prems(1) show ?thesis by (subst step, subst RechAct_loop.simps) simp
    next
      case 3
      have "returnsE (RechAct_loop nom Table (mil + 1) fin) (\<lambda>fin'. - 1 \<le> fin' \<and> place nom Table (nat (fin' + 1)))"
      proof (rule less.hyps)
        show "fst (Table ! j) < nom" if "int j < mil + 1" for j using lower [OF that] 3 by simp
      qed (use mil less.prems in simp_all)
      moreover have "name \<le> nom" "\<not> nom \<le> name" using 3 by simp_all
      ultimately show ?thesis by (subst step) (simp only: if_True if_False)
    qed
  qed
qed


lemma place_lookup:
  assumes "sorted_wrt (<) (map fst Table)" "place nom Table k"
  shows "map_of Table nom = (if k < length Table \<and> fst (Table ! k) = nom then Some (snd (Table ! k)) else None)"
proof (cases "k < length Table \<and> fst (Table ! k) = nom")
  case True
  then have "(nom, snd (Table ! k)) \<in> set Table" by (metis nth_mem prod.collapse)
  moreover have "distinct (map fst Table)" using assms(1) by (simp add: strict_sorted_iff)
  ultimately show ?thesis using True by simp
next
  case False
  have "fst (Table ! j) \<noteq> nom" if "j < length Table" for j
  proof (cases j k rule: linorder_cases)
    case less
    with assms(2) have "fst (Table ! j) < nom" by (simp add: place_def)
    then show ?thesis by simp
  next
    case greater
    with sorted_names [OF assms(1), of k j] assms(2) that show ?thesis by (auto simp: place_def)
  qed (use False that in simp)
  then have "nom \<notin> fst ` set Table" by (metis imageE in_set_conv_nth)
  with False show ?thesis by (auto simp: map_of_eq_None_iff)
qed

definition sem_of :: "noeudSEM option \<Rightarrow> noeudSEM" where
  "sem_of t = (case t of None \<Rightarrow> NULL_SEM | Some t \<Rightarrow> t)"

lemma RechAct_spec:
  assumes "actions_ok S"
  obtains k where "place nom (TabACT S) k" "RechAct nom S = Inr (sem_of (rules S nom), int k)"
proof -
  let ?Table = "TabACT S"
  have sorted: "sorted_wrt (<) (map fst ?Table)" using assms by (simp add: actions_ok_def)
  obtain fin where fin: "RechAct_loop nom ?Table 0 (int (length ?Table) - 1) = Inr fin" "- 1 \<le> fin" "place nom ?Table (nat (fin + 1))"
    using RechAct_loop_place [OF sorted, of 0 "int (length ?Table) - 1" nom] by (auto elim!: returnsE_E)
  define k where "k = nat (fin + 1)"
  have k: "fin + 1 = int k" "k \<le> length ?Table" "place nom ?Table k" using fin by (auto simp: k_def place_def)
  have "RechAct nom S = Inr (sem_of (rules S nom), int k)"
  proof (cases "k = length ?Table")
    case True
    with k place_lookup [OF sorted k(3)] show ?thesis by (simp add: RechAct_def fin(1) rules_def sem_of_def)
  next
    case False
    then have "table_read ?Table (int k) = Inr (?Table ! k)" using k(2) by (simp add: table_read_def)
    with False k place_lookup [OF sorted k(3)] show ?thesis
      by (auto simp: RechAct_def fin(1) rules_def sem_of_def split: prod.splits)
  qed
  with k(3) show ?thesis by (rule that)
qed

section \<open>Insertion\<close>

lemma shift_up_spec:
  assumes "i < nb" "nb \<le> length xs"
  shows "returnsE (shift_up (int i) (int nb) xs)
    (\<lambda>ys. length ys = length xs \<and> (\<forall>j < length xs. ys ! j = (if i < j \<and> j < nb then xs ! (j - 1) else xs ! j)))"
  using assms
proof (induction nb arbitrary: xs)
  case (Suc n)
  show ?case
  proof (cases "i < n")
    case True
    then obtain m where m: "n = Suc m" by (cases n) auto
    have "table_read xs (int n - 1) = Inr (xs ! m)" "table_write xs (int n) (xs ! m) = Inr (xs[n := xs ! m])"
      using Suc.prems m by (simp_all add: table_read_def table_write_def nat_add_distrib)
    then have "shift_up (int i) (int (Suc n)) xs = shift_up (int i) (int n) (xs[n := xs ! m])"
      using True by (subst shift_up.simps) simp
    moreover have "returnsE (shift_up (int i) (int n) (xs[n := xs ! m])) (\<lambda>ys. length ys = length xs \<and>
        (\<forall>j < length xs. ys ! j = (if i < j \<and> j < n then xs[n := xs ! m] ! (j - 1) else xs[n := xs ! m] ! j)))"
      using Suc.IH [of "xs[n := xs ! m]"] True Suc.prems by simp
    ultimately show ?thesis using m True by (auto elim!: returnsE_mono simp: nth_list_update less_Suc_eq)
  next
    case False
    with Suc.prems show ?thesis by (subst shift_up.simps) auto
  qed
qed simp

lemma shift_up_insert:
  assumes "k \<le> length tab"
  shows "returnsE (bindE (shift_up (int k) (int (length tab) + 1) (tab @ [fresh])) (\<lambda>Table. table_write Table (int k) x))
    (\<lambda>Table. Table = take k tab @ x # drop k tab)"
proof -
  obtain ys where ys: "shift_up (int k) (int (length tab) + 1) (tab @ [fresh]) = Inr ys" "length ys = Suc (length tab)"
    "\<And>j. j < Suc (length tab) \<Longrightarrow> ys ! j = (if k < j then (tab @ [fresh]) ! (j - 1) else (tab @ [fresh]) ! j)"
    using shift_up_spec [of k "Suc (length tab)" "tab @ [fresh]"] assms by (auto elim!: returnsE_E simp: algebra_simps)
  have "ys[k := x] = take k tab @ x # drop k tab"
    using assms ys(2,3) by (intro nth_equalityI) (auto simp: nth_append nth_Cons' nth_list_update intro!: arg_cong [where f = "(!) tab"])
  with ys(1,2) assms show ?thesis by (simp add: table_write_def)
qed

text \<open>An entry in its place, new or in the stead of the old one of the name.\<close>

lemma place_entry:
  fixes t :: noeudSEM
  assumes sorted: "sorted_wrt (<) (map fst Table)" and k: "place nom Table k"
    and m: "m = (if k < length Table \<and> fst (Table ! k) = nom then Suc k else k)"
  defines "Table' \<equiv> take k Table @ (nom, t) # drop m Table"
  shows "sorted_wrt (<) (map fst Table')" "map_of Table' = (map_of Table)(nom \<mapsto> t)" "snd ` set Table' \<subseteq> insert t (snd ` set Table)"
proof -
  have below: "x < nom" if "x \<in> set (map fst (take k Table))" for x
    using that k by (auto simp: place_def in_set_conv_nth) (metis fst_conv)
  have above: "nom < x" if "x \<in> set (map fst (drop m Table))" for x
  proof -
    from that obtain i where "i < length (drop m Table)" "x = fst (drop m Table ! i)" unfolding in_set_conv_nth by auto
    then have "m \<le> m + i" "m + i < length Table" "x = fst (Table ! (m + i))" by simp_all
    then obtain j where j: "m \<le> j" "j < length Table" "x = fst (Table ! j)" by blast
    with k have "nom \<le> x" by (auto simp: place_def m split: if_splits)
    moreover have "x \<noteq> nom"
      using j k sorted_names [OF sorted, of k j] by (cases "k = j") (auto simp: place_def m split: if_splits)
    ultimately show ?thesis by simp
  qed
  have split: "sorted_wrt (<) (map fst (take k Table))" "sorted_wrt (<) (map fst (drop m Table))"
    using sorted by (simp_all add: take_map drop_map sorted_wrt_take sorted_wrt_drop flip: take_map drop_map)
  show "sorted_wrt (<) (map fst Table')" unfolding Table'_def map_append list.map
    using below above split by (fastforce simp: sorted_wrt_append)
  show "snd ` set Table' \<subseteq> insert t (snd ` set Table)" by (auto simp: Table'_def dest: in_set_takeD in_set_dropD)
  have "Table = take k Table @ (if m = k then [] else [(nom, snd (Table ! k))]) @ drop m Table"
    by (auto simp: m Cons_nth_drop_Suc intro: prod_eqI)
  then have "map_of Table = map_of (take k Table @ (if m = k then [] else [(nom, snd (Table ! k))]) @ drop m Table)" by (rule arg_cong)
  moreover have "map_of (take k Table) nom = None" using below by (auto simp: map_of_eq_None_iff)
  ultimately show "map_of Table' = (map_of Table)(nom \<mapsto> t)" by (auto simp: Table'_def fun_eq_iff map_add_def split: option.splits)
qed


lemma alternative_returns:
  assumes "old \<noteq> NULL_SEM" "Action \<noteq> NULL_SEM"
  obtains t where "alternative old Action = Inr t" "t \<noteq> NULL_SEM"
proof -
  have "\<exists>t. alternative old Action = Inr t \<and> t \<noteq> NULL_SEM"
    using assms by (cases old; cases Action) (simp_all add: alternative_def GenSEM_def)
  with that show ?thesis by blast
qed

lemma place_actions_ok:
  assumes "actions_ok S" "place nom (TabACT S) k" "m = (if k < length (TabACT S) \<and> fst (TabACT S ! k) = nom then Suc k else k)"
    and "t \<noteq> NULL_SEM" "TabACT S' = take k (TabACT S) @ (nom, t) # drop m (TabACT S)"
  shows "actions_ok S' \<and> rules S' = (rules S)(nom \<mapsto> t)"
proof -
  have "sorted_wrt (<) (map fst (TabACT S))" using assms(1) by (simp add: actions_ok_def)
  note entry = place_entry [OF this assms(2,3), of t, folded assms(5)]
  with assms(1,4) show ?thesis unfolding actions_ok_def rules_def by blast
qed

text \<open>What a rule is after an alternative has been added.\<close>

definition extended :: "noeudSEM option \<Rightarrow> noeudSEM \<Rightarrow> noeudSEM outcome" where
  "extended old Action = (case old of None \<Rightarrow> Inr Action | Some t \<Rightarrow> alternative t Action)"

lemma rules_not_null: "actions_ok S \<Longrightarrow> rules S nom = Some t \<Longrightarrow> t \<noteq> NULL_SEM"
  by (auto simp: actions_ok_def rules_def dest!: map_of_SomeD)

lemma AjoutAct_old:
  assumes ok: "actions_ok S" and k: "place nom (TabACT S) k" and Rech: "RechAct nom S = Inr (sem_of (rules S nom), int k)"
    and old: "rules S nom = Some old" and t: "alternative old Action = Inr t" "t \<noteq> NULL_SEM"
  shows "AjoutAct nom Action fresh S = Inr (S\<lparr>TabACT := take k (TabACT S) @ (nom, t) # drop (Suc k) (TabACT S)\<rparr>)"
    and "k < length (TabACT S) \<and> fst (TabACT S ! k) = nom"
proof -
  have sorted: "sorted_wrt (<) (map fst (TabACT S))" using ok by (simp add: actions_ok_def)
  have here: "k < length (TabACT S)" "TabACT S ! k = (nom, old)"
    using place_lookup [OF sorted k] old by (auto simp: rules_def split: if_splits intro: prod_eqI)
  have "sem_of (rules S nom) \<noteq> NULL_SEM" using rules_not_null [OF ok old] old by (simp add: sem_of_def)
  with here t show "AjoutAct nom Action fresh S = Inr (S\<lparr>TabACT := take k (TabACT S) @ (nom, t) # drop (Suc k) (TabACT S)\<rparr>)"
    by (simp add: AjoutAct_def Rech table_read_def table_write_def upd_conv_take_nth_drop)
  from here show "k < length (TabACT S) \<and> fst (TabACT S ! k) = nom" by simp
qed

lemma AjoutAct_new:
  assumes k: "place nom (TabACT S) k" and Rech: "RechAct nom S = Inr (sem_of (rules S nom), int k)"
    and new: "rules S nom = None" and nom: "length nom < MAX_SEM_LEN"
  shows "AjoutAct nom Action fresh S =
    Inr (S\<lparr>Axiome := Axiome S \<or> Action \<noteq> NULL_SEM, TabACT := take k (TabACT S) @ (nom, Action) # drop k (TabACT S)\<rparr>)"
proof -
  have "k \<le> length (TabACT S)" using k by (simp add: place_def)
  from shift_up_insert [OF this, of fresh "(nom, Action)"]
  have "bindE (shift_up (int k) (int (length (TabACT S)) + 1) (TabACT S @ [fresh])) (\<lambda>Table. table_write Table (int k) (nom, Action))
      = Inr (take k (TabACT S) @ (nom, Action) # drop k (TabACT S))" by (auto elim!: returnsE_E)
  with new nom show ?thesis by (auto simp: AjoutAct_def Rech sem_of_def Let_def bindE_eq_Inr)
qed

lemma AjoutAct_spec:
  assumes ok: "actions_ok S" and "Action \<noteq> NULL_SEM" "length nom < MAX_SEM_LEN"
  shows "returnsE (AjoutAct nom Action fresh S) (\<lambda>S'. actions_ok S' \<and> PileSEM S' = PileSEM S
    \<and> returnsE (extended (rules S nom) Action) (\<lambda>t. rules S' = (rules S)(nom \<mapsto> t)))"
proof -
  obtain k where k: "place nom (TabACT S) k" "RechAct nom S = Inr (sem_of (rules S nom), int k)" using RechAct_spec [OF ok] .
  have sorted: "sorted_wrt (<) (map fst (TabACT S))" using ok by (simp add: actions_ok_def)
  show ?thesis
  proof (cases "rules S nom")
    case (Some old)
    obtain t where t: "alternative old Action = Inr t" "t \<noteq> NULL_SEM"
      using alternative_returns [OF rules_not_null [OF ok Some] assms(2)] .
    note add = AjoutAct_old [OF ok k Some t]
    from add(2) place_actions_ok [OF ok k(1) refl t(2)] show ?thesis by (simp add: add(1) Some t(1) extended_def)
  next
    case None
    note add = AjoutAct_new [OF k None assms(3), of Action fresh]
    have "\<not> (k < length (TabACT S) \<and> fst (TabACT S ! k) = nom)"
      using place_lookup [OF sorted k(1)] None by (auto simp: rules_def split: if_splits)
    with place_actions_ok [OF ok k(1) refl assms(2)] show ?thesis by (simp add: add None extended_def)
  qed
qed

lemma RechAct_rules: "actions_ok S \<Longrightarrow> returnsE (RechAct nom S) (\<lambda>(t, ind). t = sem_of (rules S nom))"
  by (rule RechAct_spec [of S nom]) simp_all

section \<open>The check of the rules\<close>

definition undefined_rule :: "sem_state \<Rightarrow> string \<Rightarrow> bool" where
  "undefined_rule S nom \<longleftrightarrow> nom \<notin> dom (rules S) \<and> nom \<noteq> ''__GLOBDECL''"

lemma VerifTableNonTerm_spec:
  assumes "actions_ok S"
  shows "VerifTableNonTerm t S (nbnid, errors) =
    Inr (nbnid \<or> (\<exists>nom \<in> set (strings t). undefined_rule S nom), errors @ filter (undefined_rule S) (strings t))"
proof (induction t arbitrary: nbnid errors)
  case (AVL b tk l r)
  obtain ind where Rech: "RechAct (valStr tk) S = Inr (sem_of (rules S (valStr tk)), ind)" using RechAct_spec [OF assms] by metis
  have "sem_of (rules S (valStr tk)) = NULL_SEM \<longleftrightarrow> valStr tk \<notin> dom (rules S)"
    using rules_not_null [OF assms, of "valStr tk"] by (auto simp: sem_of_def split: option.splits)
  then show ?case by (auto simp: AVL.IH Rech undefined_rule_def)
qed simp

lemma TouteRegleDefinie_spec:
  assumes "actions_ok S"
  shows "TouteRegleDefinie T S = Inr ((\<forall>nom \<in> set (strings (nontermTable T)). nom \<in> dom (rules S) \<or> nom = ''__GLOBDECL''),
    filter (undefined_rule S) (strings (nontermTable T)))"
  using VerifTableNonTerm_spec [OF assms, of "nontermTable T"] by (auto simp: TouteRegleDefinie_def undefined_rule_def)

end
