(* ===== verification/Gensyn_Nodes.thy ===== *)
theory Gensyn_Nodes
  imports Gensyn_Arbsem
begin

text \<open>
  From the trees of the parser generator to the arrays of its parser.  \<^verbatim>\<open>SetPrefixIndex\<close> and \<^verbatim>\<open>PrintNodeSem\<close> of
  \<^verbatim>\<open>gensyn/src/arbsem.c\<close> number the nodes of a tree in prefix order and write one initialiser of type \<^verbatim>\<open>PARSER_nodeSemT\<close> for each, in which
  children are numbers; the parser (\<^verbatim>\<open>parser/src/analyzer.c\<close>) gets at the children with the macros of \<^verbatim>\<open>parser/inc/analyzer.h\<close>.
\<close>

section \<open>Numbering\<close>

fun SetPrefixIndex :: "noeudSEM \<Rightarrow> int \<Rightarrow> noeudSEM \<times> int" where
  "SetPrefixIndex NULL_SEM currInd = (NULL_SEM, currInd)"
| "SetPrefixIndex (SEM a s e p tk l r) currInd =
     (let s = currInd; (l, currInd) = SetPrefixIndex l (currInd + 1); (r, currInd) = SetPrefixIndex r currInd in
      (SEM a s e p tk l r, currInd))"

section \<open>Initialisers\<close>

text \<open>A field of an initialiser: \<^verbatim>\<open>0x%x\<close>, \<^verbatim>\<open>%d\<close> or a string.\<close>

datatype c_value = Hex int | Dec int | Text string

fun print_hex :: "nat \<Rightarrow> string" where
  "print_hex n = (if n < 16 then [char_of (if n < 10 then 48 + n else 87 + n)] else print_hex (n div 16) @ print_hex (n mod 16))"

declare print_hex.simps [simp del]

fun print_value :: "c_value \<Rightarrow> string" where
  "print_value (Hex x) = ''0x'' @ print_hex (nat (UINT32 x))"
| "print_value (Dec x) = print_int x"
| "print_value (Text s) = s"

record PARSER_nodeSemT =
  state :: string
  info :: c_value
  encInfo :: int
  semInfo :: int

text \<open>The string of a token, and its index, which is in the table that the token is in.  A token of its own has no index.\<close>

fun GETSTR :: "token_ref option \<Rightarrow> string outcome" where
  "GETSTR None = Inl Null_Pointer"
| "GETSTR (Some (Term_Ref s)) = Inr s"
| "GETSTR (Some (Nonterm_Ref s)) = Inr s"
| "GETSTR (Some (Lex_Ref s)) = Inr s"
| "GETSTR (Some (Own_Ref s)) = Inr s"

definition table_index :: "AVLnode \<Rightarrow> string \<Rightarrow> int outcome" where
  "table_index t s = (case find (\<lambda>tk. valStr tk = s) (tokens t) of None \<Rightarrow> Inl Null_Pointer | Some tk \<Rightarrow> Inr (indStr tk))"

fun GETIND :: "gensyn_tables \<Rightarrow> token_ref option \<Rightarrow> int outcome" where
  "GETIND T None = Inl Null_Pointer"
| "GETIND T (Some (Term_Ref s)) = table_index (termTable T) s"
| "GETIND T (Some (Nonterm_Ref s)) = table_index (nontermTable T) s"
| "GETIND T (Some (Lex_Ref s)) = table_index (lexTable T) s"
| "GETIND T (Some (Own_Ref s)) = Inl Null_Pointer"

text \<open>\<^verbatim>\<open>(Arbre->fg->semIndex << 16) | Arbre->fd->semIndex\<close>\<close>

definition both_children :: "noeudSEM \<Rightarrow> c_value outcome" where
  "both_children t =
     (if fg t = NULL_SEM \<or> fd t = NULL_SEM then Inl Null_Pointer
      else Inr (Hex (INT32 (push_bit 16 (semIndex (fg t))) OR semIndex (fd t))))"

definition left_child :: "noeudSEM \<Rightarrow> c_value outcome" where
  "left_child t = (if fg t = NULL_SEM then Inl Null_Pointer else Inr (Hex (semIndex (fg t))))"

text \<open>The \<^verbatim>\<open>switch\<close> of \<^verbatim>\<open>PrintNodeSem\<close>: the name of the state after \<^verbatim>\<open>STA_\<close>, and the field after it.\<close>

definition node_info :: "gensyn_tables \<Rightarrow> noeudSEM \<Rightarrow> (string \<times> c_value) outcome" where
  "node_info T t =
     (case action t of
        OPTION \<Rightarrow> bindE (left_child t) (\<lambda>v. Inr (''OPT'', v))
      | REPEAT \<Rightarrow> bindE (left_child t) (\<lambda>v. Inr (''REP'', v))
      | XOR_ATOM \<Rightarrow> bindE (both_children t) (\<lambda>v. Inr (''X'' @ ''OR'', v))
      | OR_ATOM \<Rightarrow> bindE (both_children t) (\<lambda>v. Inr (''OR'', v))
      | CONCAT \<Rightarrow> bindE (both_children t) (\<lambda>v. Inr (''CON'', v))
      | SPACE \<Rightarrow> bindE (both_children t) (\<lambda>v. Inr (''SPA'', v))
      | AND_ATOM \<Rightarrow> bindE (both_children t) (\<lambda>v. Inr (''AND'', v))
      | EXPR \<Rightarrow> bindE (GETIND T (sem_token t)) (\<lambda>i. Inr (''EXP'', Dec i))
      | IDNTER \<Rightarrow> bindE (GETIND T (sem_token t)) (\<lambda>i. Inr (''NTR'', Dec i))
      | ELTER \<Rightarrow> bindE (GETIND T (sem_token t)) (\<lambda>i. Inr (''TER'', Dec i))
      | RANGE \<Rightarrow> bindE (GETSTR (sem_token t)) (\<lambda>s. Inr (''RNG'', Text s))
      | UCSTEXP \<Rightarrow> bindE (GETIND T (sem_token t)) (\<lambda>i. Inr (''UCE'', Dec i))
      | SCSTEXP \<Rightarrow> bindE (GETSTR (sem_token t)) (\<lambda>s. Inr (''SCE'', Text s))
      | LEXEM \<Rightarrow> bindE (GETSTR (sem_token t)) (\<lambda>s. Inr (''LEX'', Text (''LEX_'' @ s)))
      | _ \<Rightarrow> Inl (Fatal ''Syntax node unknown''))"

definition node_row :: "gensyn_tables \<Rightarrow> noeudSEM \<Rightarrow> PARSER_nodeSemT outcome" where
  "node_row T t = bindE (node_info T t) (\<lambda>(st, v). Inr \<lparr>state = st, info = v, encInfo = encIndex t, semInfo = popSemIndex t\<rparr>)"

definition print_row :: "PARSER_nodeSemT \<Rightarrow> string" where
  "print_row row = NL @ TAB @ ''{ STA_'' @ state row @ '', '' @ print_value (info row)
     @ '', '' @ print_int (encInfo row) @ '', '' @ print_int (semInfo row) @ ''}''"

text \<open>\<^verbatim>\<open>node_idx\<close> and what has been written, before and after.\<close>

fun PrintNodeSem :: "gensyn_tables \<Rightarrow> noeudSEM \<Rightarrow> bool \<Rightarrow> nat \<times> string \<Rightarrow> (nat \<times> string) outcome" where
  "PrintNodeSem T NULL_SEM firstCall st = Inr st"
| "PrintNodeSem T (SEM a s e p tk l r) firstCall (node_idx, w) =
     (let (node_idx, w) = (if \<not> firstCall then (node_idx + 1, w @ '', '' @ TAB @ ''/* '' @ print_hex node_idx @ '' */'') else (node_idx, w)) in
      bindE (node_row T (SEM a s e p tk l r)) (\<lambda>row.
      bindE (PrintNodeSem T l False (node_idx, w @ print_row row)) (PrintNodeSem T r False)))"

text \<open>The array of one rule, in the loop of \<^verbatim>\<open>GenCode\<close>.\<close>

definition print_rule :: "gensyn_tables \<Rightarrow> s_ACT \<Rightarrow> (s_ACT \<times> string) outcome" where
  "print_rule T rule =
     (let (NomAction, Arbre) = rule; Arbre = fst (SetPrefixIndex Arbre 0) in
      bindE (PrintNodeSem T Arbre True (0, ''static PARSER_nodeSemT NTR_'' @ NomAction @ ''[] = {'')) (\<lambda>(node_idx, w).
      Inr ((NomAction, Arbre), w @ '' '' @ TAB @ ''/* '' @ print_hex node_idx @ '' */'' @ NL @ ''} ;'' @ NL @ NL)))"

fun print_all_rules :: "gensyn_tables \<Rightarrow> s_ACT list \<Rightarrow> (s_ACT list \<times> string) outcome" where
  "print_all_rules T [] = Inr ([], [])"
| "print_all_rules T (rule # rest) =
     bindE (print_rule T rule) (\<lambda>(rule, w). bindE (print_all_rules T rest) (\<lambda>(rest, v). Inr (rule # rest, w @ v)))"

section \<open>The reader of the arrays\<close>

text \<open>The value of an initialiser in the field of type \<^verbatim>\<open>PARSER_s32T\<close>, if it is a number, and the macros of \<^verbatim>\<open>analyzer.h\<close> on it.\<close>

fun value_of :: "c_value \<Rightarrow> int" where
  "value_of (Hex x) = INT32 (UINT32 x)"
| "value_of (Dec x) = INT32 x"
| "value_of (Text s) = 0"

definition GETLEFTNODE :: "PARSER_nodeSemT \<Rightarrow> int" where
  "GETLEFTNODE NS = drop_bit 16 (value_of (info NS))"

definition GETRIGHTNODE :: "PARSER_nodeSemT \<Rightarrow> int" where
  "GETRIGHTNODE NS = drop_bit 16 (INT32 (push_bit 16 (value_of (info NS))))"


text \<open>An array that holds a tree: the states and the fields are those of the nodes, and the children are where the parser looks for them.\<close>

definition unary :: "ATOME \<Rightarrow> bool" where
  "unary a \<longleftrightarrow> a = OPTION \<or> a = REPEAT"

definition binary :: "ATOME \<Rightarrow> bool" where
  "binary a \<longleftrightarrow> a \<in> {XOR_ATOM, OR_ATOM, CONCAT, SPACE, AND_ATOM}"

definition indexed :: "ATOME \<Rightarrow> bool" where
  "indexed a \<longleftrightarrow> a \<in> {EXPR, IDNTER, ELTER, UCSTEXP}"

definition state_name :: "ATOME \<Rightarrow> string" where
  "state_name a = (case a of OPTION \<Rightarrow> ''OPT'' | REPEAT \<Rightarrow> ''REP'' | XOR_ATOM \<Rightarrow> ''XOR'' | OR_ATOM \<Rightarrow> ''OR'' | CONCAT \<Rightarrow> ''CON'' | SPACE \<Rightarrow> ''SPA''
     | AND_ATOM \<Rightarrow> ''AND'' | EXPR \<Rightarrow> ''EXP'' | IDNTER \<Rightarrow> ''NTR'' | ELTER \<Rightarrow> ''TER'' | RANGE \<Rightarrow> ''RNG'' | UCSTEXP \<Rightarrow> ''UCE'' | SCSTEXP \<Rightarrow> ''SCE'' | _ \<Rightarrow> ''LEX'')"

definition leaf_value :: "gensyn_tables \<Rightarrow> ATOME \<Rightarrow> token_ref option \<Rightarrow> c_value outcome" where
  "leaf_value T a tk =
     (if indexed a then bindE (GETIND T tk) (\<lambda>i. Inr (Dec i))
      else if a = LEXEM then bindE (GETSTR tk) (\<lambda>s. Inr (Text (''LEX_'' @ s)))
      else bindE (GETSTR tk) (\<lambda>s. Inr (Text s)))"

fun represents :: "gensyn_tables \<Rightarrow> PARSER_nodeSemT list \<Rightarrow> int \<Rightarrow> noeudSEM \<Rightarrow> bool" where
  "represents T NS i NULL_SEM = False"
| "represents T NS i (SEM a s e p tk l r) \<longleftrightarrow> 0 \<le> i \<and> i < int (length NS) \<and>
     (let row = NS ! nat i in
      encInfo row = e \<and> semInfo row = p \<and> state row = state_name a \<and>
      (if unary a then represents T NS (value_of (info row)) l
       else if binary a then represents T NS (GETLEFTNODE row) l \<and> represents T NS (GETRIGHTNODE row) r
       else leaf_value T a tk = Inr (info row)))"

section \<open>Trees that can be written\<close>

fun sem_size :: "noeudSEM \<Rightarrow> nat" where
  "sem_size NULL_SEM = 0"
| "sem_size (SEM a s e p tk l r) = 1 + sem_size l + sem_size r"

definition leaf_ok :: "gensyn_tables \<Rightarrow> ATOME \<Rightarrow> token_ref option \<Rightarrow> bool" where
  "leaf_ok T a tk \<longleftrightarrow> (indexed a \<or> a \<in> {RANGE, SCSTEXP, LEXEM}) \<and> (\<exists>v. leaf_value T a tk = Inr v)"

fun sem_ok :: "gensyn_tables \<Rightarrow> noeudSEM \<Rightarrow> bool" where
  "sem_ok T NULL_SEM = False"
| "sem_ok T (SEM a s e p tk l r) \<longleftrightarrow>
     (if unary a then sem_ok T l \<and> r = NULL_SEM
      else if binary a then sem_ok T l \<and> sem_ok T r
      else l = NULL_SEM \<and> r = NULL_SEM \<and> leaf_ok T a tk)"

lemma sem_ok_not_null: "sem_ok T t \<Longrightarrow> t \<noteq> NULL_SEM"
  by auto

text \<open>The rows of a tree, in prefix order.\<close>

fun node_rows :: "gensyn_tables \<Rightarrow> noeudSEM \<Rightarrow> PARSER_nodeSemT list outcome" where
  "node_rows T NULL_SEM = Inr []"
| "node_rows T (SEM a s e p tk l r) =
     bindE (node_row T (SEM a s e p tk l r)) (\<lambda>row.
     bindE (node_rows T l) (\<lambda>ls. bindE (node_rows T r) (\<lambda>rs. Inr (row # ls @ rs))))"

lemma node_info_unary: "unary a \<Longrightarrow> l \<noteq> NULL_SEM \<Longrightarrow> node_info T (SEM a s e p tk l r) = Inr (state_name a, Hex (semIndex l))"
  by (auto simp: unary_def node_info_def left_child_def state_name_def)

lemma node_info_binary:
  "binary a \<Longrightarrow> l \<noteq> NULL_SEM \<Longrightarrow> r \<noteq> NULL_SEM \<Longrightarrow>
     node_info T (SEM a s e p tk l r) = Inr (state_name a, Hex (INT32 (push_bit 16 (semIndex l)) OR semIndex r))"
  by (auto simp: binary_def node_info_def both_children_def state_name_def)

lemma node_info_leaf:
  assumes "leaf_ok T a tk"
  shows "bindE (leaf_value T a tk) (\<lambda>v. Inr (state_name a, v)) = node_info T (SEM a s e p tk l r)"
  using assms by (auto simp: leaf_ok_def leaf_value_def indexed_def node_info_def state_name_def bindE_assoc)

section \<open>The two halves of the field\<close>

lemma pair_value:
  assumes "0 \<le> l" "l < 2 ^ 15" "0 \<le> r" "r < 2 ^ 16"
  shows "value_of (Hex (INT32 (push_bit 16 l) OR r)) = l * 2 ^ 16 + r"
proof -
  have "INT32 (push_bit 16 l) = push_bit 16 l" using assms by (simp add: INT32_id push_bit_eq_mult)
  moreover have "push_bit 16 l OR r = l * 2 ^ 16 + r"
  proof -
    have "take_bit 16 r = r" using assms by (simp add: take_bit_int_eq_self)
    moreover have "push_bit 16 l AND take_bit 16 r = 0" by (rule bit_eqI) (auto simp: bit_simps)
    ultimately have "push_bit 16 l AND r = 0" by simp
    then have "push_bit 16 l + r = push_bit 16 l OR r" by (rule disjunctive_add_eq_or)
    then show ?thesis by (simp add: push_bit_eq_mult)
  qed
  moreover have "UINT32 (l * 2 ^ 16 + r) = l * 2 ^ 16 + r" "INT32 (l * 2 ^ 16 + r) = l * 2 ^ 16 + r"
    using assms by (simp_all add: UINT32_id INT32_id)
  ultimately show ?thesis by simp
qed


lemma GETLEFTNODE_pair:
  assumes "0 \<le> l" "l < 2 ^ 15" "0 \<le> r" "r < 2 ^ 16" "info row = Hex (INT32 (push_bit 16 l) OR r)"
  shows "GETLEFTNODE row = l"
  using pair_value [OF assms(1-4)] assms by (simp add: GETLEFTNODE_def drop_bit_eq_div)

text \<open>The right half is read as a signed number.\<close>

lemma GETRIGHTNODE_pair:
  assumes "0 \<le> l" "l < 2 ^ 15" "0 \<le> r" "r < 2 ^ 16" "info row = Hex (INT32 (push_bit 16 l) OR r)"
  shows "GETRIGHTNODE row = (if r < 2 ^ 15 then r else r - 2 ^ 16)"
proof -
  have "(l * 2 ^ 16 + r) * 2 ^ 16 = l * 2 ^ 32 + r * 2 ^ 16" by simp
  then have "INT32 (push_bit 16 (value_of (info row))) = INT32 (r * 2 ^ 16)"
    using pair_value [OF assms(1-4)] assms(5)
    by (simp add: INT32_def push_bit_eq_mult signed_take_bit_eq_iff_take_bit_eq take_bit_eq_mod)
  also have "\<dots> = (if r < 2 ^ 15 then r * 2 ^ 16 else (r - 2 ^ 16) * 2 ^ 16)"
    using assms by (auto simp: INT32_id INT32_wrap)
  finally show ?thesis by (simp add: GETRIGHTNODE_def drop_bit_eq_div)
qed

section \<open>Writing and reading\<close>

lemma SetPrefixIndex_end: "snd (SetPrefixIndex t i) = i + int (sem_size t)"
  by (induction t arbitrary: i) (simp_all add: Let_def split_beta)

lemma SetPrefixIndex_root [simp]: "t \<noteq> NULL_SEM \<Longrightarrow> semIndex (fst (SetPrefixIndex t i)) = i"
  "fst (SetPrefixIndex t i) = NULL_SEM \<longleftrightarrow> t = NULL_SEM" "sem_size (fst (SetPrefixIndex t i)) = sem_size t"
proof -
  show "t \<noteq> NULL_SEM \<Longrightarrow> semIndex (fst (SetPrefixIndex t i)) = i" "fst (SetPrefixIndex t i) = NULL_SEM \<longleftrightarrow> t = NULL_SEM"
    by (cases t; simp add: Let_def split_beta)+
  show "sem_size (fst (SetPrefixIndex t i)) = sem_size t" by (induction t arbitrary: i) (simp_all add: Let_def split_beta)
qed

lemma SetPrefixIndex_ok [simp]: "sem_ok T (fst (SetPrefixIndex t i)) = sem_ok T t"
  by (induction t arbitrary: i) (auto simp: Let_def split_beta)

text \<open>The rows of a tree in their place in an array.\<close>

definition written :: "gensyn_tables \<Rightarrow> nat \<Rightarrow> noeudSEM \<Rightarrow> PARSER_nodeSemT list \<Rightarrow> bool" where
  "written T i t rows \<longleftrightarrow> node_rows T t = Inr rows \<and> length rows = sem_size t
     \<and> (\<forall>pre post. length pre = i \<longrightarrow> represents T (pre @ rows @ post) (int i) t)"

lemma writtenD:
  assumes "written T i t rows"
  shows "node_rows T t = Inr rows" "length rows = sem_size t" "length pre = i \<Longrightarrow> represents T (pre @ rows @ post) (int i) t"
  using assms by (simp_all add: written_def)

lemma represents_row:
  assumes "length pre = i"
  shows "represents T (pre @ row # rest) (int i) (SEM a s e p tk l r) \<longleftrightarrow> encInfo row = e \<and> semInfo row = p \<and> state row = state_name a \<and>
      (if unary a then represents T (pre @ row # rest) (value_of (info row)) l
       else if binary a then represents T (pre @ row # rest) (GETLEFTNODE row) l \<and> represents T (pre @ row # rest) (GETRIGHTNODE row) r
       else leaf_value T a tk = Inr (info row))"
  using assms by auto

lemma written_unary:
  assumes "unary a" "l \<noteq> NULL_SEM" "semIndex l = int (Suc i)" "i < 2 ^ 15" "written T (Suc i) l ls"
  shows "\<exists>rows. written T i (SEM a s e p tk l NULL_SEM) rows"
proof -
  let ?row = "\<lparr>state = state_name a, info = Hex (int (Suc i)), encInfo = e, semInfo = p\<rparr>"
  have "value_of (Hex (int (Suc i))) = int (Suc i)" using assms(4) by (simp add: INT32_id UINT32_id)
  then have "written T i (SEM a s e p tk l NULL_SEM) (?row # ls)"
    using assms writtenD(3) [OF assms(5), of "_ @ [?row]"] writtenD(1,2) [OF assms(5)]
    by (simp add: written_def node_row_def node_info_unary represents_row del: value_of.simps represents.simps)
  then show ?thesis ..
qed

lemma written_binary:
  assumes "binary a" "\<not> unary a" "l \<noteq> NULL_SEM" "semIndex l = int (Suc i)" "written T (Suc i) l ls"
    and "r \<noteq> NULL_SEM" "semIndex r = int (Suc (i + sem_size l))" "written T (Suc (i + sem_size l)) r rs" "Suc (i + sem_size l) < 2 ^ 15"
  shows "\<exists>rows. written T i (SEM a s e p tk l r) rows"
proof -
  let ?row = "\<lparr>state = state_name a, info = Hex (INT32 (push_bit 16 (semIndex l)) OR semIndex r), encInfo = e, semInfo = p\<rparr>"
  have bounds: "0 \<le> semIndex l" "semIndex l < 2 ^ 15" "0 \<le> semIndex r" "semIndex r < 2 ^ 15"
    using assms(4,7,9) by simp_all
  then have "GETLEFTNODE ?row = semIndex l" "GETRIGHTNODE ?row = semIndex r"
    by (simp_all add: GETLEFTNODE_pair [of "semIndex l" "semIndex r"] GETRIGHTNODE_pair [of "semIndex l" "semIndex r"])
  then have "written T i (SEM a s e p tk l r) (?row # ls @ rs)"
    using assms(1-4,6,7) writtenD(3) [OF assms(5), of "_ @ [?row]" "rs @ _"] writtenD(3) [OF assms(8), of "_ @ ?row # ls"]
      writtenD(1,2) [OF assms(5)] writtenD(1,2) [OF assms(8)]
    by (simp add: written_def node_row_def node_info_binary represents_row add.assoc del: represents.simps)
  then show ?thesis ..
qed

lemma written_leaf:
  assumes "\<not> unary a" "\<not> binary a" "leaf_ok T a tk"
  shows "\<exists>rows. written T i (SEM a s e p tk NULL_SEM NULL_SEM) rows"
proof -
  obtain v where v: "leaf_value T a tk = Inr v" using assms(3) by (auto simp: leaf_ok_def)
  from node_info_leaf [OF assms(3), of s e p NULL_SEM NULL_SEM] v
  have "node_info T (SEM a s e p tk NULL_SEM NULL_SEM) = Inr (state_name a, v)" by simp
  with assms v have "written T i (SEM a s e p tk NULL_SEM NULL_SEM) [\<lparr>state = state_name a, info = v, encInfo = e, semInfo = p\<rparr>]"
    by (simp add: written_def node_row_def represents_row del: represents.simps)
  then show ?thesis ..
qed

lemma SetPrefixIndex_written:
  assumes "sem_ok T t" "i + sem_size t \<le> 2 ^ 15"
  shows "\<exists>rows. written T i (fst (SetPrefixIndex t (int i))) rows"
  using assms
proof (induction t arbitrary: i)
  case (SEM a s e p tk l r)
  let ?l = "fst (SetPrefixIndex l (int (Suc i)))" and ?r = "fst (SetPrefixIndex r (int (Suc (i + sem_size l))))"
  have t': "fst (SetPrefixIndex (SEM a s e p tk l r) (int i)) = SEM a (int i) e p tk ?l ?r"
    by (simp add: Let_def split_beta SetPrefixIndex_end algebra_simps)
  consider (un) "unary a" | (bin) "\<not> unary a" "binary a" | (leaf) "\<not> unary a" "\<not> binary a" by blast
  then show ?case
  proof cases
    case un
    then have ok: "sem_ok T l" "r = NULL_SEM" using SEM.prems by simp_all
    then obtain ls where "written T (Suc i) ?l ls" using SEM.IH(1) [of "Suc i"] SEM.prems(2) by auto
    from written_unary [OF un _ _ _ this] ok sem_ok_not_null [OF ok(1)] SEM.prems(2) show ?thesis unfolding t' by simp
  next
    case bin
    then have ok: "sem_ok T l" "sem_ok T r" using SEM.prems by simp_all
    then have ne: "l \<noteq> NULL_SEM" "r \<noteq> NULL_SEM" by (simp_all add: sem_ok_not_null)
    then have "0 < sem_size r" by (cases r) simp_all
    then have size: "Suc (i + sem_size l) < 2 ^ 15" using SEM.prems(2) by simp
    obtain ls rs where "written T (Suc i) ?l ls" "written T (Suc (i + sem_size l)) ?r rs"
      using SEM.IH(1) [of "Suc i"] SEM.IH(2) [of "Suc (i + sem_size l)"] ok SEM.prems(2) by auto
    with written_binary [OF bin(2,1), of ?l i T ls ?r rs "int i"] ne size show ?thesis unfolding t' by simp
  next
    case leaf
    then have "l = NULL_SEM" "r = NULL_SEM" "leaf_ok T a tk" using SEM.prems by simp_all
    with written_leaf [OF leaf] show ?thesis unfolding t' by simp
  qed
qed simp


section \<open>The text\<close>

definition row_comment :: "nat \<Rightarrow> string" where
  "row_comment i = TAB @ ''/* '' @ print_hex i @ '' */''"

fun print_rows :: "nat \<Rightarrow> PARSER_nodeSemT list \<Rightarrow> string" where
  "print_rows i [] = []"
| "print_rows i (row # rows) = '', '' @ row_comment i @ print_row row @ print_rows (Suc i) rows"

lemma print_rows_append: "print_rows i (xs @ ys) = print_rows i xs @ print_rows (i + length xs) ys"
  by (induction xs arbitrary: i) simp_all

lemma PrintNodeSem_rest: "node_rows T t = Inr rows \<Longrightarrow> PrintNodeSem T t False (i, w) = Inr (i + length rows, w @ print_rows i rows)"
proof (induction t arbitrary: i w rows)
  case (SEM a s e p tk l r)
  from SEM.prems obtain row ls rs where "node_row T (SEM a s e p tk l r) = Inr row" "node_rows T l = Inr ls" "node_rows T r = Inr rs"
    "rows = row # ls @ rs" by (auto simp: bindE_eq_Inr)
  with SEM.IH show ?case by (simp add: print_rows_append row_comment_def add.assoc)
qed simp

lemma PrintNodeSem_first:
  assumes "node_rows T t = Inr rows" "t \<noteq> NULL_SEM"
  shows "PrintNodeSem T t True (0, w) = Inr (length rows - 1, w @ print_row (hd rows) @ print_rows 0 (tl rows))"
proof (cases t)
  case (SEM a s e p tk l r)
  with assms(1) obtain row ls rs where "node_row T t = Inr row" "node_rows T l = Inr ls" "node_rows T r = Inr rs" "rows = row # ls @ rs"
    by (auto simp: bindE_eq_Inr)
  with SEM show ?thesis by (simp add: PrintNodeSem_rest print_rows_append)
qed (use assms in simp)

text \<open>The array of a rule as text.\<close>

definition array_text :: "string \<Rightarrow> PARSER_nodeSemT list \<Rightarrow> string" where
  "array_text nom rows = ''static PARSER_nodeSemT NTR_'' @ nom @ ''[] = {''
     @ concat (map (\<lambda>j. (if j = 0 then [] else '', '' @ row_comment (j - 1)) @ print_row (rows ! j)) [0..<length rows])
     @ '' '' @ row_comment (length rows - 1) @ NL @ ''} ;'' @ NL @ NL"

lemma print_rows_concat: "print_rows i rows = concat (map (\<lambda>j. '', '' @ row_comment (i + j) @ print_row (rows ! j)) [0..<length rows])"
  by (induction rows arbitrary: i) (simp_all add: map_upt_Suc del: upt_Suc)

lemma array_text_rows:
  "array_text nom (row # rows) = ''static PARSER_nodeSemT NTR_'' @ nom @ ''[] = {'' @ print_row row @ print_rows 0 rows
     @ '' '' @ row_comment (length rows) @ NL @ ''} ;'' @ NL @ NL"
  by (simp add: array_text_def print_rows_concat map_upt_Suc del: upt_Suc)

lemma represents_numbered: "represents T NS i (fst (SetPrefixIndex t k)) = represents T NS i t"
  by (induction t arbitrary: i k) (simp_all add: Let_def split_beta)

lemma print_rule_written:
  assumes "sem_ok T t" "sem_size t \<le> 2 ^ 15"
  shows "\<exists>rows. print_rule T (nom, t) = Inr ((nom, fst (SetPrefixIndex t 0)), array_text nom rows) \<and> length rows = sem_size t \<and> represents T rows 0 t"
proof -
  let ?t = "fst (SetPrefixIndex t 0)"
  from SetPrefixIndex_written [OF assms(1), of 0] assms(2) obtain rows where rows: "written T 0 ?t rows" by auto
  have len: "length rows = sem_size t" using writtenD(2) [OF rows] by simp
  have "t \<noteq> NULL_SEM" using sem_ok_not_null [OF assms(1)] .
  moreover have "rows \<noteq> []" using len \<open>t \<noteq> NULL_SEM\<close> by (cases t) auto
  ultimately have "print_rule T (nom, t) = Inr ((nom, ?t), array_text nom rows)"
    using PrintNodeSem_first [OF writtenD(1) [OF rows]] by (cases rows) (auto simp: print_rule_def array_text_rows row_comment_def)
  moreover have "represents T rows 0 t" using writtenD(3) [OF rows, of "[]" "[]"] by (simp add: represents_numbered)
  ultimately show ?thesis using len by blast
qed

end
