(* ===== verification/Gensyn_Actions.thy ===== *)
theory Gensyn_Actions
  imports Gensyn_Nodes
begin

text \<open>
  The actions of the parser generator (\<^verbatim>\<open>gensyn/src/action0.c\<close>) that build the trees of the rules, with the table of the encoding actions of
  \<^verbatim>\<open>gensyn/src/encinfo.c\<close>.  An action works on the string read last, the stack of trees and the tables; after an error has been found, the
  actions do nothing.
\<close>

section \<open>Encoding actions\<close>

definition MAX_ENC_INFO :: nat where "MAX_ENC_INFO = 16384"

record enc_info =
  encInfoTable :: "string list"
  globDeclInfo :: "string list"
  portInfo :: "string list"
  multiplyInfo :: "string list"
  initVal :: int

definition InitEncInfo :: "enc_info \<Rightarrow> enc_info" where
  "InitEncInfo E = E\<lparr>encInfoTable := [], globDeclInfo := [], initVal := - 1\<rparr>"

definition GetInit :: "enc_info \<Rightarrow> int" where
  "GetInit E = initVal E"

definition SetInit :: "int \<Rightarrow> enc_info \<Rightarrow> enc_info" where
  "SetInit v E = E\<lparr>initVal := v\<rparr>"

definition AddNewGlobDecl :: "string \<Rightarrow> enc_info \<Rightarrow> enc_info outcome" where
  "AddNewGlobDecl s E =
     (if length (globDeclInfo E) \<ge> MAX_ENC_INFO then Inl (Fatal ''Too many global declarations'') else Inr (E\<lparr>globDeclInfo := globDeclInfo E @ [s]\<rparr>))"

definition AddNewPort :: "string \<Rightarrow> enc_info \<Rightarrow> enc_info outcome" where
  "AddNewPort s E = (if length (portInfo E) \<ge> 1 then Inl (Fatal ''Port already defined'') else Inr (E\<lparr>portInfo := portInfo E @ [s]\<rparr>))"

definition AddNewMultiply :: "string \<Rightarrow> enc_info \<Rightarrow> enc_info outcome" where
  "AddNewMultiply s E = (if length (multiplyInfo E) \<ge> 1 then Inl (Fatal ''Multiply already defined'') else Inr (E\<lparr>multiplyInfo := multiplyInfo E @ [s]\<rparr>))"

fun EncInfoIsEmpty :: "string \<Rightarrow> bool" where
  "EncInfoIsEmpty [] = True"
| "EncInfoIsEmpty (c # cs) = (if c \<noteq> CHR '' '' \<and> c \<noteq> CHR 0x0A \<and> c \<noteq> CHR 0x09 then False else EncInfoIsEmpty cs)"

definition AddNewEncInfo :: "string \<Rightarrow> enc_info \<Rightarrow> (int \<times> enc_info) outcome" where
  "AddNewEncInfo s E =
     (if EncInfoIsEmpty s then Inr (- 1, E)
      else if length (encInfoTable E) \<ge> MAX_ENC_INFO then Inl (Fatal ''Too many encodings'')
      else Inr (int (length (encInfoTable E)), E\<lparr>encInfoTable := encInfoTable E @ [s]\<rparr>))"

section \<open>The state of the generator\<close>

record gensyn =
  tables :: gensyn_tables
  sem :: sem_state
  enc :: enc_info
  lexCount :: int
  noError :: bool
  NomLu :: string

definition InitLexCount :: "gensyn \<Rightarrow> gensyn" where
  "InitLexCount G = G\<lparr>lexCount := 0\<rparr>"

definition push_sem :: "noeudSEM \<Rightarrow> gensyn \<Rightarrow> gensyn outcome" where
  "push_sem t G = bindE (EmpilerSEM t (sem G)) (\<lambda>S. Inr (G\<lparr>sem := S\<rparr>))"

definition pop_sem :: "gensyn \<Rightarrow> (noeudSEM \<times> gensyn) outcome" where
  "pop_sem G = bindE (DepilerSEM (sem G)) (\<lambda>(t, S). Inr (t, G\<lparr>sem := S\<rparr>))"

section \<open>Leaves\<close>

definition CreateNewNTERM :: "gensyn \<Rightarrow> gensyn outcome" where
  "CreateNewNTERM G =
     (if noError G then
        bindE (AddNonTerminal (NomLu G) (tables G)) (\<lambda>(tk, T).
        push_sem (GenSEM IDNTER (Some (Nonterm_Ref (valStr tk)))) (G\<lparr>tables := T\<rparr>))
      else Inr G)"

definition CreateNewEXPR :: "gensyn \<Rightarrow> gensyn outcome" where
  "CreateNewEXPR G =
     (if noError G then
        bindE (AddTerminal (NomLu G) (tables G)) (\<lambda>(tk, T).
        bindE (push_sem (GenSEM EXPR (Some (Term_Ref (valStr tk)))) (G\<lparr>tables := T\<rparr>)) (\<lambda>G.
        Inr (G\<lparr>lexCount := lexCount G + 1\<rparr>)))
      else Inr G)"

definition CreateNewCstExpr :: "gensyn \<Rightarrow> gensyn outcome" where
  "CreateNewCstExpr G =
     (if noError G then
        bindE (AddTerminal (NomLu G) (tables G)) (\<lambda>(tk, T).
        bindE (push_sem (GenSEM UCSTEXP (Some (Term_Ref (valStr tk)))) (G\<lparr>tables := T\<rparr>)) (\<lambda>G.
        Inr (G\<lparr>lexCount := lexCount G + 1\<rparr>)))
      else Inr G)"

definition CreateNewTERM :: "gensyn \<Rightarrow> gensyn outcome" where
  "CreateNewTERM G =
     (if noError G then
        bindE (AddTerminal (NomLu G) (tables G)) (\<lambda>(tk, T).
        push_sem (GenSEM ELTER (Some (Term_Ref (valStr tk)))) (G\<lparr>tables := T\<rparr>))
      else Inr G)"

definition CreateEmpty :: "gensyn \<Rightarrow> gensyn outcome" where
  "CreateEmpty G = (if noError G then push_sem (GenSEM EMPTY None) G else Inr G)"

definition CreateNewNumVal :: "ATOME \<Rightarrow> gensyn \<Rightarrow> gensyn outcome" where
  "CreateNewNumVal atomRead G =
     (if noError G then
        bindE (SETSTR \<lparr>valStr = [], indStr = 0\<rparr> (NomLu G)) (\<lambda>newNum.
        bindE (push_sem (GenSEM atomRead (Some (Own_Ref (valStr newNum)))) G) (\<lambda>G.
        Inr (G\<lparr>lexCount := lexCount G + 1\<rparr>)))
      else Inr G)"

definition CreateNewLexem :: "ATOME \<Rightarrow> gensyn \<Rightarrow> gensyn outcome" where
  "CreateNewLexem atomRead G =
     (if noError G then
        bindE (AddLexem (NomLu G) (tables G)) (\<lambda>(tk, T).
        bindE (push_sem (GenSEM atomRead (Some (Lex_Ref (valStr tk)))) (G\<lparr>tables := T\<rparr>)) (\<lambda>G.
        Inr (G\<lparr>lexCount := lexCount G + 1\<rparr>)))
      else Inr G)"

section \<open>Inner nodes and rules\<close>

definition GenDualNodeSem :: "ATOME \<Rightarrow> gensyn \<Rightarrow> gensyn outcome" where
  "GenDualNodeSem atomRead G =
     (if noError G then
        bindE (pop_sem G) (\<lambda>(T1, G).
        bindE (pop_sem G) (\<lambda>(T2, G).
        bindE (SetGauche (GenSEM atomRead None) T2) (\<lambda>T.
        bindE (SetDroite T T1) (\<lambda>T.
        push_sem T G))))
      else Inr G)"

definition GenModeNodeSem :: "ATOME \<Rightarrow> gensyn \<Rightarrow> gensyn outcome" where
  "GenModeNodeSem atomRead G =
     (if noError G then
        bindE (pop_sem G) (\<lambda>(T1, G).
        bindE (SetGauche (GenSEM atomRead None) T1) (\<lambda>T.
        push_sem T G))
      else Inr G)"

definition UnstackNTERM :: "gensyn \<Rightarrow> gensyn outcome" where
  "UnstackNTERM G = (if noError G then bindE (pop_sem G) (\<lambda>(T1, G). Inr G) else Inr G)"

text \<open>The index of the encoding action and the number of lexemes go to the node, or to the child of an optional or repeated one.\<close>

definition set_encoding :: "int \<Rightarrow> int \<Rightarrow> noeudSEM \<Rightarrow> noeudSEM outcome" where
  "set_encoding index count ActionNode = bindE (SetEncInfo ActionNode index) (\<lambda>t. SetPopSemIndex t count)"

definition set_rule_encoding :: "int \<Rightarrow> int \<Rightarrow> noeudSEM \<Rightarrow> noeudSEM outcome" where
  "set_rule_encoding index count T1 =
     (if action T1 = OPTION \<or> action T1 = REPEAT then bindE (set_encoding index count (fg T1)) (SetGauche T1)
      else set_encoding index count T1)"

definition AddNewAction :: "string \<Rightarrow> s_ACT \<Rightarrow> gensyn \<Rightarrow> gensyn outcome" where
  "AddNewAction newEncInfo fresh G =
     (if noError G then
        bindE (pop_sem G) (\<lambda>(T1, G).
        bindE (pop_sem G) (\<lambda>(T2, G).
        if T1 = NULL_SEM \<or> T2 = NULL_SEM then Inl Null_Pointer
        else
          bindE (AddNewEncInfo newEncInfo (enc G)) (\<lambda>(index, E).
          bindE (set_rule_encoding index (lexCount G) T1) (\<lambda>T1.
          bindE (GETSTR (sem_token T2)) (\<lambda>nom.
          bindE (AjoutAct nom T1 fresh (sem G)) (\<lambda>S.
          push_sem T2 (G\<lparr>enc := E, sem := S\<rparr>)))))))
      else Inr G)"

definition AddInitAction :: "string \<Rightarrow> gensyn \<Rightarrow> gensyn outcome" where
  "AddInitAction newEncInfo G =
     (if noError G \<and> GetInit (enc G) = - 1 then
        bindE (AddNewEncInfo newEncInfo (enc G)) (\<lambda>(index, E). Inr (G\<lparr>enc := SetInit index E\<rparr>))
      else Inr G)"


section \<open>Well-formed states\<close>

text \<open>The leaves of a tree point into the table of their kind; optional and repeated nodes have one child, the others two.\<close>

definition leaf_typed :: "gensyn_tables \<Rightarrow> ATOME \<Rightarrow> token_ref option \<Rightarrow> bool" where
  "leaf_typed T a tk \<longleftrightarrow>
     (a \<in> {EXPR, ELTER, UCSTEXP} \<and> tk \<in> (Some \<circ> Term_Ref) ` set (strings (termTable T)))
     \<or> (a = IDNTER \<and> tk \<in> (Some \<circ> Nonterm_Ref) ` set (strings (nontermTable T)))
     \<or> (a = LEXEM \<and> tk \<in> (Some \<circ> Lex_Ref) ` set (strings (lexTable T)))
     \<or> (a \<in> {RANGE, SCSTEXP} \<and> tk \<in> range (Some \<circ> Own_Ref))
     \<or> a = EMPTY"

fun sem_typed :: "gensyn_tables \<Rightarrow> noeudSEM \<Rightarrow> bool" where
  "sem_typed T NULL_SEM = False"
| "sem_typed T (SEM a s e p tk l r) \<longleftrightarrow>
     (if unary a then sem_typed T l \<and> r = NULL_SEM
      else if binary a then sem_typed T l \<and> sem_typed T r
      else l = NULL_SEM \<and> r = NULL_SEM \<and> leaf_typed T a tk)"

definition gensyn_ok :: "gensyn \<Rightarrow> bool" where
  "gensyn_ok G \<longleftrightarrow> tables_ok (tables G) \<and> actions_ok (sem G)
     \<and> (\<forall>t \<in> set (PileSEM (sem G)) \<union> ran (rules (sem G)). sem_typed (tables G) t)"

text \<open>Tables that have at least the strings of others.\<close>

definition tables_le :: "gensyn_tables \<Rightarrow> gensyn_tables \<Rightarrow> bool" where
  "tables_le T T' \<longleftrightarrow> set (strings (termTable T)) \<subseteq> set (strings (termTable T'))
     \<and> set (strings (nontermTable T)) \<subseteq> set (strings (nontermTable T')) \<and> set (strings (lexTable T)) \<subseteq> set (strings (lexTable T'))"

lemma tables_le_refl [simp]: "tables_le T T"
  by (simp add: tables_le_def)

lemma leaf_typed_mono: "tables_le T T' \<Longrightarrow> leaf_typed T a tk \<Longrightarrow> leaf_typed T' a tk"
  by (auto simp: leaf_typed_def tables_le_def)

lemma sem_typed_mono: "tables_le T T' \<Longrightarrow> sem_typed T t \<Longrightarrow> sem_typed T' t"
  by (induction t) (auto split: if_splits intro: leaf_typed_mono)

lemma AVLadd_result:
  assumes "AVL_invar t" "AVLadd s t = Inr (tk, t')"
  shows "AVL_invar t'" "valStr tk = s" "set (strings t') = insert s (set (strings t))"
proof -
  have "length s < MAX_SEM_LEN" using AVLadd_overflow [of s t] assms(2) by (cases "MAX_SEM_LEN \<le> length s") auto
  from avl.add_any [OF assms(1) this] assms(2)
  show "AVL_invar t'" "valStr tk = s" "set (strings t') = insert s (set (strings t))" by (auto simp: strings_def)
qed

lemma AddTerminal_result:
  assumes "tables_ok T" "AddTerminal s T = Inr (tk, T')"
  shows "tables_ok T' \<and> tables_le T T' \<and> valStr tk = s \<and> s \<in> set (strings (termTable T'))"
  using assms AVLadd_result [of "termTable T" s] by (auto simp: table_laws tables_le_def bindE_eq_Inr)

lemma AddNonTerminal_result:
  assumes "tables_ok T" "AddNonTerminal s T = Inr (tk, T')"
  shows "tables_ok T' \<and> tables_le T T' \<and> valStr tk = s \<and> s \<in> set (strings (nontermTable T'))"
  using assms AVLadd_result [of "nontermTable T" s] by (auto simp: table_laws tables_le_def bindE_eq_Inr)

lemma AddLexem_result:
  assumes "tables_ok T" "AddLexem s T = Inr (tk, T')"
  shows "tables_ok T' \<and> tables_le T T' \<and> valStr tk = s \<and> s \<in> set (strings (lexTable T'))"
  using assms AVLadd_result [of "lexTable T" s] by (auto simp: table_laws tables_le_def bindE_eq_Inr)

text \<open>Pushing and popping trees.\<close>

lemma push_sem_ok:
  assumes "gensyn_ok G" "tables_ok T" "tables_le (tables G) T" "sem_typed T t" "push_sem t (G\<lparr>tables := T\<rparr>) = Inr G'"
  shows "gensyn_ok G'"
proof -
  have "\<forall>x \<in> set (PileSEM (sem G)) \<union> ran (rules (sem G)). sem_typed T x"
    using assms(1) sem_typed_mono [OF assms(3)] by (simp add: gensyn_ok_def)
  with assms show ?thesis
    by (auto simp: gensyn_ok_def push_sem_def EmpilerSEM_def actions_ok_def rules_def bindE_eq_Inr split: if_splits)
qed

lemma push_sem_same_ok: "gensyn_ok G \<Longrightarrow> sem_typed (tables G) t \<Longrightarrow> push_sem t G = Inr G' \<Longrightarrow> gensyn_ok G'"
  by (rule push_sem_ok [of G "tables G" t]) (simp_all add: gensyn_ok_def)

lemma pop_sem_ok:
  assumes "gensyn_ok G" "pop_sem G = Inr (t, G')"
  shows "gensyn_ok G'" "sem_typed (tables G') t" "tables G' = tables G"
  using assms by (auto simp: gensyn_ok_def pop_sem_def DepilerSEM_def actions_ok_def rules_def bindE_eq_Inr split: list.splits)

lemma lexCount_ok [simp]: "gensyn_ok (G\<lparr>lexCount := n\<rparr>) = gensyn_ok G" "gensyn_ok (G\<lparr>NomLu := s\<rparr>) = gensyn_ok G" "gensyn_ok (G\<lparr>enc := E\<rparr>) = gensyn_ok G"
  by (simp_all add: gensyn_ok_def)


section \<open>The actions keep states well-formed\<close>

lemma typed_leaf: "\<not> unary a \<Longrightarrow> \<not> binary a \<Longrightarrow> sem_typed T (GenSEM a tk) \<longleftrightarrow> leaf_typed T a tk"
  by (simp add: GenSEM_def)

lemma new_leaf_ok:
  assumes "gensyn_ok G" "tables_ok T \<and> tables_le (tables G) T" "leaf_typed T a tk" "\<not> unary a" "\<not> binary a"
    and "push_sem (GenSEM a tk) (G\<lparr>tables := T\<rparr>) = Inr G'"
  shows "gensyn_ok G'"
  using assms push_sem_ok [of G T "GenSEM a tk" G'] by (simp add: typed_leaf)

lemma tables_ok_of: "gensyn_ok G \<Longrightarrow> tables_ok (tables G)"
  by (simp add: gensyn_ok_def)

lemmas atom_kinds = unary_def binary_def leaf_typed_def

text \<open>The actions that add the string read last to a table and push a leaf with its token.\<close>

lemma token_action_ok:
  assumes ok: "gensyn_ok G" and kind: "\<not> unary a" "\<not> binary a"
    and typed: "\<And>tk T. add (NomLu G) (tables G) = Inr (tk, T) \<Longrightarrow> tables_ok T \<and> tables_le (tables G) T \<and> leaf_typed T a (Some (ref (valStr tk)))"
    and act: "(if noError G then
        bindE (add (NomLu G) (tables G)) (\<lambda>(tk, T).
        bindE (push_sem (GenSEM a (Some (ref (valStr tk)))) (G\<lparr>tables := T\<rparr>)) (\<lambda>G. Inr (G\<lparr>lexCount := n G\<rparr>)))
      else Inr G) = Inr G'"
  shows "gensyn_ok G'"
proof (cases "noError G")
  case True
  with act obtain tk T H where H: "add (NomLu G) (tables G) = Inr (tk, T)" "push_sem (GenSEM a (Some (ref (valStr tk)))) (G\<lparr>tables := T\<rparr>) = Inr H"
    "gensyn_ok G' = gensyn_ok H" by (auto simp: bindE_eq_Inr)
  from typed [OF H(1)] new_leaf_ok [OF ok _ _ kind H(2)] H(3) show ?thesis by simp
qed (use ok act in simp)

lemma bindE_Inr_id: "bindE m Inr = m"
  by (simp add: bindE_def split: sum.splits)

lemma term_typed:
  assumes "gensyn_ok G" "a \<in> {EXPR, ELTER, UCSTEXP}" "AddTerminal (NomLu G) (tables G) = Inr (tk, T)"
  shows "tables_ok T \<and> tables_le (tables G) T \<and> leaf_typed T a (Some (Term_Ref (valStr tk)))"
  using AddTerminal_result [OF tables_ok_of [OF assms(1)] assms(3)] assms(2) by (auto simp: leaf_typed_def)

lemma nonterm_typed:
  assumes "gensyn_ok G" "AddNonTerminal (NomLu G) (tables G) = Inr (tk, T)"
  shows "tables_ok T \<and> tables_le (tables G) T \<and> leaf_typed T IDNTER (Some (Nonterm_Ref (valStr tk)))"
  using AddNonTerminal_result [OF tables_ok_of [OF assms(1)] assms(2)] by (auto simp: leaf_typed_def)

lemma lexem_typed:
  assumes "gensyn_ok G" "AddLexem (NomLu G) (tables G) = Inr (tk, T)"
  shows "tables_ok T \<and> tables_le (tables G) T \<and> leaf_typed T LEXEM (Some (Lex_Ref (valStr tk)))"
  using AddLexem_result [OF tables_ok_of [OF assms(1)] assms(2)] by (auto simp: leaf_typed_def)

lemma leaf_actions_ok:
  assumes "gensyn_ok G"
  shows "CreateNewNTERM G = Inr G' \<Longrightarrow> gensyn_ok G'" "CreateNewTERM G = Inr G' \<Longrightarrow> gensyn_ok G'" "CreateNewEXPR G = Inr G' \<Longrightarrow> gensyn_ok G'"
    "CreateNewCstExpr G = Inr G' \<Longrightarrow> gensyn_ok G'" "CreateNewLexem LEXEM G = Inr G' \<Longrightarrow> gensyn_ok G'"
proof -
  have kind: "\<not> unary a \<and> \<not> binary a" if "a \<in> {IDNTER, ELTER, EXPR, UCSTEXP, LEXEM}" for a
    using that by (auto simp: unary_def binary_def)
  show "gensyn_ok G'" if "CreateNewNTERM G = Inr G'"
    by (rule token_action_ok [of G IDNTER AddNonTerminal Nonterm_Ref lexCount]) (use assms that kind nonterm_typed [OF assms] in \<open>simp_all add: CreateNewNTERM_def bindE_Inr_id split: if_splits\<close>)
  show "gensyn_ok G'" if "CreateNewTERM G = Inr G'"
    by (rule token_action_ok [of G ELTER AddTerminal Term_Ref lexCount]) (use assms that kind term_typed [OF assms, of ELTER] in \<open>simp_all add: CreateNewTERM_def bindE_Inr_id split: if_splits\<close>)
  show "gensyn_ok G'" if "CreateNewEXPR G = Inr G'"
    by (rule token_action_ok [of G EXPR AddTerminal Term_Ref "\<lambda>G. lexCount G + 1"]) (use assms that kind term_typed [OF assms, of EXPR] in \<open>simp_all add: CreateNewEXPR_def\<close>)
  show "gensyn_ok G'" if "CreateNewCstExpr G = Inr G'"
    by (rule token_action_ok [of G UCSTEXP AddTerminal Term_Ref "\<lambda>G. lexCount G + 1"]) (use assms that kind term_typed [OF assms, of UCSTEXP] in \<open>simp_all add: CreateNewCstExpr_def\<close>)
  show "gensyn_ok G'" if "CreateNewLexem LEXEM G = Inr G'"
    by (rule token_action_ok [of G LEXEM AddLexem Lex_Ref "\<lambda>G. lexCount G + 1"]) (use assms that kind lexem_typed [OF assms] in \<open>simp_all add: CreateNewLexem_def\<close>)
qed

lemma CreateEmpty_ok: "gensyn_ok G \<Longrightarrow> CreateEmpty G = Inr G' \<Longrightarrow> gensyn_ok G'"
  by (auto simp: CreateEmpty_def typed_leaf atom_kinds split: if_splits elim!: push_sem_same_ok [rotated -1])

lemma CreateNewNumVal_ok: "gensyn_ok G \<Longrightarrow> a \<in> {RANGE, SCSTEXP} \<Longrightarrow> CreateNewNumVal a G = Inr G' \<Longrightarrow> gensyn_ok G'"
  by (auto simp: CreateNewNumVal_def bindE_eq_Inr typed_leaf atom_kinds split: if_splits elim!: push_sem_same_ok [rotated -1])


lemma inner_actions_ok:
  assumes ok: "gensyn_ok G"
  shows "binary a \<Longrightarrow> GenDualNodeSem a G = Inr G' \<Longrightarrow> gensyn_ok G'" "unary a \<Longrightarrow> GenModeNodeSem a G = Inr G' \<Longrightarrow> gensyn_ok G'"
    "UnstackNTERM G = Inr G' \<Longrightarrow> gensyn_ok G'"
proof -
  have excl: "\<not> unary a" if "binary a" for a using that by (auto simp: unary_def binary_def)
  show "gensyn_ok G'" if "binary a" "GenDualNodeSem a G = Inr G'"
  proof (cases "noError G")
    case True
    with that(2) obtain T1 G1 T2 G2 where G: "pop_sem G = Inr (T1, G1)" "pop_sem G1 = Inr (T2, G2)"
      "push_sem (SEM a (- 1) (- 1) 0 None T2 T1) G2 = Inr G'"
      by (auto simp: GenDualNodeSem_def GenSEM_def bindE_eq_Inr)
    note p1 = pop_sem_ok [OF ok G(1)] and p2 = pop_sem_ok [OF pop_sem_ok(1) [OF ok G(1)] G(2)]
    with p1(2) p2 that(1) excl push_sem_same_ok [OF p2(1) _ G(3)] show ?thesis by simp
  qed (use that ok in \<open>simp add: GenDualNodeSem_def\<close>)
  show "gensyn_ok G'" if "unary a" "GenModeNodeSem a G = Inr G'"
  proof (cases "noError G")
    case True
    with that(2) obtain T1 G1 where G: "pop_sem G = Inr (T1, G1)" "push_sem (SEM a (- 1) (- 1) 0 None T1 NULL_SEM) G1 = Inr G'"
      by (auto simp: GenModeNodeSem_def GenSEM_def bindE_eq_Inr)
    with pop_sem_ok [OF ok G(1)] that(1) push_sem_same_ok [OF pop_sem_ok(1) [OF ok G(1)] _ G(2)] show ?thesis by simp
  qed (use that ok in \<open>simp add: GenModeNodeSem_def\<close>)
  show "gensyn_ok G'" if "UnstackNTERM G = Inr G'"
    using that ok by (auto simp: UnstackNTERM_def bindE_eq_Inr split: if_splits dest: pop_sem_ok(1))
qed

text \<open>A rule keeps its form when it gets its encoding action or another alternative.\<close>

lemma set_encoding_typed: "set_encoding i n t = Inr t' \<Longrightarrow> sem_typed T t' = sem_typed T t"
  by (cases t) (auto simp: set_encoding_def)

lemma alternative_typed:
  assumes "sem_typed T old" "sem_typed T Action" "alternative old Action = Inr t"
  shows "sem_typed T t"
proof -
  have kinds: "\<not> unary EMPTY" "\<not> binary EMPTY" "unary OPTION" "binary OR_ATOM" "\<not> unary OR_ATOM" by (simp_all add: unary_def binary_def)
  obtain a s e p tk l r where old: "old = SEM a s e p tk l r" using assms(1) by (cases old) auto
  obtain a' s' e' p' tk' l' r' where A: "Action = SEM a' s' e' p' tk' l' r'" using assms(2) by (cases Action) auto
  consider "a' = EMPTY" | "a' \<noteq> EMPTY" "a = EMPTY" | "a' \<noteq> EMPTY" "a \<noteq> EMPTY" by blast
  then show ?thesis using assms by cases (auto simp: old A alternative_def GenSEM_def kinds)
qed

lemma AjoutAct_result:
  assumes "actions_ok S" "Action \<noteq> NULL_SEM" "AjoutAct nom Action fresh S = Inr S'"
  shows "actions_ok S' \<and> PileSEM S' = PileSEM S \<and> (\<exists>t. extended (rules S nom) Action = Inr t \<and> rules S' = (rules S)(nom \<mapsto> t))"
proof (cases "length nom < MAX_SEM_LEN")
  case True
  from AjoutAct_spec [OF assms(1,2) True, of fresh] assms(3) show ?thesis by (auto simp: returnsE_iff)
next
  case False
  obtain k where k: "place nom (TabACT S) k" "RechAct nom S = Inr (sem_of (rules S nom), int k)" using RechAct_spec [OF assms(1)] .
  then obtain old where old: "rules S nom = Some old" using False assms(3)
    by (cases "rules S nom") (auto simp: AjoutAct_def sem_of_def Let_def bindE_eq_Inr)
  obtain t where t: "alternative old Action = Inr t" "t \<noteq> NULL_SEM"
    using alternative_returns [OF rules_not_null [OF assms(1) old] assms(2)] .
  note add = AjoutAct_old(1) [OF assms(1) k old t, of fresh] AjoutAct_old(2) [OF assms(1) k old t]
  with place_actions_ok [OF assms(1) k(1) refl t(2), of S'] assms(3) old t(1) show ?thesis by (auto simp: extended_def)
qed

lemma extended_typed:
  assumes "extended old Action = Inr t" "sem_typed T Action" "\<And>x. old = Some x \<Longrightarrow> sem_typed T x"
  shows "sem_typed T t"
proof (cases old)
  case (Some x)
  with alternative_typed [OF assms(3) assms(2), of x] assms(1) show ?thesis by (simp add: extended_def)
qed (use assms in \<open>simp add: extended_def\<close>)


lemma encoding_typed:
  assumes "sem_typed T t" "set_rule_encoding i n t = Inr t'"
  shows "sem_typed T t'"
proof (cases "action t = OPTION \<or> action t = REPEAT")
  case True
  with assms(2) obtain f where "set_encoding i n (fg t) = Inr f" "SetGauche t f = Inr t'" by (auto simp: set_rule_encoding_def bindE_eq_Inr)
  with True assms(1) show ?thesis by (cases t) (auto simp: unary_def set_encoding_typed)
qed (use assms in \<open>simp add: set_rule_encoding_def set_encoding_typed\<close>)

lemma AddNewAction_ok:
  assumes ok: "gensyn_ok G" and act: "AddNewAction e fresh G = Inr G'"
  shows "gensyn_ok G'"
proof (cases "noError G")
  case True
  with act obtain T1 G1 T2 G2 i E T1' nom S where G: "pop_sem G = Inr (T1, G1)" "pop_sem G1 = Inr (T2, G2)"
    and T1': "set_rule_encoding i (lexCount G2) T1 = Inr T1'"
    and S: "AjoutAct nom T1' fresh (sem G2) = Inr S" and G': "push_sem T2 (G2\<lparr>enc := E, sem := S\<rparr>) = Inr G'"
    by (auto simp: AddNewAction_def bindE_eq_Inr split: if_splits)
  note p1 = pop_sem_ok [OF ok G(1)] and p2 = pop_sem_ok [OF pop_sem_ok(1) [OF ok G(1)] G(2)]
  have typed: "sem_typed (tables G2) T1'" using encoding_typed [OF _ T1'] p1(2) p2(3) by simp
  then have "T1' \<noteq> NULL_SEM" by auto
  from AjoutAct_result [OF _ this S] p2(1) obtain t where S': "actions_ok S" "PileSEM S = PileSEM (sem G2)"
    "extended (rules (sem G2) nom) T1' = Inr t" "rules S = (rules (sem G2))(nom \<mapsto> t)" by (auto simp: gensyn_ok_def)
  have "sem_typed (tables G2) t"
    using extended_typed [OF S'(3) typed] p2(1) by (auto simp: gensyn_ok_def intro: ranI)
  then have "gensyn_ok (G2\<lparr>enc := E, sem := S\<rparr>)" using p2(1) S' by (auto simp: gensyn_ok_def ran_def split: if_splits)
  with push_sem_same_ok [OF _ _ G'] p2(2) show ?thesis by simp
qed (use assms in \<open>simp add: AddNewAction_def\<close>)

section \<open>The start\<close>

definition gensyn_start :: gensyn where
  "gensyn_start = \<lparr>tables = InitAllTables, sem = \<lparr>Axiome = False, PileSEM = [], TabACT = []\<rparr>,
     enc = \<lparr>encInfoTable = [], globDeclInfo = [], portInfo = [], multiplyInfo = [], initVal = - 1\<rparr>, lexCount = 0, noError = True, NomLu = []\<rparr>"

lemma gensyn_start_ok: "gensyn_ok gensyn_start"
  using InitAllTables_ok by (simp add: gensyn_ok_def gensyn_start_def actions_ok_def rules_def)

lemma AddInitAction_ok: "gensyn_ok G \<Longrightarrow> AddInitAction e G = Inr G' \<Longrightarrow> gensyn_ok G'"
  by (auto simp: AddInitAction_def bindE_eq_Inr split: if_splits)

section \<open>Writing the rules of a grammar\<close>

fun has_empty :: "noeudSEM \<Rightarrow> bool" where
  "has_empty NULL_SEM = False"
| "has_empty (SEM a s e p tk l r) = (a = EMPTY \<or> has_empty l \<or> has_empty r)"

lemma table_index_of: "s \<in> set (strings t) \<Longrightarrow> \<exists>i. table_index t s = Inr i"
  by (auto simp: table_index_def strings_def find_None_iff split: option.splits)

lemma typed_sem_ok:
  assumes "sem_typed T t" "\<not> has_empty t"
  shows "sem_ok T t"
proof -
  have "leaf_ok T a tk" if "leaf_typed T a tk" "a \<noteq> EMPTY" for a tk
    using that by (auto simp: leaf_typed_def leaf_ok_def leaf_value_def indexed_def dest!: table_index_of)
  with assms show ?thesis by (induction t) (auto split: if_splits)
qed

text \<open>The tables when the rules are written.\<close>

definition numbered :: "gensyn_tables \<Rightarrow> gensyn_tables" where
  "numbered T = AssignNonTermIndex (AssignTermIndex T)"

lemma tables_le_numbered: "tables_le T (numbered T)"
  by (simp add: tables_le_def numbered_def AssignNonTermIndex_def AssignTermIndex_def)

lemma print_all_rules_written:
  assumes "\<forall>(nom, t) \<in> set Table. sem_ok T t \<and> sem_size t \<le> 2 ^ 15"
  shows "\<exists>arrays. list_all2 (\<lambda>rows (nom, t). represents T rows 0 t) arrays Table
    \<and> print_all_rules T Table = Inr (map (\<lambda>(nom, t). (nom, fst (SetPrefixIndex t 0))) Table,
        concat (map2 (\<lambda>rows (nom, t). array_text nom rows) arrays Table))"
  using assms
proof (induction Table)
  case (Cons rule rest)
  obtain nom t where rule: "rule = (nom, t)" by (cases rule)
  with Cons.prems obtain rows where rows: "print_rule T rule = Inr ((nom, fst (SetPrefixIndex t 0)), array_text nom rows)" "represents T rows 0 t"
    using print_rule_written [of T t nom] by auto
  from Cons.IH Cons.prems obtain arrays where arrays: "list_all2 (\<lambda>rows (nom, t). represents T rows 0 t) arrays rest"
    "print_all_rules T rest = Inr (map (\<lambda>(nom, t). (nom, fst (SetPrefixIndex t 0))) rest,
        concat (map2 (\<lambda>rows (nom, t). array_text nom rows) arrays rest))" by auto
  have "list_all2 (\<lambda>rows (nom, t). represents T rows 0 t) (rows # arrays) (rule # rest)"
    "print_all_rules T (rule # rest) = Inr (map (\<lambda>(nom, t). (nom, fst (SetPrefixIndex t 0))) (rule # rest),
        concat (map2 (\<lambda>rows (nom, t). array_text nom rows) (rows # arrays) (rule # rest)))"
    using rows arrays by (simp_all add: rule)
  then show ?case by blast
qed simp

lemma rules_written:
  assumes "gensyn_ok G" "\<forall>(nom, t) \<in> set (TabACT (sem G)). \<not> has_empty t \<and> sem_size t \<le> 2 ^ 15"
  defines "T \<equiv> numbered (tables G)"
  shows "\<exists>arrays. list_all2 (\<lambda>rows (nom, t). represents T rows 0 t) arrays (TabACT (sem G))
    \<and> print_all_rules T (TabACT (sem G)) = Inr (map (\<lambda>(nom, t). (nom, fst (SetPrefixIndex t 0))) (TabACT (sem G)),
        concat (map2 (\<lambda>rows (nom, t). array_text nom rows) arrays (TabACT (sem G))))"
proof -
  have distinct: "distinct (map fst (TabACT (sem G)))" using assms(1) by (simp add: gensyn_ok_def actions_ok_def strict_sorted_iff)
  have "sem_ok T t \<and> sem_size t \<le> 2 ^ 15" if "(nom, t) \<in> set (TabACT (sem G))" for nom t
  proof -
    have "t \<in> ran (rules (sem G))" using map_of_is_SomeI [OF distinct that] by (auto simp: rules_def intro: ranI)
    then have "sem_typed (tables G) t" using assms(1) by (simp add: gensyn_ok_def)
    then have "sem_typed T t" unfolding T_def by (rule sem_typed_mono [OF tables_le_numbered])
    with assms(2) that show ?thesis by (auto intro: typed_sem_ok)
  qed
  then show ?thesis by (intro print_all_rules_written) auto
qed


end
