(* ===== verification/Gensyn_Formats.thy ===== *)
theory Gensyn_Formats
  imports Gensyn_Actions
begin

text \<open>
  Classes, formats and groupings of the parser generator: the lists of \<^verbatim>\<open>gensyn/src/lname.c\<close>, \<^verbatim>\<open>format.c\<close> and \<^verbatim>\<open>groups.c\<close>, and the actions of
  \<^verbatim>\<open>action0.c\<close> on them.  A linked list with a head cell is a list; a pointer to the current element, which may be null, is an option.
\<close>

section \<open>Strings in buffers\<close>

definition strcpy_into :: "nat \<Rightarrow> string \<Rightarrow> string outcome" where
  "strcpy_into n s = (if length s < n then Inr s else Inl Out_Of_Bounds)"

section \<open>Classes\<close>

definition AddNameList :: "string \<Rightarrow> string list \<Rightarrow> string list outcome" where
  "AddNameList name nlist = bindE (strcpy_into MAX_SEM_LEN name) (\<lambda>name. Inr (name # nlist))"

fun IsNameDefined :: "string list \<Rightarrow> string \<Rightarrow> bool" where
  "IsNameDefined [] name = False"
| "IsNameDefined (x # xs) name = (if strcmp x name = 0 then True else IsNameDefined xs name)"

section \<open>Formats\<close>

text \<open>The numbers that a field has so far.\<close>

record s_Field =
  field_name :: string
  numField :: "int list"

record s_Format =
  format_name :: string
  nbits :: int
  nfields :: int
  flist :: "s_Field list"

record s_Slot =
  slot_index :: int
  slot_size :: int
  slot_name :: string
  iType :: string

record s_Grouping =
  grouping_name :: string
  grouping_size :: int
  slist :: "s_Slot list"

record formats =
  classList :: "string list"
  currField :: "s_Field option"
  currFormat :: "s_Format option"
  formatList :: "s_Format list"
  currSlot :: "s_Slot option"
  currGrouping :: "s_Grouping option"
  groupingList :: "s_Grouping list"

definition InitDefineLists :: "formats \<Rightarrow> formats" where
  "InitDefineLists F = F\<lparr>classList := []\<rparr>"

definition InitFormats :: "formats \<Rightarrow> formats" where
  "InitFormats F = F\<lparr>currField := None, currFormat := None, formatList := []\<rparr>"

definition InitGroupings :: "formats \<Rightarrow> formats" where
  "InitGroupings F = F\<lparr>currSlot := None, currGrouping := None, groupingList := []\<rparr>"

definition AddNewClassInfo :: "string \<Rightarrow> formats \<Rightarrow> formats outcome" where
  "AddNewClassInfo name F = bindE (AddNameList name (classList F)) (\<lambda>l. Inr (F\<lparr>classList := l\<rparr>))"

definition IsClassDefined :: "string \<Rightarrow> formats \<Rightarrow> bool" where
  "IsClassDefined name F = IsNameDefined (classList F) name"

definition null_check :: "'a option \<Rightarrow> 'a outcome" where
  "null_check p = (case p of None \<Rightarrow> Inl Null_Pointer | Some x \<Rightarrow> Inr x)"

text \<open>\<^verbatim>\<open>*currNumField++ = val\<close> in the array of three numbers of the current field.\<close>

definition AddNumFieldToCurrField :: "int \<Rightarrow> formats \<Rightarrow> formats outcome" where
  "AddNumFieldToCurrField val F =
     bindE (null_check (currField F)) (\<lambda>field.
     if length (numField field) < 3 then Inr (F\<lparr>currField := Some (field\<lparr>numField := numField field @ [UINT32 val]\<rparr>)\<rparr>)
     else Inl Out_Of_Bounds)"

text \<open>The name of a field is also a variable of the generated parser.\<close>

definition SetNewCurrField :: "string \<Rightarrow> gensyn_tables \<times> formats \<Rightarrow> (gensyn_tables \<times> formats) outcome" where
  "SetNewCurrField name = (\<lambda>(T, F).
     bindE (strcpy_into MAX_SEM_LEN name) (\<lambda>fname.
     bindE (AddVar name T) (\<lambda>(tk, T).
     Inr (T, F\<lparr>currField := Some \<lparr>field_name = fname, numField = []\<rparr>\<rparr>))))"

definition AddCurrFieldToCurrFormat :: "formats \<Rightarrow> formats outcome" where
  "AddCurrFieldToCurrFormat F =
     bindE (null_check (currFormat F)) (\<lambda>format. bindE (null_check (currField F)) (\<lambda>field.
     Inr (F\<lparr>currFormat := Some (format\<lparr>flist := field # flist format\<rparr>)\<rparr>)))"

definition IsFormatDefined :: "string \<Rightarrow> formats \<Rightarrow> bool" where
  "IsFormatDefined name F = (\<exists>f \<in> set (formatList F). strcmp (format_name f) name = 0)"

definition SetNewCurrFormat :: "string \<Rightarrow> formats \<Rightarrow> formats outcome" where
  "SetNewCurrFormat name F =
     bindE (strcpy_into MAX_SEM_LEN name) (\<lambda>name.
     Inr (F\<lparr>currFormat := Some \<lparr>format_name = name, nbits = - 1, nfields = 0, flist = []\<rparr>\<rparr>))"

text \<open>The sum of two unsigned numbers, as an \<^verbatim>\<open>int\<close>.\<close>

fun ComputeMaxBits_loop :: "s_Field list \<Rightarrow> int \<Rightarrow> int \<Rightarrow> (int \<times> int) outcome" where
  "ComputeMaxBits_loop [] mx i = Inr (mx, i)"
| "ComputeMaxBits_loop (f # fs) mx i =
     bindE (table_read (numField f) 0) (\<lambda>x. bindE (table_read (numField f) 2) (\<lambda>y.
     let newMax = INT32 (UINT32 (x + y)) in
     ComputeMaxBits_loop fs (if newMax > mx then newMax else mx) (i + 1)))"

definition ComputeMaxBits :: "s_Format \<Rightarrow> s_Format outcome" where
  "ComputeMaxBits format = bindE (ComputeMaxBits_loop (flist format) (- 1) 0) (\<lambda>(mx, i). Inr (format\<lparr>nbits := mx, nfields := i\<rparr>))"

definition AddCurrFormatToList :: "formats \<Rightarrow> formats outcome" where
  "AddCurrFormatToList F =
     bindE (null_check (currFormat F)) (\<lambda>format. bindE (ComputeMaxBits format) (\<lambda>format.
     Inr (F\<lparr>currFormat := Some format, formatList := formatList F @ [format]\<rparr>)))"

section \<open>Groupings\<close>

definition AddInstTypeToCurrSlot :: "string \<Rightarrow> formats \<Rightarrow> formats outcome" where
  "AddInstTypeToCurrSlot typeName F =
     bindE (null_check (currSlot F)) (\<lambda>slot.
     bindE (strcpy_into 2048 (if slot_size slot \<noteq> 0 then iType slot @ '', '' @ typeName else typeName)) (\<lambda>types.
     Inr (F\<lparr>currSlot := Some (slot\<lparr>iType := types, slot_size := slot_size slot + 1\<rparr>)\<rparr>)))"

definition SetNewCurrSlot :: "int \<Rightarrow> formats \<Rightarrow> formats outcome" where
  "SetNewCurrSlot index F =
     bindE (null_check (currGrouping F)) (\<lambda>g.
     bindE (strcpy_into MAX_SEM_LEN (grouping_name g @ ''_'' @ print_int (grouping_size g))) (\<lambda>name.
     Inr (F\<lparr>currSlot := Some \<lparr>slot_index = index, slot_size = 0, slot_name = name, iType = []\<rparr>\<rparr>)))"

definition AddCurrSlotToCurrGrouping :: "formats \<Rightarrow> formats outcome" where
  "AddCurrSlotToCurrGrouping F =
     bindE (null_check (currGrouping F)) (\<lambda>g. bindE (null_check (currSlot F)) (\<lambda>slot.
     Inr (F\<lparr>currGrouping := Some (g\<lparr>slist := slist g @ [slot], grouping_size := grouping_size g + 1\<rparr>)\<rparr>)))"

definition IsGroupingDefined :: "string \<Rightarrow> formats \<Rightarrow> bool" where
  "IsGroupingDefined name F = (\<exists>g \<in> set (groupingList F). strcmp (grouping_name g) name = 0)"

definition SetNewCurrGrouping :: "string \<Rightarrow> formats \<Rightarrow> formats outcome" where
  "SetNewCurrGrouping name F =
     bindE (strcpy_into MAX_SEM_LEN name) (\<lambda>name.
     Inr (F\<lparr>currGrouping := Some \<lparr>grouping_name = name, grouping_size = 0, slist = []\<rparr>\<rparr>))"

definition AddCurrGroupingToList :: "formats \<Rightarrow> formats outcome" where
  "AddCurrGroupingToList F = bindE (null_check (currGrouping F)) (\<lambda>g. Inr (F\<lparr>groupingList := groupingList F @ [g]\<rparr>))"

end
