(* ===== verification/Gensyn_Lexer.thy ===== *)
theory Gensyn_Lexer
  imports Gensyn_Formats "HOL-Library.Sublist"
begin

text \<open>
  The lexer of the parser generator (\<^verbatim>\<open>gensyn/src/analex0.c\<close>).  The input is the rest of the file; \<^verbatim>\<open>EOF\<close> is \<open>None\<close>.  The sources are
  compiled with \<^verbatim>\<open>_FOR_GAS\<close>.
\<close>

section \<open>The state of the generator while it reads\<close>

record generator =
  gs :: gensyn
  fmts :: formats
  stream :: string
  curChar :: "char option"
  lineNo :: int
  dern_atom :: ATOME
  atomlu :: ATOME

definition fgetc :: "generator \<Rightarrow> generator" where
  "fgetc S = (case stream S of [] \<Rightarrow> S\<lparr>curChar := None\<rparr> | c # cs \<Rightarrow> S\<lparr>curChar := Some c, stream := cs\<rparr>)"

text \<open>\<^verbatim>\<open>ungetc(curChar, inputStream)\<close>\<close>

definition ungetc :: "generator \<Rightarrow> generator" where
  "ungetc S = (case curChar S of None \<Rightarrow> S | Some c \<Rightarrow> S\<lparr>stream := c # stream S\<rparr>)"

text \<open>A string in \<^verbatim>\<open>NomLu\<close> ends at its first null character.\<close>

definition set_NomLu :: "string \<Rightarrow> generator \<Rightarrow> generator" where
  "set_NomLu s S = S\<lparr>gs := (gs S)\<lparr>NomLu := takeWhile (\<lambda>c. c \<noteq> CHR 0x00) s\<rparr>\<rparr>"

abbreviation last_name :: "generator \<Rightarrow> string" where
  "last_name S \<equiv> NomLu (gs S)"

definition isdigit :: "char option \<Rightarrow> bool" where
  "isdigit x = (case x of None \<Rightarrow> False | Some c \<Rightarrow> CHR ''0'' \<le> c \<and> c \<le> CHR ''9'')"

definition isalpha :: "char option \<Rightarrow> bool" where
  "isalpha x = (case x of None \<Rightarrow> False | Some c \<Rightarrow> (CHR ''a'' \<le> c \<and> c \<le> CHR ''z'') \<or> (CHR ''A'' \<le> c \<and> c \<le> CHR ''Z''))"

definition isalnum :: "char option \<Rightarrow> bool" where
  "isalnum x \<longleftrightarrow> isalpha x \<or> isdigit x"

definition isspace :: "char option \<Rightarrow> bool" where
  "isspace x = (case x of None \<Rightarrow> False | Some c \<Rightarrow> c = CHR '' '' \<or> (CHR 0x09 \<le> c \<and> c \<le> CHR 0x0D))"

section \<open>Comments\<close>

text \<open>The loops skip to the end of the comment, which is not there when they reach the end of the file: they never end then.\<close>

fun skip_line :: "string \<Rightarrow> string outcome" where
  "skip_line [] = Inl Diverges"
| "skip_line (c # cs) = (if c \<noteq> CHR 0x0A then skip_line cs else Inr cs)"

fun skip_block :: "string \<Rightarrow> int \<Rightarrow> (string \<times> int) outcome" where
  "skip_block (c # d # cs) n =
     (if c \<noteq> CHR ''*'' \<or> d \<noteq> CHR ''/'' then skip_block (d # cs) (if c = CHR 0x0A then n + 1 else n) else Inr (cs, n))"
| "skip_block cs n = Inl Diverges"

definition GetComment :: "generator \<Rightarrow> (bool \<times> generator) outcome" where
  "GetComment S =
     (if curChar S \<noteq> Some (CHR ''/'') then Inr (False, S)
      else
        let oneChar = curChar S; S = fgetc S in
        if curChar S = Some (CHR ''*'') then
          bindE (skip_block (stream S) (lineNo S)) (\<lambda>(cs, n). Inr (True, fgetc (set_NomLu [] (S\<lparr>stream := cs, lineNo := n\<rparr>))))
        else if curChar S = Some (CHR ''/'') then
          bindE (skip_line (stream S)) (\<lambda>cs. Inr (True, fgetc (set_NomLu [] (S\<lparr>stream := cs, lineNo := lineNo S + 1\<rparr>))))
        else Inr (False, (ungetc S)\<lparr>curChar := oneChar\<rparr>))"

section \<open>Identifiers, numbers and terminals\<close>

text \<open>The characters read so far, and the state with the current character.\<close>

definition pending :: "generator \<Rightarrow> nat" where
  "pending S = length (stream S) + (if curChar S = None then 0 else 1)"

lemma pending_fgetc [simp]: "curChar S \<noteq> None \<Longrightarrow> pending (fgetc S) < pending S"
  by (auto simp: fgetc_def pending_def split: list.splits)

function GetIdent_loop :: "string \<Rightarrow> generator \<Rightarrow> (string \<times> generator) outcome" where
  "GetIdent_loop name S =
     (if isalnum (curChar S) \<or> curChar S = Some (CHR ''_'') then
        if length name < MAX_SEM_LEN - 1 then GetIdent_loop (name @ [the (curChar S)]) (fgetc S)
        else Inl (Fatal ''Identifier too long'')
      else Inr (name, S))"
  by pat_completeness auto
termination
  by (relation "measure (\<lambda>(name, S). pending S)") (auto simp: isalnum_def isalpha_def isdigit_def split: option.splits)

declare GetIdent_loop.simps [simp del]

definition GetIdent :: "generator \<Rightarrow> generator outcome" where
  "GetIdent S =
     (let S = set_NomLu [] S in
      if isalpha (curChar S) \<or> curChar S = Some (CHR ''_'') then
        bindE (GetIdent_loop [the (curChar S)] (fgetc S)) (\<lambda>(name, S). Inr (ungetc (set_NomLu name S)))
      else Inr S)"

definition IsIdent :: "generator \<Rightarrow> (bool \<times> generator) outcome" where
  "IsIdent S = bindE (GetIdent S) (\<lambda>S. Inr (last_name S \<noteq> [], S))"

definition arraySep :: "char option list" where
  "arraySep = [Some (CHR ''<''), Some (CHR 0x0A), None, Some (CHR '' ''), Some (CHR 0x09), Some (CHR ''[''), Some (CHR '']'')]"

definition IsSeparator :: "char option \<Rightarrow> bool" where
  "IsSeparator c \<longleftrightarrow> c \<in> set arraySep"

text \<open>Digits are not counted against the size of \<^verbatim>\<open>NomLu\<close>.\<close>

function GetNumString_loop :: "string \<Rightarrow> generator \<Rightarrow> (string \<times> generator) outcome" where
  "GetNumString_loop name S =
     (if isdigit (curChar S) then
        if length name < MAX_SEM_LEN then GetNumString_loop (name @ [the (curChar S)]) (fgetc S) else Inl Out_Of_Bounds
      else Inr (name, S))"
  by pat_completeness auto
termination
  by (relation "measure (\<lambda>(name, S). pending S)") (auto simp: isdigit_def split: option.splits)

declare GetNumString_loop.simps [simp del]

definition GetNumString :: "generator \<Rightarrow> generator outcome" where
  "GetNumString S =
     bindE (GetNumString_loop [] S) (\<lambda>(name, S). if length name < MAX_SEM_LEN then Inr (ungetc (set_NomLu name S)) else Inl Out_Of_Bounds)"

text \<open>After a backslash, the next character is taken as it is; \<^verbatim>\<open>EOF\<close> becomes the character 255.\<close>

definition char_of_int_char :: "char option \<Rightarrow> char" where
  "char_of_int_char x = (case x of None \<Rightarrow> CHR 0xFF | Some c \<Rightarrow> c)"

function GetTermString_loop :: "string \<Rightarrow> generator \<Rightarrow> string \<times> generator" where
  "GetTermString_loop name S =
     (if \<not> IsSeparator (curChar S) then
        let S = (if curChar S = Some (CHR 0x5C) then fgetc S else S);
            name = (if length name < MAX_SEM_LEN - 1 then name @ [char_of_int_char (curChar S)] else name) in
        GetTermString_loop name (fgetc S)
      else (name, S))"
  by pat_completeness auto
termination
proof (relation "measure (\<lambda>(name, S). pending S)", goal_cases)
  case (2 name S S' name')
  then have S: "curChar S \<noteq> None" by (auto simp: IsSeparator_def arraySep_def)
  show ?case
  proof (cases "curChar S = Some (CHR 0x5C)")
    case True
    then have S': "S' = fgetc S" using 2 by simp
    have "pending (fgetc S') \<le> pending S'" by (cases "curChar S' = None") (auto simp: fgetc_def pending_def split: list.splits)
    also have "\<dots> < pending S" using S by (simp add: S')
    finally show ?thesis by simp
  qed (use 2 S in simp)
qed simp

declare GetTermString_loop.simps [simp del]

definition GetTermString :: "generator \<Rightarrow> generator" where
  "GetTermString S = (let (name, S) = GetTermString_loop [] S in set_NomLu name (ungetc S))"


section \<open>The left-hand side lexer\<close>

definition to_lower :: "char \<Rightarrow> char" where
  "to_lower c = (if CHR ''A'' \<le> c \<and> c \<le> CHR ''Z'' then char_of (of_char c + 32 :: nat) else c)"

definition keyWordTable :: "(ATOME \<times> string) list" where
  "keyWordTable = [(FORMAT, ''Format''), (SYNKEYWORD, ''Sy''), (ACTKEYWORD, ''Act''), (DESKEYWORD, ''De''), (GROUPING, ''IGroup''), (ELF, ''Elf''),
     (INIT, ''Init''), (RELOC, ''Reloc''), (CLASS, ''IClass''), (ROOT, ''Root''), (GLBDEC, ''GLOBDECL''), (PORT, ''Port''), (MULTIPLY, ''Multiply'')]"

definition IdentKeyWord :: "generator \<Rightarrow> ATOME" where
  "IdentKeyWord S =
     (case find (\<lambda>(atom, keyword). map to_lower keyword = map to_lower (last_name S)) keyWordTable of None \<Rightarrow> LEXERR | Some (atom, keyword) \<Rightarrow> atom)"

lemma skip_line_shorter: "skip_line cs = Inr cs' \<Longrightarrow> length cs' < length cs"
  by (induction cs) (auto split: if_splits)

lemma skip_block_shorter: "skip_block cs n = Inr (cs', n') \<Longrightarrow> length cs' < length cs"
  by (induction cs n rule: skip_block.induct) (auto split: if_splits)

lemma pending_fgetc_le: "pending (fgetc S) \<le> pending S"
  by (auto simp: fgetc_def pending_def split: list.splits)

lemma pending_set_NomLu [simp]: "pending (set_NomLu s S) = pending S" "stream (set_NomLu s S) = stream S" "curChar (set_NomLu s S) = curChar S"
  by (simp_all add: pending_def set_NomLu_def)

lemma pending_fields [simp]: "pending (S\<lparr>lineNo := n\<rparr>) = pending S" "pending (S\<lparr>atomlu := a\<rparr>) = pending S" "pending (S\<lparr>dern_atom := a\<rparr>) = pending S"
  "pending (S\<lparr>gs := g\<rparr>) = pending S" "pending (S\<lparr>fmts := f\<rparr>) = pending S"
  by (simp_all add: pending_def)

lemma GetComment_shorter:
  assumes "GetComment S = Inr (True, S')"
  shows "pending S' < pending S"
proof -
  let ?S = "fgetc S"
  have c: "curChar S \<noteq> None" using assms by (cases "curChar S") (simp_all add: GetComment_def)
  have "pending S' \<le> length (stream ?S)"
  proof -
    obtain cs n where S': "S' = fgetc (set_NomLu [] (?S\<lparr>stream := cs, lineNo := n\<rparr>))" and cs: "length cs < length (stream ?S)"
      using assms by (auto simp: GetComment_def Let_def bindE_eq_Inr split: if_splits dest: skip_line_shorter skip_block_shorter)
    then have "pending S' \<le> Suc (length cs)" using pending_fgetc_le [of "set_NomLu [] (?S\<lparr>stream := cs, lineNo := n\<rparr>)"] by (simp add: pending_def split: if_splits)
    with cs show ?thesis by simp
  qed
  also have "\<dots> < pending S" using c by (auto simp: fgetc_def pending_def split: list.splits)
  finally show ?thesis .
qed

text \<open>The loop over spaces and comments, with whether it returns \<^verbatim>\<open>LINEN\<close>.\<close>

function GetLeftLex_loop :: "bool \<Rightarrow> generator \<Rightarrow> (bool \<times> generator) outcome" where
  "GetLeftLex_loop skipEOL S =
     bindE (if isspace (curChar S) then Inr (True, S) else GetComment S) (\<lambda>(go, S).
     if go then
       let eol = curChar S = Some (CHR 0x0A);
           S = (if eol then S\<lparr>lineNo := lineNo S + 1\<rparr> else S) in
       if eol \<and> \<not> skipEOL then Inr (True, S)
       else GetLeftLex_loop skipEOL (fgetc S)
     else Inr (False, S))"
  by pat_completeness auto
termination
proof (relation "measure (\<lambda>(skipEOL, S). pending S)", goal_cases)
  case (2 skipEOL S r go S' eol S'')
  have S'': "pending (fgetc S'') \<le> pending (fgetc S')" "curChar S'' = curChar S'" "pending S'' = pending S'"
    using 2 by (auto simp: fgetc_def pending_def split: list.splits)
  show ?case
  proof (cases "isspace (curChar S)")
    case True
    then have "S' = S" "curChar S \<noteq> None" using 2 by (auto simp: isspace_def split: option.splits)
    with S'' pending_fgetc [of S''] show ?thesis by auto
  next
    case False
    with 2 have "GetComment S = Inr (True, S')" by auto
    from GetComment_shorter [OF this] pending_fgetc_le [of S''] S'' show ?thesis by simp
  qed
qed simp

declare GetLeftLex_loop.simps [simp del]

text \<open>A keyword, an identifier or a number.\<close>

definition GetLeftLex_word :: "bool \<Rightarrow> generator \<Rightarrow> (ATOME \<times> generator) outcome" where
  "GetLeftLex_word identKeyword S =
     bindE (IsIdent S) (\<lambda>(ident, S).
     if ident then Inr (if identKeyword then IdentKeyWord S else IDNTER, S)
     else if isdigit (curChar S) then bindE (GetNumString S) (\<lambda>S. Inr (NUMVAL, S))
     else Inr (LEXERR, S))"

definition GetLeftLex :: "bool \<Rightarrow> generator \<Rightarrow> (ATOME \<times> generator) outcome" where
  "GetLeftLex skipEOL S =
     bindE (GetLeftLex_loop skipEOL (fgetc S)) (\<lambda>(eol, S).
     if eol then Inr (LINEN, S)
     else if curChar S = Some (CHR '':'') then Inr (COLUMN, S)
     else if curChar S = Some (CHR '','') then Inr (COMMA, S)
     else if curChar S = Some (CHR ''*'') then Inr (STAR, S)
     else if curChar S = None then Inr (FILEN, S)
     else if curChar S = Some (CHR ''{'') then Inr (OPENACC, S)
     else if curChar S = Some (CHR ''}'') then Inr (CLOSACC, S)
     else if curChar S = Some (CHR ''.'') then GetLeftLex_word True (fgetc S)
     else GetLeftLex_word False S)"

section \<open>The right-hand side lexer\<close>

text \<open>
  Between angle brackets: the atom before the closing bracket is checked, and whether the brackets are doubled.  For a constant, the \<^verbatim>\<open>break\<close> leaves
  the check for an empty name out.
\<close>

definition GetRightLex_angle :: "generator \<Rightarrow> (ATOME \<times> bool \<times> generator) outcome" where
  "GetRightLex_angle S =
     (if curChar S = Some (CHR ''#'') then
        bindE (GetIdent (fgetc S)) (\<lambda>S. Inr (UCSTEXP, False, S))
      else if curChar S = Some (CHR ''$'') then
        bindE (IsIdent (fgetc S)) (\<lambda>(ident, S). Inr (if ident then LEXEM else LEXERR, False, S))
      else if curChar S = Some (CHR ''<'') then
        bindE (IsIdent (fgetc S)) (\<lambda>(ident, S). Inr (if ident then EXPR else LEXERR, True, S))
      else bindE (IsIdent S) (\<lambda>(ident, S). Inr (if ident then IDNTER else LEXERR, False, S)))"

text \<open>Blanks up to the next other character, with whether there is a tabulator among them.\<close>

function skip_blanks :: "bool \<Rightarrow> generator \<Rightarrow> bool \<times> generator" where
  "skip_blanks isSPACE S =
     (if curChar S = Some (CHR '' '') \<or> curChar S = Some (CHR 0x09) then
        skip_blanks (isSPACE \<or> curChar S = Some (CHR 0x09)) (fgetc S)
      else (isSPACE, S))"
  by pat_completeness auto
termination
  by (relation "measure (\<lambda>(isSPACE, S). pending S)") auto

declare skip_blanks.simps [simp del]

definition GetRightLex :: "generator \<Rightarrow> (ATOME \<times> generator) outcome" where
  "GetRightLex S =
     (let S = fgetc S in
      if curChar S = None then Inr (FILEN, S)
      else if curChar S = Some (CHR ''['') then Inr (OPENBRA, S)
      else if curChar S = Some (CHR '']'') then Inr (CLOSBRA, S)
      else if curChar S = Some (CHR 0x0A) then Inr (LINEN, S\<lparr>lineNo := lineNo S + 1\<rparr>)
      else if curChar S = Some (CHR ''<'') then
        bindE (GetRightLex_angle (fgetc S)) (\<lambda>(retLex, getExpression, S).
        if retLex = LEXERR then Inr (LEXERR, S)
        else
          let S = fgetc S;
              retLex = (if curChar S \<noteq> Some (CHR ''>'') then LEXERR else retLex) in
          if getExpression then
            let S = fgetc S in Inr (if curChar S \<noteq> Some (CHR ''>'') then LEXERR else retLex, S)
          else Inr (retLex, S))
      else if curChar S = Some (CHR '' '') \<or> curChar S = Some (CHR 0x09) then
        let (isSPACE, S) = skip_blanks False S in
        if curChar S = Some (CHR 0x0A) then Inr (LINEN, S\<lparr>lineNo := lineNo S + 1\<rparr>)
        else Inr (if isSPACE then SPACE else AND_ATOM, ungetc S)
      else Inr (ELTER, GetTermString S))"

definition identifie :: "ATOME \<Rightarrow> ATOME \<Rightarrow> generator \<Rightarrow> bool \<times> generator" where
  "identifie lu attendu S = (lu = attendu, S\<lparr>dern_atom := (if lu = LEXERR then lu else attendu)\<rparr>)"

section \<open>Encoding actions\<close>

text \<open>The text up to the closing brace: the nesting, what has been read, and the line.\<close>

fun encoding_loop :: "int \<Rightarrow> string \<Rightarrow> generator \<Rightarrow> string \<Rightarrow> (string \<times> generator) outcome" where
  "encoding_loop identLevel text S [] = Inl (Fatal ''Syntax error: closing brace expected'')"
| "encoding_loop identLevel text S (c # cs) =
     (let S = (if c = CHR 0x0A then S\<lparr>lineNo := lineNo S + 1\<rparr> else S);
          identLevel = (if c = CHR ''{'' then identLevel + 1 else if c = CHR ''}'' then identLevel - 1 else identLevel) in
      if identLevel = 0 then Inr (text, S\<lparr>stream := cs, curChar := Some (CHR 0x00)\<rparr>)
      else encoding_loop identLevel (text @ [c]) S cs)"

function skip_spaces :: "generator \<Rightarrow> generator" where
  "skip_spaces S =
     (if isspace (curChar S) then skip_spaces (fgetc (if curChar S = Some (CHR 0x0A) then S\<lparr>lineNo := lineNo S + 1\<rparr> else S)) else S)"
  by pat_completeness auto
termination
proof (relation "measure pending", goal_cases)
  case (2 S)
  then have "curChar S \<noteq> None" by (auto simp: isspace_def split: option.splits)
  then show ?case
    using pending_fgetc [of S] pending_fgetc [of "S\<lparr>lineNo := lineNo S + 1\<rparr>"] by auto
qed simp

declare skip_spaces.simps [simp del]

definition GetEncodingInformations :: "generator \<Rightarrow> (string \<times> generator) outcome" where
  "GetEncodingInformations S =
     (let S = skip_spaces (fgetc S) in
      if curChar S \<noteq> Some (CHR ''{'') then Inl (Fatal ''Syntax error: opening brace expected'')
      else bindE (encoding_loop 1 [] S (stream S)) (\<lambda>(text, S). Inr (takeWhile (\<lambda>c. c \<noteq> CHR 0x00) text, S)))"


section \<open>What the lexer has read\<close>

text \<open>The input from the current character on.\<close>

definition rest :: "generator \<Rightarrow> string" where
  "rest S = (case curChar S of None \<Rightarrow> stream S | Some c \<Rightarrow> c # stream S)"

lemma rest_simps [simp]: "rest (fgetc S) = stream S" "stream (ungetc S) = rest S" "rest (set_NomLu s S) = rest S" "rest (S\<lparr>lineNo := n\<rparr>) = rest S"
  by (simp_all add: rest_def fgetc_def ungetc_def split: list.splits option.splits)

lemma suffix_stream [simp]: "suffix (stream S) (rest S)"
  by (simp add: rest_def suffix_def split: option.splits)

lemma GetIdent_loop_suffix: "GetIdent_loop name S = Inr (name', S') \<Longrightarrow> suffix (rest S') (rest S)"
proof (induction name S rule: GetIdent_loop.induct)
  case (1 name S)
  show ?case
  proof (cases "isalnum (curChar S) \<or> curChar S = Some (CHR ''_'')")
    case True
    then have "GetIdent_loop name S = (if length name < MAX_SEM_LEN - 1 then GetIdent_loop (name @ [the (curChar S)]) (fgetc S) else Inl (Fatal ''Identifier too long''))"
      by (subst GetIdent_loop.simps) simp
    with "1.prems" have "length name < MAX_SEM_LEN - 1" "GetIdent_loop (name @ [the (curChar S)]) (fgetc S) = Inr (name', S')"
      by (simp_all split: if_splits)
    from "1.IH" [OF True this] show ?thesis using suffix_stream [of S] by (auto intro: suffix_order.trans)
  qed (use "1.prems" in \<open>subst (asm) GetIdent_loop.simps, simp\<close>)
qed

lemma GetIdent_suffix: "GetIdent S = Inr S' \<Longrightarrow> suffix (stream S') (stream S)"
  by (auto simp: GetIdent_def Let_def bindE_eq_Inr split: if_splits dest!: GetIdent_loop_suffix)

lemma IsIdent_suffix: "IsIdent S = Inr (b, S') \<Longrightarrow> suffix (stream S') (stream S)"
  by (auto simp: IsIdent_def bindE_eq_Inr dest: GetIdent_suffix)

lemma GetNumString_loop_suffix: "GetNumString_loop name S = Inr (name', S') \<Longrightarrow> suffix (rest S') (rest S)"
proof (induction name S rule: GetNumString_loop.induct)
  case (1 name S)
  from "1.prems" show ?case
    by (subst (asm) GetNumString_loop.simps) (auto split: if_splits dest!: "1.IH" intro: suffix_order.trans)
qed

lemma GetNumString_suffix:
  assumes "isdigit (curChar S)" "GetNumString S = Inr S'"
  shows "suffix (stream S') (stream S)"
proof -
  obtain name R where R: "GetNumString_loop [] S = Inr (name, R)" "stream S' = rest R"
    using assms(2) by (auto simp: GetNumString_def bindE_eq_Inr split: if_splits)
  from R(1) assms(1) have "suffix (rest R) (rest (fgetc S))"
    by (subst (asm) GetNumString_loop.simps) (auto simp: MAX_SEM_LEN_def dest: GetNumString_loop_suffix)
  with R(2) show ?thesis by simp
qed

lemma GetTermString_loop_suffix: "GetTermString_loop name S = (name', S') \<Longrightarrow> suffix (rest S') (rest S)"
proof (induction name S rule: GetTermString_loop.induct)
  case (1 name S)
  show ?case
  proof (cases "IsSeparator (curChar S)")
    case True
    with "1.prems" show ?thesis by (subst (asm) GetTermString_loop.simps) simp
  next
    case False
    define R where "R = (if curChar S = Some (CHR 0x5C) then fgetc S else S)"
    have "suffix (rest S') (stream R)"
      using "1.IH" [OF False R_def refl] "1.prems" False by (subst (asm) GetTermString_loop.simps) (simp add: Let_def flip: R_def)
    also have "suffix (stream R) (rest S)" using suffix_stream [of "fgetc S"] suffix_stream [of S] by (auto simp: R_def intro: suffix_order.trans)
    finally show ?thesis .
  qed
qed

lemma GetTermString_suffix:
  assumes "\<not> IsSeparator (curChar S)"
  shows "suffix (stream (GetTermString S)) (stream S)"
proof -
  obtain name R where R: "GetTermString_loop [] S = (name, R)" by fastforce
  define U where "U = (if curChar S = Some (CHR 0x5C) then fgetc S else S)"
  have "suffix (rest R) (stream U)"
    using R assms by (subst (asm) GetTermString_loop.simps) (auto simp: Let_def simp flip: U_def dest: GetTermString_loop_suffix)
  also have "suffix (stream U) (stream S)" by (auto simp: U_def fgetc_def suffix_ConsI split: list.splits)
  finally show ?thesis by (simp add: GetTermString_def R)
qed


lemma skip_suffix: "skip_line cs = Inr cs' \<Longrightarrow> suffix cs' cs" "skip_block cs n = Inr (cs', n') \<Longrightarrow> suffix cs' cs"
proof -
  show "skip_line cs = Inr cs' \<Longrightarrow> suffix cs' cs" by (induction cs) (auto split: if_splits intro: suffix_ConsI)
  show "skip_block cs n = Inr (cs', n') \<Longrightarrow> suffix cs' cs"
    by (induction cs n rule: skip_block.induct) (auto split: if_splits intro: suffix_ConsI)
qed

lemma GetComment_suffix:
  assumes "GetComment S = Inr (b, S')"
  shows "suffix (rest S') (rest S)"
proof -
  have sub: "suffix (stream (fgetc S)) (rest S)" using suffix_stream [of "fgetc S"] suffix_stream [of S] by (auto intro: suffix_order.trans)
  consider "S' = S" | "curChar S = Some (CHR ''/'')" "S' = (ungetc (fgetc S))\<lparr>curChar := curChar S\<rparr>"
    | cs n where "S' = fgetc (set_NomLu [] ((fgetc S)\<lparr>stream := cs, lineNo := n\<rparr>))" "suffix cs (stream (fgetc S))"
    using assms by (auto simp: GetComment_def Let_def bindE_eq_Inr split: if_splits dest: skip_suffix)
  then show ?thesis
  proof cases
    case 2
    then have "stream S' = stream S" "curChar S' = curChar S" by simp_all
    then show ?thesis by (simp add: rest_def split: option.splits)
  next
    case 3
    with sub show ?thesis by (auto intro: suffix_order.trans)
  qed simp
qed

lemma GetLeftLex_loop_suffix: "GetLeftLex_loop skipEOL S = Inr (eol, S') \<Longrightarrow> suffix (rest S') (rest S) \<and> (eol \<longrightarrow> curChar S' = Some (CHR 0x0A))"
proof (induction skipEOL S rule: GetLeftLex_loop.induct)
  case (1 skipEOL S)
  obtain go R where R: "(if isspace (curChar S) then Inr (True, S) else GetComment S) = Inr (go, R)"
    using "1.prems" by (subst (asm) GetLeftLex_loop.simps) (auto simp: bindE_eq_Inr)
  define U where "U = (if curChar R = Some (CHR 0x0A) then R\<lparr>lineNo := lineNo R + 1\<rparr> else R)"
  have RS: "suffix (rest R) (rest S)" using R by (auto split: if_splits dest: GetComment_suffix)
  have U: "rest U = rest R" "curChar U = curChar R" by (simp_all add: U_def)
  have loop: "(if go then if curChar R = Some (CHR 0x0A) \<and> \<not> skipEOL then Inr (True, U) else GetLeftLex_loop skipEOL (fgetc U) else Inr (False, R)) = Inr (eol, S')"
    using "1.prems" unfolding U_def by (subst (asm) GetLeftLex_loop.simps) (simp only: R bindE_Inr prod.case Let_def)
  consider "go" "\<not> (curChar R = Some (CHR 0x0A) \<and> \<not> skipEOL)" | "go" "curChar R = Some (CHR 0x0A) \<and> \<not> skipEOL" | "\<not> go" by blast
  then show ?case
  proof cases
    case 1
    then have "GetLeftLex_loop skipEOL (fgetc U) = Inr (eol, S')" using loop by auto
    from "1.IH" [OF R refl 1(1) refl U_def 1(2) this] have "suffix (rest S') (stream U)" "eol \<longrightarrow> curChar S' = Some (CHR 0x0A)" by simp_all
    with RS U suffix_stream [of U] show ?thesis by (metis suffix_order.trans)
  qed (use loop RS U in auto)
qed

lemma GetLeftLex_word_suffix:
  assumes "GetLeftLex_word k S = Inr (a, S')"
  shows "suffix (stream S') (stream S) \<and> a \<notin> {SCSTEXP, RANGE}"
proof -
  obtain ident V where V: "IsIdent S = Inr (ident, V)" using assms by (auto simp: GetLeftLex_word_def bindE_eq_Inr)
  have "a \<notin> {SCSTEXP, RANGE}" using assms
    by (auto simp: GetLeftLex_word_def V IdentKeyWord_def keyWordTable_def find_Some_iff bindE_eq_Inr split: if_splits option.splits)
  moreover have "suffix (stream S') (stream V)" using assms
    by (auto simp: GetLeftLex_word_def V bindE_eq_Inr split: if_splits dest: GetNumString_suffix)
  ultimately show ?thesis using IsIdent_suffix [OF V] by (auto intro: suffix_order.trans)
qed

lemma GetLeftLex_suffix:
  assumes "GetLeftLex skipEOL S = Inr (a, S')"
  shows "suffix (stream S') (stream S) \<and> (a \<noteq> FILEN \<longrightarrow> length (stream S') < length (stream S)) \<and> a \<notin> {SCSTEXP, RANGE}"
proof -
  obtain eol R where R: "GetLeftLex_loop skipEOL (fgetc S) = Inr (eol, R)" using assms by (auto simp: GetLeftLex_def bindE_eq_Inr)
  have sub: "suffix (rest R) (stream S)" and eol: "eol \<Longrightarrow> curChar R \<noteq> None" using GetLeftLex_loop_suffix [OF R] by auto
  have shorter: "suffix xs (stream S) \<and> length xs < length (stream S)" if "suffix xs (stream R)" "curChar R \<noteq> None" for xs
  proof -
    have "rest R = the (curChar R) # stream R" using that(2) by (auto simp: rest_def)
    with sub that(1) have "suffix xs (stream S)" "length (stream R) < length (stream S)"
      by (auto dest: suffix_length_le suffix_ConsD intro: suffix_order.trans)
    with that(1) show ?thesis by (auto dest: suffix_length_le)
  qed
  show ?thesis
  proof (cases "eol \<or> curChar R \<in> {Some (CHR '':''), Some (CHR '',''), Some (CHR ''*''), Some (CHR ''{''), Some (CHR ''}'')}")
    case True
    then have "S' = R" "curChar R \<noteq> None" "a \<notin> {SCSTEXP, RANGE}" using assms eol by (auto simp: GetLeftLex_def R split: if_splits)
    with shorter [of "stream R"] show ?thesis by simp
  next
    case other: False
    show ?thesis
    proof (cases "curChar R = None")
      case True
      with other assms sub show ?thesis by (auto simp: GetLeftLex_def R rest_def)
    next
      case False
      then obtain k U where U: "GetLeftLex_word k U = Inr (a, S')" "U = R \<or> U = fgetc R"
        using assms other by (auto simp: GetLeftLex_def R split: if_splits)
      have "suffix (stream U) (stream R)" using U(2) by (auto simp: fgetc_def suffix_ConsI split: list.splits)
      with GetLeftLex_word_suffix [OF U(1)] shorter [of "stream S'"] False show ?thesis by (auto intro: suffix_order.trans)
    qed
  qed
qed


lemma skip_blanks_suffix: "skip_blanks b S = (b', S') \<Longrightarrow> suffix (rest S') (rest S)"
proof (induction b S rule: skip_blanks.induct)
  case (1 b S)
  show ?case
  proof (cases "curChar S = Some (CHR '' '') \<or> curChar S = Some (CHR 0x09)")
    case True
    then have "skip_blanks (b \<or> curChar S = Some (CHR 0x09)) (fgetc S) = (b', S')" using "1.prems" by (subst (asm) skip_blanks.simps) simp
    from "1.IH" [OF True this] show ?thesis using suffix_stream [of S] by (auto intro: suffix_order.trans)
  next
    case False
    with "1.prems" show ?thesis by (subst (asm) skip_blanks.simps) simp
  qed
qed

lemma GetRightLex_angle_suffix:
  assumes "GetRightLex_angle S = Inr (a, b, S')"
  shows "suffix (stream S') (stream S) \<and> a \<notin> {SCSTEXP, RANGE, FILEN}"
proof -
  have fwd: "suffix (stream (fgetc S)) (stream S)" by (auto simp: fgetc_def suffix_ConsI split: list.splits)
  have "\<exists>U. (U = S \<or> U = fgetc S) \<and> suffix (stream S') (stream U)"
    using assms by (auto simp: GetRightLex_angle_def bindE_eq_Inr split: if_splits dest: GetIdent_suffix IsIdent_suffix)
  with fwd have "suffix (stream S') (stream S)" by (auto intro: suffix_order.trans)
  then show ?thesis using assms by (auto simp: GetRightLex_angle_def bindE_eq_Inr split: if_splits)
qed

lemma GetRightLex_suffix:
  assumes "GetRightLex S = Inr (a, S')"
  shows "suffix (stream S') (stream S) \<and> (a \<noteq> FILEN \<longrightarrow> length (stream S') < length (stream S)) \<and> a \<notin> {SCSTEXP, RANGE}"
proof (cases "stream S")
  case Nil
  then show ?thesis using assms by (auto simp: GetRightLex_def fgetc_def)
next
  case (Cons c cs)
  define R where "R = S\<lparr>curChar := Some c, stream := cs\<rparr>"
  have R: "fgetc S = R" "curChar R = Some c" "stream R = cs" using Cons by (simp_all add: fgetc_def R_def)
  have "suffix (stream S') cs \<and> a \<notin> {SCSTEXP, RANGE}"
  proof -
    have fwd: "suffix (stream (fgetc U)) (stream U)" for U by (auto simp: fgetc_def suffix_ConsI split: list.splits)
    consider (one) "c \<in> {CHR ''['', CHR '']'', CHR 0x0A}" | (angle) "c = CHR ''<''" | (blank) "c \<in> {CHR '' '', CHR 0x09}"
      | (word) "c \<notin> {CHR ''['', CHR '']'', CHR 0x0A, CHR ''<'', CHR '' '', CHR 0x09}" by blast
    then show ?thesis
    proof cases
      case one
      then show ?thesis using assms R by (auto simp: GetRightLex_def Let_def)
    next
      case angle
      with assms R obtain a' b U where U: "GetRightLex_angle (fgetc R) = Inr (a', b, U)" "S' \<in> {U, fgetc U, fgetc (fgetc U)}" "a = LEXERR \<or> a = a'"
        by (auto simp: GetRightLex_def Let_def bindE_eq_Inr split: if_splits)
      from U(2) have "suffix (stream S') (stream U)" using fwd [of U] fwd [of "fgetc U"] by (auto intro: suffix_order.trans)
      with GetRightLex_angle_suffix [OF U(1)] fwd [of R] R(3) U(3) show ?thesis by (auto intro: suffix_order.trans)
    next
      case blank
      obtain b U where U: "skip_blanks False R = (b, U)" by fastforce
      have "skip_blanks False R = skip_blanks (c = CHR 0x09) (fgetc R)" using blank R by (subst skip_blanks.simps) auto
      with U skip_blanks_suffix [of "c = CHR 0x09" "fgetc R" b U] have "suffix (rest U) cs" using R by simp
      then have sub: "suffix (stream U) cs" "suffix (rest U) cs" by (blast intro: suffix_order.trans [OF suffix_stream])+
      have "S' = U\<lparr>lineNo := lineNo U + 1\<rparr> \<and> a = LINEN \<or> S' = ungetc U \<and> a \<in> {SPACE, AND_ATOM}"
        using assms R blank U by (auto simp: GetRightLex_def Let_def split: if_splits)
      with sub show ?thesis by auto
    next
      case word
      then have "S' = GetTermString R" "a = ELTER" using assms R by (auto simp: GetRightLex_def Let_def)
      moreover have "\<not> IsSeparator (curChar R)" using word R by (auto simp: IsSeparator_def arraySep_def)
      ultimately show ?thesis using GetTermString_suffix [of R] R by simp
    qed
  qed
  then show ?thesis by (auto simp: Cons suffix_ConsI dest: suffix_length_le)
qed

lemma GetEncodingInformations_suffix:
  assumes "GetEncodingInformations S = Inr (text, S')"
  shows "suffix (stream S') (stream S)"
proof -
  have skip: "suffix (rest (skip_spaces U)) (rest U)" for U
  proof (induction U rule: skip_spaces.induct)
    case (1 U)
    show ?case
    proof (cases "isspace (curChar U)")
      case True
      define V where "V = (if curChar U = Some (CHR 0x0A) then U\<lparr>lineNo := lineNo U + 1\<rparr> else U)"
      have "stream V = stream U" by (simp add: V_def)
      with "1.IH" [OF True] True have "suffix (rest (skip_spaces U)) (stream U)"
        by (subst skip_spaces.simps) (simp flip: V_def)
      with suffix_stream [of U] show ?thesis by (auto intro: suffix_order.trans)
    qed (subst skip_spaces.simps, simp)
  qed
  have loop: "encoding_loop n t U cs = Inr (text', U') \<Longrightarrow> suffix (stream U') cs" for n t U cs text' U'
    by (induction n t U cs rule: encoding_loop.induct) (auto simp: Let_def split: if_splits intro: suffix_ConsI)
  define R where "R = skip_spaces (fgetc S)"
  from assms obtain t where "encoding_loop 1 [] R (stream R) = Inr (t, S')"
    by (auto simp: GetEncodingInformations_def Let_def bindE_eq_Inr R_def split: if_splits)
  from loop [OF this] have "suffix (stream S') (rest R)" using suffix_stream [of R] by (rule suffix_order.trans)
  with skip [of "fgetc S"] show ?thesis by (auto simp: R_def intro: suffix_order.trans)
qed


section \<open>The lexer ends\<close>

text \<open>Every comment that may start in the text is closed in it.\<close>

fun block_closed :: "string \<Rightarrow> bool" where
  "block_closed (c # d # cs) \<longleftrightarrow> (c = CHR ''*'' \<and> d = CHR ''/'') \<or> block_closed (d # cs)"
| "block_closed cs \<longleftrightarrow> False"

fun comments_closed :: "string \<Rightarrow> bool" where
  "comments_closed (c # d # cs) \<longleftrightarrow>
     (c = CHR ''/'' \<and> d = CHR ''/'' \<longrightarrow> CHR 0x0A \<in> set cs) \<and> (c = CHR ''/'' \<and> d = CHR ''*'' \<longrightarrow> block_closed cs) \<and> comments_closed (d # cs)"
| "comments_closed cs \<longleftrightarrow> True"

lemma comments_closed_Cons: "comments_closed (c # cs) \<Longrightarrow> comments_closed cs"
  by (cases cs) simp_all

lemma comments_closed_suffix: "suffix xs ys \<Longrightarrow> comments_closed ys \<Longrightarrow> comments_closed xs"
  by (induction ys) (auto simp: suffix_Cons dest: comments_closed_Cons)

lemma skip_line_closed: "CHR 0x0A \<in> set cs \<Longrightarrow> \<exists>cs'. skip_line cs = Inr cs'"
  by (induction cs) auto

lemma skip_block_closed: "block_closed cs \<Longrightarrow> \<exists>r. skip_block cs n = Inr r"
  by (induction cs n rule: skip_block.induct) auto

lemma GetComment_closed:
  assumes "comments_closed (rest S)"
  shows "\<exists>r. GetComment S = Inr r"
proof (cases "curChar S = Some (CHR ''/'') \<and> stream S \<noteq> []")
  case True
  then obtain d cs where cs: "stream S = d # cs" by (cases "stream S") auto
  with assms True have closed: "d = CHR ''/'' \<longrightarrow> CHR 0x0A \<in> set cs" "d = CHR ''*'' \<longrightarrow> block_closed cs" by (simp_all add: rest_def)
  consider "d = CHR ''/''" | "d = CHR ''*''" | "d \<noteq> CHR ''/''" "d \<noteq> CHR ''*''" by blast
  then show ?thesis
  proof cases
    case 1
    with closed skip_line_closed obtain cs' where "skip_line cs = Inr cs'" by blast
    with 1 True cs show ?thesis by (auto simp: GetComment_def fgetc_def)
  next
    case 2
    with closed skip_block_closed obtain cs' n' where "skip_block cs (lineNo S) = Inr (cs', n')" by fastforce
    with 2 True cs show ?thesis by (auto simp: GetComment_def fgetc_def)
  qed (use True cs in \<open>auto simp: GetComment_def fgetc_def\<close>)
qed (auto simp: GetComment_def fgetc_def)

lemma GetLeftLex_loop_halts: "comments_closed (rest S) \<Longrightarrow> halts (GetLeftLex_loop skipEOL S)"
proof (induction skipEOL S rule: GetLeftLex_loop.induct)
  case (1 skipEOL S)
  obtain go R where R: "(if isspace (curChar S) then Inr (True, S) else GetComment S) = Inr (go, R)"
    using GetComment_closed [OF "1.prems"] by (cases "isspace (curChar S)") auto
  define U where "U = (if curChar R = Some (CHR 0x0A) then R\<lparr>lineNo := lineNo R + 1\<rparr> else R)"
  have "suffix (rest R) (rest S)" using R by (auto split: if_splits dest: GetComment_suffix)
  then have "comments_closed (rest R)" using "1.prems" by (rule comments_closed_suffix)
  moreover have "suffix (stream U) (rest R)" using suffix_stream [of R] by (simp add: U_def)
  ultimately have "comments_closed (rest (fgetc U))" using comments_closed_suffix by simp
  note IH = "1.IH" [OF R refl _ refl U_def _ this]
  show ?case by (subst GetLeftLex_loop.simps) (use IH in \<open>auto simp: R Let_def simp flip: U_def\<close>)
qed

text \<open>The other loops read on to the end of the file at the most.\<close>

lemma GetIdent_halts: "halts (GetIdent S)"
proof -
  have "halts (GetIdent_loop name S)" for name S
    by (induction name S rule: GetIdent_loop.induct) (subst GetIdent_loop.simps, auto)
  then show ?thesis by (auto simp: GetIdent_def Let_def)
qed

lemma GetNumString_halts: "halts (GetNumString S)"
proof -
  have "halts (GetNumString_loop name S)" for name S
    by (induction name S rule: GetNumString_loop.induct) (subst GetNumString_loop.simps, auto)
  then show ?thesis by (auto simp: GetNumString_def)
qed

lemma IsIdent_halts: "halts (IsIdent S)"
  by (simp add: IsIdent_def GetIdent_halts)

lemma GetLeftLex_halts: "comments_closed (stream S) \<Longrightarrow> halts (GetLeftLex skipEOL S)"
  using GetLeftLex_loop_halts [of "fgetc S" skipEOL]
  by (auto simp: GetLeftLex_def GetLeftLex_word_def IsIdent_halts GetNumString_halts)

lemma GetRightLex_halts: "halts (GetRightLex S)"
  by (auto simp: GetRightLex_def GetRightLex_angle_def IsIdent_halts GetIdent_halts Let_def split: prod.splits)

lemma GetEncodingInformations_halts: "halts (GetEncodingInformations S)"
proof -
  have "halts (encoding_loop n t U cs)" for n t U cs
    by (induction n t U cs rule: encoding_loop.induct) (simp_all add: Let_def)
  then show ?thesis by (auto simp: GetEncodingInformations_def Let_def)
qed


section \<open>The lexer keeps the tables\<close>

text \<open>Of the state of the actions, only the string read last changes.\<close>

lemma set_NomLu_ok [simp]: "gensyn_ok (gs (set_NomLu s S)) = gensyn_ok (gs S)"
  by (simp add: set_NomLu_def)

lemma getc_gs [simp]: "gs (fgetc S) = gs S" "gs (ungetc S) = gs S"
  by (simp_all add: fgetc_def ungetc_def split: list.splits option.splits)

lemma GetIdent_gs:
  assumes "GetIdent S = Inr S'"
  shows "gensyn_ok (gs S') = gensyn_ok (gs S)"
proof -
  have "GetIdent_loop name S = Inr (name', S') \<Longrightarrow> gs S' = gs S" for name S name' S'
  proof (induction name S rule: GetIdent_loop.induct)
    case (1 name S)
    show ?case
    proof (cases "isalnum (curChar S) \<or> curChar S = Some (CHR ''_'')")
      case True
      with "1.prems" have "length name < MAX_SEM_LEN - 1" "GetIdent_loop (name @ [the (curChar S)]) (fgetc S) = Inr (name', S')"
        by (subst (asm) GetIdent_loop.simps, auto split: if_splits)+
      from "1.IH" [OF True this] show ?thesis by simp
    qed (use "1.prems" in \<open>subst (asm) GetIdent_loop.simps, simp\<close>)
  qed
  then show ?thesis using assms by (auto simp: GetIdent_def Let_def bindE_eq_Inr split: if_splits)
qed

lemma IsIdent_gs: "IsIdent S = Inr (b, S') \<Longrightarrow> gensyn_ok (gs S') = gensyn_ok (gs S)"
  by (auto simp: IsIdent_def bindE_eq_Inr dest: GetIdent_gs)

lemma GetNumString_gs:
  assumes "GetNumString S = Inr S'"
  shows "gensyn_ok (gs S') = gensyn_ok (gs S)"
proof -
  have "GetNumString_loop name S = Inr (name', S') \<Longrightarrow> gs S' = gs S" for name S name' S'
  proof (induction name S rule: GetNumString_loop.induct)
    case (1 name S)
    from "1.prems" show ?case by (subst (asm) GetNumString_loop.simps) (auto split: if_splits dest!: "1.IH")
  qed
  then show ?thesis using assms by (auto simp: GetNumString_def bindE_eq_Inr split: if_splits)
qed

lemma GetTermString_gs [simp]: "gensyn_ok (gs (GetTermString S)) = gensyn_ok (gs S)"
proof -
  have "gs (snd (GetTermString_loop name S)) = gs S" for name S
  proof (induction name S rule: GetTermString_loop.induct)
    case (1 name S)
    show ?case
    proof (cases "IsSeparator (curChar S)")
      case False
      with "1.IH" [OF False refl refl] show ?thesis by (subst GetTermString_loop.simps) (simp add: Let_def)
    qed (subst GetTermString_loop.simps, simp)
  qed
  then show ?thesis by (simp add: GetTermString_def split: prod.splits) (metis snd_conv)
qed

lemma GetComment_gs: "GetComment S = Inr (b, S') \<Longrightarrow> gensyn_ok (gs S') = gensyn_ok (gs S)"
  by (auto simp: GetComment_def Let_def bindE_eq_Inr split: if_splits)

lemma GetLeftLex_loop_gs: "GetLeftLex_loop skipEOL S = Inr (eol, S') \<Longrightarrow> gensyn_ok (gs S') = gensyn_ok (gs S)"
proof (induction skipEOL S rule: GetLeftLex_loop.induct)
  case (1 skipEOL S)
  obtain go R where R: "(if isspace (curChar S) then Inr (True, S) else GetComment S) = Inr (go, R)"
    using "1.prems" by (subst (asm) GetLeftLex_loop.simps) (auto simp: bindE_eq_Inr)
  define U where "U = (if curChar R = Some (CHR 0x0A) then R\<lparr>lineNo := lineNo R + 1\<rparr> else R)"
  have gs: "gensyn_ok (gs R) = gensyn_ok (gs S)" "gs U = gs R" using R by (auto simp: U_def split: if_splits dest: GetComment_gs)
  have "(if go then if curChar R = Some (CHR 0x0A) \<and> \<not> skipEOL then Inr (True, U) else GetLeftLex_loop skipEOL (fgetc U) else Inr (False, R)) = Inr (eol, S')"
    using "1.prems" unfolding U_def by (subst (asm) GetLeftLex_loop.simps) (simp only: R bindE_Inr prod.case Let_def)
  with "1.IH" [OF R refl _ refl U_def] gs show ?case by (auto split: if_splits)
qed

lemma GetLeftLex_gs:
  assumes "GetLeftLex skipEOL S = Inr (a, S')"
  shows "gensyn_ok (gs S') = gensyn_ok (gs S)"
proof -
  obtain eol R where R: "GetLeftLex_loop skipEOL (fgetc S) = Inr (eol, R)" using assms by (auto simp: GetLeftLex_def bindE_eq_Inr)
  have "gensyn_ok (gs V') = gensyn_ok (gs V)" if "GetLeftLex_word k V = Inr (a', V')" for k V a' V'
    using that by (auto simp: GetLeftLex_word_def bindE_eq_Inr split: if_splits dest!: IsIdent_gs GetNumString_gs)
  with assms R GetLeftLex_loop_gs [OF R] show ?thesis by (auto simp: GetLeftLex_def split: if_splits)
qed

lemma GetRightLex_gs:
  assumes "GetRightLex S = Inr (a, S')"
  shows "gensyn_ok (gs S') = gensyn_ok (gs S)"
proof -
  have blanks: "gs (snd (skip_blanks b U)) = gs U" for b U
    by (induction b U rule: skip_blanks.induct) (subst skip_blanks.simps, simp)
  have angle: "gensyn_ok (gs V') = gensyn_ok (gs V)" if "GetRightLex_angle V = Inr (a', b, V')" for V a' b V'
    using that by (auto simp: GetRightLex_angle_def bindE_eq_Inr split: if_splits dest!: IsIdent_gs GetIdent_gs)
  define R where "R = fgetc S"
  obtain b U where U: "skip_blanks False R = (b, U)" by fastforce
  have gs: "gs U = gs S" "gs R = gs S" using blanks [of False R] U by (simp_all add: R_def)
  show ?thesis
  proof (cases "curChar R = Some (CHR ''<'')")
    case True
    with assms obtain a' b' V where V: "GetRightLex_angle (fgetc R) = Inr (a', b', V)" "S' \<in> {V, fgetc V, fgetc (fgetc V)}"
      by (auto simp: GetRightLex_def Let_def bindE_eq_Inr simp flip: R_def split: if_splits)
    from V(2) have "gs S' = gs V" by auto
    with angle [OF V(1)] gs show ?thesis by simp
  next
    case False
    with assms have "S' \<in> {R, R\<lparr>lineNo := lineNo R + 1\<rparr>, U\<lparr>lineNo := lineNo U + 1\<rparr>, ungetc U, GetTermString R}"
      by (auto simp: GetRightLex_def Let_def U simp flip: R_def split: if_splits)
    with gs show ?thesis by auto
  qed
qed

lemma GetEncodingInformations_gs:
  assumes "GetEncodingInformations S = Inr (text, S')"
  shows "gs S' = gs S \<and> atomlu S' = atomlu S"
proof -
  have spaces: "gs (skip_spaces U) = gs U \<and> atomlu (skip_spaces U) = atomlu U" for U
    by (induction U rule: skip_spaces.induct) (subst (1 2) skip_spaces.simps, auto simp: fgetc_def split: list.splits)
  have "encoding_loop n t U cs = Inr (text', U') \<Longrightarrow> gs U' = gs U \<and> atomlu U' = atomlu U" for n t U cs text' U'
    by (induction n t U cs rule: encoding_loop.induct) (auto simp: Let_def split: if_splits)
  with assms spaces [of "fgetc S"] show ?thesis
    by (auto simp: GetEncodingInformations_def Let_def bindE_eq_Inr fgetc_def split: if_splits list.splits)
qed

end
