(* ===== verification/Parser_Stack.thy ===== *)
theory Parser_Stack
  imports Gensyn_Lexer
begin

text \<open>
  The state of the assembler parser: the stack of encoding informations of \<^verbatim>\<open>parser/src/opndstck.c\<close>, which collects the tokens and the actions of what has
  been recognised, and the stack of contexts of \<^verbatim>\<open>parser/src/ctxstck.c\<close>, by which the parser goes back after a failed attempt.  A pointer into the line is an
  index; the pointers that the client of the parser supplies are numbers.
\<close>

section \<open>Encoding informations\<close>

datatype e_ENCINFOTYPE = ENCODE | BINCONST | DECCONST | HEXCONST | LABEL | CSTEXPR | REGISTER

record s_String =
  str_buf :: nat
  str_length :: int

record s_encodingInfo =
  enc_type :: e_ENCINFOTYPE
  enc_string :: s_String
  main_class :: int
  sub_class :: int
  is_reloc :: int
  sym_id :: int
  symop_id :: int
  opnd :: int
  expr :: int
  exprSize :: int
  enc_action :: int
  numToken :: int
  enc_index :: int

definition ENCODING_MAX_SIZE :: int where "ENCODING_MAX_SIZE = 65535"

record s_encodingStack =
  enc_array :: "nat \<Rightarrow> s_encodingInfo"
  enc_size :: int

definition InitEncodingStack :: "s_encodingStack \<Rightarrow> s_encodingStack" where
  "InitEncodingStack st = st\<lparr>enc_size := 0\<rparr>"

definition DecrEncodingStack :: "s_encodingStack \<Rightarrow> int \<Rightarrow> s_encodingStack outcome" where
  "DecrEncodingStack st decr =
     (if enc_size st - decr < 0 then Inl (Fatal ''Negative encoding stack index in DecrEncodingStack'') else Inr (st\<lparr>enc_size := enc_size st - decr\<rparr>))"

text \<open>An access to the array.\<close>

definition enc_get :: "s_encodingStack \<Rightarrow> int \<Rightarrow> s_encodingInfo outcome" where
  "enc_get st i = (if 0 \<le> i \<and> i < ENCODING_MAX_SIZE then Inr (enc_array st (nat i)) else Inl Out_Of_Bounds)"

definition enc_put :: "s_encodingStack \<Rightarrow> int \<Rightarrow> s_encodingInfo \<Rightarrow> s_encodingStack outcome" where
  "enc_put st i x = (if 0 \<le> i \<and> i < ENCODING_MAX_SIZE then Inr (st\<lparr>enc_array := (enc_array st)(nat i := x)\<rparr>) else Inl Out_Of_Bounds)"

definition PushEncodingInfo :: "s_encodingStack \<Rightarrow> s_encodingInfo \<Rightarrow> s_encodingStack outcome" where
  "PushEncodingInfo st newInfo =
     (if enc_size st < ENCODING_MAX_SIZE then bindE (enc_put st (enc_size st) newInfo) (\<lambda>st. Inr (st\<lparr>enc_size := enc_size st + 1\<rparr>))
      else Inl (Fatal ''Stack full in PushEncodingInfo''))"

definition PopEncodingInfo :: "s_encodingStack \<Rightarrow> (s_encodingInfo \<times> s_encodingStack) outcome" where
  "PopEncodingInfo st =
     (if enc_size st > 0 then bindE (enc_get st (enc_size st - 1)) (\<lambda>x. Inr (x, st\<lparr>enc_size := enc_size st - 1\<rparr>))
      else Inl (Fatal ''Stack empty in PopEncodingInfo''))"

text \<open>The sum of the sizes of the constant expressions, as an unsigned number of 64 bits.\<close>

function GetSumExprSize_loop :: "s_encodingStack \<Rightarrow> int \<Rightarrow> int \<Rightarrow> int \<Rightarrow> int outcome" where
  "GetSumExprSize_loop st i stackEnd s =
     (if i < stackEnd then
        bindE (enc_get st i) (\<lambda>x.
        GetSumExprSize_loop st (i + 1) stackEnd
          (if enc_type x = CSTEXPR then if exprSize x < 0 then (s - exprSize x) mod 2 ^ 64 else (s + exprSize x) mod 2 ^ 64 else s))
      else Inr s)"
  by pat_completeness auto
termination
  by (relation "measure (\<lambda>(st, i, stackEnd, s). nat (stackEnd - i))") auto

definition GetSumExprSizeInEncodingInfo :: "s_encodingStack \<Rightarrow> int \<Rightarrow> int \<Rightarrow> int outcome" where
  "GetSumExprSizeInEncodingInfo st stackStart stackEnd = GetSumExprSize_loop st stackStart stackEnd 0"

function MoveEncodingInfo_loop :: "s_encodingStack \<Rightarrow> int \<Rightarrow> int \<Rightarrow> int \<Rightarrow> (s_encodingStack \<times> int) outcome" where
  "MoveEncodingInfo_loop st destElem i endElem =
     (if i < endElem then
        bindE (enc_get st i) (\<lambda>x. bindE (enc_put st destElem x) (\<lambda>st. MoveEncodingInfo_loop st (destElem + 1) (i + 1) endElem))
      else Inr (st, destElem))"
  by pat_completeness auto
termination
  by (relation "measure (\<lambda>(st, destElem, i, endElem). nat (endElem - i))") auto

declare GetSumExprSize_loop.simps [simp del] MoveEncodingInfo_loop.simps [simp del]

definition MoveEncodingInfo :: "s_encodingStack \<Rightarrow> int \<Rightarrow> int \<Rightarrow> int \<Rightarrow> s_encodingStack outcome" where
  "MoveEncodingInfo st destElem startElem endElem =
     bindE (MoveEncodingInfo_loop st destElem startElem endElem) (\<lambda>(st, destElem). Inr (st\<lparr>enc_size := destElem\<rparr>))"

definition SetEncStackIndex :: "s_encodingStack \<Rightarrow> int \<Rightarrow> s_encodingStack outcome" where
  "SetEncStackIndex st encStackIndex =
     (if encStackIndex < 0 \<or> encStackIndex \<ge> ENCODING_MAX_SIZE then Inl (Fatal ''Invalid stack index restoration in SetEncStackIndex'')
      else Inr (st\<lparr>enc_size := encStackIndex\<rparr>))"

definition GetEncInfoIndex :: "s_encodingStack \<Rightarrow> int \<Rightarrow> s_encodingInfo outcome" where
  "GetEncInfoIndex st index =
     (if index < 0 \<or> index \<ge> enc_size st then Inl (Fatal ''Invalid stack index access in GetEncInfoIndex'') else enc_get st index)"

section \<open>Contexts\<close>

record s_contextElem =
  ctx_charIndex :: nat
  ctx_encStackIndex :: int
  ctx_exprSize :: int

definition CONTEXT_MAX_SIZE :: nat where "CONTEXT_MAX_SIZE = 1024"

text \<open>
  The global variables of \<^verbatim>\<open>analyzer.c\<close> and \<^verbatim>\<open>ctxstck.c\<close>.  The line is the text before its null character, whose index is \<^verbatim>\<open>maxIndex\<close>; the stack of contexts is a list with
  its top first.
\<close>

record analyzer =
  the_line :: string
  charIndex :: nat
  errorIndex :: nat
  idlexType :: e_ENCINFOTYPE
  p_expr :: int
  p_opnd_value :: int
  p_is_reloc :: int
  p_symbol_id :: int
  p_symop_id :: int
  p_main_class :: int
  p_sub_class :: int
  tokenString :: s_String
  p_exprSize :: int
  newEncInfo :: s_encodingInfo
  encStack :: s_encodingStack
  contexts :: "s_contextElem list"
  contextToRestore :: s_contextElem

abbreviation maxIndex :: "analyzer \<Rightarrow> nat" where
  "maxIndex S \<equiv> length (the_line S)"

definition InitContextStack :: "analyzer \<Rightarrow> analyzer" where
  "InitContextStack S = S\<lparr>contexts := []\<rparr>"

definition GetContext :: "analyzer \<Rightarrow> s_contextElem" where
  "GetContext S = \<lparr>ctx_charIndex = charIndex S, ctx_encStackIndex = enc_size (encStack S), ctx_exprSize = p_exprSize S\<rparr>"

definition PushContext :: "analyzer \<Rightarrow> analyzer outcome" where
  "PushContext S =
     (if length (contexts S) < CONTEXT_MAX_SIZE then Inr (S\<lparr>contexts := GetContext S # contexts S\<rparr>) else Inl (Fatal ''Stack full in PushContext''))"

definition PopContext :: "analyzer \<Rightarrow> analyzer outcome" where
  "PopContext S =
     (case contexts S of [] \<Rightarrow> Inl (Fatal ''Stack empty in PopContext'') | c # cs \<Rightarrow> Inr (S\<lparr>contexts := cs, contextToRestore := c\<rparr>))"

definition SetContext :: "s_contextElem \<Rightarrow> analyzer \<Rightarrow> analyzer outcome" where
  "SetContext c S =
     bindE (SetEncStackIndex (encStack S) (ctx_encStackIndex c)) (\<lambda>st.
     Inr (S\<lparr>charIndex := ctx_charIndex c, encStack := st, p_exprSize := ctx_exprSize c\<rparr>))"

definition RestoreContext :: "analyzer \<Rightarrow> analyzer outcome" where
  "RestoreContext S = SetContext (contextToRestore S) S"

end
