(* ===== verification/Parser_Lexemes.thy ===== *)
theory Parser_Lexemes
  imports Parser_Stack
begin

text \<open>
  The recognisers of \<^verbatim>\<open>parser/src/analyzer.c\<close> for terminals and lexemes.  A recogniser works at the current index of the line and returns whether it failed.  Reading beyond the null
  character of the line is an access out of bounds.
\<close>

section \<open>Reading the line\<close>

definition line_at :: "string \<Rightarrow> nat \<Rightarrow> char outcome" where
  "line_at L k = (if k < length L then Inr (L ! k) else if k = length L then Inr (CHR 0x00) else Inl Out_Of_Bounds)"

text \<open>\<^verbatim>\<open>while (P(line[k])) k++\<close> for a property that the null character does not have.\<close>

definition run_while :: "(char \<Rightarrow> bool) \<Rightarrow> string \<Rightarrow> nat \<Rightarrow> nat outcome" where
  "run_while P L k = (if k \<le> length L then Inr (k + length (takeWhile P (drop k L))) else Inl Out_Of_Bounds)"

definition to_upper :: "char \<Rightarrow> char" where
  "to_upper c = (if CHR ''a'' \<le> c \<and> c \<le> CHR ''z'' then char_of (of_char c - 32 :: nat) else c)"

definition alpha_char :: "char \<Rightarrow> bool" where "alpha_char c = isalpha (Some c)"

definition alnum_char :: "char \<Rightarrow> bool" where "alnum_char c = isalnum (Some c)"

definition digit_char :: "char \<Rightarrow> bool" where "digit_char c = isdigit (Some c)"

definition space_char :: "char \<Rightarrow> bool" where "space_char c = isspace (Some c)"

definition hex_char :: "char \<Rightarrow> bool" where
  "hex_char c \<longleftrightarrow> digit_char c \<or> (CHR ''a'' \<le> c \<and> c \<le> CHR ''f'') \<or> (CHR ''A'' \<le> c \<and> c \<le> CHR ''F'')"

text \<open>The token from the current index up to an index, which becomes the current one.\<close>

definition token_upto :: "nat \<Rightarrow> analyzer \<Rightarrow> analyzer" where
  "token_upto e S = S\<lparr>tokenString := \<lparr>str_buf = charIndex S, str_length = int e - int (charIndex S)\<rparr>, charIndex := e\<rparr>"

section \<open>Terminals and spaces\<close>

text \<open>How far a string agrees with the line, upper and lower case being the same.\<close>

fun agree :: "string \<Rightarrow> string \<Rightarrow> nat" where
  "agree (a # as) (c # cs) = (if c \<noteq> CHR 0x00 \<and> to_upper a = to_upper c then Suc (agree as cs) else 0)"
| "agree as cs = 0"

definition IdentString :: "string \<Rightarrow> analyzer \<Rightarrow> (bool \<times> analyzer) outcome" where
  "IdentString instring S =
     (if charIndex S > maxIndex S then Inl Out_Of_Bounds
      else
        let i = agree instring (drop (charIndex S) (the_line S)) in
        if i = length instring then Inr (False, token_upto (charIndex S + i) S) else Inr (True, S))"

definition SkipSpace :: "analyzer \<Rightarrow> analyzer outcome" where
  "SkipSpace S = bindE (run_while (\<lambda>c. c = CHR '' '' \<or> c = CHR 0x09) (the_line S) (charIndex S)) (\<lambda>e. Inr (S\<lparr>charIndex := e\<rparr>))"

definition IdentSpace :: "analyzer \<Rightarrow> (bool \<times> analyzer) outcome" where
  "IdentSpace S =
     (let currIndex = charIndex S in
      bindE (SkipSpace S) (\<lambda>S.
      if currIndex = charIndex S then bindE (line_at (the_line S) currIndex) (\<lambda>c. Inr (c \<noteq> CHR 0x00, S)) else Inr (False, S)))"

section \<open>Names\<close>

definition label_char :: "char \<Rightarrow> bool" where
  "label_char c \<longleftrightarrow> c = CHR ''.'' \<or> c = CHR ''_'' \<or> alnum_char c"

text \<open>Where the loop starts, if there is a label.\<close>

definition label_start :: "analyzer \<Rightarrow> nat option outcome" where
  "label_start S =
     bindE (line_at (the_line S) (charIndex S)) (\<lambda>c.
     if c = CHR ''.'' \<or> c = CHR ''_'' then
       bindE (line_at (the_line S) (charIndex S + 1)) (\<lambda>d. Inr (if label_char d then Some (charIndex S + 2) else None))
     else Inr (if alpha_char c then Some (charIndex S + 1) else None))"

definition IdentLabel :: "analyzer \<Rightarrow> (bool \<times> analyzer) outcome" where
  "IdentLabel S =
     bindE (label_start S) (\<lambda>start.
     case start of
       None \<Rightarrow> Inr (True, S)
     | Some k \<Rightarrow> bindE (run_while label_char (the_line S) k) (\<lambda>e. Inr (False, token_upto e S)))"

definition ident_char :: "char \<Rightarrow> bool" where
  "ident_char c \<longleftrightarrow> c = CHR ''_'' \<or> alnum_char c"

definition IdentIdent :: "analyzer \<Rightarrow> (bool \<times> analyzer) outcome" where
  "IdentIdent S =
     bindE (line_at (the_line S) (charIndex S)) (\<lambda>c.
     if c = CHR ''_'' \<or> alpha_char c then bindE (run_while ident_char (the_line S) (charIndex S + 1)) (\<lambda>e. Inr (False, token_upto e S))
     else Inr (True, S))"

definition IdentAlpha :: "analyzer \<Rightarrow> (bool \<times> analyzer) outcome" where
  "IdentAlpha S =
     bindE (line_at (the_line S) (charIndex S)) (\<lambda>c.
     if alpha_char c then bindE (run_while alpha_char (the_line S) (charIndex S + 1)) (\<lambda>e. Inr (False, token_upto e S))
     else Inr (True, S))"

definition IdentParam :: "analyzer \<Rightarrow> (bool \<times> analyzer) outcome" where
  "IdentParam S =
     bindE (run_while (\<lambda>c. c \<noteq> CHR '','' \<and> c \<noteq> CHR 0x00) (the_line S) (charIndex S)) (\<lambda>e. Inr (e = charIndex S, token_upto e S))"

section \<open>Numbers\<close>

definition digit_value :: "char \<Rightarrow> int" where
  "digit_value c = int (of_char c) - 48"

text \<open>The decimal number of \<^verbatim>\<open>IdentRange\<close>, an \<^verbatim>\<open>unsigned int\<close>: whether it gets too large, the index after it and the number.\<close>

fun range_digits :: "int \<Rightarrow> nat \<Rightarrow> string \<Rightarrow> int \<Rightarrow> bool \<times> nat \<times> int" where
  "range_digits maxVal k (c # cs) retVal =
     (if digit_char c then
        let retVal = UINT32 (UINT32 (retVal * 10) + digit_value c) in
        if retVal > maxVal then (True, k, retVal) else range_digits maxVal (k + 1) cs retVal
      else (False, k, retVal))"
| "range_digits maxVal k [] retVal = (False, k, retVal)"

fun hex_number :: "int \<Rightarrow> string \<Rightarrow> int" where
  "hex_number v [] = v"
| "hex_number v (c # cs) =
     hex_number (16 * v + (if digit_char c then digit_value c else if CHR ''a'' \<le> c then int (of_char c) - 87 else int (of_char c) - 55)) cs"

text \<open>\<^verbatim>\<open>strtol\<close> on \<^verbatim>\<open>0x\<close> and the digits after it: the number of characters read and the value.\<close>

definition strtol_hex :: "string \<Rightarrow> nat \<times> int" where
  "strtol_hex digits = (if digits = [] then (1, 0) else (2 + length digits, min (hex_number 0 digits) (2 ^ 63 - 1)))"

definition range_result :: "nat \<Rightarrow> int \<Rightarrow> int \<Rightarrow> analyzer \<Rightarrow> (bool \<times> analyzer) outcome" where
  "range_result currIndex retVal minVal S =
     Inr (retVal < minVal \<or> currIndex = charIndex S,
       S\<lparr>tokenString := \<lparr>str_buf = currIndex, str_length = int (charIndex S) - int currIndex\<rparr>\<rparr>)"

text \<open>The hexadecimal branch moves the index past the digits and then once more by the length of the number.\<close>

definition IdentRange_hex :: "int \<Rightarrow> int \<Rightarrow> analyzer \<Rightarrow> (bool \<times> analyzer) outcome" where
  "IdentRange_hex minVal maxVal S =
     (let currIndex = charIndex S in
      bindE (run_while hex_char (the_line S) (charIndex S + 2)) (\<lambda>e.
      let (n, v) = strtol_hex (take (e - (currIndex + 2)) (drop (currIndex + 2) (the_line S)));
          S = S\<lparr>charIndex := e + n + 1\<rparr>; retVal = UINT32 v in
      if retVal > maxVal then Inr (True, S) else range_result (currIndex + 2) retVal minVal S))"

definition IdentRange :: "int \<Rightarrow> int \<Rightarrow> analyzer \<Rightarrow> (bool \<times> analyzer) outcome" where
  "IdentRange minVal maxVal S =
     (let S = S\<lparr>idlexType := DECCONST\<rparr>; currIndex = charIndex S in
      bindE (line_at (the_line S) currIndex) (\<lambda>c.
      bindE (if c = CHR ''0'' then line_at (the_line S) (currIndex + 1) else Inr (CHR 0x00)) (\<lambda>d.
      if c = CHR ''0'' \<and> (d = CHR ''x'' \<or> d = CHR ''X'') then IdentRange_hex minVal maxVal (S\<lparr>idlexType := HEXCONST\<rparr>)
      else if c = CHR ''0'' then if minVal \<le> 0 then Inr (False, token_upto (currIndex + 1) S) else Inr (True, S)
      else
        let (large, k, retVal) = range_digits maxVal currIndex (drop currIndex (the_line S)) 0; S = S\<lparr>charIndex := k\<rparr> in
        if large then Inr (True, S) else range_result currIndex retVal minVal S)))"

text \<open>The prefix of an integer constant: its kind, and the index of the digits.\<close>

definition integer_prefix :: "analyzer \<Rightarrow> (e_ENCINFOTYPE \<times> nat) outcome" where
  "integer_prefix S =
     bindE (line_at (the_line S) (charIndex S)) (\<lambda>c.
     if c = CHR ''0'' then
       bindE (line_at (the_line S) (charIndex S + 1)) (\<lambda>d.
       Inr (if d = CHR ''x'' \<or> d = CHR ''X'' then (HEXCONST, charIndex S + 2)
            else if d = CHR ''b'' \<or> d = CHR ''B'' then (BINCONST, charIndex S + 2)
            else (DECCONST, charIndex S)))
     else Inr (DECCONST, charIndex S))"

definition base_char :: "e_ENCINFOTYPE \<Rightarrow> char \<Rightarrow> bool" where
  "base_char t c = (if t = BINCONST then c = CHR ''0'' \<or> c = CHR ''1'' else if t = DECCONST then digit_char c else hex_char c)"

definition IdentIntegerConstant :: "analyzer \<Rightarrow> (bool \<times> analyzer) outcome" where
  "IdentIntegerConstant S =
     bindE (integer_prefix S) (\<lambda>(t, k).
     bindE (run_while (base_char t) (the_line S) k) (\<lambda>e.
     Inr (e = k, token_upto e (S\<lparr>idlexType := t, charIndex := k\<rparr>))))"

text \<open>A floating-point constant: the index after a sign, after the digits, after the fraction and after the exponent, each with \<^verbatim>\<open>currIndex\<close>.\<close>

definition sign_char :: "char \<Rightarrow> bool" where
  "sign_char c \<longleftrightarrow> c = CHR ''-'' \<or> c = CHR ''+''"

definition float_integer :: "string \<Rightarrow> nat \<Rightarrow> nat outcome" where
  "float_integer L k =
     bindE (line_at L k) (\<lambda>c.
     bindE (if sign_char c then line_at L (k + 1) else Inr (CHR 0x00)) (\<lambda>d.
     run_while digit_char L (if sign_char c \<and> digit_char d then k + 1 else k)))"

text \<open>\<open>None\<close> is a dot without digits on either side.\<close>

definition float_fraction :: "string \<Rightarrow> nat \<Rightarrow> nat \<Rightarrow> (nat \<times> nat) option outcome" where
  "float_fraction L start k =
     bindE (line_at L k) (\<lambda>c.
     if c = CHR ''.'' then bindE (run_while digit_char L (k + 1)) (\<lambda>e. Inr (if start = k \<and> e = k + 1 then None else Some (k + 1, e)))
     else Inr (Some (start, k)))"

definition float_exponent :: "string \<Rightarrow> nat \<times> nat \<Rightarrow> (nat \<times> nat) outcome" where
  "float_exponent L = (\<lambda>(currIndex, k).
     bindE (line_at L k) (\<lambda>c.
     if c = CHR ''E'' \<or> c = CHR ''e'' then
       bindE (line_at L (k + 1)) (\<lambda>d.
       let k = (if sign_char d then k + 2 else k + 1) in
       bindE (run_while digit_char L k) (\<lambda>e. Inr (k, e)))
     else Inr (currIndex, k)))"

definition IdentFloatConstant :: "analyzer \<Rightarrow> (bool \<times> analyzer) outcome" where
  "IdentFloatConstant S =
     (let S = S\<lparr>idlexType := LABEL\<rparr>; startIndex = charIndex S in
      bindE (float_integer (the_line S) startIndex) (\<lambda>k.
      bindE (float_fraction (the_line S) startIndex k) (\<lambda>r.
      case r of
        None \<Rightarrow> Inr (True, S\<lparr>charIndex := k + 1\<rparr>)
      | Some p \<Rightarrow>
          bindE (float_exponent (the_line S) p) (\<lambda>(currIndex, e).
          if currIndex \<noteq> e then Inr (False, token_upto e S) else Inr (True, S\<lparr>charIndex := e\<rparr>)))))"

section \<open>The end of the line and quoted strings\<close>

definition IdentEOL :: "analyzer \<Rightarrow> (bool \<times> analyzer) outcome" where
  "IdentEOL S = bindE (run_while space_char (the_line S) (charIndex S)) (\<lambda>e. Inr (e \<noteq> maxIndex S, S\<lparr>charIndex := e\<rparr>))"

text \<open>A backslash before a quotation mark takes the character after it, too.\<close>

function quoted_loop :: "string \<Rightarrow> nat \<Rightarrow> nat outcome" where
  "quoted_loop L k =
     (if k \<ge> length L \<or> L ! k = CHR 0x00 \<or> L ! k = CHR 0x22 then if k \<le> length L then Inr k else Inl Out_Of_Bounds
      else if L ! k = CHR 0x5C then bindE (line_at L (k + 1)) (\<lambda>d. quoted_loop L (if d = CHR 0x22 then k + 3 else k + 1))
      else quoted_loop L (k + 1))"
  by pat_completeness auto
termination
  by (relation "measure (\<lambda>(L, k). Suc (length L) - k)") auto

declare quoted_loop.simps [simp del]

definition IdentQuotedString :: "analyzer \<Rightarrow> (bool \<times> analyzer) outcome" where
  "IdentQuotedString S =
     bindE (line_at (the_line S) (charIndex S)) (\<lambda>c.
     if c \<noteq> CHR 0x22 then Inr (True, S)
     else
       let startIndex = charIndex S + 1 in
       bindE (quoted_loop (the_line S) startIndex) (\<lambda>k.
       bindE (line_at (the_line S) k) (\<lambda>d.
       if d = CHR 0x22 then
         Inr (False, S\<lparr>idlexType := LABEL, tokenString := \<lparr>str_buf = startIndex, str_length = int k - int startIndex\<rparr>, charIndex := k + 1\<rparr>)
       else Inr (True, S\<lparr>charIndex := k\<rparr>))))"

text \<open>The token ends before the last character of the line.\<close>

definition SkipToEOL :: "analyzer \<Rightarrow> analyzer" where
  "SkipToEOL S =
     S\<lparr>idlexType := LABEL, tokenString := \<lparr>str_buf = charIndex S, str_length = UINT32 (int (maxIndex S) - 1 - int (charIndex S))\<rparr>, charIndex := maxIndex S\<rparr>"

section \<open>Operators\<close>

datatype PARSER_AssLexT = LEX_add_sub_op | LEX_and_op | LEX_cmp_op | LEX_v2_4_6 | LEX_pow2_3_16 | LEX_mul_shift_op | LEX_ident | LEX_alpha | LEX_int_cst
  | LEX_float_cst | LEX_label | LEX_toeol | LEX_eol | LEX_param | LEX_or_xor_op | LEX_una_op | LEX_quoted_string

text \<open>The value of the enumeration that a number is.\<close>

definition ass_lex :: "int \<Rightarrow> PARSER_AssLexT option" where
  "ass_lex n =
     (let all = [LEX_add_sub_op, LEX_and_op, LEX_cmp_op, LEX_v2_4_6, LEX_pow2_3_16, LEX_mul_shift_op, LEX_ident, LEX_alpha, LEX_int_cst, LEX_float_cst, LEX_label,
        LEX_toeol, LEX_eol, LEX_param, LEX_or_xor_op, LEX_una_op, LEX_quoted_string] in
      if 0 \<le> n \<and> n < int (length all) then Some (all ! nat n) else None)"

definition lexInfoTable :: "(PARSER_AssLexT \<times> string) list" where
  "lexInfoTable = [(LEX_add_sub_op, ''- +''), (LEX_and_op, ''&''), (LEX_cmp_op, ''== <= >= < > ule uge ult ugt''), (LEX_mul_shift_op, ''* % / << >> ushr rotr rotl''),
     (LEX_or_xor_op, ''| ^''), (LEX_una_op, ''~ -''), (LEX_v2_4_6, ''2 4 6''), (LEX_pow2_3_16, ''65536 32768 16384 8192 4096 2048 1024 512 256 128 64 32 16 8'')]"

definition CopyStringToSpace :: "string \<Rightarrow> string \<times> string" where
  "CopyStringToSpace src = (takeWhile (\<lambda>c. c \<noteq> CHR '' '') src, drop 1 (dropWhile (\<lambda>c. c \<noteq> CHR '' '') src))"

lemma CopyStringToSpace_shorter:
  assumes "(w, n) = CopyStringToSpace s" "w \<noteq> []"
  shows "length n < length s"
proof -
  have n: "n = drop 1 (dropWhile (\<lambda>c. c \<noteq> CHR '' '') s)" "s \<noteq> []" using assms by (auto simp: CopyStringToSpace_def)
  have "length (dropWhile (\<lambda>c. c \<noteq> CHR '' '') s) \<le> length s" by (rule length_dropWhile_le)
  with n show ?thesis by (cases "dropWhile (\<lambda>c. c \<noteq> CHR '' '') s") auto
qed

function IdentLexString :: "string \<Rightarrow> analyzer \<Rightarrow> (bool \<times> analyzer) outcome" where
  "IdentLexString inString S =
     (let (lexString, pNextTok) = CopyStringToSpace inString in
      if lexString \<noteq> [] then
        bindE (PushContext S) (\<lambda>S. bindE (IdentString lexString S) (\<lambda>(error, S). bindE (PopContext S) (\<lambda>S.
        if error then bindE (RestoreContext S) (IdentLexString pNextTok) else Inr (False, S))))
      else Inr (True, S))"
  by pat_completeness auto
termination
  by (relation "measure (\<lambda>(s, S). length s)") (simp_all add: CopyStringToSpace_shorter)

declare IdentLexString.simps [simp del]

text \<open>The table has eight entries; the loop, which divides its size by the size of a pointer, looks for sixteen.\<close>

definition IdentLexFromTable :: "PARSER_AssLexT option \<Rightarrow> analyzer \<Rightarrow> (bool \<times> analyzer) outcome" where
  "IdentLexFromTable lexType S =
     (case lexType of
        None \<Rightarrow> Inl Out_Of_Bounds
      | Some l \<Rightarrow> (case map_of lexInfoTable l of None \<Rightarrow> Inl Out_Of_Bounds | Some s \<Rightarrow> IdentLexString s S))"

definition IdentLexem :: "int \<Rightarrow> analyzer \<Rightarrow> (bool \<times> analyzer) outcome" where
  "IdentLexem lexType S =
     (case ass_lex lexType of
        Some LEX_label \<Rightarrow> IdentLabel S
      | Some LEX_int_cst \<Rightarrow> IdentIntegerConstant S
      | Some LEX_float_cst \<Rightarrow> IdentFloatConstant S
      | Some LEX_ident \<Rightarrow> IdentIdent S
      | Some LEX_toeol \<Rightarrow> Inr (False, SkipToEOL S)
      | Some LEX_param \<Rightarrow> IdentParam S
      | Some LEX_quoted_string \<Rightarrow> IdentQuotedString S
      | Some LEX_eol \<Rightarrow> IdentEOL S
      | Some LEX_alpha \<Rightarrow> IdentAlpha S
      | l \<Rightarrow> IdentLexFromTable l S)"

end
