(* ===== verification/Parser_Analyzer.thy ===== *)
theory Parser_Analyzer
  imports Parser_Lexemes
begin

text \<open>
  The assembler parser (\<^verbatim>\<open>SyntaxAnalysis\<close> and \<^verbatim>\<open>AnalyzeString\<close> of \<^verbatim>\<open>parser/src/analyzer.c\<close>), which interprets the arrays that the parser generator has written.  The functions that
  the client supplies, for registers, expressions and their classes, are fields of \<open>parser_env\<close>.
\<close>

section \<open>Tables\<close>

datatype PARSER_eStateT = STA_CON | STA_SPA | STA_AND | STA_OR | STA_XOR | STA_TER | STA_NTR | STA_EXP | STA_UCE | STA_SCE | STA_RNG | STA_LEX | STA_OPT | STA_REP | STA_OPD

record nodeSEM =
  ns_state :: PARSER_eStateT
  ns_info :: int
  ns_encInfo :: int
  ns_semInfo :: int

definition ns_left :: "nodeSEM \<Rightarrow> int" where
  "ns_left row = drop_bit 16 (ns_info row)"

definition ns_right :: "nodeSEM \<Rightarrow> int" where
  "ns_right row = drop_bit 16 (INT32 (push_bit 16 (ns_info row)))"

text \<open>
  What the client's parser of expressions gives: whether it succeeds, how many characters of its argument it has read, and its other results.  A class that is not
  defined is \<open>None\<close>.
\<close>

record expression_result =
  er_ok :: bool
  er_read :: nat
  er_is_reloc :: int
  er_symbol_id :: int
  er_symop_id :: int
  er_value :: int
  er_expr :: int

record parser_env =
  semTable :: "nodeSEM list list"
  stringTable :: "string list"
  axiom :: "nodeSEM list"
  get_lit_class :: "string \<Rightarrow> int option"
  get_reg_class :: "string \<Rightarrow> (int \<times> int) option"
  parse_expression :: "string \<Rightarrow> int \<Rightarrow> expression_result"
  parse_register :: "string \<Rightarrow> int \<Rightarrow> int \<Rightarrow> bool \<times> nat \<times> int"

type_synonym attempt = "(bool \<times> analyzer) outcome"

section \<open>Pushing tokens and actions\<close>

definition start_node :: "analyzer \<Rightarrow> analyzer" where
  "start_node S = S\<lparr>p_exprSize := 0, idlexType := LABEL, p_expr := 0, p_opnd_value := 0, p_is_reloc := 0, p_symbol_id := 0, p_symop_id := 0, p_main_class := 0, p_sub_class := 0\<rparr>"

definition push_info :: "s_encodingInfo \<Rightarrow> analyzer \<Rightarrow> analyzer outcome" where
  "push_info x S = bindE (PushEncodingInfo (encStack S) x) (\<lambda>st. Inr (S\<lparr>newEncInfo := x, encStack := st\<rparr>))"

definition push_action :: "nodeSEM \<Rightarrow> analyzer \<Rightarrow> analyzer outcome" where
  "push_action row S = push_info ((newEncInfo S)\<lparr>enc_type := ENCODE, enc_action := ns_encInfo row, numToken := ns_semInfo row\<rparr>) S"

definition push_lexem :: "analyzer \<Rightarrow> analyzer outcome" where
  "push_lexem S = push_info ((newEncInfo S)\<lparr>enc_type := idlexType S, enc_string := tokenString S, exprSize := p_exprSize S, is_reloc := p_is_reloc S, sym_id := p_symbol_id S,
     symop_id := p_symop_id S, opnd := p_opnd_value S, expr := p_expr S, main_class := p_main_class S, sub_class := p_sub_class S\<rparr>) S"

section \<open>Nodes with children\<close>

definition call_action :: "nodeSEM \<Rightarrow> bool" where
  "call_action row \<longleftrightarrow> ns_encInfo row \<noteq> - 1"

text \<open>\<open>rec\<close> is the recursive call on a node of the same array.\<close>

definition opt_node :: "(int \<Rightarrow> analyzer \<Rightarrow> attempt) \<Rightarrow> nodeSEM \<Rightarrow> analyzer \<Rightarrow> analyzer outcome" where
  "opt_node rec row S =
     bindE (PushContext S) (\<lambda>S. bindE (rec (ns_info row) S) (\<lambda>(error, S). bindE (PopContext S) (\<lambda>S.
     if error then bindE (RestoreContext S) (\<lambda>S. if call_action row then push_action row S else Inr S) else Inr S)))"

text \<open>The loop of \<^verbatim>\<open>STA_REP\<close>, for at most so many rounds.\<close>

fun rep_loop :: "(int \<Rightarrow> analyzer \<Rightarrow> attempt) \<Rightarrow> nat \<Rightarrow> nodeSEM \<Rightarrow> analyzer \<Rightarrow> analyzer outcome" where
  "rep_loop rec 0 row S = Inl Diverges"
| "rep_loop rec (Suc n) row S =
     (if charIndex S \<noteq> maxIndex S then
        bindE (PushContext S) (\<lambda>S. bindE (SkipSpace S) (\<lambda>S. bindE (rec (ns_info row) S) (\<lambda>(error, S). bindE (PopContext S) (\<lambda>S.
        if error then RestoreContext S else rep_loop rec n row S))))
      else Inr S)"

definition xor_node :: "(int \<Rightarrow> analyzer \<Rightarrow> attempt) \<Rightarrow> nodeSEM \<Rightarrow> analyzer \<Rightarrow> attempt" where
  "xor_node rec row S =
     bindE (PushContext S) (\<lambda>S. bindE (rec (ns_left row) S) (\<lambda>(error, S). bindE (PopContext S) (\<lambda>S.
     if error then bindE (RestoreContext S) (rec (ns_right row)) else Inr (False, S))))"

text \<open>The second alternative has been recognised and is taken: its informations go where those of the first one start.\<close>

definition take_second :: "s_contextElem \<Rightarrow> s_contextElem \<Rightarrow> s_contextElem \<Rightarrow> analyzer \<Rightarrow> analyzer outcome" where
  "take_second base c1 c2 S =
     bindE (SetContext c2 S) (\<lambda>S.
     bindE (MoveEncodingInfo (encStack S) (ctx_encStackIndex base) (ctx_encStackIndex c1) (ctx_encStackIndex c2)) (\<lambda>st.
     Inr (S\<lparr>encStack := st\<rparr>)))"

definition choose_both :: "s_contextElem \<Rightarrow> s_contextElem \<Rightarrow> s_contextElem \<Rightarrow> analyzer \<Rightarrow> analyzer outcome" where
  "choose_both base c1 c2 S =
     (if ctx_charIndex c1 > ctx_charIndex c2 then SetContext c1 S
      else if ctx_charIndex c2 > ctx_charIndex c1 then take_second base c1 c2 S
      else
        bindE (GetSumExprSizeInEncodingInfo (encStack S) (ctx_encStackIndex base) (ctx_encStackIndex c1)) (\<lambda>context1Size.
        bindE (GetSumExprSizeInEncodingInfo (encStack S) (ctx_encStackIndex c1) (ctx_encStackIndex c2)) (\<lambda>context2Size.
        if context2Size = 0 \<and> context1Size = 0 then Inl (Fatal ''Duplicated syntax for line'')
        else if context1Size = 0 then SetContext c1 S
        else if context2Size = 0 then take_second base c1 c2 S
        else if context1Size > context2Size then SetContext c1 S
        else take_second base c1 c2 S)))"

definition select_context :: "bool \<Rightarrow> bool \<Rightarrow> s_contextElem \<Rightarrow> s_contextElem \<Rightarrow> s_contextElem \<Rightarrow> analyzer \<Rightarrow> analyzer outcome" where
  "select_context error1 error2 base c1 c2 S =
     (if \<not> error1 \<and> \<not> error2 then choose_both base c1 c2 S
      else
        bindE (if \<not> error1 then SetContext c1 S else Inr S) (\<lambda>S.
        if \<not> error2 then SetContext c2 S else Inr S))"

text \<open>One alternative from the current context, to which the parser goes back: whether it fails, the context that it reaches, and the state.\<close>

definition try_node :: "(int \<Rightarrow> analyzer \<Rightarrow> attempt) \<Rightarrow> int \<Rightarrow> analyzer \<Rightarrow> (bool \<times> s_contextElem \<times> analyzer) outcome" where
  "try_node rec i S =
     bindE (PushContext S) (\<lambda>S. bindE (rec i S) (\<lambda>(error, S).
     let c = GetContext S in
     bindE (PopContext S) (\<lambda>S. bindE (RestoreContext S) (\<lambda>S. Inr (error, c, S)))))"

definition or_node :: "(int \<Rightarrow> analyzer \<Rightarrow> attempt) \<Rightarrow> nodeSEM \<Rightarrow> analyzer \<Rightarrow> attempt" where
  "or_node rec row S =
     (let base = GetContext S in
      bindE (try_node rec (ns_left row) S) (\<lambda>(error1, c1, S).
      bindE (if \<not> error1 then SetEncStackIndex (encStack S) (ctx_encStackIndex c1) else Inr (encStack S)) (\<lambda>st.
      bindE (try_node rec (ns_right row) (S\<lparr>encStack := st\<rparr>)) (\<lambda>(error2, c2, S).
      bindE (select_context error1 error2 base c1 c2 S) (\<lambda>S. Inr (error1 \<and> error2, S))))))"

text \<open>\<^verbatim>\<open>STA_CON\<close>, \<^verbatim>\<open>STA_AND\<close> and \<^verbatim>\<open>STA_SPA\<close> differ in what they do between the two nodes.\<close>

definition pair_node :: "(int \<Rightarrow> analyzer \<Rightarrow> attempt) \<Rightarrow> (analyzer \<Rightarrow> attempt) \<Rightarrow> nodeSEM \<Rightarrow> analyzer \<Rightarrow> attempt" where
  "pair_node rec between row S =
     bindE (rec (ns_left row) S) (\<lambda>(error, S).
     if error then Inr (True, S)
     else bindE (between S) (\<lambda>(error, S). if error then Inr (True, S) else rec (ns_right row) S))"

section \<open>Operands\<close>

text \<open>A result of the client, after which the index is moved if it was a success.\<close>

definition operand :: "bool \<Rightarrow> nat \<Rightarrow> int \<Rightarrow> analyzer \<Rightarrow> (bool \<times> analyzer)" where
  "operand success n sz S =
     (\<not> success, S\<lparr>tokenString := \<lparr>str_buf = charIndex S, str_length = int n\<rparr>, p_exprSize := sz,
        charIndex := (if success then charIndex S + n else charIndex S)\<rparr>)"

definition constant_node :: "parser_env \<Rightarrow> nodeSEM \<Rightarrow> analyzer \<Rightarrow> attempt" where
  "constant_node env row S =
     bindE (table_read (stringTable env) (ns_info row)) (\<lambda>name.
     case get_lit_class env name of
       None \<Rightarrow> Inl (Fatal ''Undefined literal class'')
     | Some lclass \<Rightarrow>
         if charIndex S > maxIndex S then Inl Out_Of_Bounds
         else
           let r = parse_expression env (drop (charIndex S) (the_line S)) lclass in
           Inr (operand (er_ok r) (er_read r) (- ns_info row)
             (S\<lparr>p_is_reloc := er_is_reloc r, p_symbol_id := er_symbol_id r, p_symop_id := er_symop_id r, p_opnd_value := er_value r, p_expr := er_expr r,
               p_main_class := lclass, p_sub_class := 0, idlexType := CSTEXPR\<rparr>)))"

definition register_node :: "parser_env \<Rightarrow> nodeSEM \<Rightarrow> analyzer \<Rightarrow> attempt" where
  "register_node env row S =
     bindE (table_read (stringTable env) (ns_info row)) (\<lambda>name.
     case get_reg_class env name of
       None \<Rightarrow> Inl (Fatal ''Undefined register class'')
     | Some (rclass, rsclass) \<Rightarrow>
         if charIndex S > maxIndex S then Inl Out_Of_Bounds
         else
           let (success, n, regid) = parse_register env (drop (charIndex S) (the_line S)) rclass rsclass in
           Inr (operand success n (- ns_info row) (S\<lparr>p_opnd_value := regid, p_main_class := rclass, p_sub_class := rsclass, idlexType := REGISTER\<rparr>)))"

section \<open>The analysis\<close>

text \<open>A node of which the token is pushed when it is recognised.\<close>

definition lexem_node :: "attempt \<Rightarrow> attempt" where
  "lexem_node m = bindE m (\<lambda>(error, S). if error then Inr (True, S) else bindE (push_lexem S) (\<lambda>S. Inr (False, S)))"

definition silent_node :: "analyzer outcome \<Rightarrow> attempt" where
  "silent_node m = bindE m (\<lambda>S. Inr (False, S))"

text \<open>
  The \<^verbatim>\<open>switch\<close>, with the token pushed at the end.  \<open>rec\<close> is the recursive call on an array and an index, \<open>n\<close> the bound of the rounds of a loop.
\<close>

definition node_switch :: "parser_env \<Rightarrow> (nodeSEM list \<Rightarrow> int \<Rightarrow> analyzer \<Rightarrow> attempt) \<Rightarrow> nat \<Rightarrow> nodeSEM list \<Rightarrow> nodeSEM \<Rightarrow> analyzer \<Rightarrow> attempt" where
  "node_switch env rec n NS row S =
     (case ns_state row of
        STA_OPT \<Rightarrow> silent_node (opt_node (rec NS) row S)
      | STA_REP \<Rightarrow> silent_node (rep_loop (rec NS) n row S)
      | STA_XOR \<Rightarrow> xor_node (rec NS) row S
      | STA_OR \<Rightarrow> or_node (rec NS) row S
      | STA_AND \<Rightarrow> pair_node (rec NS) (\<lambda>S. silent_node (SkipSpace S)) row S
      | STA_CON \<Rightarrow> pair_node (rec NS) (\<lambda>S. Inr (False, S)) row S
      | STA_SPA \<Rightarrow> pair_node (rec NS) IdentSpace row S
      | STA_TER \<Rightarrow> bindE (table_read (stringTable env) (ns_info row)) (\<lambda>s. IdentString s S)
      | STA_RNG \<Rightarrow> lexem_node (IdentRange (UINT32 (ns_left row)) (UINT32 (ns_right row)) S)
      | STA_UCE \<Rightarrow> lexem_node (constant_node env row S)
      | STA_SCE \<Rightarrow> lexem_node (constant_node env row S)
      | STA_NTR \<Rightarrow> bindE (table_read (semTable env) (ns_info row)) (\<lambda>NS. rec NS 0 S)
      | STA_EXP \<Rightarrow> lexem_node (register_node env row S)
      | STA_LEX \<Rightarrow> lexem_node (IdentLexem (ns_info row) S)
      | STA_OPD \<Rightarrow> Inl (Fatal ''Invalid state in SyntaxAnalysis''))"

text \<open>After an optional or repeated node the action of the node is not called.\<close>

definition finish_node :: "nodeSEM \<Rightarrow> bool \<times> analyzer \<Rightarrow> attempt" where
  "finish_node row = (\<lambda>(error, S).
     let S = (if error \<and> errorIndex S < charIndex S then S\<lparr>errorIndex := charIndex S\<rparr> else S) in
     if call_action row \<and> ns_state row \<notin> {STA_OPT, STA_REP} \<and> \<not> error then bindE (push_action row S) (\<lambda>S. Inr (False, S)) else Inr (error, S))"

fun SyntaxAnalysis :: "parser_env \<Rightarrow> nat \<Rightarrow> nodeSEM list \<Rightarrow> int \<Rightarrow> analyzer \<Rightarrow> attempt" where
  "SyntaxAnalysis env 0 NS nodeIndex S = Inl Diverges"
| "SyntaxAnalysis env (Suc n) NS nodeIndex S =
     bindE (table_read NS nodeIndex) (\<lambda>row.
     bindE (node_switch env (SyntaxAnalysis env n) n NS row (start_node S)) (finish_node row))"

text \<open>The line without what follows \<^verbatim>\<open>//\<close>, and without a carriage return.\<close>

fun copy_loop :: "nat \<Rightarrow> string \<Rightarrow> string \<Rightarrow> nat \<times> string" where
  "copy_loop p copied [] = (p, copied)"
| "copy_loop p copied (c # cs) =
     (if c \<noteq> CHR 0x00 \<and> p \<noteq> 2 then copy_loop (if c = CHR ''/'' then p + 1 else 0) (copied @ [c]) cs else (p, copied))"

definition CopyStringToLine :: "string \<Rightarrow> string" where
  "CopyStringToLine buffer =
     (let (p, copied) = copy_loop 0 [] buffer;
          copied = (if p = 2 then take (length copied - 2) copied else copied) in
      if copied \<noteq> [] \<and> last copied = CHR 0x0D then butlast copied else copied)"

definition AnalyzeString :: "parser_env \<Rightarrow> nat \<Rightarrow> string \<Rightarrow> analyzer \<Rightarrow> attempt" where
  "AnalyzeString env n buffer S =
     (let S = InitContextStack (S\<lparr>charIndex := 0, errorIndex := 0, encStack := InitEncodingStack (encStack S), the_line := CopyStringToLine buffer\<rparr>) in
      bindE (SkipSpace S) (\<lambda>S.
      bindE (SyntaxAnalysis env n (axiom env) 0 S) (\<lambda>(failed, S).
      if failed then Inr (True, S) else IdentEOL S)))"

end
