(* ===== verification/Parser_Grammar.thy ===== *)
theory Parser_Grammar
  imports Parser_Analyzer
begin

text \<open>
  What the arrays of the assembler parser mean: the relation \<open>derives\<close> says that a node derives a part of a line, and with which tokens and actions.  It knows
  nothing of contexts, stacks and attempts.
\<close>

section \<open>Texts\<close>

definition part :: "string \<Rightarrow> nat \<Rightarrow> nat \<Rightarrow> string" where
  "part L b e = take (e - b) (drop b L)"

definition blanks_end :: "string \<Rightarrow> nat \<Rightarrow> nat" where
  "blanks_end L k = k + length (takeWhile (\<lambda>c. c = CHR '' '' \<or> c = CHR 0x09) (drop k L))"

definition label_text :: "string \<Rightarrow> bool" where
  "label_text s \<longleftrightarrow> (\<exists>c cs. s = c # cs \<and> (\<forall>x \<in> set cs. label_char x) \<and> (alpha_char c \<or> (c = CHR ''.'' \<or> c = CHR ''_'') \<and> cs \<noteq> []))"

definition ident_text :: "string \<Rightarrow> bool" where
  "ident_text s \<longleftrightarrow> (\<exists>c cs. s = c # cs \<and> (\<forall>x \<in> set cs. ident_char x) \<and> (c = CHR ''_'' \<or> alpha_char c))"

definition run_text :: "(char \<Rightarrow> bool) \<Rightarrow> string \<Rightarrow> bool" where
  "run_text P s \<longleftrightarrow> s \<noteq> [] \<and> (\<forall>x \<in> set s. P x)"

definition digits :: "string \<Rightarrow> bool" where
  "digits s \<longleftrightarrow> (\<forall>x \<in> set s. digit_char x)"

text \<open>A mantissa, of which a fraction must have digits unless an exponent follows, and an exponent.\<close>

definition exponent_text :: "string \<Rightarrow> bool" where
  "exponent_text s \<longleftrightarrow> (\<exists>m sg d. s = m # sg @ d \<and> (m = CHR ''E'' \<or> m = CHR ''e'') \<and> (sg = [] \<or> (\<exists>c. sg = [c] \<and> sign_char c)) \<and> digits d \<and> d \<noteq> [])"

definition float_text :: "string \<Rightarrow> bool" where
  "float_text s \<longleftrightarrow> (\<exists>ip fr ex. s = ip @ fr @ ex
     \<and> (digits ip \<or> (\<exists>c d. ip = c # d \<and> sign_char c \<and> digits d \<and> d \<noteq> []))
     \<and> (fr = [] \<or> (\<exists>d. fr = CHR ''.'' # d \<and> digits d \<and> (ip \<noteq> [] \<or> d \<noteq> [])))
     \<and> (exponent_text ex \<or> ex = [] \<and> (if fr = [] then ip \<noteq> [] else fr \<noteq> ''.'')))"

fun split_words :: "string \<Rightarrow> string \<Rightarrow> string list" where
  "split_words w [] = [w]"
| "split_words w (c # cs) = (if c = CHR '' '' then w # split_words [] cs else split_words (w @ [c]) cs)"

definition same_letters :: "string \<Rightarrow> string \<Rightarrow> bool" where
  "same_letters s t \<longleftrightarrow> map to_upper s = map to_upper t"

section \<open>Lexemes\<close>

text \<open>A lexeme between two indices of the line, with the kind and the string of its token.  The token of the end of the line is not determined.\<close>

definition token_at :: "nat \<Rightarrow> nat \<Rightarrow> s_String" where
  "token_at b e = \<lparr>str_buf = b, str_length = int e - int b\<rparr>"

definition integer_text :: "e_ENCINFOTYPE \<Rightarrow> string \<Rightarrow> bool" where
  "integer_text t s \<longleftrightarrow> t = DECCONST \<and> run_text digit_char s
     \<or> t = HEXCONST \<and> take 2 s \<in> {''0x'', ''0X''} \<and> run_text hex_char (drop 2 s)
     \<or> t = BINCONST \<and> take 2 s \<in> {''0b'', ''0B''} \<and> run_text (\<lambda>c. c = CHR ''0'' \<or> c = CHR ''1'') (drop 2 s)"

definition lexeme :: "PARSER_AssLexT \<Rightarrow> string \<Rightarrow> nat \<Rightarrow> nat \<Rightarrow> e_ENCINFOTYPE \<Rightarrow> s_String \<Rightarrow> bool" where
  "lexeme l L b e t tok \<longleftrightarrow> b \<le> e \<and> e \<le> length L \<and>
     (case l of
        LEX_int_cst \<Rightarrow> integer_text t (part L b e) \<and> tok = token_at (if t = DECCONST then b else b + 2) e
      | LEX_label \<Rightarrow> t = LABEL \<and> tok = token_at b e \<and> label_text (part L b e)
      | LEX_ident \<Rightarrow> t = LABEL \<and> tok = token_at b e \<and> ident_text (part L b e)
      | LEX_alpha \<Rightarrow> t = LABEL \<and> tok = token_at b e \<and> run_text alpha_char (part L b e)
      | LEX_param \<Rightarrow> t = LABEL \<and> tok = token_at b e \<and> run_text (\<lambda>c. c \<noteq> CHR '','') (part L b e)
      | LEX_float_cst \<Rightarrow> t = LABEL \<and> tok = token_at b e \<and> float_text (part L b e)
      | LEX_quoted_string \<Rightarrow> t = LABEL \<and> tok = token_at (b + 1) (e - 1) \<and> 2 \<le> e - b \<and> hd (part L b e) = CHR 0x22 \<and> last (part L b e) = CHR 0x22
      | LEX_toeol \<Rightarrow> t = LABEL \<and> str_buf tok = b \<and> e = length L
      | LEX_eol \<Rightarrow> t = LABEL \<and> e = length L \<and> (\<forall>x \<in> set (part L b e). space_char x)
      | _ \<Rightarrow> t = LABEL \<and> tok = token_at b e \<and> (\<exists>s w. map_of lexInfoTable l = Some s \<and> w \<in> set (split_words [] s) \<and> w \<noteq> [] \<and> same_letters (part L b e) w))"

section \<open>Derivations\<close>

text \<open>An entry of the stack: an action with the number of its tokens, or a token with the value and the classes of an operand.\<close>

datatype item = Act_Item int int | Token_Item e_ENCINFOTYPE s_String int int int

definition acts :: "nodeSEM \<Rightarrow> item list" where
  "acts row = (if call_action row then [Act_Item (ns_encInfo row) (ns_semInfo row)] else [])"

fun between :: "PARSER_eStateT \<Rightarrow> string \<Rightarrow> nat \<Rightarrow> nat \<Rightarrow> bool" where
  "between STA_CON L m m' \<longleftrightarrow> m' = m"
| "between STA_AND L m m' \<longleftrightarrow> m' = blanks_end L m"
| "between STA_SPA L m m' \<longleftrightarrow> m' = blanks_end L m \<and> (m < m' \<or> m = length L)"
| "between s L m m' \<longleftrightarrow> False"

inductive derives :: "parser_env \<Rightarrow> string \<Rightarrow> nodeSEM list \<Rightarrow> int \<Rightarrow> nat \<Rightarrow> nat \<Rightarrow> item list \<Rightarrow> bool"
  and repeats :: "parser_env \<Rightarrow> string \<Rightarrow> nodeSEM list \<Rightarrow> int \<Rightarrow> nat \<Rightarrow> nat \<Rightarrow> item list \<Rightarrow> bool"
  for env L where
  opt_some: "table_read NS i = Inr row \<Longrightarrow> ns_state row = STA_OPT \<Longrightarrow> derives env L NS (ns_info row) b e xs \<Longrightarrow> derives env L NS i b e xs"
| opt_none: "table_read NS i = Inr row \<Longrightarrow> ns_state row = STA_OPT \<Longrightarrow> derives env L NS i b b (acts row)"
| rep: "table_read NS i = Inr row \<Longrightarrow> ns_state row = STA_REP \<Longrightarrow> repeats env L NS (ns_info row) b e xs \<Longrightarrow> derives env L NS i b e xs"
| alt_left: "table_read NS i = Inr row \<Longrightarrow> ns_state row \<in> {STA_OR, STA_XOR} \<Longrightarrow> derives env L NS (ns_left row) b e xs \<Longrightarrow> derives env L NS i b e (xs @ acts row)"
| alt_right: "table_read NS i = Inr row \<Longrightarrow> ns_state row \<in> {STA_OR, STA_XOR} \<Longrightarrow> derives env L NS (ns_right row) b e xs \<Longrightarrow> derives env L NS i b e (xs @ acts row)"
| pair: "table_read NS i = Inr row \<Longrightarrow> derives env L NS (ns_left row) b m xs \<Longrightarrow> between (ns_state row) L m m' \<Longrightarrow> derives env L NS (ns_right row) m' e ys \<Longrightarrow>
    derives env L NS i b e (xs @ ys @ acts row)"
| ter: "table_read NS i = Inr row \<Longrightarrow> ns_state row = STA_TER \<Longrightarrow> table_read (stringTable env) (ns_info row) = Inr s \<Longrightarrow>
    b + length s \<le> length L \<Longrightarrow> same_letters s (part L b (b + length s)) \<Longrightarrow> derives env L NS i b (b + length s) (acts row)"
| ntr: "table_read NS i = Inr row \<Longrightarrow> ns_state row = STA_NTR \<Longrightarrow> table_read (semTable env) (ns_info row) = Inr NS' \<Longrightarrow>
    derives env L NS' 0 b e xs \<Longrightarrow> derives env L NS i b e (xs @ acts row)"
| lex: "table_read NS i = Inr row \<Longrightarrow> ns_state row = STA_LEX \<Longrightarrow> ass_lex (ns_info row) = Some l \<Longrightarrow> lexeme l L b e t tok \<Longrightarrow>
    derives env L NS i b e (Token_Item t tok 0 0 0 # acts row)"
| cst: "table_read NS i = Inr row \<Longrightarrow> ns_state row \<in> {STA_UCE, STA_SCE} \<Longrightarrow> table_read (stringTable env) (ns_info row) = Inr name \<Longrightarrow>
    get_lit_class env name = Some lclass \<Longrightarrow> parse_expression env (drop b L) lclass = r \<Longrightarrow> er_ok r \<Longrightarrow>
    derives env L NS i b (b + er_read r) (Token_Item CSTEXPR (token_at b (b + er_read r)) (er_value r) lclass 0 # acts row)"
| reg: "table_read NS i = Inr row \<Longrightarrow> ns_state row = STA_EXP \<Longrightarrow> table_read (stringTable env) (ns_info row) = Inr name \<Longrightarrow>
    get_reg_class env name = Some (rclass, rsclass) \<Longrightarrow> parse_register env (drop b L) rclass rsclass = (True, n, regid) \<Longrightarrow>
    derives env L NS i b (b + n) (Token_Item REGISTER (token_at b (b + n)) regid rclass rsclass # acts row)"
| rep_none: "repeats env L NS k b b []"
| rep_more: "b \<noteq> length L \<Longrightarrow> derives env L NS k (blanks_end L b) m xs \<Longrightarrow> repeats env L NS k m e ys \<Longrightarrow> repeats env L NS k b e (xs @ ys)"

text \<open>Arrays without ranges, which the generator does not write, and a client that reads within the line.\<close>

definition no_ranges :: "nodeSEM list \<Rightarrow> bool" where
  "no_ranges NS \<longleftrightarrow> (\<forall>row \<in> set NS. ns_state row \<noteq> STA_RNG)"

definition client_reads_line :: "parser_env \<Rightarrow> bool" where
  "client_reads_line env \<longleftrightarrow> (\<forall>s c. er_read (parse_expression env s c) \<le> length s)
     \<and> (\<forall>s c d. fst (snd (parse_register env s c d)) \<le> length s)"

end
