(* ===== verification/Parser_Lexing.thy ===== *)
theory Parser_Lexing
  imports Parser_Grammar
begin

text \<open>
  The recognisers of the assembler parser find the lexemes of \<open>Parser_Grammar\<close>, and leave the stack and the contexts as they are.
\<close>

section \<open>Parts of a line\<close>

lemma part_self [simp]: "part L b b = []"
  by (simp add: part_def)

lemma part_split: "b \<le> m \<Longrightarrow> m \<le> e \<Longrightarrow> part L b e = part L b m @ part L m e"
  using take_add [of "m - b" "e - m" "drop b L"] by (simp add: part_def add.commute)

lemma part_Cons: "b < e \<Longrightarrow> b < length L \<Longrightarrow> part L b e = L ! b # part L (Suc b) e"
  by (simp add: part_def Cons_nth_drop_Suc [symmetric] take_Suc_conv_app_nth [symmetric] Suc_diff_Suc [symmetric] flip: Suc_diff_Suc)

lemma length_part [simp]: "e \<le> length L \<Longrightarrow> length (part L b e) = e - b"
  by (simp add: part_def)

lemma run_while_Inr:
  assumes "run_while P L k = Inr e"
  shows "k \<le> e \<and> e \<le> length L \<and> (\<forall>x \<in> set (part L k e). P x)"
proof -
  have e: "k \<le> length L" "e = k + length (takeWhile P (drop k L))" using assms by (auto simp: run_while_def split: if_splits)
  have len: "length (takeWhile P (drop k L)) \<le> length (drop k L)" by (rule length_takeWhile_le)
  have "part L k e = takeWhile P (drop k L)" by (simp add: part_def e(2)) (metis takeWhile_eq_take)
  with e len show ?thesis by (auto dest: set_takeWhileD)
qed

lemma line_at_Inr: "line_at L k = Inr c \<Longrightarrow> k \<le> length L \<and> (c \<noteq> CHR 0x00 \<longrightarrow> k < length L \<and> L ! k = c)"
  by (auto simp: line_at_def split: if_splits)

lemma no_null [simp]: "\<not> alpha_char (CHR 0x00)" "\<not> alnum_char (CHR 0x00)" "\<not> digit_char (CHR 0x00)" "\<not> label_char (CHR 0x00)" "\<not> sign_char (CHR 0x00)"
  by (simp_all add: alpha_char_def alnum_char_def digit_char_def label_char_def sign_char_def isalpha_def isalnum_def isdigit_def less_eq_char_def)

section \<open>Lexemes\<close>

text \<open>What a recogniser leaves as it is.\<close>

definition untouched :: "analyzer \<Rightarrow> analyzer \<Rightarrow> bool" where
  "untouched S S' \<longleftrightarrow> the_line S' = the_line S \<and> charIndex S' \<le> maxIndex S \<and> contexts S' = contexts S \<and> encStack S' = encStack S
     \<and> p_opnd_value S' = p_opnd_value S \<and> p_main_class S' = p_main_class S \<and> p_sub_class S' = p_sub_class S"

lemma token_upto_simps [simp]: "charIndex (token_upto e S) = e" "tokenString (token_upto e S) = token_at (charIndex S) e" "idlexType (token_upto e S) = idlexType S"
  "untouched S (token_upto e S') \<longleftrightarrow> untouched S (S'\<lparr>charIndex := e\<rparr>)"
  by (simp_all add: token_upto_def token_at_def untouched_def)

definition lexeme_found :: "PARSER_AssLexT \<Rightarrow> analyzer \<Rightarrow> analyzer \<Rightarrow> bool" where
  "lexeme_found l S S' \<longleftrightarrow> lexeme l (the_line S) (charIndex S) (charIndex S') (idlexType S') (tokenString S')"

text \<open>A recogniser of a class of lexemes.\<close>

definition recognises :: "PARSER_AssLexT \<Rightarrow> (analyzer \<Rightarrow> attempt) \<Rightarrow> bool" where
  "recognises l f \<longleftrightarrow> (\<forall>S err S'. charIndex S \<le> maxIndex S \<longrightarrow> f S = Inr (err, S') \<longrightarrow>
     untouched S S' \<and> (\<not> err \<longrightarrow> idlexType S = LABEL \<longrightarrow> lexeme_found l S S'))"

lemma recognisesI:
  assumes "\<And>S err S'. charIndex S \<le> maxIndex S \<Longrightarrow> f S = Inr (err, S') \<Longrightarrow> untouched S S'"
    and "\<And>S S'. charIndex S \<le> maxIndex S \<Longrightarrow> f S = Inr (False, S') \<Longrightarrow> idlexType S = LABEL \<Longrightarrow> lexeme_found l S S'"
  shows "recognises l f"
  unfolding recognises_def
proof (intro allI impI conjI)
  fix S err S' assume S: "charIndex S \<le> maxIndex S" "f S = Inr (err, S')"
  then show "untouched S S'" by (rule assms(1))
  assume "\<not> err" "idlexType S = LABEL"
  with S show "lexeme_found l S S'" by (intro assms(2)) simp_all
qed

lemma untouched_self: "charIndex S \<le> maxIndex S \<Longrightarrow> untouched S S"
  "e \<le> maxIndex S \<Longrightarrow> untouched S (S\<lparr>charIndex := e\<rparr>)" "e \<le> maxIndex S \<Longrightarrow> untouched S (S\<lparr>idlexType := t, charIndex := e\<rparr>)"
  by (simp_all add: untouched_def)

lemma IdentLabel_lexeme: "recognises LEX_label IdentLabel"
proof (rule recognisesI)
  fix S err S' assume S: "charIndex S \<le> maxIndex S" "IdentLabel S = Inr (err, S')"
  then show "untouched S S'"
    by (auto simp: IdentLabel_def bindE_eq_Inr untouched_self split: option.splits dest!: run_while_Inr)
next
  fix S S' assume S: "charIndex S \<le> maxIndex S" "IdentLabel S = Inr (False, S')" "idlexType S = LABEL"
  let ?L = "the_line S" and ?b = "charIndex S"
  from S(2) obtain k e where k: "label_start S = Inr (Some k)" "run_while label_char ?L k = Inr e" "S' = token_upto e S"
    by (auto simp: IdentLabel_def bindE_eq_Inr split: option.splits)
  note e = run_while_Inr [OF k(2)]
  have "label_text (part ?L ?b e)"
  proof (cases "k = ?b + 1")
    case True
    with k(1) have "?b < length ?L" "alpha_char (?L ! ?b)" by (auto simp: label_start_def bindE_eq_Inr split: if_splits dest!: line_at_Inr)
    with e True show ?thesis by (simp add: part_Cons label_text_def)
  next
    case False
    with k(1) have c: "k = Suc (Suc ?b)" "?b < length ?L" "?L ! ?b = CHR ''.'' \<or> ?L ! ?b = CHR ''_''" "Suc ?b < length ?L" "label_char (?L ! Suc ?b)"
      by (auto simp: label_start_def bindE_eq_Inr split: if_splits dest!: line_at_Inr)
    with e show ?thesis by (auto simp: part_Cons label_text_def)
  qed
  moreover have "?b \<le> k" using k(1) by (auto simp: label_start_def bindE_eq_Inr split: if_splits)
  ultimately show "lexeme_found LEX_label S S'" using S(3) k(3) e by (auto simp: lexeme_found_def lexeme_def)
qed

lemma IdentIdent_lexeme: "recognises LEX_ident IdentIdent"
proof (rule recognisesI)
  fix S err S' assume "charIndex S \<le> maxIndex S" "IdentIdent S = Inr (err, S')"
  then show "untouched S S'" by (auto simp: IdentIdent_def bindE_eq_Inr untouched_self split: if_splits dest!: run_while_Inr)
next
  fix S S' assume S: "IdentIdent S = Inr (False, S')" "idlexType S = LABEL"
  then obtain c e where c: "line_at (the_line S) (charIndex S) = Inr c" "c = CHR ''_'' \<or> alpha_char c"
    "run_while ident_char (the_line S) (Suc (charIndex S)) = Inr e" "S' = token_upto e S" by (auto simp: IdentIdent_def bindE_eq_Inr split: if_splits)
  with S(2) show "lexeme_found LEX_ident S S'"
    by (auto simp: lexeme_found_def lexeme_def ident_text_def part_Cons dest!: run_while_Inr line_at_Inr)
qed

lemma IdentAlpha_lexeme: "recognises LEX_alpha IdentAlpha"
proof (rule recognisesI)
  fix S err S' assume "charIndex S \<le> maxIndex S" "IdentAlpha S = Inr (err, S')"
  then show "untouched S S'" by (auto simp: IdentAlpha_def bindE_eq_Inr untouched_self split: if_splits dest!: run_while_Inr)
next
  fix S S' assume S: "IdentAlpha S = Inr (False, S')" "idlexType S = LABEL"
  then obtain c e where c: "line_at (the_line S) (charIndex S) = Inr c" "alpha_char c"
    "run_while alpha_char (the_line S) (Suc (charIndex S)) = Inr e" "S' = token_upto e S" by (auto simp: IdentAlpha_def bindE_eq_Inr split: if_splits)
  with S(2) show "lexeme_found LEX_alpha S S'"
    by (auto simp: lexeme_found_def lexeme_def run_text_def part_Cons dest!: run_while_Inr line_at_Inr)
qed

lemma part_nonempty: "b < e \<Longrightarrow> e \<le> length L \<Longrightarrow> part L b e \<noteq> []"
  by (simp add: part_def)

lemma IdentParam_lexeme: "recognises LEX_param IdentParam"
proof (rule recognisesI)
  have run: "\<exists>e. charIndex S \<le> e \<and> e \<le> maxIndex S \<and> (\<forall>x \<in> set (part (the_line S) (charIndex S) e). x \<noteq> CHR '','') \<and> err = (e = charIndex S) \<and> S' = token_upto e S"
    if param: "IdentParam S = Inr (err, S')" for S err S'
  proof -
    from param obtain e where "run_while (\<lambda>c. c \<noteq> CHR '','' \<and> c \<noteq> CHR 0x00) (the_line S) (charIndex S) = Inr e" "err = (e = charIndex S)" "S' = token_upto e S"
      unfolding IdentParam_def bindE_eq_Inr by auto
    with run_while_Inr show ?thesis by blast
  qed
  show "untouched S S'" if "IdentParam S = Inr (err, S')" for S err S' using run [OF that] by (elim exE conjE) (simp add: untouched_self)
  show "lexeme_found LEX_param S S'" if "IdentParam S = Inr (False, S')" "idlexType S = LABEL" for S S'
    using run [OF that(1)] that(2) by (elim exE conjE) (simp add: lexeme_found_def lexeme_def run_text_def part_nonempty)
qed

lemma IdentEOL_lexeme: "recognises LEX_eol IdentEOL"
proof (rule recognisesI)
  fix S err S' assume "charIndex S \<le> maxIndex S" "IdentEOL S = Inr (err, S')"
  then show "untouched S S'" by (auto simp: IdentEOL_def bindE_eq_Inr untouched_self dest!: run_while_Inr)
next
  fix S S' assume "IdentEOL S = Inr (False, S')" "idlexType S = LABEL"
  then show "lexeme_found LEX_eol S S'" by (auto simp: IdentEOL_def bindE_eq_Inr lexeme_found_def lexeme_def dest!: run_while_Inr)
qed

lemma SkipToEOL_lexeme: "recognises LEX_toeol (\<lambda>S. Inr (False, SkipToEOL S))"
  by (rule recognisesI) (auto simp: SkipToEOL_def untouched_def lexeme_found_def lexeme_def)

lemma IdentIntegerConstant_lexeme: "recognises LEX_int_cst IdentIntegerConstant"
proof (rule recognisesI)
  fix S err S' assume "charIndex S \<le> maxIndex S" "IdentIntegerConstant S = Inr (err, S')"
  then show "untouched S S'" by (auto simp: IdentIntegerConstant_def bindE_eq_Inr untouched_self dest!: run_while_Inr)
next
  fix S S' assume S: "IdentIntegerConstant S = Inr (False, S')"
  let ?L = "the_line S" and ?b = "charIndex S"
  from S obtain t k e where k: "integer_prefix S = Inr (t, k)" "run_while (base_char t) ?L k = Inr e" "e \<noteq> k"
    "S' = token_upto e (S\<lparr>idlexType := t, charIndex := k\<rparr>)" by (auto simp: IdentIntegerConstant_def bindE_eq_Inr)
  note e = run_while_Inr [OF k(2)]
  have run: "run_text (base_char t) (part ?L k e)" using e k(3) by (simp add: run_text_def part_nonempty)
  have b: "?b \<le> k" using k(1) by (auto simp: integer_prefix_def bindE_eq_Inr split: if_splits)
  consider "t = DECCONST" "k = ?b" | x where "t \<noteq> DECCONST" "k = Suc (Suc ?b)" "?b < length ?L" "Suc ?b < length ?L" "?L ! ?b = CHR ''0''" "?L ! Suc ?b = x"
      "t = HEXCONST \<and> (x = CHR ''x'' \<or> x = CHR ''X'') \<or> t = BINCONST \<and> (x = CHR ''b'' \<or> x = CHR ''B'')"
    using k(1) by (auto simp: integer_prefix_def bindE_eq_Inr split: if_splits dest!: line_at_Inr)
  then have "integer_text t (part ?L ?b e) \<and> k = (if t = DECCONST then ?b else ?b + 2)"
  proof cases
    case 1
    with run show ?thesis by (simp add: integer_text_def base_char_def run_text_def)
  next
    case 2
    with e have "part ?L ?b e = CHR ''0'' # x # part ?L k e" by (simp add: part_Cons)
    with 2 run show ?thesis by (auto simp: integer_text_def base_char_def run_text_def)
  qed
  with k(4) e b show "lexeme_found LEX_int_cst S S'" by (auto simp: lexeme_found_def lexeme_def)
qed


lemma part_snoc: "b \<le> k \<Longrightarrow> k < length L \<Longrightarrow> part L b (Suc k) = part L b k @ [L ! k]"
  using part_split [of b k "Suc k" L] part_Cons [of k "Suc k" L] by simp

lemma quoted_loop_Inr: "quoted_loop L k = Inr e \<Longrightarrow> k \<le> e \<and> e \<le> length L"
proof (induction L k rule: quoted_loop.induct)
  case (1 L k)
  show ?case
  proof (cases "k \<ge> length L \<or> L ! k = CHR 0x00 \<or> L ! k = CHR 0x22")
    case True
    with "1.prems" show ?thesis by (subst (asm) quoted_loop.simps) (simp split: if_splits)
  next
    case False
    with "1.prems" "1.IH" show ?thesis by (subst (asm) quoted_loop.simps) (auto simp: bindE_eq_Inr split: if_splits)
  qed
qed

lemma IdentQuotedString_lexeme: "recognises LEX_quoted_string IdentQuotedString"
proof (rule recognisesI)
  fix S err S' assume "charIndex S \<le> maxIndex S" "IdentQuotedString S = Inr (err, S')"
  then show "untouched S S'" by (auto simp: IdentQuotedString_def bindE_eq_Inr untouched_def Let_def split: if_splits dest!: quoted_loop_Inr line_at_Inr)
next
  fix S S' assume S: "IdentQuotedString S = Inr (False, S')"
  let ?L = "the_line S" and ?b = "charIndex S"
  from S obtain k where k: "line_at ?L ?b = Inr (CHR 0x22)" "quoted_loop ?L (Suc ?b) = Inr k" "line_at ?L k = Inr (CHR 0x22)"
    "S' = S\<lparr>idlexType := LABEL, tokenString := token_at (Suc ?b) k, charIndex := Suc k\<rparr>"
    by (auto simp: IdentQuotedString_def bindE_eq_Inr Let_def token_at_def split: if_splits)
  from k(1-3) have p: "Suc ?b \<le> k" "k < length ?L" "?L ! ?b = CHR 0x22" "?L ! k = CHR 0x22" by (auto dest!: quoted_loop_Inr line_at_Inr)
  from p have "hd (part ?L ?b (Suc k)) = CHR 0x22" by (simp add: part_Cons)
  moreover from p have "last (part ?L ?b (Suc k)) = CHR 0x22" by (subst part_snoc) simp_all
  ultimately have "hd (part ?L ?b (Suc k)) = CHR 0x22" "last (part ?L ?b (Suc k)) = CHR 0x22" .
  with p k(4) show "lexeme_found LEX_quoted_string S S'" by (auto simp: lexeme_found_def lexeme_def)
qed

section \<open>Terminals and operators\<close>

lemma agree_all: "agree s cs = length s \<Longrightarrow> length s \<le> length cs \<and> map to_upper (take (length s) cs) = map to_upper s"
  by (induction s cs rule: agree.induct) (auto split: if_splits)

lemma IdentString_Inr:
  assumes "IdentString s S = Inr (err, S')"
  shows "if err then S' = S \<and> charIndex S \<le> maxIndex S
    else S' = token_upto (charIndex S + length s) S \<and> charIndex S + length s \<le> maxIndex S \<and> same_letters s (part (the_line S) (charIndex S) (charIndex S + length s))"
  using assms agree_all [of s "drop (charIndex S) (the_line S)"]
  by (auto simp: IdentString_def Let_def same_letters_def part_def split: if_splits)

lemma split_words_Cons: "split_words w s = (w @ takeWhile (\<lambda>c. c \<noteq> CHR '' '') s) # (case dropWhile (\<lambda>c. c \<noteq> CHR '' '') s of [] \<Rightarrow> [] | c # r \<Rightarrow> split_words [] r)"
  by (induction w s rule: split_words.induct) auto

lemma CopyStringToSpace_words:
  assumes "CopyStringToSpace s = (w, n)"
  shows "w \<in> set (split_words [] s)" "x \<noteq> [] \<Longrightarrow> x \<in> set (split_words [] n) \<Longrightarrow> x \<in> set (split_words [] s)"
proof -
  have w: "w = takeWhile (\<lambda>c. c \<noteq> CHR '' '') s" "n = drop 1 (dropWhile (\<lambda>c. c \<noteq> CHR '' '') s)" using assms by (simp_all add: CopyStringToSpace_def)
  show "w \<in> set (split_words [] s)" by (subst split_words_Cons) (simp add: w)
  show "x \<in> set (split_words [] s)" if "x \<noteq> []" "x \<in> set (split_words [] n)"
    using that by (subst split_words_Cons) (cases "dropWhile (\<lambda>c. c \<noteq> CHR '' '') s"; simp add: w)
qed

lemma restored:
  assumes "PushContext S = Inr U" "PopContext (V\<lparr>contexts := contexts U\<rparr>) = Inr W" "RestoreContext W = Inr X"
  shows "X = V\<lparr>contexts := contexts S, contextToRestore := GetContext S, charIndex := charIndex S, p_exprSize := p_exprSize S, encStack := (encStack V)\<lparr>enc_size := enc_size (encStack S)\<rparr>\<rparr>"
  using assms by (auto simp: PushContext_def PopContext_def RestoreContext_def SetContext_def SetEncStackIndex_def GetContext_def bindE_eq_Inr split: if_splits)

lemma IdentLexString_Inr:
  "IdentLexString s S = Inr (err, S') \<Longrightarrow> charIndex S \<le> maxIndex S \<Longrightarrow> untouched S S' \<and> idlexType S' = idlexType S
    \<and> (\<not> err \<longrightarrow> charIndex S \<le> charIndex S' \<and> tokenString S' = token_at (charIndex S) (charIndex S')
      \<and> (\<exists>w \<in> set (split_words [] s). w \<noteq> [] \<and> same_letters (part (the_line S) (charIndex S) (charIndex S')) w))"
proof (induction s S rule: IdentLexString.induct)
  case (1 s S)
  obtain w n where w: "CopyStringToSpace s = (w, n)" by fastforce
  show ?case
  proof (cases "w = []")
    case True
    with "1.prems" w show ?thesis by (subst (asm) IdentLexString.simps) (simp add: untouched_self)
  next
    case False
    from "1.prems"(1) w False obtain U e V W where U: "PushContext S = Inr U" "IdentString w U = Inr (e, V)" "PopContext V = Inr W"
      and r: "(if e then bindE (RestoreContext W) (IdentLexString n) else Inr (False, W)) = Inr (err, S')"
      by (subst (asm) IdentLexString.simps) (auto simp: bindE_eq_Inr)
    have US: "U = S\<lparr>contexts := GetContext S # contexts S\<rparr>" using U(1) by (simp add: PushContext_def split: if_splits)
    show ?thesis
    proof (cases e)
      case True
      with r obtain X where X: "RestoreContext W = Inr X" "IdentLexString n X = Inr (err, S')" by (auto simp: bindE_eq_Inr)
      have "V = U" using IdentString_Inr [OF U(2)] True by simp
      with restored [OF U(1), of U W X] U(3) X(1) have XS: "X = S\<lparr>contextToRestore := GetContext S\<rparr>" by (simp add: US)
      have "untouched X S' = untouched S S'" by (simp add: XS untouched_def)
      with "1.IH" [OF w [symmetric] refl False U(1,2) refl U(3) True X(1,2)] "1.prems"(2) CopyStringToSpace_words [OF w] show ?thesis
        by (auto simp: XS)
    next
      case False
      with r have "S' = W" "\<not> err" by simp_all
      with U(3) IdentString_Inr [OF U(2)] False \<open>w \<noteq> []\<close> CopyStringToSpace_words(1) [OF w] show ?thesis
        by (auto simp: US PopContext_def untouched_def token_upto_def token_at_def same_letters_def split: list.splits)
    qed
  qed
qed


lemma IdentLexFromTable_lexeme:
  assumes "l \<notin> {LEX_label, LEX_int_cst, LEX_float_cst, LEX_ident, LEX_toeol, LEX_param, LEX_quoted_string, LEX_eol, LEX_alpha}"
  shows "recognises l (IdentLexFromTable (Some l))"
proof (rule recognisesI)
  fix S err S' assume "charIndex S \<le> maxIndex S" "IdentLexFromTable (Some l) S = Inr (err, S')"
  then show "untouched S S'" by (auto simp: IdentLexFromTable_def split: option.splits dest: IdentLexString_Inr)
next
  fix S S' assume S: "charIndex S \<le> maxIndex S" "IdentLexFromTable (Some l) S = Inr (False, S')" "idlexType S = LABEL"
  then obtain s where s: "map_of lexInfoTable l = Some s" "IdentLexString s S = Inr (False, S')" by (auto simp: IdentLexFromTable_def split: option.splits)
  from IdentLexString_Inr [OF s(2) S(1)] S(3) assms s(1) show "lexeme_found l S S'"
    by (cases l) (auto simp: lexeme_found_def lexeme_def untouched_def)
qed

section \<open>Floating-point constants\<close>

lemma run_while_moves: "run_while P L k = Inr e \<Longrightarrow> k < length L \<Longrightarrow> P (L ! k) \<Longrightarrow> k < e"
  by (auto simp: run_while_def Cons_nth_drop_Suc [symmetric] split: if_splits)

lemma float_integer_Inr:
  assumes "float_integer L b = Inr k"
  shows "b \<le> k \<and> k \<le> length L \<and> (digits (part L b k) \<or> (\<exists>c d. part L b k = c # d \<and> sign_char c \<and> digits d \<and> d \<noteq> []))"
proof -
  obtain c d where c: "line_at L b = Inr c" "(if sign_char c then line_at L (b + 1) else Inr (CHR 0x00)) = Inr d"
    and run: "run_while digit_char L (if sign_char c \<and> digit_char d then b + 1 else b) = Inr k"
    using assms by (auto simp: float_integer_def bindE_eq_Inr)
  show ?thesis
  proof (cases "sign_char c \<and> digit_char d")
    case True
    with c have L: "b < length L" "L ! b = c" "Suc b < length L" "L ! Suc b = d" by (auto dest!: line_at_Inr)
    note r = run_while_Inr [of digit_char L "Suc b" k] run_while_moves [of digit_char L "Suc b" k]
    with run True L show ?thesis by (auto simp: part_Cons digits_def part_nonempty)
  next
    case False
    with run have "run_while digit_char L b = Inr k" by simp
    from run_while_Inr [OF this] show ?thesis by (simp add: digits_def)
  qed
qed

lemma float_fraction_Inr:
  assumes "float_fraction L b k = Inr (Some (cur, e))"
  shows "k \<le> e \<and> e \<le> length L \<and> (cur = b \<and> e = k \<or> (\<exists>d. part L k e = CHR ''.'' # d \<and> digits d \<and> (b \<noteq> k \<or> d \<noteq> []) \<and> (cur = e \<longleftrightarrow> d = [])))"
proof -
  obtain c where c: "line_at L k = Inr c" using assms by (auto simp: float_fraction_def bindE_eq_Inr)
  show ?thesis
  proof (cases "c = CHR ''.''")
    case True
    with c have L: "k < length L" "L ! k = CHR ''.''" by (auto dest!: line_at_Inr)
    from assms c True have e: "run_while digit_char L (Suc k) = Inr e" "cur = Suc k" "b = k \<longrightarrow> e \<noteq> Suc k"
      by (auto simp: float_fraction_def bindE_eq_Inr split: if_splits)
    from run_while_Inr [OF e(1)] have r: "Suc k \<le> e" "e \<le> length L" "digits (part L (Suc k) e)" by (simp_all add: digits_def)
    then have "part L (Suc k) e = [] \<longleftrightarrow> e = Suc k" using part_nonempty [of "Suc k" e L] by (cases "e = Suc k") auto
    with r L e(2,3) show ?thesis by (auto simp: part_Cons)
  next
    case False
    with assms c show ?thesis by (auto simp: float_fraction_def dest!: line_at_Inr)
  qed
qed

lemma float_exponent_Inr:
  assumes "float_exponent L (cur, k) = Inr (cur', e)"
  shows "k \<le> e \<and> e \<le> length L \<and> (cur' = cur \<and> e = k \<or> (cur' \<noteq> e \<longrightarrow> exponent_text (part L k e)))"
proof -
  obtain c where c: "line_at L k = Inr c" using assms by (auto simp: float_exponent_def bindE_eq_Inr)
  show ?thesis
  proof (cases "c = CHR ''E'' \<or> c = CHR ''e''")
    case True
    with c have L: "k < length L" "L ! k = c" by (auto dest!: line_at_Inr)
    from assms c True obtain d where d: "line_at L (k + 1) = Inr d" "run_while digit_char L cur' = Inr e" "cur' = (if sign_char d then k + 2 else k + 1)"
      by (auto simp: float_exponent_def bindE_eq_Inr Let_def)
    note e = run_while_Inr [OF d(2)]
    have "exponent_text (part L k e)" if "cur' \<noteq> e"
    proof -
      have run: "digits (part L cur' e)" "part L cur' e \<noteq> []" using e that by (simp_all add: digits_def part_nonempty)
      show ?thesis
      proof (cases "sign_char d")
        case True
        with d(1) have d': "Suc k < length L" "L ! Suc k = d" by (auto dest!: line_at_Inr)
        with L e True d(3) have "part L k e = c # [d] @ part L cur' e" by (simp add: part_Cons)
        with run True \<open>c = CHR ''E'' \<or> c = CHR ''e''\<close> show ?thesis unfolding exponent_text_def by blast
      next
        case False
        with L e d(3) have "part L k e = c # [] @ part L cur' e" by (simp add: part_Cons)
        with run \<open>c = CHR ''E'' \<or> c = CHR ''e''\<close> show ?thesis unfolding exponent_text_def by blast
      qed
    qed
    moreover have "k \<le> cur'" using d(3) by simp
    ultimately show ?thesis using e by auto
  next
    case False
    with assms c show ?thesis by (auto simp: float_exponent_def dest!: line_at_Inr)
  qed
qed

lemma IdentFloatConstant_lexeme: "recognises LEX_float_cst IdentFloatConstant"
proof (rule recognisesI)
  fix S err S' assume "charIndex S \<le> maxIndex S" "IdentFloatConstant S = Inr (err, S')"
  then obtain k r where k: "float_integer (the_line S) (charIndex S) = Inr k" "float_fraction (the_line S) (charIndex S) k = Inr r"
    and res: "(case r of None \<Rightarrow> Inr (True, S\<lparr>idlexType := LABEL, charIndex := Suc k\<rparr>)
      | Some p \<Rightarrow> bindE (float_exponent (the_line S) p) (\<lambda>(currIndex, e).
          if currIndex \<noteq> e then Inr (False, token_upto e (S\<lparr>idlexType := LABEL\<rparr>)) else Inr (True, S\<lparr>idlexType := LABEL, charIndex := e\<rparr>))) = Inr (err, S')"
    by (auto simp: IdentFloatConstant_def bindE_eq_Inr Let_def)
  show "untouched S S'"
  proof (cases r)
    case None
    with k(2) have "k < length (the_line S)" by (auto simp: float_fraction_def bindE_eq_Inr split: if_splits dest!: line_at_Inr)
    with None res show ?thesis by (auto simp: untouched_def)
  next
    case (Some p)
    then obtain cur e' where p: "r = Some (cur, e')" by (cases p) simp
    with res obtain cur' e where e: "float_exponent (the_line S) (cur, e') = Inr (cur', e)" by (auto simp: bindE_eq_Inr)
    from float_exponent_Inr [OF e] res p e show ?thesis by (auto simp: untouched_self split: if_splits)
  qed
next
  fix S S' assume S: "IdentFloatConstant S = Inr (False, S')"
  let ?L = "the_line S" and ?b = "charIndex S"
  from S obtain k cur e' cur' e where p: "float_integer ?L ?b = Inr k" "float_fraction ?L ?b k = Inr (Some (cur, e'))" "float_exponent ?L (cur, e') = Inr (cur', e)" "cur' \<noteq> e"
    and S': "S' = token_upto e (S\<lparr>idlexType := LABEL\<rparr>)"
    by (auto simp: IdentFloatConstant_def bindE_eq_Inr Let_def split: option.splits if_splits)
  note i = float_integer_Inr [OF p(1)] and f = float_fraction_Inr [OF p(2)] and x = float_exponent_Inr [OF p(3)]
  have parts: "part ?L ?b e = part ?L ?b k @ part ?L k e' @ part ?L e' e" using i f x by (simp add: part_split [of ?b k e] part_split [of k e' e])
  have ip: "part ?L ?b k = [] \<longleftrightarrow> ?b = k" using i part_nonempty [of ?b k ?L] by (cases "?b = k") auto
  have "float_text (part ?L ?b e)"
    unfolding float_text_def
  proof (intro exI conjI)
    show "part ?L ?b e = part ?L ?b k @ part ?L k e' @ part ?L e' e" by (rule parts)
    show "digits (part ?L ?b k) \<or> (\<exists>c d. part ?L ?b k = c # d \<and> sign_char c \<and> digits d \<and> d \<noteq> [])" using i by blast
    show "part ?L k e' = [] \<or> (\<exists>d. part ?L k e' = CHR ''.'' # d \<and> digits d \<and> (part ?L ?b k \<noteq> [] \<or> d \<noteq> []))" using f ip by auto
    show "exponent_text (part ?L e' e) \<or> part ?L e' e = [] \<and> (if part ?L k e' = [] then part ?L ?b k \<noteq> [] else part ?L k e' \<noteq> ''.'')"
      using x f p(4) ip by auto
  qed
  with S' i f x show "lexeme_found LEX_float_cst S S'" by (auto simp: lexeme_found_def lexeme_def)
qed

lemma IdentLexem_Inr:
  assumes "charIndex S \<le> maxIndex S" "IdentLexem n S = Inr (err, S')"
  shows "untouched S S' \<and> (\<not> err \<longrightarrow> idlexType S = LABEL \<longrightarrow> (\<exists>l. ass_lex n = Some l \<and> lexeme_found l S S'))"
proof (cases "ass_lex n")
  case None
  with assms(2) show ?thesis by (simp add: IdentLexem_def IdentLexFromTable_def)
next
  case (Some l)
  have "recognises l (IdentLexem n)"
    using Some IdentLabel_lexeme IdentIntegerConstant_lexeme IdentFloatConstant_lexeme IdentIdent_lexeme SkipToEOL_lexeme IdentParam_lexeme IdentQuotedString_lexeme
      IdentEOL_lexeme IdentAlpha_lexeme IdentLexFromTable_lexeme [of l]
    by (cases l) (simp_all add: recognises_def IdentLexem_def)
  with assms Some show ?thesis by (auto simp: recognises_def)
qed

end
