(* ===== verification/Parser_Sound.thy ===== *)
theory Parser_Sound
  imports Parser_Lexing
begin

text \<open>
  The assembler parser is sound: what it accepts is derived by its arrays, and its stack then holds the tokens and the actions of a derivation, whatever
  has been tried before.
\<close>

section \<open>The items on the stack\<close>

definition item_of :: "s_encodingInfo \<Rightarrow> item" where
  "item_of x = (if enc_type x = ENCODE then Act_Item (enc_action x) (numToken x) else Token_Item (enc_type x) (enc_string x) (opnd x) (main_class x) (sub_class x))"

definition seg :: "s_encodingStack \<Rightarrow> int \<Rightarrow> int \<Rightarrow> item list" where
  "seg st a b = map (item_of \<circ> enc_array st) [nat a..<nat b]"

lemma seg_self [simp]: "seg st a a = []"
  by (simp add: seg_def)

lemma seg_split: "a \<le> b \<Longrightarrow> b \<le> c \<Longrightarrow> seg st a c = seg st a b @ seg st b c"
  using upt_add_eq_append [of "nat a" "nat b" "nat c - nat b"] by (simp add: seg_def)

lemma seg_cong: "(\<And>k. k < nat b \<Longrightarrow> nat a \<le> k \<Longrightarrow> enc_array st' k = enc_array st k) \<Longrightarrow> seg st' a b = seg st a b"
  by (simp add: seg_def)

lemma seg_update [simp]: "seg (st\<lparr>enc_size := n\<rparr>) a b = seg st a b"
  by (simp add: seg_def)

text \<open>A step that keeps the line, the contexts and what was on the stack.\<close>

definition ready :: "string \<Rightarrow> analyzer \<Rightarrow> bool" where
  "ready L S \<longleftrightarrow> CHR 0x00 \<notin> set L \<and> the_line S = L \<and> charIndex S \<le> length L \<and> 0 \<le> enc_size (encStack S) \<and> enc_size (encStack S) \<le> ENCODING_MAX_SIZE"

definition kept :: "analyzer \<Rightarrow> analyzer \<Rightarrow> bool" where
  "kept S S' \<longleftrightarrow> contexts S' = contexts S \<and> enc_size (encStack S) \<le> enc_size (encStack S') \<and> (\<forall>k < nat (enc_size (encStack S)). enc_array (encStack S') k = enc_array (encStack S) k)"

definition new_items :: "analyzer \<Rightarrow> analyzer \<Rightarrow> item list" where
  "new_items S S' = seg (encStack S') (enc_size (encStack S)) (enc_size (encStack S'))"

lemma kept_refl [simp]: "kept S S" "new_items S S = []"
  by (simp_all add: kept_def new_items_def)

lemma kept_trans:
  assumes "kept S S'" "kept S' S''"
  shows "kept S S''" "new_items S S'' = new_items S S' @ new_items S' S''"
proof -
  let ?n = "\<lambda>U. enc_size (encStack U)"
  have n: "?n S \<le> ?n S'" "?n S' \<le> ?n S''" using assms by (simp_all add: kept_def)
  then show "kept S S''" using assms by (auto simp: kept_def)
  have "seg (encStack S'') (?n S) (?n S') = seg (encStack S') (?n S) (?n S')" using assms(2) by (intro seg_cong) (simp add: kept_def)
  with seg_split [OF n, of "encStack S''"] show "new_items S S'' = new_items S S' @ new_items S' S''" by (simp add: new_items_def)
qed

text \<open>States that differ only in what a step does not look at.\<close>

lemma kept_same:
  assumes "encStack U = encStack S" "contexts U = contexts S" "encStack V = encStack S'" "contexts V = contexts S'"
  shows "kept U V = kept S S'" "new_items U V = new_items S S'"
  using assms by (simp_all add: kept_def new_items_def)

lemma untouched_kept: "untouched S S' \<Longrightarrow> kept S S' \<and> new_items S S' = [] \<and> (ready L S \<longrightarrow> ready L S')"
  by (auto simp: untouched_def kept_def new_items_def ready_def)

section \<open>Pushing\<close>

lemma push_info_Inr:
  assumes "push_info x S = Inr S'" "ready L S"
  shows "kept S S' \<and> new_items S S' = [item_of x] \<and> ready L S' \<and> charIndex S' = charIndex S"
proof -
  let ?n = "enc_size (encStack S)"
  have n: "0 \<le> ?n" using assms(2) by (simp add: ready_def)
  have S': "S' = S\<lparr>newEncInfo := x, encStack := (encStack S)\<lparr>enc_array := (enc_array (encStack S))(nat ?n := x), enc_size := ?n + 1\<rparr>\<rparr>" "?n < ENCODING_MAX_SIZE"
    using assms(1) by (auto simp: push_info_def PushEncodingInfo_def enc_put_def bindE_eq_Inr split: if_splits)
  have "nat (?n + 1) = Suc (nat ?n)" using n by simp
  with n assms(2) S' show ?thesis by (simp add: kept_def new_items_def ready_def seg_def)
qed

lemma push_action_Inr:
  assumes "push_action row S = Inr S'" "ready L S"
  shows "kept S S' \<and> new_items S S' = [Act_Item (ns_encInfo row) (ns_semInfo row)] \<and> ready L S' \<and> charIndex S' = charIndex S"
  using push_info_Inr [OF assms(1) [unfolded push_action_def] assms(2)] by (simp add: item_of_def)

lemma push_lexem_Inr:
  assumes "push_lexem S = Inr S'" "ready L S" "idlexType S \<noteq> ENCODE"
  shows "kept S S' \<and> new_items S S' = [Token_Item (idlexType S) (tokenString S) (p_opnd_value S) (p_main_class S) (p_sub_class S)] \<and> ready L S' \<and> charIndex S' = charIndex S"
  using push_info_Inr [OF assms(1) [unfolded push_lexem_def] assms(2)] assms(3) by (simp add: item_of_def)

section \<open>Moving the items of the second alternative\<close>

lemma MoveEncodingInfo_loop_Inr:
  assumes "MoveEncodingInfo_loop st d i e = Inr (st', d')" "0 \<le> d" "d \<le> i"
  shows "d' = (if i \<le> e then d + (e - i) else d) \<and> enc_size st' = enc_size st \<and> (\<forall>k < nat d. enc_array st' k = enc_array st k)
    \<and> (\<forall>k < nat (e - i). enc_array st' (nat d + k) = enc_array st (nat i + k)) \<and> (\<forall>k \<ge> nat e. enc_array st' k = enc_array st k)"
  using assms
proof (induction st d i e rule: MoveEncodingInfo_loop.induct)
  case (1 st d i e)
  show ?case
  proof (cases "i < e")
    case False
    with "1.prems" show ?thesis by (subst (asm) MoveEncodingInfo_loop.simps) auto
  next
    case True
    let ?u = "st\<lparr>enc_array := (enc_array st)(nat d := enc_array st (nat i))\<rparr>"
    from "1.prems"(1) True obtain x where x: "enc_get st i = Inr x" "enc_put st d x = Inr ?u" "MoveEncodingInfo_loop ?u (d + 1) (i + 1) e = Inr (st', d')"
      by (subst (asm) MoveEncodingInfo_loop.simps) (auto simp: bindE_eq_Inr enc_get_def enc_put_def split: if_splits)
    note IH = "1.IH" [OF True x(1,2,3)]
    have nats: "nat (d + 1) = Suc (nat d)" "nat (i + 1) = Suc (nat i)" "nat (e - i) = Suc (nat (e - (i + 1)))" "nat d < nat e" using "1.prems" True by auto
    have "enc_array st' (nat d + k) = enc_array st (nat i + k)" if "k < nat (e - i)" for k
    proof (cases k)
      case 0
      with IH nats "1.prems" show ?thesis by simp
    next
      case (Suc j)
      with IH nats "1.prems" that show ?thesis by auto
    qed
    with IH nats "1.prems" True show ?thesis by auto
  qed
qed

lemma MoveEncodingInfo_Inr:
  assumes "MoveEncodingInfo st d i e = Inr st'" "0 \<le> d" "d \<le> i" "i \<le> e"
  shows "enc_size st' = d + (e - i) \<and> (\<forall>k < nat d. enc_array st' k = enc_array st k) \<and> seg st' d (enc_size st') = seg st i e"
proof -
  obtain u d' where u: "MoveEncodingInfo_loop st d i e = Inr (u, d')" "st' = u\<lparr>enc_size := d'\<rparr>" using assms(1) by (auto simp: MoveEncodingInfo_def bindE_eq_Inr)
  note m = MoveEncodingInfo_loop_Inr [OF u(1) assms(2,3)]
  have "map (item_of \<circ> enc_array u) [nat d..<nat (d + (e - i))] = map (item_of \<circ> enc_array st) [nat i..<nat e]"
    using m assms by (intro nth_equalityI) auto
  with m u assms show ?thesis by (simp add: seg_def)
qed


section \<open>Attempts\<close>

definition sound_call :: "parser_env \<Rightarrow> string \<Rightarrow> nodeSEM list \<Rightarrow> (int \<Rightarrow> analyzer \<Rightarrow> attempt) \<Rightarrow> bool" where
  "sound_call env L NS rec \<longleftrightarrow> (\<forall>i S err S'. ready L S \<longrightarrow> rec i S = Inr (err, S') \<longrightarrow>
     kept S S' \<and> ready L S' \<and> (\<not> err \<longrightarrow> derives env L NS i (charIndex S) (charIndex S') (new_items S S')))"

lemma sound_callD:
  assumes "sound_call env L NS rec" "ready L S" "rec i S = Inr (err, S')"
  shows "kept S S'" "ready L S'" "\<not> err \<Longrightarrow> derives env L NS i (charIndex S) (charIndex S') (new_items S S')"
  using assms unfolding sound_call_def by blast+

lemma pushed: "PushContext S = Inr U \<Longrightarrow> U = S\<lparr>contexts := GetContext S # contexts S\<rparr>"
  by (simp add: PushContext_def split: if_splits)

lemma popped:
  assumes rec: "sound_call env L NS rec" and S: "ready L S" and U: "PushContext S = Inr U" and V: "rec i U = Inr (err, V)" and W: "PopContext V = Inr W"
  shows "W = V\<lparr>contexts := contexts S, contextToRestore := GetContext S\<rparr>" "kept S W" "ready L W"
    "\<not> err \<Longrightarrow> derives env L NS i (charIndex S) (charIndex W) (new_items S W)"
proof -
  note US = pushed [OF U]
  have U': "ready L U" using S by (simp add: US ready_def)
  note s = sound_callD [OF rec U' V]
  have "contexts V = GetContext S # contexts S" using s(1) by (simp add: kept_def US)
  with W show WV: "W = V\<lparr>contexts := contexts S, contextToRestore := GetContext S\<rparr>" by (simp add: PopContext_def)
  show "kept S W" "ready L W" using s(1,2) by (simp_all add: WV US kept_def ready_def)
  show "derives env L NS i (charIndex S) (charIndex W) (new_items S W)" if "\<not> err" using s(3) [OF that] by (simp add: WV US new_items_def)
qed

lemma restored_context:
  assumes "kept S W" "ready L W" "ready L S" "contextToRestore W = GetContext S" "RestoreContext W = Inr X"
  shows "X = W\<lparr>charIndex := charIndex S, encStack := (encStack W)\<lparr>enc_size := enc_size (encStack S)\<rparr>, p_exprSize := p_exprSize S\<rparr>"
    "kept S X" "ready L X" "new_items S X = []" "charIndex X = charIndex S"
proof -
  show X: "X = W\<lparr>charIndex := charIndex S, encStack := (encStack W)\<lparr>enc_size := enc_size (encStack S)\<rparr>, p_exprSize := p_exprSize S\<rparr>"
    using assms(4,5) by (auto simp: RestoreContext_def SetContext_def SetEncStackIndex_def GetContext_def bindE_eq_Inr split: if_splits)
  show "kept S X" "ready L X" "new_items S X = []" "charIndex X = charIndex S" using assms(1-3) by (simp_all add: X kept_def ready_def new_items_def)
qed

lemma SkipSpace_Inr:
  assumes "SkipSpace S = Inr S'" "ready L S"
  shows "kept S S'" "new_items S S' = []" "ready L S'" "charIndex S' = blanks_end L (charIndex S)" "contexts S' = contexts S" "encStack S' = encStack S"
proof -
  from assms obtain e where e: "run_while (\<lambda>c. c = CHR '' '' \<or> c = CHR 0x09) L (charIndex S) = Inr e" "S' = S\<lparr>charIndex := e\<rparr>"
    by (auto simp: SkipSpace_def bindE_eq_Inr ready_def)
  then show "kept S S'" "new_items S S' = []" "ready L S'" "charIndex S' = blanks_end L (charIndex S)" "contexts S' = contexts S" "encStack S' = encStack S"
    using assms(2) run_while_Inr [OF e(1)] by (auto simp: kept_def new_items_def ready_def blanks_end_def run_while_def split: if_splits)
qed

text \<open>The result of a node before its own action.\<close>

definition own_acts :: "nodeSEM \<Rightarrow> item list" where
  "own_acts row = (if ns_state row \<in> {STA_OPT, STA_REP} then [] else acts row)"

definition node_sound :: "parser_env \<Rightarrow> string \<Rightarrow> nodeSEM list \<Rightarrow> int \<Rightarrow> nodeSEM \<Rightarrow> analyzer \<Rightarrow> bool \<Rightarrow> analyzer \<Rightarrow> bool" where
  "node_sound env L NS i row S err S' \<longleftrightarrow> kept S S' \<and> ready L S' \<and>
     (\<not> err \<longrightarrow> derives env L NS i (charIndex S) (charIndex S') (new_items S S' @ own_acts row))"

lemma opt_node_sound:
  assumes row: "table_read NS i = Inr row" "ns_state row = STA_OPT" and rec: "sound_call env L NS rec" and S: "ready L S" and opt: "opt_node rec row S = Inr S'"
  shows "node_sound env L NS i row S False S'"
proof -
  from opt obtain U err V W where U: "PushContext S = Inr U" "rec (ns_info row) U = Inr (err, V)" "PopContext V = Inr W"
    and r: "(if err then bindE (RestoreContext W) (\<lambda>S. if call_action row then push_action row S else Inr S) else Inr W) = Inr S'"
    by (auto simp: opt_node_def bindE_eq_Inr)
  note W = popped [OF rec S U]
  show ?thesis
  proof (cases err)
    case True
    with r obtain X where X: "RestoreContext W = Inr X" "(if call_action row then push_action row X else Inr X) = Inr S'" by (auto simp: bindE_eq_Inr)
    have "contextToRestore W = GetContext S" using W(1) by simp
    note x = restored_context [OF W(2,3) S this X(1)]
    have "kept X S' \<and> ready L S' \<and> charIndex S' = charIndex X \<and> new_items X S' = acts row"
      using X(2) x(3) push_action_Inr [of row X S' L] by (auto simp: acts_def split: if_splits)
    with x kept_trans [of S X S'] derives_repeats.opt_none [OF row, of env L "charIndex S"] row(2) show ?thesis
      by (simp add: node_sound_def own_acts_def)
  next
    case False
    with r W derives_repeats.opt_some [OF row, of env L "charIndex S" "charIndex W" "new_items S W"] row(2) show ?thesis
      by (simp add: node_sound_def own_acts_def)
  qed
qed

lemma rep_loop_sound:
  assumes rec: "sound_call env L NS rec" and S: "ready L S" and rep: "rep_loop rec n row S = Inr S'"
  shows "kept S S' \<and> ready L S' \<and> repeats env L NS (ns_info row) (charIndex S) (charIndex S') (new_items S S')"
  using S rep
proof (induction n arbitrary: S)
  case (Suc n)
  show ?case
  proof (cases "charIndex S = maxIndex S")
    case True
    with Suc.prems show ?thesis by (simp add: derives_repeats.rep_none)
  next
    case False
    with Suc.prems(2) obtain U U' err V W where U: "PushContext S = Inr U" "SkipSpace U = Inr U'" "rec (ns_info row) U' = Inr (err, V)" "PopContext V = Inr W"
      and r: "(if err then RestoreContext W else rep_loop rec n row W) = Inr S'"
      by (auto simp: bindE_eq_Inr)
    note US = pushed [OF U(1)]
    have "ready L U" using Suc.prems(1) by (simp add: US ready_def)
    note sp = SkipSpace_Inr [OF U(2) this]
    note s = sound_callD [OF rec sp(3) U(3)]
    have "contexts V = GetContext S # contexts S" using s(1) sp(5) by (simp add: kept_def US)
    with U(4) have W: "W = V\<lparr>contexts := contexts S, contextToRestore := GetContext S\<rparr>" by (simp add: PopContext_def)
    have kW: "kept S W" "ready L W" "new_items S W = new_items U' V" using s(1,2) sp(6) by (simp_all add: W US kept_def ready_def new_items_def)
    show ?thesis
    proof (cases err)
      case True
      with r have "RestoreContext W = Inr S'" by simp
      from restored_context [OF kW(1,2) Suc.prems(1) _ this] show ?thesis by (simp add: W derives_repeats.rep_none)
    next
      case err: False
      with r Suc.IH [OF kW(2)] have IH: "kept W S'" "ready L S'" "repeats env L NS (ns_info row) (charIndex W) (charIndex S') (new_items W S')" by auto
      have "derives env L NS (ns_info row) (blanks_end L (charIndex S)) (charIndex W) (new_items S W)"
        unfolding kW(3) using s(3) [OF err] sp(4) by (simp add: W US)
      from derives_repeats.rep_more [OF _ this IH(3)] False Suc.prems(1) kept_trans [OF kW(1) IH(1)] IH(2) show ?thesis by (simp add: ready_def)
    qed
  qed
qed simp


section \<open>Alternatives\<close>

lemma xor_node_sound:
  assumes row: "table_read NS i = Inr row" "ns_state row = STA_XOR" and rec: "sound_call env L NS rec" and S: "ready L S" and xor: "xor_node rec row S = Inr (err, S')"
  shows "node_sound env L NS i row S err S'"
proof -
  from xor obtain U err1 V W where U: "PushContext S = Inr U" "rec (ns_left row) U = Inr (err1, V)" "PopContext V = Inr W"
    and r: "(if err1 then bindE (RestoreContext W) (rec (ns_right row)) else Inr (False, W)) = Inr (err, S')"
    by (auto simp: xor_node_def bindE_eq_Inr)
  note W = popped [OF rec S U]
  have alt: "ns_state row \<in> {STA_OR, STA_XOR}" "own_acts row = acts row" using row(2) by (simp_all add: own_acts_def)
  show ?thesis
  proof (cases err1)
    case True
    with r obtain X where X: "RestoreContext W = Inr X" "rec (ns_right row) X = Inr (err, S')" by (auto simp: bindE_eq_Inr)
    have "contextToRestore W = GetContext S" using W(1) by simp
    note x = restored_context [OF W(2,3) S this X(1)]
    note s = sound_callD [OF rec x(3) X(2)] and t = kept_trans [OF x(2) sound_callD(1) [OF rec x(3) X(2)]]
    show ?thesis unfolding node_sound_def alt(2)
      using s t x derives_repeats.alt_right [OF row(1) alt(1), of env L "charIndex S" "charIndex S'" "new_items X S'"] by simp
  next
    case False
    with r W derives_repeats.alt_left [OF row(1) alt(1), of env L "charIndex S" "charIndex W" "new_items S W"] alt(2) show ?thesis
      by (simp add: node_sound_def)
  qed
qed

text \<open>After an alternative has been tried, the stack has its old size again, but still holds what the alternative has pushed.\<close>

lemma try_node_sound:
  assumes rec: "sound_call env L NS rec" and S: "ready L S" and t: "try_node rec i S = Inr (err, c, X)"
  shows "kept S X" "ready L X" "charIndex X = charIndex S" "enc_size (encStack X) = enc_size (encStack S)"
    "ctx_charIndex c \<le> length L" "enc_size (encStack S) \<le> ctx_encStackIndex c" "ctx_encStackIndex c \<le> ENCODING_MAX_SIZE"
    "\<not> err \<Longrightarrow> derives env L NS i (charIndex S) (ctx_charIndex c) (seg (encStack X) (enc_size (encStack S)) (ctx_encStackIndex c))"
proof -
  from t obtain U V W where U: "PushContext S = Inr U" "rec i U = Inr (err, V)" "PopContext V = Inr W" and X: "RestoreContext W = Inr X" and c: "c = GetContext V"
    by (auto simp: try_node_def bindE_eq_Inr Let_def)
  note W = popped [OF rec S U]
  have "contextToRestore W = GetContext S" using W(1) by simp
  note x = restored_context [OF W(2,3) S this X]
  show "kept S X" "ready L X" "charIndex X = charIndex S" by (rule x)+
  show "enc_size (encStack X) = enc_size (encStack S)" by (simp add: x(1))
  have V: "encStack V = encStack W" "charIndex V = charIndex W" using W(1) by simp_all
  show "ctx_charIndex c \<le> length L" "enc_size (encStack S) \<le> ctx_encStackIndex c" "ctx_encStackIndex c \<le> ENCODING_MAX_SIZE"
    using W(2,3) V by (simp_all add: c GetContext_def ready_def kept_def)
  show "derives env L NS i (charIndex S) (ctx_charIndex c) (seg (encStack X) (enc_size (encStack S)) (ctx_encStackIndex c))" if "\<not> err"
    using W(4) [OF that] by (simp add: c GetContext_def V x(1) new_items_def)
qed

lemma SetContext_Inr:
  "SetContext c S = Inr S' \<Longrightarrow> S' = S\<lparr>charIndex := ctx_charIndex c, encStack := (encStack S)\<lparr>enc_size := ctx_encStackIndex c\<rparr>, p_exprSize := ctx_exprSize c\<rparr>"
  by (auto simp: SetContext_def SetEncStackIndex_def bindE_eq_Inr split: if_splits)

text \<open>Taking a context: the stack holds the items between the start of the alternatives and that context.\<close>

lemma took_context:
  assumes "SetContext c X = Inr Y" "kept S X" "ready L X" "ready L S" "ctx_charIndex c \<le> length L" "enc_size (encStack S) \<le> ctx_encStackIndex c" "ctx_encStackIndex c \<le> ENCODING_MAX_SIZE"
  shows "kept S Y \<and> ready L Y \<and> charIndex Y = ctx_charIndex c \<and> new_items S Y = seg (encStack X) (enc_size (encStack S)) (ctx_encStackIndex c)"
  using assms(2-) by (simp add: SetContext_Inr [OF assms(1)] kept_def ready_def new_items_def)

lemma took_second:
  assumes "take_second base c1 c2 X = Inr Y" "kept S X" "ready L X" "ready L S" "ctx_encStackIndex base = enc_size (encStack S)"
    and "enc_size (encStack S) \<le> ctx_encStackIndex c1" "ctx_encStackIndex c1 \<le> ctx_encStackIndex c2" "ctx_charIndex c2 \<le> length L" "ctx_encStackIndex c2 \<le> ENCODING_MAX_SIZE"
  shows "kept S Y \<and> ready L Y \<and> charIndex Y = ctx_charIndex c2 \<and> new_items S Y = seg (encStack X) (ctx_encStackIndex c1) (ctx_encStackIndex c2)"
proof -
  from assms(1) obtain U st where U: "SetContext c2 X = Inr U" "MoveEncodingInfo (encStack U) (enc_size (encStack S)) (ctx_encStackIndex c1) (ctx_encStackIndex c2) = Inr st" "Y = U\<lparr>encStack := st\<rparr>"
    by (auto simp: take_second_def bindE_eq_Inr assms(5))
  have n: "0 \<le> enc_size (encStack S)" using assms(4) by (simp add: ready_def)
  note mv = MoveEncodingInfo_Inr [OF U(2) n assms(6,7)]
  have sz: "enc_size (encStack S) \<le> enc_size st" "enc_size st \<le> ENCODING_MAX_SIZE" using mv n assms(6-9) by linarith+
  have eq: "the_line Y = the_line X" "contexts Y = contexts X" "charIndex Y = ctx_charIndex c2" "encStack Y = st" "enc_array (encStack U) = enc_array (encStack X)"
    using U(3) SetContext_Inr [OF U(1)] by simp_all
  have "seg (encStack U) (ctx_encStackIndex c1) (ctx_encStackIndex c2) = seg (encStack X) (ctx_encStackIndex c1) (ctx_encStackIndex c2)" by (simp add: seg_def eq(5))
  with mv have "\<forall>k < nat (enc_size (encStack S)). enc_array st k = enc_array (encStack X) k"
    "seg st (enc_size (encStack S)) (enc_size st) = seg (encStack X) (ctx_encStackIndex c1) (ctx_encStackIndex c2)" unfolding eq(5) by metis+
  with sz n eq assms(2,3,8) show ?thesis by (simp add: kept_def ready_def new_items_def)
qed

lemma or_node_sound:
  assumes row: "table_read NS i = Inr row" "ns_state row = STA_OR" and rec: "sound_call env L NS rec" and S: "ready L S" and res: "or_node rec row S = Inr (err, S')"
  shows "node_sound env L NS i row S err S'"
proof -
  let ?n = "enc_size (encStack S)" and ?base = "GetContext S"
  let ?second = "\<lambda>err1 c1 X st. bindE (try_node rec (ns_right row) (X\<lparr>encStack := st\<rparr>)) (\<lambda>(error2, c2, S).
    bindE (select_context err1 error2 ?base c1 c2 S) (\<lambda>S. Inr (err1 \<and> error2, S)))"
  from res obtain err1 c1 X where X: "try_node rec (ns_left row) S = Inr (err1, c1, X)"
    and r: "bindE (if \<not> err1 then SetEncStackIndex (encStack X) (ctx_encStackIndex c1) else Inr (encStack X)) (?second err1 c1 X) = Inr (err, S')"
    unfolding or_node_def Let_def by (cases "try_node rec (ns_left row) S") auto
  from r obtain st where st: "(if \<not> err1 then SetEncStackIndex (encStack X) (ctx_encStackIndex c1) else Inr (encStack X)) = Inr st"
    and r2: "?second err1 c1 X st = Inr (err, S')" unfolding bindE_eq_Inr by blast
  from r2 obtain err2 c2 Y where Y: "try_node rec (ns_right row) (X\<lparr>encStack := st\<rparr>) = Inr (err2, c2, Y)"
    and r3: "bindE (select_context err1 err2 ?base c1 c2 Y) (\<lambda>S. Inr (err1 \<and> err2, S)) = Inr (err, S')"
    by (cases "try_node rec (ns_right row) (X\<lparr>encStack := st\<rparr>)") auto
  from r3 have sel: "select_context err1 err2 ?base c1 c2 Y = Inr S'" and err: "err = (err1 \<and> err2)"
    by (cases "select_context err1 err2 ?base c1 c2 Y"; simp)+
  note x = try_node_sound [OF rec S X]
  let ?X = "X\<lparr>encStack := st\<rparr>" and ?m = "enc_size st"
  have st': "st = (encStack X)\<lparr>enc_size := (if err1 then ?n else ctx_encStackIndex c1)\<rparr>"
    using st x(4) by (auto simp: SetEncStackIndex_def split: if_splits)
  have m: "?m = (if err1 then ?n else ctx_encStackIndex c1)" "?n \<le> ?m" "ctx_encStackIndex ?base = ?n" using x(6) by (simp_all add: st' GetContext_def)
  have rX: "ready L ?X" "kept S ?X" using x S by (auto simp: ready_def kept_def st')
  note y = try_node_sound [OF rec rX(1) Y, simplified]
  have kY: "kept S Y" by (rule kept_trans(1) [OF rX(2) y(1)])
  have left: "derives env L NS (ns_left row) (charIndex S) (ctx_charIndex c1) (seg (encStack Y) ?n (ctx_encStackIndex c1))" if "\<not> err1"
  proof -
    have "seg (encStack Y) ?n (ctx_encStackIndex c1) = seg (encStack X) ?n (ctx_encStackIndex c1)"
      using y(1) that by (intro seg_cong) (simp add: kept_def st')
    with x(8) [OF that] show ?thesis by simp
  qed
  have right: "derives env L NS (ns_right row) (charIndex S) (ctx_charIndex c2) (seg (encStack Y) ?m (ctx_encStackIndex c2))" if "\<not> err2" using y(8) [OF that] x(3) by simp
  have alt: "ns_state row \<in> {STA_OR, STA_XOR}" "own_acts row = acts row" using row(2) by (simp_all add: own_acts_def)
  have first: "node_sound env L NS i row S False S'" if "\<not> err1" "SetContext c1 Y = Inr S'"
    using took_context [OF that(2) kY y(2) S x(5,6,7)] derives_repeats.alt_left [OF row(1) alt(1) left [OF that(1)]] by (simp add: node_sound_def alt(2))
  have second: "node_sound env L NS i row S False S'" if "\<not> err1" "\<not> err2" "take_second ?base c1 c2 Y = Inr S'"
    using took_second [OF that(3) kY y(2) S m(3) x(6) _ y(5,7)] derives_repeats.alt_right [OF row(1) alt(1) right [OF that(2)]] y(6) m(1) that(1) by (simp add: node_sound_def alt(2))
  consider "\<not> err1" "SetContext c1 Y = Inr S'" "\<not> err" | "\<not> err1" "\<not> err2" "take_second ?base c1 c2 Y = Inr S'" "\<not> err" | "err1" "\<not> err2" "SetContext c2 Y = Inr S'" "\<not> err" | "err1" "err2" "S' = Y"
    using sel err by (auto simp: select_context_def choose_both_def bindE_eq_Inr split: if_splits)
  then show ?thesis
  proof cases
    case 3
    then have "?m = ?n" using m(1) by simp
    with took_context [OF 3(3) kY y(2) S y(5) _ y(7)] y(6) derives_repeats.alt_right [OF row(1) alt(1) right [OF 3(2)]] show ?thesis by (simp add: node_sound_def alt(2) 3)
  next
    case 4
    with kY y(2) err show ?thesis by (simp add: node_sound_def)
  qed (use first second in auto)
qed

section \<open>Sequences\<close>

definition sound_between :: "PARSER_eStateT \<Rightarrow> string \<Rightarrow> (analyzer \<Rightarrow> attempt) \<Rightarrow> bool" where
  "sound_between s L f \<longleftrightarrow> (\<forall>S err S'. ready L S \<longrightarrow> f S = Inr (err, S') \<longrightarrow>
     kept S S' \<and> new_items S S' = [] \<and> ready L S' \<and> (\<not> err \<longrightarrow> between s L (charIndex S) (charIndex S')))"

lemma sound_betweenD:
  assumes "sound_between s L f" "ready L S" "f S = Inr (err, S')"
  shows "kept S S'" "new_items S S' = []" "ready L S'" "\<not> err \<Longrightarrow> between s L (charIndex S) (charIndex S')"
  using assms unfolding sound_between_def by blast+

lemma between_con: "sound_between STA_CON L (\<lambda>S. Inr (False, S))"
  by (simp add: sound_between_def)

lemma between_and: "sound_between STA_AND L (\<lambda>S. silent_node (SkipSpace S))"
  unfolding sound_between_def silent_node_def bindE_eq_Inr by (auto dest: SkipSpace_Inr)

lemma between_spa: "sound_between STA_SPA L IdentSpace"
  unfolding sound_between_def
proof (intro allI impI)
  fix S err S' assume S: "ready L S" and r: "IdentSpace S = Inr (err, S')"
  from r obtain U where U: "SkipSpace S = Inr U"
    and e: "(if charIndex S = charIndex U then bindE (line_at (the_line U) (charIndex S)) (\<lambda>c. Inr (c \<noteq> CHR 0x00, U)) else Inr (False, U)) = Inr (err, S')"
    by (auto simp: IdentSpace_def Let_def bindE_eq_Inr [of "SkipSpace S"])
  note u = SkipSpace_Inr [OF U S]
  have "S' = U" using e by (auto simp: bindE_eq_Inr split: if_splits)
  moreover have "charIndex S < charIndex U \<or> charIndex S = length L" if "\<not> err"
  proof (cases "charIndex S = charIndex U")
    case True
    with e that obtain c where "line_at L (charIndex S) = Inr c" "c = CHR 0x00" using u(3) by (auto simp: bindE_eq_Inr ready_def)
    with S show ?thesis by (auto simp: line_at_def ready_def split: if_splits) (metis nth_mem)
  qed (simp add: u(4) blanks_end_def)
  ultimately show "kept S S' \<and> new_items S S' = [] \<and> ready L S' \<and> (\<not> err \<longrightarrow> between STA_SPA L (charIndex S) (charIndex S'))"
    using u by simp
qed

lemma pair_node_sound:
  assumes row: "table_read NS i = Inr row" "ns_state row \<notin> {STA_OPT, STA_REP}" and rec: "sound_call env L NS rec" and f: "sound_between (ns_state row) L f"
    and S: "ready L S" and res: "pair_node rec f row S = Inr (err, S')"
  shows "node_sound env L NS i row S err S'"
proof -
  obtain err1 U where U: "rec (ns_left row) S = Inr (err1, U)" using res by (auto simp: pair_node_def bindE_eq_Inr)
  note u = sound_callD [OF rec S U]
  show ?thesis
  proof (cases err1)
    case True
    with res U u show ?thesis by (simp add: pair_node_def node_sound_def)
  next
    case e1: False
    with res U obtain err2 V where V: "f U = Inr (err2, V)" by (auto simp: pair_node_def bindE_eq_Inr)
    note v = sound_betweenD [OF f u(2) V] and uv = kept_trans [OF u(1) sound_betweenD(1) [OF f u(2) V]]
    show ?thesis
    proof (cases err2)
      case True
      with res U V e1 uv(1) v(3) show ?thesis by (simp add: pair_node_def node_sound_def)
    next
      case False
      with res U V e1 have W: "rec (ns_right row) V = Inr (err, S')" by (simp add: pair_node_def)
      note w = sound_callD [OF rec v(3) W] and t = kept_trans [OF uv(1) sound_callD(1) [OF rec v(3) W]]
      have "derives env L NS i (charIndex S) (charIndex S') (new_items S U @ new_items V S' @ acts row)" if "\<not> err"
        by (rule derives_repeats.pair [OF row(1) u(3) [OF e1] v(4) [OF False] w(3) [OF that]])
      with t w(2) row(2) uv(2) v(2) show ?thesis by (simp add: node_sound_def own_acts_def)
    qed
  qed
qed

section \<open>Terminals, lexemes and operands\<close>

lemma start_node_simps [simp]:
  "the_line (start_node S) = the_line S" "charIndex (start_node S) = charIndex S" "contexts (start_node S) = contexts S" "encStack (start_node S) = encStack S"
  "idlexType (start_node S) = LABEL" "p_opnd_value (start_node S) = 0" "p_main_class (start_node S) = 0" "p_sub_class (start_node S) = 0"
  by (simp_all add: start_node_def)

lemma start_node_kept [simp]: "ready L (start_node S) = ready L S" "kept (start_node S) S' = kept S S'" "new_items (start_node S) S' = new_items S S'"
  by (simp_all add: ready_def kept_def new_items_def)

lemma ter_node_sound:
  assumes row: "table_read NS i = Inr row" "ns_state row = STA_TER" and S: "ready L S"
    and res: "bindE (table_read (stringTable env) (ns_info row)) (\<lambda>s. IdentString s S) = Inr (err, S')"
  shows "node_sound env L NS i row S err S'"
proof -
  from res obtain s where s: "table_read (stringTable env) (ns_info row) = Inr s" "IdentString s S = Inr (err, S')" by (auto simp: bindE_eq_Inr)
  note r = IdentString_Inr [OF s(2)]
  have "untouched S S'" using r S by (auto simp: untouched_self ready_def split: if_splits)
  note k = untouched_kept [OF this]
  show ?thesis
  proof (cases err)
    case True
    with k S show ?thesis by (simp add: node_sound_def)
  next
    case False
    with r S have "b = charIndex S \<Longrightarrow> charIndex S' = b + length s" "charIndex S + length s \<le> length L" "same_letters s (part L (charIndex S) (charIndex S + length s))" for b
      by (auto simp: ready_def)
    with derives_repeats.ter [OF row s(1), of "charIndex S" L] k S row(2) show ?thesis by (simp add: node_sound_def own_acts_def)
  qed
qed

text \<open>A node whose token is pushed.\<close>

lemma lexem_node_sound:
  assumes m: "m = Inr (err0, U) \<Longrightarrow> kept S U \<and> new_items S U = [] \<and> ready L U \<and> (\<not> err0 \<longrightarrow> idlexType U \<noteq> ENCODE \<and>
      derives env L NS i (charIndex S) (charIndex U) (Token_Item (idlexType U) (tokenString U) (p_opnd_value U) (p_main_class U) (p_sub_class U) # acts row))"
    and row: "own_acts row = acts row" and res: "lexem_node m = Inr (err, S')" and U: "m = Inr (err0, U)"
  shows "node_sound env L NS i row S err S'"
proof (cases err0)
  case True
  with res m [OF U] U show ?thesis by (simp add: lexem_node_def node_sound_def)
next
  case False
  with res U have "push_lexem U = Inr S'" "\<not> err" by (auto simp: lexem_node_def bindE_eq_Inr)
  with push_lexem_Inr [of U S' L] m [OF U] False kept_trans [of S U S'] row show ?thesis by (auto simp: node_sound_def)
qed

lemma lexem_node_ran: "lexem_node m = Inr r \<Longrightarrow> \<exists>err U. m = Inr (err, U)"
  by (auto simp: lexem_node_def bindE_eq_Inr)

lemma lex_node_sound:
  assumes row: "table_read NS i = Inr row" "ns_state row = STA_LEX" and S: "ready L S" and res: "lexem_node (IdentLexem (ns_info row) (start_node S)) = Inr (err, S')"
  shows "node_sound env L NS i row S err S'"
proof -
  obtain err0 U where U: "IdentLexem (ns_info row) (start_node S) = Inr (err0, U)" using lexem_node_ran [OF res] by blast
  have ci: "charIndex (start_node S) \<le> maxIndex (start_node S)" using S by (simp add: ready_def)
  note l = IdentLexem_Inr [OF ci U]
  then have un: "untouched (start_node S) U" by blast
  note k = untouched_kept [OF un, of L]
  show ?thesis
  proof (rule lexem_node_sound [OF _ _ res U])
    show "own_acts row = acts row" using row(2) by (simp add: own_acts_def)
    have "idlexType U \<noteq> ENCODE \<and> derives env L NS i (charIndex S) (charIndex U) (Token_Item (idlexType U) (tokenString U) 0 0 0 # acts row)" if ok: "\<not> err0"
    proof -
      from l ok obtain a where a: "ass_lex (ns_info row) = Some a" "lexeme a L (charIndex S) (charIndex U) (idlexType U) (tokenString U)"
        using S by (auto simp: lexeme_found_def ready_def)
      have "idlexType U \<noteq> ENCODE" using a(2) by (cases a) (auto simp: lexeme_def integer_text_def)
      with derives_repeats.lex [OF row a] show ?thesis by simp
    qed
    with k S un show "kept S U \<and> new_items S U = [] \<and> ready L U \<and> (\<not> err0 \<longrightarrow> idlexType U \<noteq> ENCODE \<and>
      derives env L NS i (charIndex S) (charIndex U) (Token_Item (idlexType U) (tokenString U) (p_opnd_value U) (p_main_class U) (p_sub_class U) # acts row))"
      by (simp add: untouched_def)
  qed
qed

lemma operand_kept:
  assumes "operand ok n sz V = (err0, U)" "ready L S" "the_line V = the_line S" "charIndex V = charIndex S" "contexts V = contexts S" "encStack V = encStack S" "n \<le> length (drop (charIndex S) L)"
  shows "kept S U \<and> new_items S U = [] \<and> ready L U \<and> (err0 \<longleftrightarrow> \<not> ok) \<and> idlexType U = idlexType V \<and> p_opnd_value U = p_opnd_value V \<and> p_main_class U = p_main_class V
    \<and> p_sub_class U = p_sub_class V \<and> (ok \<longrightarrow> charIndex U = charIndex S + n \<and> tokenString U = token_at (charIndex S) (charIndex S + n))"
proof -
  have U: "U = V\<lparr>tokenString := \<lparr>str_buf = charIndex V, str_length = int n\<rparr>, p_exprSize := sz, charIndex := (if ok then charIndex V + n else charIndex V)\<rparr>" "err0 \<longleftrightarrow> \<not> ok"
    using assms(1) by (auto simp: operand_def)
  with assms(2-) show ?thesis by (auto simp: kept_def new_items_def ready_def token_at_def)
qed

lemma constant_node_sound:
  assumes row: "table_read NS i = Inr row" "ns_state row \<in> {STA_UCE, STA_SCE}" and S: "ready L S" and c: "client_reads_line env"
    and res: "lexem_node (constant_node env row (start_node S)) = Inr (err, S')"
  shows "node_sound env L NS i row S err S'"
proof -
  obtain err0 U where U: "constant_node env row (start_node S) = Inr (err0, U)" using lexem_node_ran [OF res] by blast
  then obtain name lclass where n: "table_read (stringTable env) (ns_info row) = Inr name" "get_lit_class env name = Some lclass"
    by (auto simp: constant_node_def bindE_eq_Inr split: option.splits)
  define r where "r = parse_expression env (drop (charIndex S) L) lclass"
  let ?V = "(start_node S)\<lparr>p_is_reloc := er_is_reloc r, p_symbol_id := er_symbol_id r, p_symop_id := er_symop_id r, p_opnd_value := er_value r, p_expr := er_expr r,
    p_main_class := lclass, p_sub_class := 0, idlexType := CSTEXPR\<rparr>"
  have "operand (er_ok r) (er_read r) (- ns_info row) ?V = (err0, U)" using U n S by (auto simp: constant_node_def r_def ready_def Let_def split: if_splits)
  moreover have "er_read r \<le> length (drop (charIndex S) L)" using c unfolding client_reads_line_def r_def by blast
  ultimately have o: "kept S U \<and> new_items S U = [] \<and> ready L U \<and> (err0 \<longleftrightarrow> \<not> er_ok r) \<and> idlexType U = CSTEXPR \<and> p_opnd_value U = er_value r
    \<and> p_main_class U = lclass \<and> p_sub_class U = 0 \<and> (er_ok r \<longrightarrow> charIndex U = charIndex S + er_read r \<and> tokenString U = token_at (charIndex S) (charIndex S + er_read r))"
    using operand_kept [of "er_ok r" "er_read r" "- ns_info row" ?V err0 U L S] S by simp
  show ?thesis
    by (rule lexem_node_sound [OF _ _ res U]) (use o row(2) derives_repeats.cst [OF row n r_def [symmetric]] in \<open>auto simp: own_acts_def\<close>)
qed

lemma register_node_sound:
  assumes row: "table_read NS i = Inr row" "ns_state row = STA_EXP" and S: "ready L S" and c: "client_reads_line env"
    and res: "lexem_node (register_node env row (start_node S)) = Inr (err, S')"
  shows "node_sound env L NS i row S err S'"
proof -
  obtain err0 U where U: "register_node env row (start_node S) = Inr (err0, U)" using lexem_node_ran [OF res] by blast
  then obtain name rclass rsclass where n: "table_read (stringTable env) (ns_info row) = Inr name" "get_reg_class env name = Some (rclass, rsclass)"
    by (auto simp: register_node_def bindE_eq_Inr split: option.splits)
  obtain ok k regid where r: "parse_register env (drop (charIndex S) L) rclass rsclass = (ok, k, regid)" by (rule prod_cases3)
  let ?V = "(start_node S)\<lparr>p_opnd_value := regid, p_main_class := rclass, p_sub_class := rsclass, idlexType := REGISTER\<rparr>"
  have "operand ok k (- ns_info row) ?V = (err0, U)" using U n r S by (auto simp: register_node_def ready_def Let_def split: if_splits)
  moreover have "k \<le> length (drop (charIndex S) L)" using c r unfolding client_reads_line_def by (metis fst_conv snd_conv)
  ultimately have o: "kept S U \<and> new_items S U = [] \<and> ready L U \<and> (err0 \<longleftrightarrow> \<not> ok) \<and> idlexType U = REGISTER \<and> p_opnd_value U = regid
    \<and> p_main_class U = rclass \<and> p_sub_class U = rsclass \<and> (ok \<longrightarrow> charIndex U = charIndex S + k \<and> tokenString U = token_at (charIndex S) (charIndex S + k))"
    using operand_kept [of ok k "- ns_info row" ?V err0 U L S] S by simp
  show ?thesis
    by (rule lexem_node_sound [OF _ _ res U]) (use o row(2) r derives_repeats.reg [OF row n, of "charIndex S" L k regid] in \<open>auto simp: own_acts_def\<close>)
qed

section \<open>The analysis\<close>

lemma finish_node_sound:
  assumes n: "node_sound env L NS i row S err U" and res: "finish_node row (err, U) = Inr (err', S')"
  shows "kept S S' \<and> ready L S' \<and> (\<not> err' \<longrightarrow> derives env L NS i (charIndex S) (charIndex S') (new_items S S'))"
proof -
  define V where "V = (if err \<and> errorIndex U < charIndex U then U\<lparr>errorIndex := charIndex U\<rparr> else U)"
  have V: "charIndex V = charIndex U" "kept S V = kept S U" "new_items S V = new_items S U" "ready L V = ready L U" by (simp_all add: V_def kept_def new_items_def ready_def)
  have r: "(if call_action row \<and> ns_state row \<notin> {STA_OPT, STA_REP} \<and> \<not> err then bindE (push_action row V) (\<lambda>S. Inr (False, S)) else Inr (err, V)) = Inr (err', S')"
    using res by (simp only: finish_node_def V_def Let_def split)
  show ?thesis
  proof (cases "call_action row \<and> ns_state row \<notin> {STA_OPT, STA_REP} \<and> \<not> err")
    case True
    with r have p: "push_action row V = Inr S'" "\<not> err'" by (auto simp: bindE_eq_Inr)
    have "own_acts row = [Act_Item (ns_encInfo row) (ns_semInfo row)]" using True by (auto simp: own_acts_def acts_def)
    with push_action_Inr [OF p(1)] n V True kept_trans [of S V S'] show ?thesis by (simp add: node_sound_def)
  next
    case False
    with r have "S' = V" "err' = err" by (simp_all split: if_splits)
    moreover have "own_acts row = []" if "\<not> err" using False that by (auto simp: own_acts_def acts_def)
    ultimately show ?thesis using n V by (simp add: node_sound_def)
  qed
qed

definition parser_tables :: "parser_env \<Rightarrow> nodeSEM list \<Rightarrow> bool" where
  "parser_tables env NS \<longleftrightarrow> no_ranges NS \<and> (\<forall>NS' \<in> set (semTable env). no_ranges NS') \<and> client_reads_line env"

lemma table_read_mem: "table_read tab i = Inr x \<Longrightarrow> x \<in> set tab"
  by (auto simp: table_read_def split: if_splits)

lemma node_switch_sound:
  assumes rec: "\<And>NS. parser_tables env NS \<Longrightarrow> sound_call env L NS (rec NS)" and t: "parser_tables env NS" and row: "table_read NS i = Inr row" and S: "ready L S"
    and res: "node_switch env rec n NS row (start_node S) = Inr (err, S')"
  shows "node_sound env L NS i row S err S'"
proof -
  note r = rec [OF t] and S' = start_node_kept(1) [of L S, THEN iffD2, OF S]
  have c: "client_reads_line env" and nr: "ns_state row \<noteq> STA_RNG" using t table_read_mem [OF row] by (auto simp: parser_tables_def no_ranges_def)
  have start: "node_sound env L NS i row (start_node S) err S' = node_sound env L NS i row S err S'" by (simp add: node_sound_def)
  show ?thesis
  proof (cases "ns_state row")
    case STA_NTR
    with res obtain NS' where NS': "table_read (semTable env) (ns_info row) = Inr NS'" "rec NS' 0 (start_node S) = Inr (err, S')" by (auto simp: node_switch_def bindE_eq_Inr)
    have "parser_tables env NS'" using t table_read_mem [OF NS'(1)] by (auto simp: parser_tables_def)
    from sound_callD [OF rec [OF this] S' NS'(2)] derives_repeats.ntr [OF row STA_NTR NS'(1), of L "charIndex S" "charIndex S'" "new_items S S'"] STA_NTR show ?thesis
      by (simp add: node_sound_def own_acts_def)
  next
    case STA_REP
    with res obtain "rep_loop (rec NS) n row (start_node S) = Inr S'" "\<not> err" by (auto simp: node_switch_def silent_node_def bindE_eq_Inr)
    with rep_loop_sound [OF r S', of n row S'] derives_repeats.rep [OF row STA_REP, of env L "charIndex S" "charIndex S'" "new_items S S'"] STA_REP show ?thesis
      by (simp add: node_sound_def own_acts_def)
  next
    case STA_OPT
    with res obtain "opt_node (rec NS) row (start_node S) = Inr S'" "\<not> err" by (auto simp: node_switch_def silent_node_def bindE_eq_Inr)
    with opt_node_sound [OF row STA_OPT r S'] start show ?thesis by simp
  next
    case STA_CON
    with res have "pair_node (rec NS) (\<lambda>S. Inr (False, S)) row (start_node S) = Inr (err, S')" by (simp add: node_switch_def)
    from pair_node_sound [OF row _ r _ S' this] STA_CON between_con start show ?thesis by simp
  next
    case STA_AND
    with res have "pair_node (rec NS) (\<lambda>S. silent_node (SkipSpace S)) row (start_node S) = Inr (err, S')" by (simp add: node_switch_def)
    from pair_node_sound [OF row _ r _ S' this] STA_AND between_and start show ?thesis by simp
  next
    case STA_SPA
    with res have "pair_node (rec NS) IdentSpace row (start_node S) = Inr (err, S')" by (simp add: node_switch_def)
    from pair_node_sound [OF row _ r _ S' this] STA_SPA between_spa start show ?thesis by simp
  next
    case STA_OR
    with res have "or_node (rec NS) row (start_node S) = Inr (err, S')" by (simp add: node_switch_def)
    from or_node_sound [OF row STA_OR r S' this] start show ?thesis by simp
  next
    case STA_XOR
    with res have "xor_node (rec NS) row (start_node S) = Inr (err, S')" by (simp add: node_switch_def)
    from xor_node_sound [OF row STA_XOR r S' this] start show ?thesis by simp
  next
    case STA_TER
    with res have "bindE (table_read (stringTable env) (ns_info row)) (\<lambda>s. IdentString s (start_node S)) = Inr (err, S')" by (simp add: node_switch_def)
    from ter_node_sound [OF row STA_TER S' this] start show ?thesis by simp
  next
    case STA_EXP
    with res have "lexem_node (register_node env row (start_node S)) = Inr (err, S')" by (simp add: node_switch_def)
    from register_node_sound [OF row STA_EXP S c this] show ?thesis .
  next
    case STA_LEX
    with res have "lexem_node (IdentLexem (ns_info row) (start_node S)) = Inr (err, S')" by (simp add: node_switch_def)
    from lex_node_sound [OF row STA_LEX S this] show ?thesis .
  next
    case STA_UCE
    with res have "lexem_node (constant_node env row (start_node S)) = Inr (err, S')" by (simp add: node_switch_def)
    from constant_node_sound [OF row _ S c this] STA_UCE show ?thesis by simp
  next
    case STA_SCE
    with res have "lexem_node (constant_node env row (start_node S)) = Inr (err, S')" by (simp add: node_switch_def)
    from constant_node_sound [OF row _ S c this] STA_SCE show ?thesis by simp
  qed (use res nr in \<open>simp_all add: node_switch_def\<close>)
qed

theorem SyntaxAnalysis_sound: "parser_tables env NS \<Longrightarrow> sound_call env L NS (SyntaxAnalysis env n NS)"
proof (induction n arbitrary: NS)
  case 0
  then show ?case by (simp add: sound_call_def)
next
  case (Suc n)
  show ?case unfolding sound_call_def
  proof (intro allI impI)
    fix i S err S' assume S: "ready L S" and res: "SyntaxAnalysis env (Suc n) NS i S = Inr (err, S')"
    then obtain row err0 U where row: "table_read NS i = Inr row" and U: "node_switch env (SyntaxAnalysis env n) n NS row (start_node S) = Inr (err0, U)"
      and f: "finish_node row (err0, U) = Inr (err, S')" by (auto simp: bindE_eq_Inr)
    from finish_node_sound [OF node_switch_sound [OF Suc.IH Suc.prems row S U] f]
    show "kept S S' \<and> ready L S' \<and> (\<not> err \<longrightarrow> derives env L NS i (charIndex S) (charIndex S') (new_items S S'))" .
  qed
qed

lemma copy_loop_no_null: "copy_loop p copied cs = (q, r) \<Longrightarrow> CHR 0x00 \<notin> set copied \<Longrightarrow> CHR 0x00 \<notin> set r"
  by (induction p copied cs rule: copy_loop.induct) (auto split: if_splits)

lemma CopyStringToLine_no_null: "CHR 0x00 \<notin> set (CopyStringToLine buffer)"
proof -
  obtain p r where r: "copy_loop 0 [] buffer = (p, r)" by fastforce
  from copy_loop_no_null [OF r] have "CHR 0x00 \<notin> set r" by simp
  then show ?thesis using r by (simp add: CopyStringToLine_def Let_def) (blast dest: in_set_takeD in_set_butlastD)
qed

text \<open>An accepted line is a derivation of the first array, between the spaces at its beginning and at its end, and the stack holds the items of that derivation and no others.\<close>

lemma AnalyzeString_derives:
  assumes t: "parser_tables env (axiom env)" and res: "AnalyzeString env n buffer S = Inr (False, S')"
  defines "L \<equiv> CopyStringToLine buffer"
  shows "\<exists>e \<le> length L. derives env L (axiom env) 0 (blanks_end L 0) e (seg (encStack S') 0 (enc_size (encStack S'))) \<and> (\<forall>c \<in> set (drop e L). space_char c)"
proof -
  let ?I = "InitContextStack (S\<lparr>charIndex := 0, errorIndex := 0, encStack := InitEncodingStack (encStack S), the_line := L\<rparr>)"
  from res obtain U V where U: "SkipSpace ?I = Inr U" and V: "SyntaxAnalysis env n (axiom env) 0 U = Inr (False, V)" and E: "IdentEOL V = Inr (False, S')"
    by (auto simp: AnalyzeString_def L_def Let_def bindE_eq_Inr split: if_splits)
  have I: "ready L ?I" "enc_size (encStack ?I) = 0" "charIndex ?I = 0"
    by (simp_all add: ready_def InitContextStack_def InitEncodingStack_def ENCODING_MAX_SIZE_def L_def CopyStringToLine_no_null)
  note u = SkipSpace_Inr [OF U I(1)] and v = sound_callD [OF SyntaxAnalysis_sound [OF t] SkipSpace_Inr(3) [OF U I(1)] V]
  from E obtain e where e: "run_while space_char L (charIndex V) = Inr e" "S' = V\<lparr>charIndex := e\<rparr>" "e = length L"
    using v(2) by (auto simp: IdentEOL_def bindE_eq_Inr ready_def)
  from run_while_Inr [OF e(1)] e(3) have "\<forall>c \<in> set (drop (charIndex V) L). space_char c" "charIndex V \<le> length L" by (simp_all add: part_def)
  moreover have "new_items U V = seg (encStack S') 0 (enc_size (encStack S'))" using u(6) I(2) e(2) by (simp add: new_items_def)
  ultimately show ?thesis using v(3) u(4) I(3) by auto
qed

end
