(* ===== verification/Gensyn_Syntax.thy ===== *)
theory Gensyn_Syntax
  imports Gensyn_Lexer
begin

text \<open>
  The syntax analyser of the parser generator (\<^verbatim>\<open>gensyn/src/anasynt0.c\<close>) and the remaining actions of \<^verbatim>\<open>action0.c\<close>.  Its functions are steps on the
  state of the generator; the loops are \<open>do_while\<close> and \<open>while_do\<close>.
\<close>

section \<open>Sequences and loops\<close>

fun run_seq :: "('s \<Rightarrow> 's outcome) list \<Rightarrow> 's \<Rightarrow> 's outcome" where
  "run_seq [] S = Inr S"
| "run_seq (f # fs) S = bindE (f S) (run_seq fs)"

text \<open>
  A round that goes on must have read something: the analyser's loops all do (shown below), and a loop of which a round reads nothing and changes nothing
  never ends.
\<close>

function do_while :: "(generator \<Rightarrow> generator outcome) \<Rightarrow> (generator \<Rightarrow> bool) \<Rightarrow> generator \<Rightarrow> generator outcome" where
  "do_while body cond S =
     bindE (body S) (\<lambda>S'.
     if cond S' then if length (stream S') < length (stream S) then do_while body cond S' else Inl Diverges
     else Inr S')"
  by pat_completeness auto
termination
  by (relation "measure (\<lambda>(body, cond, S). length (stream S))") auto

function while_do :: "(generator \<Rightarrow> bool) \<Rightarrow> (generator \<Rightarrow> generator outcome) \<Rightarrow> generator \<Rightarrow> generator outcome" where
  "while_do cond body S =
     (if cond S then
        bindE (body S) (\<lambda>S'.
        if cond S' \<and> \<not> length (stream S') < length (stream S) then Inl Diverges else while_do cond body S')
      else Inr S)"
  by pat_completeness auto
termination
  by (relation "measure (\<lambda>(cond, body, S). if cond S then Suc (length (stream S)) else 0)") auto

declare do_while.simps [simp del] while_do.simps [simp del]

section \<open>Actions\<close>

definition DisplayErrorMessage :: "generator \<Rightarrow> generator" where
  "DisplayErrorMessage S = S\<lparr>gs := (gs S)\<lparr>noError := False\<rparr>\<rparr>"

definition SetNoError :: "generator \<Rightarrow> generator" where
  "SetNoError S = S\<lparr>gs := (gs S)\<lparr>noError := True\<rparr>, lineNo := 1\<rparr>"

text \<open>\<^verbatim>\<open>atomlu = GetLeftLex(skipEOL)\<close> and \<^verbatim>\<open>atomlu = GetRightLex()\<close>\<close>

definition lex_left :: "bool \<Rightarrow> generator \<Rightarrow> generator outcome" where
  "lex_left skipEOL S = bindE (GetLeftLex skipEOL S) (\<lambda>(a, S). Inr (S\<lparr>atomlu := a\<rparr>))"

definition lex_right :: "generator \<Rightarrow> generator outcome" where
  "lex_right S = bindE (GetRightLex S) (\<lambda>(a, S). Inr (S\<lparr>atomlu := a\<rparr>))"

definition on_gs :: "(gensyn \<Rightarrow> gensyn outcome) \<Rightarrow> generator \<Rightarrow> generator outcome" where
  "on_gs f S = bindE (f (gs S)) (\<lambda>G. Inr (S\<lparr>gs := G\<rparr>))"

definition on_fmts :: "(formats \<Rightarrow> formats outcome) \<Rightarrow> generator \<Rightarrow> generator outcome" where
  "on_fmts f S = bindE (f (fmts S)) (\<lambda>F. Inr (S\<lparr>fmts := F\<rparr>))"

definition on_enc :: "(enc_info \<Rightarrow> enc_info outcome) \<Rightarrow> generator \<Rightarrow> generator outcome" where
  "on_enc f S = bindE (f (enc (gs S))) (\<lambda>E. Inr (S\<lparr>gs := (gs S)\<lparr>enc := E\<rparr>\<rparr>))"

text \<open>\<^verbatim>\<open>atoi\<close>: spaces, a sign, digits.\<close>

fun decimal :: "int \<Rightarrow> string \<Rightarrow> int" where
  "decimal n [] = n"
| "decimal n (c # cs) = (if isdigit (Some c) then decimal (10 * n + (int (of_char c) - 48)) cs else n)"

definition atoi :: "string \<Rightarrow> int" where
  "atoi s =
     (case dropWhile (\<lambda>c. isspace (Some c)) s of
        [] \<Rightarrow> 0
      | c # cs \<Rightarrow>
          if c = CHR ''-'' then INT32 (max (- decimal 0 cs) (- (2 ^ 63)))
          else INT32 (min (decimal 0 (if c = CHR ''+'' then cs else c # cs)) (2 ^ 63 - 1)))"

definition AddNewClass :: "generator \<Rightarrow> generator outcome" where
  "AddNewClass S = (if IsClassDefined (last_name S) (fmts S) then Inl (Fatal ''Class already defined'') else on_fmts (AddNewClassInfo (last_name S)) S)"

definition CreateNewFormat :: "generator \<Rightarrow> generator outcome" where
  "CreateNewFormat S = (if IsFormatDefined (last_name S) (fmts S) then Inl (Fatal ''Format already defined'') else on_fmts (SetNewCurrFormat (last_name S)) S)"

definition CreateNewField :: "generator \<Rightarrow> generator outcome" where
  "CreateNewField S =
     bindE (SetNewCurrField (last_name S) (tables (gs S), fmts S)) (\<lambda>(T, F). Inr (S\<lparr>gs := (gs S)\<lparr>tables := T\<rparr>, fmts := F\<rparr>))"

definition AddNumField :: "generator \<Rightarrow> generator outcome" where
  "AddNumField S = on_fmts (AddNumFieldToCurrField (atoi (last_name S))) S"

definition AddNewField :: "generator \<Rightarrow> generator outcome" where
  "AddNewField = on_fmts AddCurrFieldToCurrFormat"

definition AddNewFormat :: "generator \<Rightarrow> generator outcome" where
  "AddNewFormat = on_fmts AddCurrFormatToList"

definition CreateNewGrouping :: "generator \<Rightarrow> generator outcome" where
  "CreateNewGrouping S = (if IsGroupingDefined (last_name S) (fmts S) then Inl (Fatal ''Grouping already defined'') else on_fmts (SetNewCurrGrouping (last_name S)) S)"

definition CreateNewSlot :: "generator \<Rightarrow> generator outcome" where
  "CreateNewSlot S = on_fmts (SetNewCurrSlot (atoi (last_name S))) S"

definition AddInstType :: "generator \<Rightarrow> generator outcome" where
  "AddInstType S = on_fmts (AddInstTypeToCurrSlot (last_name S)) S"

definition AddNewSlot :: "generator \<Rightarrow> generator outcome" where
  "AddNewSlot = on_fmts AddCurrSlotToCurrGrouping"

definition AddNewGrouping :: "generator \<Rightarrow> generator outcome" where
  "AddNewGrouping = on_fmts AddCurrGroupingToList"

section \<open>The grammar of the grammar files\<close>

definition Expect :: "ATOME \<Rightarrow> generator \<Rightarrow> generator outcome" where
  "Expect expected S = (let (ok, S) = identifie (atomlu S) expected S in Inr (if ok then S else DisplayErrorMessage S))"

definition ExpectKeywordColumn :: "ATOME \<Rightarrow> generator \<Rightarrow> generator outcome" where
  "ExpectKeywordColumn expected = run_seq [Expect expected, lex_left True, Expect COLUMN]"

definition GetNumField :: "generator \<Rightarrow> generator outcome" where
  "GetNumField = run_seq [lex_left True, Expect COLUMN, lex_left True, Expect NUMVAL]"

definition GetFieldElem :: "generator \<Rightarrow> generator outcome" where
  "GetFieldElem = run_seq [lex_left True, Expect IDNTER, CreateNewField, GetNumField, AddNumField, GetNumField, AddNumField, GetNumField, AddNumField, lex_left True]"

definition GetSlotElem :: "generator \<Rightarrow> generator outcome" where
  "GetSlotElem = run_seq [lex_left True, Expect NUMVAL, CreateNewSlot, lex_left True, Expect COLUMN,
     do_while (run_seq [lex_left True, Expect IDNTER, AddInstType, lex_left True]) (\<lambda>S. atomlu S = COLUMN)]"

definition GetClass :: "generator \<Rightarrow> generator outcome" where
  "GetClass = do_while (run_seq [lex_left True, Expect IDNTER, AddNewClass, lex_left True]) (\<lambda>S. atomlu S = COMMA)"

definition GetRules :: "generator \<Rightarrow> generator outcome" where
  "GetRules = run_seq [lex_left True, Expect IDNTER, on_gs CreateNewNTERM, lex_left True,
     while_do (\<lambda>S. atomlu S = COMMA)
       (run_seq [lex_left True, Expect IDNTER, on_gs CreateNewNTERM, lex_left True, on_gs (GenDualNodeSem XOR_ATOM)])]"

definition GetField :: "generator \<Rightarrow> generator outcome" where
  "GetField = do_while (run_seq [lex_left True, Expect OPENACC, GetFieldElem, Expect CLOSACC, AddNewField, lex_left True]) (\<lambda>S. atomlu S = COMMA)"

definition GetSlot :: "generator \<Rightarrow> generator outcome" where
  "GetSlot = do_while (run_seq [lex_left True, Expect OPENACC, GetSlotElem, Expect CLOSACC, AddNewSlot, lex_left True]) (\<lambda>S. atomlu S = COMMA)"

datatype e_typeField = IFORMAT | ICLASS | IROOT

definition GetFieldList :: "e_typeField \<Rightarrow> generator \<Rightarrow> generator outcome" where
  "GetFieldList listType = run_seq ([lex_left True, Expect OPENACC,
     (case listType of IFORMAT \<Rightarrow> GetField | ICLASS \<Rightarrow> GetClass | IROOT \<Rightarrow> GetRules), Expect CLOSACC]
     @ (if listType = IFORMAT then [AddNewFormat] else []))"

definition GetSlotList :: "generator \<Rightarrow> generator outcome" where
  "GetSlotList = run_seq [lex_left True, Expect OPENACC, GetSlot, Expect CLOSACC, AddNewGrouping]"

definition CheckColumnEOL :: "generator \<Rightarrow> generator outcome" where
  "CheckColumnEOL = run_seq [lex_left True, Expect COLUMN, lex_right, Expect LINEN]"

section \<open>Syntax descriptions\<close>

definition F_rule :: "generator \<Rightarrow> generator outcome" where
  "F_rule S =
     (case atomlu S of
        EXPR \<Rightarrow> run_seq [on_gs CreateNewEXPR, lex_right] S
      | IDNTER \<Rightarrow> run_seq [on_gs CreateNewNTERM, lex_right] S
      | ELTER \<Rightarrow> run_seq [on_gs CreateNewTERM, lex_right] S
      | LEXEM \<Rightarrow> run_seq [on_gs (CreateNewLexem LEXEM), lex_right] S
      | UCSTEXP \<Rightarrow> run_seq [on_gs CreateNewCstExpr, lex_right] S
      | _ \<Rightarrow> Inr (DisplayErrorMessage S))"

definition T_rule_body :: "generator \<Rightarrow> generator outcome" where
  "T_rule_body S =
     (case atomlu S of
        SPACE \<Rightarrow> run_seq [lex_right, F_rule, on_gs (GenDualNodeSem SPACE)] S
      | AND_ATOM \<Rightarrow> run_seq [lex_right, F_rule, on_gs (GenDualNodeSem AND_ATOM)] S
      | UCSTEXP \<Rightarrow> run_seq [on_gs CreateNewCstExpr, on_gs (GenDualNodeSem CONCAT), lex_right] S
      | IDNTER \<Rightarrow> run_seq [on_gs CreateNewNTERM, on_gs (GenDualNodeSem CONCAT), lex_right] S
      | EXPR \<Rightarrow> run_seq [on_gs CreateNewEXPR, on_gs (GenDualNodeSem CONCAT), lex_right] S
      | ELTER \<Rightarrow> run_seq [on_gs CreateNewTERM, on_gs (GenDualNodeSem CONCAT), lex_right] S
      | _ \<Rightarrow> Inr S)"

definition T_rule :: "generator \<Rightarrow> generator outcome" where
  "T_rule = run_seq [F_rule, while_do (\<lambda>S. atomlu S \<in> {SPACE, AND_ATOM, IDNTER, ELTER, UCSTEXP, SCSTEXP, RANGE}) T_rule_body]"

definition StartSyntaxAnalysis :: "generator \<Rightarrow> generator outcome" where
  "StartSyntaxAnalysis S =
     (case atomlu S of
        LINEN \<Rightarrow> on_gs CreateEmpty S
      | OPENBRA \<Rightarrow>
          bindE (run_seq [lex_right, T_rule, Expect CLOSBRA, lex_left False] S) (\<lambda>S.
          case atomlu S of
            STAR \<Rightarrow> run_seq [on_gs (GenModeNodeSem REPEAT), lex_left False] S
          | LINEN \<Rightarrow> on_gs (GenModeNodeSem OPTION) S
          | _ \<Rightarrow> Inr S)
      | _ \<Rightarrow> T_rule S)"

definition GetSyntax :: "generator \<Rightarrow> generator outcome" where
  "GetSyntax = run_seq [lex_right, StartSyntaxAnalysis, Expect LINEN]"

section \<open>The grammar file\<close>

text \<open>An action that gets the text of an encoding; \<open>fresh\<close> gives what \<^verbatim>\<open>realloc\<close> leaves in the new slot of the table of rules.\<close>

definition with_encoding :: "(string \<Rightarrow> generator \<Rightarrow> generator outcome) \<Rightarrow> generator \<Rightarrow> generator outcome" where
  "with_encoding f S = bindE (GetEncodingInformations S) (\<lambda>(text, S). f text S)"

definition new_action :: "(gensyn \<Rightarrow> s_ACT) \<Rightarrow> generator \<Rightarrow> generator outcome" where
  "new_action fresh = with_encoding (\<lambda>text. on_gs (\<lambda>G. AddNewAction text (fresh G) G))"

definition entry_start :: "ATOME \<Rightarrow> bool" where
  "entry_start a \<longleftrightarrow> a \<in> {IDNTER, GLBDEC, FORMAT, CLASS, RELOC, INIT, ROOT, ELF, GROUPING, PORT, MULTIPLY}"

definition SyntaxEntry_body :: "(gensyn \<Rightarrow> s_ACT) \<Rightarrow> generator \<Rightarrow> generator outcome" where
  "SyntaxEntry_body fresh S =
     (case atomlu S of
        IDNTER \<Rightarrow> run_seq [on_gs CreateNewNTERM, CheckColumnEOL, lex_left True,
          do_while (run_seq [on_gs (\<lambda>G. Inr (InitLexCount G)), ExpectKeywordColumn SYNKEYWORD, GetSyntax, lex_left True,
              ExpectKeywordColumn ACTKEYWORD, new_action fresh, lex_left True, (\<lambda>S. Inr (snd (identifie (atomlu S) SYNKEYWORD S)))])
            (\<lambda>S. atomlu S = SYNKEYWORD),
          on_gs UnstackNTERM] S
      | GLBDEC \<Rightarrow> run_seq [lex_left True, Expect COLUMN, with_encoding (\<lambda>text. on_enc (AddNewGlobDecl text)), lex_left True] S
      | PORT \<Rightarrow> run_seq [lex_left True, Expect COLUMN, with_encoding (\<lambda>text. on_enc (AddNewPort text)), lex_left True] S
      | MULTIPLY \<Rightarrow> run_seq [lex_left True, Expect COLUMN, with_encoding (\<lambda>text. on_enc (AddNewMultiply text)), lex_left True] S
      | FORMAT \<Rightarrow> run_seq [lex_left True, Expect COLUMN, lex_left True, Expect IDNTER, CreateNewFormat, lex_left True, ExpectKeywordColumn ACTKEYWORD,
          GetFieldList IFORMAT, lex_left True] S
      | ROOT \<Rightarrow> run_seq [on_gs (\<lambda>G. Inr (InitLexCount G)), lex_left True, Expect COLUMN, lex_left True, Expect IDNTER, on_gs CreateNewNTERM, lex_left True,
          ExpectKeywordColumn DESKEYWORD, GetFieldList IROOT, lex_left True, ExpectKeywordColumn ACTKEYWORD, new_action fresh, lex_left True, on_gs UnstackNTERM] S
      | GROUPING \<Rightarrow> run_seq [lex_left True, Expect COLUMN, lex_left True, Expect IDNTER, CreateNewGrouping, lex_left True, ExpectKeywordColumn DESKEYWORD, GetSlotList, lex_left True] S
      | CLASS \<Rightarrow> run_seq [CheckColumnEOL, lex_left True, ExpectKeywordColumn ACTKEYWORD, GetFieldList ICLASS, lex_left True] S
      | INIT \<Rightarrow> run_seq [CheckColumnEOL, lex_left True, ExpectKeywordColumn ACTKEYWORD, with_encoding (\<lambda>text. on_gs (AddInitAction text)), lex_left True] S
      | ELF \<Rightarrow> Inl (Fatal ''Elf not supported'')
      | RELOC \<Rightarrow> Inl (Fatal ''Reloc not supported'')
      | _ \<Rightarrow> Inr S)"

definition SyntaxEntry :: "(gensyn \<Rightarrow> s_ACT) \<Rightarrow> generator \<Rightarrow> generator outcome" where
  "SyntaxEntry fresh = run_seq [lex_left True, while_do (\<lambda>S. entry_start (atomlu S)) (SyntaxEntry_body fresh), Expect FILEN]"

text \<open>The loop of \<^verbatim>\<open>main\<close> over the files, after \<^verbatim>\<open>InitParser\<close>.\<close>

definition InitParser :: generator where
  "InitParser = \<lparr>gs = gensyn_start,
     fmts = InitFormats (InitGroupings (InitDefineLists
       \<lparr>classList = [], currField = None, currFormat = None, formatList = [], currSlot = None, currGrouping = None, groupingList = []\<rparr>)),
     stream = [], curChar = None, lineNo = 0, dern_atom = COLUMN, atomlu = COLUMN\<rparr>"

fun parse_files :: "(gensyn \<Rightarrow> s_ACT) \<Rightarrow> string list \<Rightarrow> generator \<Rightarrow> generator outcome" where
  "parse_files fresh [] S = Inr S"
| "parse_files fresh (file # files) S = bindE (SyntaxEntry fresh (SetNoError (S\<lparr>stream := file\<rparr>))) (parse_files fresh files)"

end
