(* ===== verification/Gensyn_Analysis.thy ===== *)
theory Gensyn_Analysis
  imports Gensyn_Syntax
begin

text \<open>
  The syntax analyser of the parser generator ends on every file whose comments are closed, and keeps the state of the generator well-formed.  A step of the
  analyser either reads input, or reaches the end of the file, or leaves the atom read last; a round of a loop always reads.
\<close>

section \<open>The actions end\<close>

named_theorems ends \<open>actions that end\<close>

lemma Readjust_ends: "halts (ReadjustRight A)" "halts (ReadjustLeft A)" "halts (ReadjustLeftRight A)" "halts (ReadjustRightLeft A)"
proof -
  show r: "halts (ReadjustRight A)" for A by (cases A rule: ReadjustRight.cases) simp_all
  show l: "halts (ReadjustLeft A)" for A by (cases A rule: ReadjustLeft.cases) simp_all
  show "halts (ReadjustLeftRight A)" "halts (ReadjustRightLeft A)" by (cases A; simp add: r l)+
qed

lemma AVLadd_ends [ends]: "halts (AVLadd s t)"
  by (auto simp: AVLadd_def AVL_rebalance_def Readjust_ends SETSTR_def Let_def split: sum.splits)

lemma tables_end [ends]: "halts (AddVar s T)" "halts (AddTerminal s T)" "halts (AddNonTerminal s T)" "halts (AddLexem s T)"
  by (auto simp: AddVar_def AddTerminal_def AddNonTerminal_def AddLexem_def AVLadd_ends)

lemma setters_end [ends]: "halts (SetGauche t x)" "halts (SetDroite t x)" "halts (SetEncInfo t i)" "halts (SetPopSemIndex t i)" "halts (GETSTR tk)"
  by (cases t; simp)+ (cases tk rule: GETSTR.cases; simp)

lemma table_access_ends [ends]: "halts (table_read tab i)" "halts (table_write tab i x)"
  by (simp_all add: table_read_def table_write_def)

lemma stack_ends [ends]: "halts (push_sem t G)" "halts (pop_sem G)"
  by (auto simp: push_sem_def pop_sem_def EmpilerSEM_def DepilerSEM_def split: list.splits)

lemma RechAct_loop_ends: "halts (RechAct_loop nom Table deb fin)"
proof (induction nom Table deb fin rule: RechAct_loop.induct)
  case (1 nom Table deb fin)
  then show ?case by (subst RechAct_loop.simps) (auto simp: Let_def ends)
qed

lemma shift_up_ends: "halts (shift_up ind nb Table)"
proof (induction ind nb Table rule: shift_up.induct)
  case (1 ind nb Table)
  then show ?case by (subst shift_up.simps) (auto simp: Let_def ends)
qed

lemma AjoutAct_ends [ends]: "halts (AjoutAct nom t fresh S)"
  by (auto simp: AjoutAct_def RechAct_def alternative_def Let_def RechAct_loop_ends shift_up_ends ends)

lemma encodings_end [ends]: "halts (AddNewEncInfo s E)" "halts (AddNewGlobDecl s E)" "halts (AddNewPort s E)" "halts (AddNewMultiply s E)"
  by (simp_all add: AddNewEncInfo_def AddNewGlobDecl_def AddNewPort_def AddNewMultiply_def)

section \<open>Actions that keep the state well-formed\<close>

definition keeps_ok :: "(gensyn \<Rightarrow> gensyn outcome) \<Rightarrow> bool" where
  "keeps_ok f \<longleftrightarrow> (\<forall>G. gensyn_ok G \<longrightarrow> halts (f G) \<and> (\<forall>G'. f G = Inr G' \<longrightarrow> gensyn_ok G'))"

lemma leaves_keep_ok [simp]: "keeps_ok CreateNewNTERM" "keeps_ok CreateNewTERM" "keeps_ok CreateNewEXPR" "keeps_ok CreateNewCstExpr"
  "keeps_ok (CreateNewLexem LEXEM)" "keeps_ok CreateEmpty"
proof -
  show "keeps_ok CreateNewNTERM" unfolding keeps_ok_def using leaf_actions_ok(1) by (auto simp: CreateNewNTERM_def ends)
  show "keeps_ok CreateNewTERM" unfolding keeps_ok_def using leaf_actions_ok(2) by (auto simp: CreateNewTERM_def ends)
  show "keeps_ok CreateNewEXPR" unfolding keeps_ok_def using leaf_actions_ok(3) by (auto simp: CreateNewEXPR_def ends)
  show "keeps_ok CreateNewCstExpr" unfolding keeps_ok_def using leaf_actions_ok(4) by (auto simp: CreateNewCstExpr_def ends)
  show "keeps_ok (CreateNewLexem LEXEM)" unfolding keeps_ok_def using leaf_actions_ok(5) by (auto simp: CreateNewLexem_def ends)
  show "keeps_ok CreateEmpty" unfolding keeps_ok_def using CreateEmpty_ok by (auto simp: CreateEmpty_def ends)
qed

lemma nodes_keep_ok [simp]: "binary a \<Longrightarrow> keeps_ok (GenDualNodeSem a)" "unary a \<Longrightarrow> keeps_ok (GenModeNodeSem a)" "keeps_ok UnstackNTERM"
proof -
  show "keeps_ok (GenDualNodeSem a)" if "binary a" unfolding keeps_ok_def using inner_actions_ok(1) [OF _ that] by (auto simp: GenDualNodeSem_def ends)
  show "keeps_ok (GenModeNodeSem a)" if "unary a" unfolding keeps_ok_def using inner_actions_ok(2) [OF _ that] by (auto simp: GenModeNodeSem_def ends)
  show "keeps_ok UnstackNTERM" unfolding keeps_ok_def using inner_actions_ok(3) by (auto simp: UnstackNTERM_def ends)
qed

lemma rules_keep_ok [simp]: "keeps_ok (\<lambda>G. AddNewAction e (fresh G) G)" "keeps_ok (AddInitAction e)" "keeps_ok (\<lambda>G. Inr (InitLexCount G))"
proof -
  have "halts (set_rule_encoding i n t)" for i n t by (auto simp: set_rule_encoding_def set_encoding_def ends)
  then show "keeps_ok (\<lambda>G. AddNewAction e (fresh G) G)" unfolding keeps_ok_def using AddNewAction_ok by (auto simp: AddNewAction_def ends)
  show "keeps_ok (AddInitAction e)" unfolding keeps_ok_def using AddInitAction_ok by (auto simp: AddInitAction_def ends)
  show "keeps_ok (\<lambda>G. Inr (InitLexCount G))" by (simp add: keeps_ok_def InitLexCount_def)
qed


section \<open>Steps of the analyser\<close>

definition analysing :: "generator \<Rightarrow> bool" where
  "analysing S \<longleftrightarrow> comments_closed (stream S) \<and> atomlu S \<notin> {SCSTEXP, RANGE} \<and> gensyn_ok (gs S)"

definition has_read :: "generator \<Rightarrow> generator \<Rightarrow> bool" where
  "has_read S S' \<longleftrightarrow> length (stream S') < length (stream S) \<or> atomlu S' = FILEN"

definition has_kept :: "generator \<Rightarrow> generator \<Rightarrow> bool" where
  "has_kept S S' \<longleftrightarrow> has_read S S' \<or> atomlu S' = atomlu S"

text \<open>An outcome of a step from \<open>S\<close>: it ends, keeps the invariant, and reads as \<open>R\<close> says.\<close>

definition good :: "(generator \<Rightarrow> generator \<Rightarrow> bool) \<Rightarrow> generator \<Rightarrow> generator outcome \<Rightarrow> bool" where
  "good R S m \<longleftrightarrow> halts m \<and> (\<forall>S'. m = Inr S' \<longrightarrow> analysing S' \<and> suffix (stream S') (stream S) \<and> R S S')"

definition analyser_step :: "(generator \<Rightarrow> generator outcome) \<Rightarrow> bool" where
  "analyser_step f \<longleftrightarrow> (\<forall>S. analysing S \<longrightarrow> good has_kept S (f S))"

definition reading_step :: "(generator \<Rightarrow> generator outcome) \<Rightarrow> bool" where
  "reading_step f \<longleftrightarrow> (\<forall>S. analysing S \<longrightarrow> good has_read S (f S))"

lemma good_read_kept: "good has_read S m \<Longrightarrow> good has_kept S m"
  by (auto simp: good_def has_kept_def)

lemma reading_is_step: "reading_step f \<Longrightarrow> analyser_step f"
  by (simp add: reading_step_def analyser_step_def good_read_kept)

text \<open>A step after another one.\<close>

lemma good_bindE:
  assumes "good R S m" "\<And>S'. analysing S' \<Longrightarrow> good Q S' (f S')"
    and "\<And>S' S''. R S S' \<Longrightarrow> Q S' S'' \<Longrightarrow> suffix (stream S') (stream S) \<Longrightarrow> suffix (stream S'') (stream S') \<Longrightarrow> U S S''"
  shows "good U S (bindE m f)"
  using assms unfolding good_def by (auto simp: bindE_eq_Inr) (blast intro: suffix_order.trans)+

lemma kept_kept: "has_kept S S' \<Longrightarrow> has_kept S' S'' \<Longrightarrow> suffix (stream S') (stream S) \<Longrightarrow> suffix (stream S'') (stream S') \<Longrightarrow> has_kept S S''"
  by (auto simp: has_kept_def has_read_def dest!: suffix_length_le)

lemma read_kept: "has_read S S' \<Longrightarrow> has_kept S' S'' \<Longrightarrow> suffix (stream S') (stream S) \<Longrightarrow> suffix (stream S'') (stream S') \<Longrightarrow> has_read S S''"
  by (auto simp: has_kept_def has_read_def dest!: suffix_length_le)

lemma kept_read: "has_kept S S' \<Longrightarrow> has_read S' S'' \<Longrightarrow> suffix (stream S') (stream S) \<Longrightarrow> suffix (stream S'') (stream S') \<Longrightarrow> has_read S S''"
  by (auto simp: has_kept_def has_read_def dest!: suffix_length_le)

lemma seq_step [simp]: "\<forall>f \<in> set fs. analyser_step f \<Longrightarrow> analyser_step (run_seq fs)"
proof (induction fs)
  case (Cons f fs)
  then show ?case unfolding analyser_step_def by (auto intro!: good_bindE [where Q = has_kept] intro: kept_kept)
qed (simp add: analyser_step_def good_def has_kept_def)

lemma seq_reads [simp]: "\<forall>f \<in> set fs. analyser_step f \<Longrightarrow> \<exists>f \<in> set fs. reading_step f \<Longrightarrow> reading_step (run_seq fs)"
proof (induction fs)
  case (Cons f fs)
  show ?case
  proof (cases "reading_step f")
    case True
    moreover have "analyser_step (run_seq fs)" using Cons.prems(1) by simp
    ultimately show ?thesis unfolding analyser_step_def reading_step_def by (auto intro!: good_bindE [where Q = has_kept] intro: read_kept)
  next
    case False
    with Cons have "reading_step (run_seq fs)" "analyser_step f" by auto
    then show ?thesis unfolding analyser_step_def reading_step_def by (auto intro!: good_bindE [where Q = has_read] intro: kept_read)
  qed
qed simp

section \<open>Loops\<close>

lemma good_shorter:
  assumes "good R S' m" "suffix (stream S') (stream S)" "length (stream S') < length (stream S)"
  shows "good has_read S m"
  using assms suffix_order.trans [OF _ assms(2)] le_less_trans [OF suffix_length_le assms(3)] by (simp add: good_def has_read_def)

lemma do_while_reads [simp]:
  assumes body: "reading_step body" and cond: "\<forall>S. cond S \<longrightarrow> atomlu S \<noteq> FILEN"
  shows "reading_step (do_while body cond)"
proof -
  have "good has_read S (do_while body cond S)" if "analysing S" for S
    using that
  proof (induction "length (stream S)" arbitrary: S rule: less_induct)
    case less
    have S: "good has_read S (body S)" using body less.prems by (simp add: reading_step_def)
    show ?case
    proof (cases "body S")
      case (Inr S')
      with S have S': "analysing S'" "suffix (stream S') (stream S)" "has_read S S'" by (simp_all add: good_def)
      show ?thesis
      proof (cases "cond S'")
        case True
        with S'(3) cond have shorter: "length (stream S') < length (stream S)" by (auto simp: has_read_def)
        then have "do_while body cond S = do_while body cond S'" using Inr True by (subst do_while.simps) simp
        with good_shorter [OF less.hyps [OF shorter S'(1)] S'(2) shorter] show ?thesis by simp
      next
        case False
        with Inr S S' show ?thesis by (subst do_while.simps) (simp add: good_def)
      qed
    qed (use S in \<open>subst do_while.simps, simp add: good_def\<close>)
  qed
  then show ?thesis by (simp add: reading_step_def)
qed

lemma while_do_step:
  assumes body: "\<forall>S. analysing S \<longrightarrow> cond S \<longrightarrow> good has_read S (body S)" and cond: "\<forall>S. cond S \<longrightarrow> atomlu S \<noteq> FILEN"
  shows "analyser_step (while_do cond body)"
proof -
  have stay: "good has_kept S (while_do cond body S)" if "analysing S" "\<not> cond S" for S
    using that by (subst while_do.simps) (simp add: good_def has_kept_def)
  have "good has_read S (while_do cond body S)" if "analysing S" "cond S" for S
    using that
  proof (induction "length (stream S)" arbitrary: S rule: less_induct)
    case less
    have S: "good has_read S (body S)" using body less.prems by simp
    show ?case
    proof (cases "body S")
      case (Inr S')
      with S have S': "analysing S'" "suffix (stream S') (stream S)" "has_read S S'" by (simp_all add: good_def)
      show ?thesis
      proof (cases "cond S'")
        case True
        with S'(3) cond have shorter: "length (stream S') < length (stream S)" by (auto simp: has_read_def)
        then have "while_do cond body S = while_do cond body S'" using Inr less.prems by (subst while_do.simps) simp
        with good_shorter [OF less.hyps [OF shorter S'(1) True] S'(2) shorter] show ?thesis by simp
      next
        case False
        then have "while_do cond body S = Inr S'" using Inr less.prems by (subst while_do.simps, simp) (subst while_do.simps, simp)
        with S Inr show ?thesis by (simp add: good_def)
      qed
    qed (use S less.prems in \<open>subst while_do.simps, simp add: good_def\<close>)
  qed
  with stay show ?thesis by (auto simp: analyser_step_def intro: good_read_kept)
qed

text \<open>With such a body, the loops are the loops of C.\<close>

lemma do_while_unfold:
  assumes "good has_read S (body S)" "\<forall>S. cond S \<longrightarrow> atomlu S \<noteq> FILEN"
  shows "do_while body cond S = bindE (body S) (\<lambda>S'. if cond S' then do_while body cond S' else Inr S')"
  using assms by (subst do_while.simps) (auto simp: good_def has_read_def intro!: bindE_cong)

lemma while_do_unfold:
  assumes "good has_read S (body S)" "\<forall>S. cond S \<longrightarrow> atomlu S \<noteq> FILEN"
  shows "while_do cond body S = (if cond S then bindE (body S) (while_do cond body) else Inr S)"
  using assms by (subst while_do.simps) (auto simp: good_def has_read_def intro!: bindE_cong)

section \<open>The steps\<close>

lemma lex_left_reads [simp]: "reading_step (lex_left b)"
proof -
  have "good has_read S (lex_left b S)" if S: "analysing S" for S
  proof (cases "GetLeftLex b S")
    case (Inl e)
    then show ?thesis using GetLeftLex_halts [of S b] S by (simp add: good_def lex_left_def analysing_def)
  next
    case (Inr r)
    then obtain a S' where r: "GetLeftLex b S = Inr (a, S')" by (cases r) simp
    note lex = GetLeftLex_suffix [OF r] GetLeftLex_gs [OF r]
    have "comments_closed (stream S')" using S lex(1) by (auto simp: analysing_def intro: comments_closed_suffix)
    with S lex show ?thesis by (auto simp: good_def lex_left_def r analysing_def has_read_def)
  qed
  then show ?thesis by (simp add: reading_step_def)
qed

lemma lex_right_reads [simp]: "reading_step lex_right"
proof -
  have "good has_read S (lex_right S)" if S: "analysing S" for S
  proof (cases "GetRightLex S")
    case (Inl e)
    then show ?thesis using GetRightLex_halts [of S] S by (simp add: good_def lex_right_def)
  next
    case (Inr r)
    then obtain a S' where r: "GetRightLex S = Inr (a, S')" by (cases r) simp
    note lex = GetRightLex_suffix [OF r] GetRightLex_gs [OF r]
    have "comments_closed (stream S')" using S lex(1) by (auto simp: analysing_def intro: comments_closed_suffix)
    with S lex show ?thesis by (auto simp: good_def lex_right_def r analysing_def has_read_def)
  qed
  then show ?thesis by (simp add: reading_step_def)
qed


text \<open>Steps that read nothing.\<close>

lemma silent_step:
  assumes "\<And>S. analysing S \<Longrightarrow> halts (f S)"
    and "\<And>S S'. analysing S \<Longrightarrow> f S = Inr S' \<Longrightarrow> stream S' = stream S \<and> atomlu S' = atomlu S \<and> gensyn_ok (gs S')"
  shows "analyser_step f"
  unfolding analyser_step_def good_def
proof (intro allI impI conjI)
  fix S assume S: "analysing S"
  then show "halts (f S)" by (rule assms(1))
  fix S' assume "f S = Inr S'"
  from assms(2) [OF S this] S show "analysing S'" "suffix (stream S') (stream S)" "has_kept S S'" by (simp_all add: analysing_def has_kept_def)
qed

lemma on_gs_step [simp]: "keeps_ok f \<Longrightarrow> analyser_step (on_gs f)"
  by (rule silent_step) (auto simp: keeps_ok_def on_gs_def bindE_eq_Inr analysing_def)

lemma on_enc_step [simp]: "(\<And>E. halts (f E)) \<Longrightarrow> analyser_step (on_enc f)"
  by (rule silent_step) (auto simp: on_enc_def bindE_eq_Inr analysing_def)

lemma Expect_step [simp]: "analyser_step (Expect a)" "analyser_step (\<lambda>S. Inr (snd (identifie (atomlu S) a S)))" "analyser_step (\<lambda>S. Inr (DisplayErrorMessage S))"
proof -
  have ok: "gensyn_ok (G\<lparr>noError := b\<rparr>) = gensyn_ok G" for G b by (simp add: gensyn_ok_def)
  show "analyser_step (Expect a)" by (rule silent_step) (auto simp: Expect_def identifie_def DisplayErrorMessage_def analysing_def ok)
  show "analyser_step (\<lambda>S. Inr (snd (identifie (atomlu S) a S)))" by (rule silent_step) (auto simp: identifie_def analysing_def)
  show "analyser_step (\<lambda>S. Inr (DisplayErrorMessage S))" by (rule silent_step) (auto simp: DisplayErrorMessage_def analysing_def ok)
qed

lemma on_fmts_step:
  assumes "\<And>S F. halts (f S F)"
  shows "analyser_step (\<lambda>S. on_fmts (f S) S)"
  by (rule silent_step) (auto simp: on_fmts_def bindE_eq_Inr analysing_def assms)

lemma formats_end [ends]: "halts (strcpy_into n s)" "halts (null_check p)" "halts (ComputeMaxBits format)"
proof -
  have "halts (ComputeMaxBits_loop fs mx i)" for fs mx i by (induction fs mx i rule: ComputeMaxBits_loop.induct) (simp_all add: Let_def ends)
  then show "halts (ComputeMaxBits format)" by (auto simp: ComputeMaxBits_def)
qed (simp_all add: strcpy_into_def null_check_def split: option.splits)

lemma format_steps [simp]: "analyser_step AddNewClass" "analyser_step CreateNewFormat" "analyser_step AddNumField" "analyser_step AddNewField" "analyser_step AddNewFormat"
  "analyser_step CreateNewGrouping" "analyser_step CreateNewSlot" "analyser_step AddInstType" "analyser_step AddNewSlot" "analyser_step AddNewGrouping"
proof -
  have checked: "analyser_step (\<lambda>S. if c S then Inl (Fatal e) else on_fmts (f S) S)" if "\<And>S F. halts (f S F)" for c e f
    using on_fmts_step [of f, OF that] by (auto simp: analyser_step_def good_def)
  show "analyser_step AddNewClass" "analyser_step CreateNewFormat" "analyser_step CreateNewGrouping"
    unfolding AddNewClass_def CreateNewFormat_def CreateNewGrouping_def
    by (intro checked; simp add: AddNewClassInfo_def AddNameList_def SetNewCurrFormat_def SetNewCurrGrouping_def ends)+
  show "analyser_step AddNumField" "analyser_step AddNewField" "analyser_step AddNewFormat" "analyser_step CreateNewSlot" "analyser_step AddInstType"
    "analyser_step AddNewSlot" "analyser_step AddNewGrouping"
    unfolding AddNumField_def AddNewField_def AddNewFormat_def CreateNewSlot_def AddInstType_def AddNewSlot_def AddNewGrouping_def
    by (intro on_fmts_step; simp add: AddNumFieldToCurrField_def AddCurrFieldToCurrFormat_def AddCurrFormatToList_def SetNewCurrSlot_def
        AddInstTypeToCurrSlot_def AddCurrSlotToCurrGrouping_def AddCurrGroupingToList_def ends)+
qed

lemma CreateNewField_step [simp]: "analyser_step CreateNewField"
proof (rule silent_step)
  fix S assume S: "analysing S"
  show "halts (CreateNewField S)" by (auto simp: CreateNewField_def SetNewCurrField_def ends)
  fix S' assume "CreateNewField S = Inr S'"
  then obtain tk T F where S': "AddVar (last_name S) (tables (gs S)) = Inr (tk, T)" "S' = S\<lparr>gs := (gs S)\<lparr>tables := T\<rparr>, fmts := F\<rparr>"
    by (auto simp: CreateNewField_def SetNewCurrField_def bindE_eq_Inr)
  have ok: "gensyn_ok (gs S)" using S by (simp add: analysing_def)
  have "tables_ok T \<and> tables_le (tables (gs S)) T" using S'(1) tables_ok_of [OF ok] AVLadd_result [of "varTable (tables (gs S))"]
    by (auto simp: table_laws tables_le_def bindE_eq_Inr)
  with ok sem_typed_mono [of "tables (gs S)" T] show "stream S' = stream S \<and> atomlu S' = atomlu S \<and> gensyn_ok (gs S')"
    by (auto simp: S' gensyn_ok_def)
qed


lemma with_encoding_step [simp]:
  assumes "\<And>text. analyser_step (f text)"
  shows "analyser_step (with_encoding f)"
  unfolding analyser_step_def
proof (intro allI impI)
  fix S assume S: "analysing S"
  show "good has_kept S (with_encoding f S)"
  proof (cases "GetEncodingInformations S")
    case (Inl e)
    then show ?thesis using GetEncodingInformations_halts [of S] by (simp add: good_def with_encoding_def)
  next
    case (Inr r)
    then obtain t S' where r: "GetEncodingInformations S = Inr (t, S')" by (cases r) simp
    note read = GetEncodingInformations_suffix [OF r] GetEncodingInformations_gs [OF r]
    have "analysing S'" using S read by (auto simp: analysing_def intro: comments_closed_suffix)
    then have "good has_kept S (Inr S')" using read by (simp add: good_def has_kept_def)
    then have "good has_kept S (bindE (Inr S') (f t))"
      by (rule good_bindE [where Q = has_kept]) (use assms in \<open>auto intro: kept_kept simp: analyser_step_def\<close>)
    then show ?thesis by (simp add: with_encoding_def r)
  qed
qed

lemmas lexer_steps [simp] = reading_is_step [OF lex_left_reads] reading_is_step [OF lex_right_reads]

lemma keyword_reads [simp]: "reading_step (ExpectKeywordColumn a)" "reading_step GetNumField" "reading_step CheckColumnEOL"
  by (simp_all add: ExpectKeywordColumn_def GetNumField_def CheckColumnEOL_def)

lemmas keyword_steps [simp] = keyword_reads [THEN reading_is_step]

lemma element_reads [simp]: "reading_step GetFieldElem" "reading_step GetSlotElem"
proof -
  have "reading_step (do_while (run_seq [lex_left True, Expect IDNTER, AddInstType, lex_left True]) (\<lambda>S. atomlu S = COLUMN))" by simp
  from reading_is_step [OF this] show "reading_step GetSlotElem" by (simp add: GetSlotElem_def)
qed (simp add: GetFieldElem_def)

lemmas element_steps [simp] = element_reads [THEN reading_is_step]

lemma lists_read [simp]: "reading_step GetClass" "reading_step GetField" "reading_step GetSlot"
  by (simp_all add: GetClass_def GetField_def GetSlot_def)

lemmas list_steps [simp] = lists_read [THEN reading_is_step]

lemma node_atoms [simp]: "binary XOR_ATOM" "binary CONCAT" "binary SPACE" "binary AND_ATOM" "unary REPEAT" "unary OPTION"
  by (simp_all add: binary_def unary_def)

lemma GetRules_reads [simp]: "reading_step GetRules"
proof -
  have "reading_step (run_seq [lex_left True, Expect IDNTER, on_gs CreateNewNTERM, lex_left True, on_gs (GenDualNodeSem XOR_ATOM)])" by simp
  then have "analyser_step (while_do (\<lambda>S. atomlu S = COMMA)
      (run_seq [lex_left True, Expect IDNTER, on_gs CreateNewNTERM, lex_left True, on_gs (GenDualNodeSem XOR_ATOM)]))"
    by (intro while_do_step) (auto simp: reading_step_def)
  then show ?thesis by (simp add: GetRules_def)
qed

lemma blocks_read [simp]: "reading_step (GetFieldList t)" "reading_step GetSlotList"
  by (cases t; simp add: GetFieldList_def reading_is_step) (simp add: GetSlotList_def)

lemmas block_steps [simp] = blocks_read [THEN reading_is_step] GetRules_reads [THEN reading_is_step]

section \<open>Syntax descriptions\<close>

text \<open>Sequences as outcomes.\<close>

lemma good_seq: "analysing S \<Longrightarrow> analyser_step (run_seq fs) \<Longrightarrow> good has_kept S (run_seq fs S)"
  "analysing S \<Longrightarrow> reading_step (run_seq fs) \<Longrightarrow> good has_read S (run_seq fs S)"
  by (simp_all add: analyser_step_def reading_step_def)

lemma F_rule_step [simp]: "analyser_step F_rule"
  unfolding analyser_step_def
proof (intro allI impI)
  fix S assume S: "analysing S"
  have "good has_kept S (Inr (DisplayErrorMessage S))" using Expect_step(3) [unfolded analyser_step_def] S by blast
  then show "good has_kept S (F_rule S)" using S by (simp add: F_rule_def good_seq del: run_seq.simps split: ATOME.split)
qed

lemma T_rule_body_reads:
  assumes "analysing S" "atomlu S \<in> {SPACE, AND_ATOM, IDNTER, ELTER, UCSTEXP, SCSTEXP, RANGE}"
  shows "good has_read S (T_rule_body S)"
  using assms by (auto simp: T_rule_body_def good_seq analysing_def simp del: run_seq.simps)

lemma T_rule_step [simp]: "analyser_step T_rule"
proof -
  have "analyser_step (while_do (\<lambda>S. atomlu S \<in> {SPACE, AND_ATOM, IDNTER, ELTER, UCSTEXP, SCSTEXP, RANGE}) T_rule_body)"
    by (rule while_do_step) (auto intro: T_rule_body_reads)
  then show ?thesis unfolding T_rule_def by (intro seq_step) simp
qed


lemma StartSyntaxAnalysis_step [simp]: "analyser_step StartSyntaxAnalysis"
  unfolding analyser_step_def
proof (intro allI impI)
  fix S assume S: "analysing S"
  have here: "good has_kept U (Inr U)" if "analysing U" for U using that by (simp add: good_def has_kept_def)
  have gs: "good has_kept U (on_gs f U)" if "keeps_ok f" "analysing U" for f U using on_gs_step [OF that(1), unfolded analyser_step_def] that(2) by blast
  have "good has_kept S (run_seq [lex_right, T_rule, Expect CLOSBRA, lex_left False] S)" using S by (simp add: good_seq del: run_seq.simps)
  then have "good has_kept S (bindE (run_seq [lex_right, T_rule, Expect CLOSBRA, lex_left False] S) (\<lambda>S.
      case atomlu S of STAR \<Rightarrow> run_seq [on_gs (GenModeNodeSem REPEAT), lex_left False] S | LINEN \<Rightarrow> on_gs (GenModeNodeSem OPTION) S | _ \<Rightarrow> Inr S))"
    by (rule good_bindE [where Q = has_kept]) (use here gs in \<open>simp_all add: good_seq kept_kept del: run_seq.simps split: ATOME.split\<close>)
  moreover have "good has_kept S (T_rule S)" using T_rule_step [unfolded analyser_step_def] S by blast
  ultimately show "good has_kept S (StartSyntaxAnalysis S)"
    using S gs by (simp add: StartSyntaxAnalysis_def del: run_seq.simps split: ATOME.split)
qed

lemma GetSyntax_reads [simp]: "reading_step GetSyntax"
  by (simp add: GetSyntax_def)

lemma new_action_step [simp]: "analyser_step (new_action fresh)"
  by (simp add: new_action_def)

lemmas syntax_steps [simp] = GetSyntax_reads [THEN reading_is_step]

section \<open>Grammar files\<close>

lemma enc_steps [simp]: "analyser_step (with_encoding (\<lambda>t. on_enc (AddNewGlobDecl t)))" "analyser_step (with_encoding (\<lambda>t. on_enc (AddNewPort t)))"
  "analyser_step (with_encoding (\<lambda>t. on_enc (AddNewMultiply t)))"
  by (simp_all add: ends)

lemma SyntaxEntry_body_reads:
  assumes "analysing S" "entry_start (atomlu S)"
  shows "good has_read S (SyntaxEntry_body fresh S)"
proof -
  let ?rule = "run_seq [on_gs (\<lambda>G. Inr (InitLexCount G)), ExpectKeywordColumn SYNKEYWORD, GetSyntax, lex_left True,
              ExpectKeywordColumn ACTKEYWORD, new_action fresh, lex_left True, (\<lambda>S. Inr (snd (identifie (atomlu S) SYNKEYWORD S)))]"
  have "reading_step ?rule" by simp
  then have "analyser_step (do_while ?rule (\<lambda>S. atomlu S = SYNKEYWORD))" by (intro reading_is_step do_while_reads) simp_all
  moreover have "good has_read S (Inl (Fatal e))" for e by (simp add: good_def)
  ultimately show ?thesis using assms
    unfolding entry_start_def by (elim insertE emptyE) (simp_all add: SyntaxEntry_body_def good_seq del: run_seq.simps)
qed

lemma SyntaxEntry_reads: "reading_step (SyntaxEntry fresh)"
proof -
  have "analyser_step (while_do (\<lambda>S. entry_start (atomlu S)) (SyntaxEntry_body fresh))"
    by (rule while_do_step) (auto intro: SyntaxEntry_body_reads simp: entry_start_def)
  then show ?thesis by (simp add: SyntaxEntry_def)
qed

lemma new_file: "analysing S \<Longrightarrow> comments_closed file \<Longrightarrow> analysing (SetNoError (S\<lparr>stream := file\<rparr>))"
  by (simp add: analysing_def SetNoError_def gensyn_ok_def)

lemma parse_files_good:
  assumes "\<forall>file \<in> set files. comments_closed file" "analysing S"
  shows "halts (parse_files fresh files S) \<and> (\<forall>S'. parse_files fresh files S = Inr S' \<longrightarrow> analysing S')"
  using assms
proof (induction files arbitrary: S)
  case (Cons f fs)
  have "good has_read (SetNoError (S\<lparr>stream := f\<rparr>)) (SyntaxEntry fresh (SetNoError (S\<lparr>stream := f\<rparr>)))"
    using SyntaxEntry_reads [of fresh, unfolded reading_step_def] Cons.prems new_file by simp
  with Cons show ?case by (auto simp: good_def bindE_eq_Inr)
qed simp

lemma InitParser_analysing: "analysing InitParser"
  by (simp add: InitParser_def analysing_def gensyn_start_ok)


section \<open>The end of \<^verbatim>\<open>main\<close>\<close>

text \<open>The files are read, and then \<^verbatim>\<open>TouteRegleDefinie\<close> decides whether code is written.\<close>

definition main_parse :: "(gensyn \<Rightarrow> s_ACT) \<Rightarrow> string list \<Rightarrow> (bool \<times> generator) outcome" where
  "main_parse fresh files =
     bindE (parse_files fresh files InitParser) (\<lambda>S.
     bindE (TouteRegleDefinie (tables (gs S)) (sem (gs S))) (\<lambda>(complete, errors).
     Inr (complete, S)))"

text \<open>The non-terminals that a tree calls.\<close>

fun calls :: "noeudSEM \<Rightarrow> string set" where
  "calls NULL_SEM = {}"
| "calls (SEM a s e p tk l r) = {x. a = IDNTER \<and> tk = Some (Nonterm_Ref x)} \<union> calls l \<union> calls r"

lemma calls_typed: "sem_typed T t \<Longrightarrow> calls t \<subseteq> set (strings (nontermTable T))"
  by (induction t) (auto simp: leaf_typed_def unary_def binary_def split: if_splits)

lemma main_parse_good:
  assumes "\<forall>file \<in> set files. comments_closed file"
  shows "halts (main_parse fresh files)"
    and "main_parse fresh files = Inr (complete, S) \<Longrightarrow> gensyn_ok (gs S)
      \<and> (complete \<longrightarrow> (\<forall>t \<in> ran (rules (sem (gs S))). \<forall>x \<in> calls t. x \<in> dom (rules (sem (gs S))) \<or> x = ''__GLOBDECL''))"
proof -
  have parse: "halts (parse_files fresh files InitParser)" "parse_files fresh files InitParser = Inr U \<Longrightarrow> gensyn_ok (gs U)" for U
    using parse_files_good [OF assms InitParser_analysing, of fresh] by (auto simp: analysing_def)
  have complete: "TouteRegleDefinie (tables G) (sem G) = Inr (c, errors) \<Longrightarrow>
      c \<longrightarrow> (\<forall>t \<in> ran (rules (sem G)). \<forall>x \<in> calls t. x \<in> dom (rules (sem G)) \<or> x = ''__GLOBDECL'')" if "gensyn_ok G" for G c errors
    using that calls_typed [of "tables G"] TouteRegleDefinie_spec [of "sem G" "tables G"] by (fastforce simp: gensyn_ok_def)
  have "halts (TouteRegleDefinie (tables G) (sem G))" if "gensyn_ok G" for G
    using that TouteRegleDefinie_spec [of "sem G" "tables G"] by (simp add: gensyn_ok_def)
  with parse show "halts (main_parse fresh files)" by (auto simp: main_parse_def)
  assume "main_parse fresh files = Inr (complete, S)"
  then obtain errors where S: "parse_files fresh files InitParser = Inr S" "TouteRegleDefinie (tables (gs S)) (sem (gs S)) = Inr (complete, errors)"
    by (auto simp: main_parse_def bindE_eq_Inr)
  from parse(2) [OF S(1)] complete [OF _ S(2)] show "gensyn_ok (gs S)
      \<and> (complete \<longrightarrow> (\<forall>t \<in> ran (rules (sem (gs S))). \<forall>x \<in> calls t. x \<in> dom (rules (sem (gs S))) \<or> x = ''__GLOBDECL''))" by blast
qed

end
