(* ===== verification/Parser_Ends.thy ===== *)
theory Parser_Ends
  imports Parser_Sound Gensyn_Analysis
begin

text \<open>
  The assembler parser ends on every line when its arrays are not recursive and no repeated node derives the empty text.  The bounds on the depth of the calls and on
  the rounds of the loops that the model of \<^verbatim>\<open>SyntaxAnalysis\<close> has are then never reached.
\<close>

section \<open>Arrays\<close>

text \<open>A node that derives no empty text.  An operand is not counted, since the client may read nothing.\<close>

fun consumes :: "parser_env \<Rightarrow> nat \<Rightarrow> nodeSEM list \<Rightarrow> int \<Rightarrow> bool" where
  "consumes env 0 NS i \<longleftrightarrow> False"
| "consumes env (Suc d) NS i \<longleftrightarrow>
     (case table_read NS i of
        Inl e \<Rightarrow> False
      | Inr row \<Rightarrow>
         (case ns_state row of
            STA_OR \<Rightarrow> consumes env d NS (ns_left row) \<and> consumes env d NS (ns_right row)
          | STA_XOR \<Rightarrow> consumes env d NS (ns_left row) \<and> consumes env d NS (ns_right row)
          | STA_CON \<Rightarrow> consumes env d NS (ns_left row) \<or> consumes env d NS (ns_right row)
          | STA_AND \<Rightarrow> consumes env d NS (ns_left row) \<or> consumes env d NS (ns_right row)
          | STA_SPA \<Rightarrow> consumes env d NS (ns_left row) \<or> consumes env d NS (ns_right row)
          | STA_TER \<Rightarrow> (case table_read (stringTable env) (ns_info row) of Inl e \<Rightarrow> False | Inr s \<Rightarrow> s \<noteq> [])
          | STA_NTR \<Rightarrow> (case table_read (semTable env) (ns_info row) of Inl e \<Rightarrow> False | Inr NS' \<Rightarrow> consumes env d NS' 0)
          | STA_LEX \<Rightarrow> ass_lex (ns_info row) \<notin> {Some LEX_eol, Some LEX_toeol}
          | _ \<Rightarrow> False))"

text \<open>Calls of depth at most \<open>d\<close>, in which what is repeated is not empty.\<close>

fun nested :: "parser_env \<Rightarrow> nat \<Rightarrow> nodeSEM list \<Rightarrow> int \<Rightarrow> bool" where
  "nested env 0 NS i \<longleftrightarrow> False"
| "nested env (Suc d) NS i \<longleftrightarrow>
     (case table_read NS i of
        Inl e \<Rightarrow> True
      | Inr row \<Rightarrow>
         (if ns_state row = STA_OPT then nested env d NS (ns_info row)
          else if ns_state row = STA_REP then nested env d NS (ns_info row) \<and> consumes env d NS (ns_info row)
          else if ns_state row \<in> {STA_OR, STA_XOR, STA_CON, STA_AND, STA_SPA} then nested env d NS (ns_left row) \<and> nested env d NS (ns_right row)
          else if ns_state row = STA_NTR then (case table_read (semTable env) (ns_info row) of Inl e \<Rightarrow> True | Inr NS' \<Rightarrow> nested env d NS' 0)
          else True))"

section \<open>Progress\<close>

lemma blanks_end_le: "k \<le> blanks_end L k"
  by (simp add: blanks_end_def)

lemma between_le: "between s L m m' \<Longrightarrow> m \<le> m'"
  by (cases s) (simp_all add: blanks_end_le)

lemma derives_le: "derives env L NS i b e xs \<Longrightarrow> b \<le> e" and repeats_le: "repeats env L NS k b e xs \<Longrightarrow> b \<le> e"
proof (induction rule: derives_repeats.inducts)
  case (pair NS i row b m xs m' e ys)
  then show ?case using between_le [of "ns_state row" L m m'] by simp
next
  case (rep_more b NS k m xs e ys)
  then show ?case using blanks_end_le [of b L] by simp
qed (simp_all add: lexeme_def)

lemma lexeme_moves:
  assumes "lexeme l L b e t tok" "l \<notin> {LEX_eol, LEX_toeol}"
  shows "b < e"
proof -
  have "b \<noteq> e"
  proof
    assume "b = e"
    with assms show False
      by (cases l) (auto simp: lexeme_def integer_text_def run_text_def label_text_def ident_text_def float_text_def exponent_text_def same_letters_def)
  qed
  with assms(1) show ?thesis by (simp add: lexeme_def)
qed

lemma derives_moves: "derives env L NS i b e xs \<Longrightarrow> consumes env d NS i \<Longrightarrow> b < e"
proof (induction d arbitrary: NS i b e xs)
  case (Suc d)
  from Suc.prems(1) show ?case
  proof cases
    case (pair row m us m' vs)
    then have "consumes env d NS (ns_left row) \<or> consumes env d NS (ns_right row)" using Suc.prems(2) by (cases "ns_state row") simp_all
    with pair Suc.IH [OF pair(3)] Suc.IH [OF pair(5)] derives_le [OF pair(3)] derives_le [OF pair(5)] between_le [OF pair(4)] show ?thesis by auto
  next
    case (lex row l t tok)
    with Suc.prems(2) show ?thesis by (auto intro: lexeme_moves)
  qed (use Suc in auto)
qed simp

section \<open>Steps that always end\<close>

lemma line_ends [ends]: "halts (line_at L k)" "halts (run_while P L k)"
  by (simp_all add: line_at_def run_while_def)

lemma quoted_loop_ends [ends]: "halts (quoted_loop L k)"
proof (induction L k rule: quoted_loop.induct)
  case (1 L k)
  then show ?case by (subst quoted_loop.simps) (simp add: ends)
qed

lemma contexts_end [ends]: "halts (PushContext S)" "halts (PopContext S)" "halts (SetContext c S)" "halts (RestoreContext S)" "halts (SetEncStackIndex st k)"
  by (simp_all add: PushContext_def PopContext_def SetContext_def RestoreContext_def SetEncStackIndex_def split: list.split)

lemma enc_access_ends [ends]: "halts (enc_get st k)" "halts (enc_put st k x)"
  by (simp_all add: enc_get_def enc_put_def)

lemma MoveEncodingInfo_loop_ends: "halts (MoveEncodingInfo_loop st d i e)"
proof (induction st d i e rule: MoveEncodingInfo_loop.induct)
  case (1 st d i e)
  then show ?case by (subst MoveEncodingInfo_loop.simps) (simp add: ends)
qed

lemma GetSumExprSize_loop_ends: "halts (GetSumExprSize_loop st i e s)"
proof (induction st i e s rule: GetSumExprSize_loop.induct)
  case (1 st i e s)
  then show ?case by (subst GetSumExprSize_loop.simps) (simp add: ends)
qed

lemma stack_moves_end [ends]: "halts (MoveEncodingInfo st d i e)" "halts (GetSumExprSizeInEncodingInfo st i e)" "halts (push_action row S)" "halts (push_lexem S)"
  by (auto simp: MoveEncodingInfo_def GetSumExprSizeInEncodingInfo_def MoveEncodingInfo_loop_ends GetSumExprSize_loop_ends push_action_def push_lexem_def push_info_def
      PushEncodingInfo_def ends)

lemma spaces_end [ends]: "halts (SkipSpace S)" "halts (IdentSpace S)" "halts (IdentEOL S)" "halts (IdentString s S)"
  by (auto simp: SkipSpace_def IdentSpace_def IdentEOL_def IdentString_def Let_def ends)

lemma names_end [ends]: "halts (IdentLabel S)" "halts (IdentIdent S)" "halts (IdentAlpha S)" "halts (IdentParam S)" "halts (IdentQuotedString S)"
  by (auto simp: IdentLabel_def label_start_def IdentIdent_def IdentAlpha_def IdentParam_def IdentQuotedString_def Let_def ends split: option.splits)

lemma numbers_end [ends]: "halts (IdentIntegerConstant S)" "halts (IdentFloatConstant S)" "halts (IdentRange lo hi S)"
  by (auto simp: IdentIntegerConstant_def integer_prefix_def IdentFloatConstant_def float_integer_def float_fraction_def float_exponent_def IdentRange_def IdentRange_hex_def
      range_result_def Let_def ends split: option.splits prod.splits)

lemma IdentLexString_ends [ends]: "halts (IdentLexString s S)"
proof (induction s S rule: IdentLexString.induct)
  case (1 s S)
  then show ?case by (subst IdentLexString.simps) (auto simp: ends split: prod.splits)
qed

lemma IdentLexem_ends [ends]: "halts (IdentLexem n S)"
  by (auto simp: IdentLexem_def IdentLexFromTable_def ends split: option.splits PARSER_AssLexT.splits)

lemma operands_end [ends]: "halts (constant_node env row S)" "halts (register_node env row S)" "halts (finish_node row r)"
  by (auto simp: constant_node_def register_node_def finish_node_def Let_def ends split: option.splits prod.splits)

lemma lexem_node_ends [ends]: "halts m \<Longrightarrow> halts (lexem_node m)" "halts m' \<Longrightarrow> halts (silent_node m')"
  by (auto simp: lexem_node_def silent_node_def ends)

section \<open>Nodes\<close>

definition ends_on :: "string \<Rightarrow> (int \<Rightarrow> analyzer \<Rightarrow> attempt) \<Rightarrow> int \<Rightarrow> bool" where
  "ends_on L rec i \<longleftrightarrow> (\<forall>S. ready L S \<longrightarrow> halts (rec i S))"

lemma ends_onD: "ends_on L rec i \<Longrightarrow> ready L S \<Longrightarrow> halts (rec i S)"
  by (simp add: ends_on_def)

lemma pushed_ready: "PushContext S = Inr U \<Longrightarrow> ready L S \<Longrightarrow> ready L U"
  by (auto dest!: pushed simp: ready_def)

lemma opt_node_ends: "ends_on L rec (ns_info row) \<Longrightarrow> ready L S \<Longrightarrow> halts (opt_node rec row S)"
  by (auto simp: opt_node_def ends intro: ends_onD pushed_ready)

lemma xor_node_ends:
  assumes "sound_call env L NS rec" "ends_on L rec (ns_left row)" "ends_on L rec (ns_right row)" "ready L S"
  shows "halts (xor_node rec row S)"
proof -
  have "halts (rec (ns_right row) X)" if "PushContext S = Inr U" "rec (ns_left row) U = Inr (err, V)" "PopContext V = Inr W" "RestoreContext W = Inr X" for U err V W X
  proof -
    note W = popped [OF assms(1,4) that(1-3)]
    have "contextToRestore W = GetContext S" using W(1) by simp
    from restored_context(3) [OF W(2,3) assms(4) this that(4)] assms(3) show ?thesis by (rule ends_onD [rotated])
  qed
  with assms show ?thesis by (auto simp: xor_node_def ends intro: ends_onD pushed_ready)
qed

lemma try_node_ends: "ends_on L rec i \<Longrightarrow> ready L S \<Longrightarrow> halts (try_node rec i S)"
  by (auto simp: try_node_def Let_def ends intro: ends_onD pushed_ready)

lemma select_context_ends [ends]: "halts (select_context error1 error2 base c1 c2 S)"
  by (auto simp: select_context_def choose_both_def take_second_def ends)

lemma or_node_ends:
  assumes "sound_call env L NS rec" "ends_on L rec (ns_left row)" "ends_on L rec (ns_right row)" "ready L S"
  shows "halts (or_node rec row S)"
proof -
  have "ready L (X\<lparr>encStack := st\<rparr>)"
    if "try_node rec (ns_left row) S = Inr (err1, c1, X)" "(if \<not> err1 then SetEncStackIndex (encStack X) (ctx_encStackIndex c1) else Inr (encStack X)) = Inr st" for err1 c1 X st
    using that(2) try_node_sound(2-7) [OF assms(1,4) that(1)] assms(4) by (auto simp: ready_def SetEncStackIndex_def split: if_splits)
  with assms show ?thesis by (auto simp: or_node_def Let_def ends intro!: try_node_ends intro: try_node_sound(2))
qed

lemma pair_node_ends:
  assumes "sound_call env L NS rec" "ends_on L rec (ns_left row)" "ends_on L rec (ns_right row)" "sound_between s L f" "\<And>S. halts (f S)" "ready L S"
  shows "halts (pair_node rec f row S)"
proof -
  have "halts (rec (ns_right row) V)" if "rec (ns_left row) S = Inr (err1, U)" "f U = Inr (err2, V)" for err1 U err2 V
    using ends_onD [OF assms(3)] sound_betweenD(3) [OF assms(4) sound_callD(2) [OF assms(1,6) that(1)] that(2)] .
  with assms show ?thesis by (auto simp: pair_node_def intro: ends_onD)
qed

lemma rep_loop_ends:
  assumes rec: "sound_call env L NS rec" "ends_on L rec (ns_info row)" and moves: "\<And>b e xs. derives env L NS (ns_info row) b e xs \<Longrightarrow> b < e"
    and S: "ready L S" "length L - charIndex S < n"
  shows "halts (rep_loop rec n row S)"
  using S
proof (induction n arbitrary: S)
  case (Suc n)
  have "halts (rec (ns_info row) U')" if "PushContext S = Inr U" "SkipSpace U = Inr U'" for U U'
    using ends_onD [OF rec(2)] SkipSpace_Inr(3) [OF that(2) pushed_ready [OF that(1) Suc.prems(1)]] .
  moreover have "halts (rep_loop rec n row W)"
    if "PushContext S = Inr U" "SkipSpace U = Inr U'" "rec (ns_info row) U' = Inr (False, V)" "PopContext V = Inr W" for U U' V W
  proof -
    note u = SkipSpace_Inr [OF that(2) pushed_ready [OF that(1) Suc.prems(1)]]
    note v = sound_callD [OF rec(1) u(3) that(3)]
    have "charIndex W = charIndex V" "ready L W" using that(4) v(2) by (auto simp: PopContext_def ready_def split: list.splits)
    moreover have "charIndex U' < charIndex V" using moves v(3) by blast
    moreover have "charIndex S \<le> charIndex U'" using u(4) blanks_end_le [of "charIndex U" L] pushed [OF that(1)] by simp
    moreover have "charIndex W \<le> length L" using \<open>ready L W\<close> by (simp add: ready_def)
    ultimately show ?thesis using Suc.prems(2) by (intro Suc.IH) linarith+
  qed
  ultimately show ?case by (auto simp: ends)
qed simp

section \<open>The analysis\<close>

text \<open>The depth bounds the calls, and the length of the line the rounds of a loop.\<close>

lemma node_switch_ends:
  assumes t: "parser_tables env NS" and row: "table_read NS i = Inr row" and d: "nested env (Suc d) NS i" and S: "ready L S" "length L < n"
    and IH: "\<And>NS i. parser_tables env NS \<Longrightarrow> nested env d NS i \<Longrightarrow> ends_on L (SyntaxAnalysis env n NS) i"
  shows "halts (node_switch env (SyntaxAnalysis env n) n NS row S)"
proof -
  note rec = SyntaxAnalysis_sound [OF t, of L n] and IHt = IH [OF t]
  have both: "ends_on L (SyntaxAnalysis env n NS) (ns_left row)" "ends_on L (SyntaxAnalysis env n NS) (ns_right row)"
    if "ns_state row \<in> {STA_OR, STA_XOR, STA_CON, STA_AND, STA_SPA}" using that d row IHt by auto
  show ?thesis
  proof (cases "ns_state row")
    case STA_NTR
    have "halts (SyntaxAnalysis env n NS' 0 S)" if "table_read (semTable env) (ns_info row) = Inr NS'" for NS'
    proof (rule ends_onD [OF IH S(1)])
      show "parser_tables env NS'" using t table_read_mem [OF that] by (auto simp: parser_tables_def)
      show "nested env d NS' 0" using d row STA_NTR that by simp
    qed
    with STA_NTR show ?thesis by (simp add: node_switch_def ends)
  next
    case STA_REP
    have "derives env L NS (ns_info row) b e xs \<Longrightarrow> b < e" for b e xs using d row STA_REP by (auto intro: derives_moves)
    moreover have "ends_on L (SyntaxAnalysis env n NS) (ns_info row)" using d row STA_REP IHt by simp
    ultimately show ?thesis using STA_REP rep_loop_ends [OF rec _ _ S(1), of row n] S(2) by (simp add: node_switch_def ends)
  next
    case STA_OPT
    then show ?thesis using opt_node_ends [OF IHt S(1)] d row by (simp add: node_switch_def ends)
  qed (use both xor_node_ends [OF rec both S(1)] or_node_ends [OF rec both S(1)] pair_node_ends [OF rec both between_con _ S(1)]
      pair_node_ends [OF rec both between_and _ S(1)] pair_node_ends [OF rec both between_spa _ S(1)] in \<open>simp_all add: node_switch_def ends\<close>)
qed

theorem SyntaxAnalysis_ends:
  "parser_tables env NS \<Longrightarrow> nested env d NS i \<Longrightarrow> d + length L < n \<Longrightarrow> ends_on L (SyntaxAnalysis env n NS) i"
proof (induction d arbitrary: n NS i)
  case (Suc d)
  then obtain n' where n: "n = Suc n'" "d + length L < n'" by (cases n) auto
  show ?case unfolding ends_on_def
  proof (intro allI impI)
    fix S assume S: "ready L S"
    have "halts (node_switch env (SyntaxAnalysis env n') n' NS row (start_node S))" if "table_read NS i = Inr row" for row
      by (rule node_switch_ends [OF Suc.prems(1) that Suc.prems(2)]) (use Suc.IH n(2) S in auto)
    then show "halts (SyntaxAnalysis env n NS i S)" by (simp add: n(1) ends)
  qed
qed simp

lemma AnalyzeString_ends:
  assumes t: "parser_tables env (axiom env)" and d: "nested env d (axiom env) 0" and n: "d + length (CopyStringToLine buffer) < n"
  shows "halts (AnalyzeString env n buffer S)"
proof -
  let ?L = "CopyStringToLine buffer"
  let ?I = "InitContextStack (S\<lparr>charIndex := 0, errorIndex := 0, encStack := InitEncodingStack (encStack S), the_line := ?L\<rparr>)"
  have I: "ready ?L ?I" by (simp add: ready_def InitContextStack_def InitEncodingStack_def ENCODING_MAX_SIZE_def CopyStringToLine_no_null)
  have "halts (SyntaxAnalysis env n (axiom env) 0 U)" if "SkipSpace ?I = Inr U" for U
    using ends_onD [OF SyntaxAnalysis_ends [OF t d n] SkipSpace_Inr(3) [OF that I]] .
  then show ?thesis by (auto simp: AnalyzeString_def Let_def ends)
qed

section \<open>More rounds change nothing\<close>

definition refined :: "'a outcome \<Rightarrow> 'a outcome \<Rightarrow> bool" where
  "refined m m' \<longleftrightarrow> (halts m \<longrightarrow> m' = m)"

lemma refined_refl: "refined m m"
  by (simp add: refined_def)

lemma refined_bind: "refined m m' \<Longrightarrow> (\<And>x. refined (f x) (f' x)) \<Longrightarrow> refined (bindE m f) (bindE m' f')"
  by (cases m) (auto simp: refined_def)

lemma refined_pair: "(\<And>x y. p = (x, y) \<Longrightarrow> refined (f x y) (f' x y)) \<Longrightarrow> refined (case_prod f p) (case_prod f' p)"
  by (cases p) simp

lemma refined_if: "refined a a' \<Longrightarrow> refined b b' \<Longrightarrow> refined (if c then a else b) (if c then a' else b')"
  by simp

lemmas refined_rules = refined_bind refined_pair refined_if

lemma rep_loop_refined:
  assumes "\<And>i S. refined (rec i S) (rec' i S)" "n \<le> n'"
  shows "refined (rep_loop rec n row S) (rep_loop rec' n' row S)"
  using assms(2)
proof (induction n arbitrary: n' S)
  case 0
  then show ?case by (simp add: refined_def)
next
  case (Suc n)
  then obtain m where "n' = Suc m" "n \<le> m" by (cases n') auto
  then show ?case by (auto intro!: refined_rules assms(1) Suc.IH intro: refined_refl)
qed

lemma nodes_refined:
  assumes "\<And>i S. refined (rec i S) (rec' i S)"
  shows "refined (opt_node rec row S) (opt_node rec' row S)" "refined (xor_node rec row S) (xor_node rec' row S)"
    and "refined (try_node rec i S) (try_node rec' i S)" "refined (pair_node rec f row S) (pair_node rec' f row S)"
  unfolding opt_node_def xor_node_def try_node_def pair_node_def Let_def by (intro refined_rules assms refined_refl)+

lemma or_node_refined: "(\<And>i S. refined (rec i S) (rec' i S)) \<Longrightarrow> refined (or_node rec row S) (or_node rec' row S)"
  unfolding or_node_def Let_def by (intro refined_rules nodes_refined(3) refined_refl)

lemma node_switch_refined:
  assumes "\<And>NS i S. refined (rec NS i S) (rec' NS i S)" "n \<le> n'"
  shows "refined (node_switch env rec n NS row S) (node_switch env rec' n' NS row S)"
  unfolding node_switch_def silent_node_def
  by (cases "ns_state row"; simp; intro refined_bind refined_refl nodes_refined or_node_refined rep_loop_refined assms)

lemma SyntaxAnalysis_refined: "n \<le> n' \<Longrightarrow> refined (SyntaxAnalysis env n NS i S) (SyntaxAnalysis env n' NS i S)"
proof (induction n arbitrary: n' NS i S)
  case 0
  then show ?case by (simp add: refined_def)
next
  case (Suc n)
  then obtain m where "n' = Suc m" "n \<le> m" by (cases n') auto
  then show ?case by (auto intro!: refined_bind node_switch_refined Suc.IH intro: refined_refl)
qed

lemma AnalyzeString_refined: "n \<le> n' \<Longrightarrow> refined (AnalyzeString env n buffer S) (AnalyzeString env n' buffer S)"
  unfolding AnalyzeString_def Let_def by (intro refined_rules SyntaxAnalysis_refined refined_refl)

end
