(* ===== verification/Parser_Generated.thy ===== *)
theory Parser_Generated
  imports Parser_Ends
begin

text \<open>
  The generated parser and the grammar it is generated from: what the assembler parser accepts with the arrays that the parser generator has written is described by
  the rules that the generator has read.
\<close>

section \<open>The generated file\<close>

text \<open>
  A row as the C compiler reads its initialiser.  The lexer of the generator finds no ranges and no signed constants, so there are no rows of them; a lexeme is a name of the
  enumeration \<^verbatim>\<open>PARSER_AssLexT\<close>, and the other fields are numbers.
\<close>

definition c_state :: "string \<Rightarrow> PARSER_eStateT option" where
  "c_state = map_of [(''OPT'', STA_OPT), (''REP'', STA_REP), (''XOR'', STA_XOR), (''OR'', STA_OR), (''CON'', STA_CON), (''SPA'', STA_SPA), (''AND'', STA_AND),
     (''EXP'', STA_EXP), (''NTR'', STA_NTR), (''TER'', STA_TER), (''UCE'', STA_UCE), (''LEX'', STA_LEX)]"

definition lex_names :: "string list" where
  "lex_names = [''LEX_add_sub_op'', ''LEX_and_op'', ''LEX_cmp_op'', ''LEX_v2_4_6'', ''LEX_pow2_3_16'', ''LEX_mul_shift_op'', ''LEX_ident'', ''LEX_alpha'', ''LEX_int_cst'',
     ''LEX_float_cst'', ''LEX_label'', ''LEX_toeol'', ''LEX_eol'', ''LEX_param'', ''LEX_or_xor_op'', ''LEX_una_op'', ''LEX_quoted_string'']"

definition lex_number :: "string \<Rightarrow> int option" where
  "lex_number s = map_of (zip lex_names (map int [0..<length lex_names])) s"

definition c_info :: "PARSER_nodeSemT \<Rightarrow> int option" where
  "c_info row = (case info row of Text s \<Rightarrow> if state row = ''LEX'' then lex_number s else None | v \<Rightarrow> if state row = ''LEX'' then None else Some (value_of v))"

definition c_row :: "PARSER_nodeSemT \<Rightarrow> nodeSEM option" where
  "c_row row = (case (c_state (state row), c_info row) of
     (Some st, Some v) \<Rightarrow> Some \<lparr>ns_state = st, ns_info = v, ns_encInfo = encInfo row, ns_semInfo = semInfo row\<rparr>
   | _ \<Rightarrow> None)"

definition c_array :: "PARSER_nodeSemT list \<Rightarrow> nodeSEM list \<Rightarrow> bool" where
  "c_array rows NS \<longleftrightarrow> map c_row rows = map Some NS"

text \<open>The array of the rule of a name.\<close>

definition array_of :: "gensyn_tables \<Rightarrow> (string \<rightharpoonup> noeudSEM) \<Rightarrow> string \<Rightarrow> nodeSEM list \<Rightarrow> bool" where
  "array_of T R x NS \<longleftrightarrow> (\<exists>t rows. R x = Some t \<and> represents T rows 0 t \<and> c_array rows NS)"

text \<open>The tables of the generated file: the names of the terminals, and the arrays of the non-terminals, in the order of the tables of the generator.\<close>

definition generated :: "gensyn_tables \<Rightarrow> (string \<rightharpoonup> noeudSEM) \<Rightarrow> parser_env \<Rightarrow> bool" where
  "generated T R env \<longleftrightarrow> stringTable env = strings (termTable T) \<and> list_all2 (array_of T R) (strings (nontermTable T)) (semTable env)
     \<and> length (stringTable env) < 2 ^ 31 \<and> length (semTable env) < 2 ^ 31"

section \<open>What the rules describe\<close>

definition tree_acts :: "int \<Rightarrow> int \<Rightarrow> item list" where
  "tree_acts c p = (if c \<noteq> - 1 then [Act_Item c p] else [])"

definition joined :: "ATOME \<Rightarrow> string \<Rightarrow> nat \<Rightarrow> nat \<Rightarrow> bool" where
  "joined a L m m' \<longleftrightarrow> (case a of
     CONCAT \<Rightarrow> m' = m
   | AND_ATOM \<Rightarrow> m' = blanks_end L m
   | SPACE \<Rightarrow> m' = blanks_end L m \<and> (m < m' \<or> m = length L)
   | _ \<Rightarrow> False)"

text \<open>A tree of a rule describes the text between two indices of a line, with the tokens and the actions of the text.\<close>

inductive describes :: "parser_env \<Rightarrow> (string \<rightharpoonup> noeudSEM) \<Rightarrow> string \<Rightarrow> noeudSEM \<Rightarrow> nat \<Rightarrow> nat \<Rightarrow> item list \<Rightarrow> bool"
  and describes_all :: "parser_env \<Rightarrow> (string \<rightharpoonup> noeudSEM) \<Rightarrow> string \<Rightarrow> noeudSEM \<Rightarrow> nat \<Rightarrow> nat \<Rightarrow> item list \<Rightarrow> bool"
  for env R L where
  present: "describes env R L l b e xs \<Longrightarrow> describes env R L (SEM OPTION s c p tk l r) b e xs"
| absent: "describes env R L (SEM OPTION s c p tk l r) b b (tree_acts c p)"
| repeated: "describes_all env R L l b e xs \<Longrightarrow> describes env R L (SEM REPEAT s c p tk l r) b e xs"
| either: "a \<in> {OR_ATOM, XOR_ATOM} \<Longrightarrow> t \<in> {l, r} \<Longrightarrow> describes env R L t b e xs \<Longrightarrow> describes env R L (SEM a s c p tk l r) b e (xs @ tree_acts c p)"
| both: "joined a L m m' \<Longrightarrow> describes env R L l b m xs \<Longrightarrow> describes env R L r m' e ys \<Longrightarrow> describes env R L (SEM a s c p tk l r) b e (xs @ ys @ tree_acts c p)"
| terminal: "same_letters x (part L b e) \<Longrightarrow> b \<le> e \<Longrightarrow> e \<le> length L \<Longrightarrow> describes env R L (SEM ELTER s c p (Some (Term_Ref x)) l r) b e (tree_acts c p)"
| rule: "R x = Some t \<Longrightarrow> describes env R L t b e xs \<Longrightarrow> describes env R L (SEM IDNTER s c p (Some (Nonterm_Ref x)) l r) b e (xs @ tree_acts c p)"
| lexical: "lex_number (''LEX_'' @ x) = Some k \<Longrightarrow> ass_lex k = Some a \<Longrightarrow> lexeme a L b e t tok \<Longrightarrow>
    describes env R L (SEM LEXEM s c p (Some (Lex_Ref x)) l r) b e (Token_Item t tok 0 0 0 # tree_acts c p)"
| literal: "get_lit_class env x = Some lclass \<Longrightarrow> parse_expression env (drop b L) lclass = v \<Longrightarrow> er_ok v \<Longrightarrow>
    describes env R L (SEM UCSTEXP s c p (Some (Term_Ref x)) l r) b (b + er_read v) (Token_Item CSTEXPR (token_at b (b + er_read v)) (er_value v) lclass 0 # tree_acts c p)"
| register: "get_reg_class env x = Some (rclass, rsclass) \<Longrightarrow> parse_register env (drop b L) rclass rsclass = (True, n, regid) \<Longrightarrow>
    describes env R L (SEM EXPR s c p (Some (Term_Ref x)) l r) b (b + n) (Token_Item REGISTER (token_at b (b + n)) regid rclass rsclass # tree_acts c p)"
| none: "describes_all env R L t b b []"
| more: "b \<noteq> length L \<Longrightarrow> describes env R L t (blanks_end L b) m xs \<Longrightarrow> describes_all env R L t m e ys \<Longrightarrow> describes_all env R L t b e (xs @ ys)"

section \<open>Rows and trees\<close>

lemma c_array_read:
  assumes "c_array rows NS" "table_read NS i = Inr row"
  shows "c_row (rows ! nat i) = Some row" "0 \<le> i" "nat i < length rows"
proof -
  have i: "0 \<le> i" "i < int (length NS)" "row = NS ! nat i" using assms(2) by (auto simp: table_read_def split: if_splits)
  have "length rows = length NS" using assms(1) unfolding c_array_def by (metis length_map)
  with i have n: "nat i < length rows" "nat i < length NS" by simp_all
  with assms(1) i show "c_row (rows ! nat i) = Some row" unfolding c_array_def by (metis nth_map)
  show "0 \<le> i" "nat i < length rows" using i n by simp_all
qed

text \<open>The node of the array at the place of a tree.\<close>

lemma represented_node:
  assumes "c_array rows NS" "table_read NS i = Inr row" "represents T rows i (SEM a s c p tk l r)"
  shows "c_state (state_name a) = Some (ns_state row)" "acts row = tree_acts c p"
    and "unary a \<Longrightarrow> represents T rows (ns_info row) l"
    and "binary a \<Longrightarrow> represents T rows (ns_left row) l" "binary a \<Longrightarrow> represents T rows (ns_right row) r"
    and "indexed a \<Longrightarrow> \<exists>k. GETIND T tk = Inr k \<and> ns_info row = INT32 k"
    and "a = LEXEM \<Longrightarrow> tk = Some (Lex_Ref x) \<Longrightarrow> lex_number (''LEX_'' @ x) = Some (ns_info row)"
proof -
  let ?row = "rows ! nat i"
  have r: "encInfo ?row = c" "semInfo ?row = p" "state ?row = state_name a"
    "if unary a then represents T rows (value_of (info ?row)) l else if binary a then represents T rows (GETLEFTNODE ?row) l \<and> represents T rows (GETRIGHTNODE ?row) r
     else leaf_value T a tk = Inr (info ?row)" using assms(3) by (auto simp: Let_def)
  from c_array_read(1) [OF assms(1,2)] obtain st v where v: "c_state (state ?row) = Some st" "c_info ?row = Some v"
    "row = \<lparr>ns_state = st, ns_info = v, ns_encInfo = c, ns_semInfo = p\<rparr>" using r by (auto simp: c_row_def split: option.splits)
  show "c_state (state_name a) = Some (ns_state row)" "acts row = tree_acts c p" using v r by (simp_all add: acts_def tree_acts_def call_action_def)
  have num: "ns_info row = value_of (info ?row)" if "state_name a \<noteq> ''LEX''" using v(2,3) r(3) that by (auto simp: c_info_def split: c_value.splits)
  show "represents T rows (ns_info row) l" if "unary a" using r(4) num that by (auto simp: unary_def state_name_def)
  show "represents T rows (ns_left row) l" "represents T rows (ns_right row) r" if "binary a"
    using r(4) num that by (auto simp: unary_def binary_def state_name_def ns_left_def ns_right_def GETLEFTNODE_def GETRIGHTNODE_def)
  show "\<exists>k. GETIND T tk = Inr k \<and> ns_info row = INT32 k" if a: "indexed a"
  proof -
    have "\<not> unary a" "\<not> binary a" "state_name a \<noteq> ''LEX''" using a by (auto simp: indexed_def unary_def binary_def state_name_def)
    with r(4) a obtain k where k: "GETIND T tk = Inr k" "info ?row = Dec k" by (auto simp: leaf_value_def bindE_eq_Inr)
    with num \<open>state_name a \<noteq> ''LEX''\<close> show ?thesis by simp
  qed
  show "lex_number (''LEX_'' @ x) = Some (ns_info row)" if "a = LEXEM" "tk = Some (Lex_Ref x)"
    using r v that by (auto simp: unary_def binary_def indexed_def leaf_value_def state_name_def c_info_def split: c_value.splits)
qed

text \<open>The index of a string is its place, when the table has been numbered.\<close>

lemma numbered_index:
  assumes "table_index (fst (assignAVLindex t 0)) s = Inr k"
  shows "0 \<le> k \<and> nat k < length (strings t) \<and> strings t ! nat k = s"
proof -
  let ?t = "fst (assignAVLindex t 0)"
  from assms obtain tk where tk: "find (\<lambda>tk. valStr tk = s) (tokens ?t) = Some tk" "k = indStr tk" by (auto simp: table_index_def split: option.splits)
  then obtain j where j: "j < length (tokens ?t)" "tokens ?t ! j = tk" "valStr tk = s" by (auto simp: find_Some_iff)
  have "length (tokens ?t) = length (strings t)" by (simp add: assignAVLindex_tokens strings_def)
  with j assignAVLindex_nth [of j t] tk(2) show ?thesis by simp
qed

section \<open>The parser accepts what the rules describe\<close>

lemma generated_string:
  assumes "generated (numbered T) R env" "GETIND (numbered T) (Some (Term_Ref x)) = Inr k" "table_read (stringTable env) (INT32 k) = Inr s"
  shows "s = x"
proof -
  have t: "stringTable env = strings (termTable T)" "length (strings (termTable T)) < 2 ^ 31"
    using assms(1) by (auto simp: generated_def numbered_def AssignTermIndex_def AssignNonTermIndex_def)
  have "0 \<le> k" "nat k < length (strings (termTable T))" "strings (termTable T) ! nat k = x"
    using numbered_index [of "termTable T" x k] assms(2) by (simp_all add: numbered_def AssignTermIndex_def AssignNonTermIndex_def)
  with t assms(3) show ?thesis by (auto simp: table_read_def INT32_id split: if_splits)
qed

lemma generated_array:
  assumes "generated (numbered T) R env" "GETIND (numbered T) (Some (Nonterm_Ref x)) = Inr k" "table_read (semTable env) (INT32 k) = Inr NS"
  shows "array_of (numbered T) R x NS"
proof -
  have t: "list_all2 (array_of (numbered T) R) (strings (nontermTable T)) (semTable env)" "length (semTable env) < 2 ^ 31"
    using assms(1) by (auto simp: generated_def numbered_def AssignTermIndex_def AssignNonTermIndex_def)
  have "0 \<le> k" "nat k < length (strings (nontermTable T))" "strings (nontermTable T) ! nat k = x"
    using numbered_index [of "nontermTable T" x k] assms(2) by (simp_all add: numbered_def AssignTermIndex_def AssignNonTermIndex_def)
  with t assms(3) show ?thesis by (auto simp: table_read_def INT32_id list_all2_conv_all_nth split: if_splits)
qed

text \<open>The states and the atoms.\<close>

lemma c_state_cases:
  assumes "c_state (state_name a) = Some st" "sem_typed T (SEM a s c p tk l r)"
  shows "st = STA_OPT \<Longrightarrow> a = OPTION" "st = STA_REP \<Longrightarrow> a = REPEAT" "st \<in> {STA_OR, STA_XOR} \<Longrightarrow> a \<in> {OR_ATOM, XOR_ATOM}"
    "between st L m m' \<Longrightarrow> a \<in> {CONCAT, AND_ATOM, SPACE} \<and> joined a L m m'" "st = STA_TER \<Longrightarrow> a = ELTER" "st = STA_NTR \<Longrightarrow> a = IDNTER"
    "st = STA_UCE \<Longrightarrow> a = UCSTEXP" "st = STA_EXP \<Longrightarrow> a = EXPR" "st = STA_LEX \<Longrightarrow> a = LEXEM \<or> a = EMPTY" "st \<noteq> STA_SCE"
  using assms by (cases a; auto simp: c_state_def state_name_def joined_def unary_def binary_def leaf_typed_def)+

definition rule_ok :: "gensyn_tables \<Rightarrow> noeudSEM \<Rightarrow> bool" where
  "rule_ok T t \<longleftrightarrow> sem_typed T t \<and> \<not> has_empty t"

lemma rule_ok_SEM:
  assumes "rule_ok T (SEM a s c p tk l r)"
  shows "unary a \<Longrightarrow> rule_ok T l" "binary a \<Longrightarrow> rule_ok T l" "binary a \<Longrightarrow> rule_ok T r"
    and "a \<in> {EXPR, ELTER, UCSTEXP} \<Longrightarrow> \<exists>x. tk = Some (Term_Ref x)" "a = IDNTER \<Longrightarrow> \<exists>x. tk = Some (Nonterm_Ref x)" "a = LEXEM \<Longrightarrow> \<exists>x. tk = Some (Lex_Ref x)" "a \<noteq> EMPTY"
  using assms by (auto simp: rule_ok_def leaf_typed_def unary_def binary_def split: if_splits)

text \<open>The tree that a node of an array stands for, by the state of the node.\<close>

definition one_child :: "gensyn_tables \<Rightarrow> PARSER_nodeSemT list \<Rightarrow> int \<Rightarrow> noeudSEM \<Rightarrow> bool" where
  "one_child T rows i l \<longleftrightarrow> represents T rows i l \<and> rule_ok T l"

definition at_index :: "gensyn_tables \<Rightarrow> nodeSEM \<Rightarrow> token_ref \<Rightarrow> bool" where
  "at_index T row ref \<longleftrightarrow> (\<exists>k. GETIND T (Some ref) = Inr k \<and> ns_info row = INT32 k)"

lemma represented_tree:
  assumes NS: "c_array rows NS" "table_read NS i = Inr row" and t: "one_child T rows i t"
  obtains a s c p tk l r where "t = SEM a s c p tk l r" "acts row = tree_acts c p"
    "ns_state row = STA_OPT \<Longrightarrow> a = OPTION \<and> one_child T rows (ns_info row) l" "ns_state row = STA_REP \<Longrightarrow> a = REPEAT \<and> one_child T rows (ns_info row) l"
    "ns_state row \<in> {STA_OR, STA_XOR} \<Longrightarrow> a \<in> {OR_ATOM, XOR_ATOM} \<and> one_child T rows (ns_left row) l \<and> one_child T rows (ns_right row) r"
    "\<And>L m m'. between (ns_state row) L m m' \<Longrightarrow> joined a L m m' \<and> one_child T rows (ns_left row) l \<and> one_child T rows (ns_right row) r"
    "ns_state row = STA_TER \<Longrightarrow> \<exists>x. a = ELTER \<and> tk = Some (Term_Ref x) \<and> at_index T row (Term_Ref x)"
    "ns_state row = STA_NTR \<Longrightarrow> \<exists>x. a = IDNTER \<and> tk = Some (Nonterm_Ref x) \<and> at_index T row (Nonterm_Ref x)"
    "ns_state row \<in> {STA_UCE, STA_SCE} \<Longrightarrow> \<exists>x. a = UCSTEXP \<and> tk = Some (Term_Ref x) \<and> at_index T row (Term_Ref x)"
    "ns_state row = STA_EXP \<Longrightarrow> \<exists>x. a = EXPR \<and> tk = Some (Term_Ref x) \<and> at_index T row (Term_Ref x)"
    "ns_state row = STA_LEX \<Longrightarrow> \<exists>x. a = LEXEM \<and> tk = Some (Lex_Ref x) \<and> lex_number (''LEX_'' @ x) = Some (ns_info row)"
proof -
  from t obtain a s c p tk l r where eq: "t = SEM a s c p tk l r" by (cases t) (simp_all add: one_child_def)
  have rep: "represents T rows i (SEM a s c p tk l r)" and ok: "rule_ok T (SEM a s c p tk l r)" using t by (simp_all only: eq one_child_def)
  note n = represented_node [OF NS rep] and typed = rule_ok_SEM [OF ok]
  note st = c_state_cases [OF n(1) ok [unfolded rule_ok_def, THEN conjunct1]]
  have un: "one_child T rows (ns_info row) l" if "unary a" using n(3) typed(1) that by (simp add: one_child_def)
  have bin: "one_child T rows (ns_left row) l \<and> one_child T rows (ns_right row) r" if "binary a" using n(4,5) typed(2,3) that by (simp add: one_child_def)
  have ind: "tk = Some ref \<Longrightarrow> at_index T row ref" if "indexed a" for ref using n(6) that by (simp add: at_index_def)
  show thesis
  proof (rule that [OF eq n(2)])
    show "a = OPTION \<and> one_child T rows (ns_info row) l" if "ns_state row = STA_OPT" using st(1) [OF that] un by (simp add: unary_def)
    show "a = REPEAT \<and> one_child T rows (ns_info row) l" if "ns_state row = STA_REP" using st(2) [OF that] un by (simp add: unary_def)
    show "a \<in> {OR_ATOM, XOR_ATOM} \<and> one_child T rows (ns_left row) l \<and> one_child T rows (ns_right row) r" if "ns_state row \<in> {STA_OR, STA_XOR}"
      using st(3) [OF that] bin by (auto simp: binary_def)
    show "joined a L m m' \<and> one_child T rows (ns_left row) l \<and> one_child T rows (ns_right row) r" if "between (ns_state row) L m m'" for L m m'
      using st(4) [OF that] bin by (auto simp: binary_def)
    show "\<exists>x. a = ELTER \<and> tk = Some (Term_Ref x) \<and> at_index T row (Term_Ref x)" if "ns_state row = STA_TER" using st(5) [OF that] typed(4) ind by (auto simp: indexed_def)
    show "\<exists>x. a = IDNTER \<and> tk = Some (Nonterm_Ref x) \<and> at_index T row (Nonterm_Ref x)" if "ns_state row = STA_NTR" using st(6) [OF that] typed(5) ind by (auto simp: indexed_def)
    show "\<exists>x. a = UCSTEXP \<and> tk = Some (Term_Ref x) \<and> at_index T row (Term_Ref x)" if "ns_state row \<in> {STA_UCE, STA_SCE}"
      using that st(7,10) typed(4) ind by (auto simp: indexed_def)
    show "\<exists>x. a = EXPR \<and> tk = Some (Term_Ref x) \<and> at_index T row (Term_Ref x)" if "ns_state row = STA_EXP" using st(8) [OF that] typed(4) ind by (auto simp: indexed_def)
    show "\<exists>x. a = LEXEM \<and> tk = Some (Lex_Ref x) \<and> lex_number (''LEX_'' @ x) = Some (ns_info row)" if "ns_state row = STA_LEX"
      using st(9) [OF that] typed(6,7) n(7) by auto
  qed
qed

lemma derives_describes:
  assumes gen: "generated (numbered T) R env" and R: "\<And>x t. R x = Some t \<Longrightarrow> rule_ok (numbered T) t"
  shows "derives env L NS i b e xs \<Longrightarrow> c_array rows NS \<Longrightarrow> one_child (numbered T) rows i t \<Longrightarrow> describes env R L t b e xs"
    and "repeats env L NS k b e xs \<Longrightarrow> c_array rows NS \<Longrightarrow> one_child (numbered T) rows k t \<Longrightarrow> describes_all env R L t b e xs"
proof (induction arbitrary: rows t and rows t rule: derives_repeats.inducts)
  case (opt_some NS i row b e xs)
  with represented_tree [OF opt_some.prems(1) opt_some.hyps(1) opt_some.prems(2)] show ?case by (metis describes_describes_all.present)
next
  case (opt_none NS i row b)
  with represented_tree [OF opt_none.prems(1) opt_none.hyps(1) opt_none.prems(2)] show ?case by (metis describes_describes_all.absent)
next
  case (rep NS i row b e xs)
  with represented_tree [OF rep.prems(1) rep.hyps(1) rep.prems(2)] show ?case by (metis describes_describes_all.repeated)
next
  case (alt_left NS i row b e xs)
  with represented_tree [OF alt_left.prems(1) alt_left.hyps(1) alt_left.prems(2)] show ?case by (metis describes_describes_all.either insertI1)
next
  case (alt_right NS i row b e xs)
  with represented_tree [OF alt_right.prems(1) alt_right.hyps(1) alt_right.prems(2)] show ?case by (metis describes_describes_all.either insertI1 insertI2)
next
  case (pair NS i row b m xs m' e ys)
  with represented_tree [OF pair.prems(1) pair.hyps(1) pair.prems(2)] show ?case by (metis describes_describes_all.both)
next
  case (ter NS i row x b)
  obtain s c p l r y where t: "t = SEM ELTER s c p (Some (Term_Ref y)) l r" "acts row = tree_acts c p" "at_index (numbered T) row (Term_Ref y)"
    by (rule represented_tree [OF ter.prems(1) ter.hyps(1) ter.prems(2)]) (use ter.hyps(2) in blast)
  then have "x = y" using generated_string [OF gen] ter.IH(1) by (auto simp: at_index_def)
  with ter t describes_describes_all.terminal [of y L b "b + length x" env R s c p l r] show ?case by simp
next
  case (ntr NS i row NS' b e xs)
  obtain s c p l r y where t: "t = SEM IDNTER s c p (Some (Nonterm_Ref y)) l r" "acts row = tree_acts c p" "at_index (numbered T) row (Nonterm_Ref y)"
    by (rule represented_tree [OF ntr.prems(1) ntr.hyps(1) ntr.prems(2)]) (use ntr.hyps(2) in blast)
  with generated_array [OF gen, of y _ NS'] ntr(3) obtain t' rows' where t': "R y = Some t'" "represents (numbered T) rows' 0 t'" "c_array rows' NS'"
    by (auto simp: at_index_def array_of_def)
  then have "describes env R L t' b e xs" using ntr.IH(3) [OF t'(3)] R [OF t'(1)] unfolding one_child_def by blast
  with t'(1) show ?case unfolding t(1,2) by (rule describes_describes_all.rule)
next
  case (lex NS i row q b e u tok)
  obtain s c p l r y where t: "t = SEM LEXEM s c p (Some (Lex_Ref y)) l r" "acts row = tree_acts c p" "lex_number (''LEX_'' @ y) = Some (ns_info row)"
    by (rule represented_tree [OF lex.prems(1) lex.hyps(1) lex.prems(2)]) (use lex.hyps(2) in blast)
  from describes_describes_all.lexical [OF t(3) lex(3,4)] show ?case by (simp add: t)
next
  case (cst NS i row x lclass b v)
  obtain s c p l r y where t: "t = SEM UCSTEXP s c p (Some (Term_Ref y)) l r" "acts row = tree_acts c p" "at_index (numbered T) row (Term_Ref y)"
    by (rule represented_tree [OF cst.prems(1) cst.hyps(1) cst.prems(2)]) (use cst.hyps(2) in blast)
  then have "x = y" using generated_string [OF gen] cst.IH(1) by (auto simp: at_index_def)
  with cst t describes_describes_all.literal [of env y lclass b L v] show ?case by simp
next
  case (reg NS i row x rclass rsclass b n regid)
  obtain s c p l r y where t: "t = SEM EXPR s c p (Some (Term_Ref y)) l r" "acts row = tree_acts c p" "at_index (numbered T) row (Term_Ref y)"
    by (rule represented_tree [OF reg.prems(1) reg.hyps(1) reg.prems(2)]) (use reg.hyps(2) in blast)
  then have "x = y" using generated_string [OF gen] reg.IH(1) by (auto simp: at_index_def)
  with reg t describes_describes_all.register [of env y rclass rsclass b L] show ?case by simp
next
  case (rep_none NS k b)
  then show ?case by (simp add: describes_describes_all.none)
next
  case (rep_more b NS k m xs e ys)
  then show ?case by (intro describes_describes_all.more)
qed

lemma c_array_no_ranges: "c_array rows NS \<Longrightarrow> no_ranges NS"
proof -
  assume c: "c_array rows NS"
  have "ns_state row \<noteq> STA_RNG" if "row \<in> set NS" for row
  proof -
    from that c obtain x where "c_row x = Some row" unfolding c_array_def by (metis (no_types, lifting) imageE image_eqI list.set_map)
    then show ?thesis by (auto simp: c_row_def c_state_def split: option.splits if_splits)
  qed
  then show ?thesis by (simp add: no_ranges_def)
qed

lemma generated_tables:
  assumes "generated T R env" "array_of T R x (axiom env)" "client_reads_line env"
  shows "parser_tables env (axiom env)"
  using assms c_array_no_ranges by (fastforce simp: parser_tables_def generated_def array_of_def list_all2_conv_all_nth in_set_conv_nth)

lemma AnalyzeString_described:
  assumes G: "gensyn_ok G" "\<forall>t \<in> ran (rules (sem G)). \<not> has_empty t"
    and gen: "generated (numbered (tables G)) (rules (sem G)) env" "array_of (numbered (tables G)) (rules (sem G)) start (axiom env)" "client_reads_line env"
    and res: "AnalyzeString env n buffer S = Inr (False, S')"
  defines "L \<equiv> CopyStringToLine buffer"
  shows "\<exists>t e. rules (sem G) start = Some t \<and> e \<le> length L \<and> describes env (rules (sem G)) L t (blanks_end L 0) e (seg (encStack S') 0 (enc_size (encStack S')))
    \<and> (\<forall>c \<in> set (drop e L). space_char c)"
proof -
  let ?T = "numbered (tables G)" and ?R = "rules (sem G)"
  have ok: "rule_ok ?T t" if "?R x = Some t" for x t
  proof -
    have "t \<in> ran ?R" using that by (rule ranI)
    with G show ?thesis using sem_typed_mono [OF tables_le_numbered] by (simp add: rule_ok_def gensyn_ok_def)
  qed
  from gen(2) obtain t rows where t: "?R start = Some t" "represents ?T rows 0 t" "c_array rows (axiom env)" by (auto simp: array_of_def)
  from AnalyzeString_derives [OF generated_tables [OF gen] res] obtain e where e: "e \<le> length L"
    "derives env L (axiom env) 0 (blanks_end L 0) e (seg (encStack S') 0 (enc_size (encStack S')))" "\<forall>c \<in> set (drop e L). space_char c" unfolding L_def by blast
  from derives_describes(1) [OF gen(1) ok e(2) t(3)] t(2) ok [OF t(1)] have "describes env ?R L t (blanks_end L 0) e (seg (encStack S') 0 (enc_size (encStack S')))"
    by (simp add: one_child_def)
  with t(1) e(1,3) show ?thesis by blast
qed

section \<open>A sample\<close>

text \<open>A parser of its own: the arrays of \<^verbatim>\<open>add\<close> with a name, and of a list that ends with a register or with that, and a client with one register.\<close>

definition sample_start :: analyzer where
  "sample_start = (let none = \<lparr>str_buf = 0, str_length = 0\<rparr>;
       info = \<lparr>enc_type = LABEL, enc_string = none, main_class = 0, sub_class = 0, is_reloc = 0, sym_id = 0, symop_id = 0, opnd = 0, expr = 0, exprSize = 0, enc_action = 0,
         numToken = 0, enc_index = 0\<rparr> in
     \<lparr>the_line = [], charIndex = 0, errorIndex = 0, idlexType = LABEL, p_expr = 0, p_opnd_value = 0, p_is_reloc = 0, p_symbol_id = 0, p_symop_id = 0, p_main_class = 0,
       p_sub_class = 0, tokenString = none, p_exprSize = 0, newEncInfo = info, encStack = \<lparr>enc_array = (\<lambda>k. info), enc_size = 0\<rparr>, contexts = [],
       contextToRestore = \<lparr>ctx_charIndex = 0, ctx_encStackIndex = 0, ctx_exprSize = 0\<rparr>\<rparr>)"

definition sample_insn :: "nodeSEM list" where
  "sample_insn = [\<lparr>ns_state = STA_AND, ns_info = 65538, ns_encInfo = 0, ns_semInfo = 1\<rparr>, \<lparr>ns_state = STA_TER, ns_info = 0, ns_encInfo = - 1, ns_semInfo = 0\<rparr>,
     \<lparr>ns_state = STA_LEX, ns_info = 6, ns_encInfo = - 1, ns_semInfo = 0\<rparr>]"

definition sample_list :: "nodeSEM list" where
  "sample_list = [\<lparr>ns_state = STA_AND, ns_info = 65539, ns_encInfo = 5, ns_semInfo = 0\<rparr>, \<lparr>ns_state = STA_REP, ns_info = 2, ns_encInfo = - 1, ns_semInfo = 0\<rparr>,
     \<lparr>ns_state = STA_TER, ns_info = 0, ns_encInfo = - 1, ns_semInfo = 0\<rparr>, \<lparr>ns_state = STA_OR, ns_info = 262149, ns_encInfo = - 1, ns_semInfo = 0\<rparr>,
     \<lparr>ns_state = STA_EXP, ns_info = 1, ns_encInfo = 8, ns_semInfo = 1\<rparr>, \<lparr>ns_state = STA_NTR, ns_info = 0, ns_encInfo = - 1, ns_semInfo = 0\<rparr>]"

definition sample_env :: "string list \<Rightarrow> nodeSEM list \<Rightarrow> parser_env" where
  "sample_env ss NS = \<lparr>semTable = [sample_insn], stringTable = ss, axiom = NS, get_lit_class = (\<lambda>x. None), get_reg_class = (\<lambda>x. if x = ''reg'' then Some (1, 2) else None),
     parse_expression = (\<lambda>s c. \<lparr>er_ok = False, er_read = 0, er_is_reloc = 0, er_symbol_id = 0, er_symop_id = 0, er_value = 0, er_expr = 0\<rparr>),
     parse_register = (\<lambda>s c d. if take 2 s = ''r1'' then (True, 2, 1) else (False, 0, 0))\<rparr>"

lemma sample_client: "client_reads_line (sample_env ss NS)"
proof -
  have "2 \<le> length s" if "take 2 s = ''r1''" for s :: string
  proof -
    have "length (take 2 s) = 2" by (simp add: that)
    then show ?thesis by simp
  qed
  then show ?thesis by (simp add: client_reads_line_def sample_env_def)
qed

lemma sample_tables: "parser_tables (sample_env ss sample_list) (axiom (sample_env ss sample_list))"
  by (simp add: parser_tables_def sample_client) (simp add: sample_env_def no_ranges_def sample_insn_def sample_list_def)

end
