(* ===== verification/Parser_Process.thy ===== *)
theory Parser_Process
  imports Parser_Generated
begin

text \<open>
  The entry point of the assembler parser (\<^verbatim>\<open>PARSER_parse\<close> of \<^verbatim>\<open>parser/src/parser.c\<close>): the connected parsers are tried one after the other, and the stack that the first one that accepts
  the line leaves is processed: tokens become parameters, and an action takes its parameters from the top.  The actions are generated code, and the operands that they get are
  made by the client's instruction library, which are both parameters.
\<close>

section \<open>Parsers\<close>

text \<open>The constructors of operands.\<close>

record 'tn air =
  air_new_tn_reg :: "int \<Rightarrow> int \<Rightarrow> int \<Rightarrow> 'tn"
  air_new_tn_reloc :: "int \<Rightarrow> int \<Rightarrow> int \<Rightarrow> int \<Rightarrow> 'tn"
  air_new_tn_imm :: "int \<Rightarrow> 'tn"

text \<open>
  A connected parser: the tables and functions that \<^verbatim>\<open>ExtConnect\<close> gives, what its \<^verbatim>\<open>STRASSInit\<close> makes of \<^verbatim>\<open>STRASS_AXIOM\<close>, and its \<^verbatim>\<open>STRASSEncode\<close>, which may ask for operands and
  appends to the instructions.
\<close>

record ('tn, 'ops) parser_instance =
  pi_env :: parser_env
  pi_init :: "nodeSEM list option \<Rightarrow> nodeSEM list option"
  pi_encode :: "int \<Rightarrow> (int \<Rightarrow> 'tn outcome) \<Rightarrow> 'ops \<Rightarrow> 'ops outcome"

record parser_state =
  ps_analyzer :: analyzer
  STRASS_AXIOM :: "nodeSEM list option"
  paramStack :: s_encodingStack
  numExprProcessed :: int
  popVal :: int

datatype PARSER_ReturnT = PARSER_OK | PARSER_ERR_NOT_SUPPORTED | PARSER_ERR_NONFATAL | PARSER_ERR_FATAL

section \<open>Processing\<close>

definition new_operand :: "'tn air \<Rightarrow> s_encodingInfo \<Rightarrow> 'tn outcome" where
  "new_operand A sEncInfo =
     (case enc_type sEncInfo of
        REGISTER \<Rightarrow> Inr (air_new_tn_reg A (main_class sEncInfo) (sub_class sEncInfo) (UINT32 (opnd sEncInfo)))
      | CSTEXPR \<Rightarrow>
          Inr (if is_reloc sEncInfo \<noteq> 0 then air_new_tn_reloc A (sym_id sEncInfo) (symop_id sEncInfo) (opnd sEncInfo) (expr sEncInfo)
               else air_new_tn_imm A (opnd sEncInfo mod 2 ^ 64))
      | _ \<Rightarrow> Inl (Fatal ''Not treated operand type''))"

definition GetOperand :: "'tn air \<Rightarrow> parser_state \<Rightarrow> int \<Rightarrow> 'tn outcome" where
  "GetOperand A P position = bindE (GetEncInfoIndex (paramStack P) (INT32 (enc_size (paramStack P) - popVal P + position))) (new_operand A)"

definition push_param :: "s_encodingInfo \<Rightarrow> parser_state \<Rightarrow> 'ops \<Rightarrow> (parser_state \<times> 'ops) outcome" where
  "push_param sEncInfo P ops = bindE (PushEncodingInfo (paramStack P) sEncInfo) (\<lambda>st. Inr (P\<lparr>paramStack := st\<rparr>, ops))"

text \<open>The information is the one at index \<open>i\<close> of the stack of the analyser; the number of an expression is written there.\<close>

definition ProcessInfo :: "'tn air \<Rightarrow> ('tn, 'ops) parser_instance \<Rightarrow> int \<Rightarrow> s_encodingInfo \<Rightarrow> parser_state \<times> 'ops \<Rightarrow> (parser_state \<times> 'ops) outcome" where
  "ProcessInfo A p i sEncInfo = (\<lambda>(P, ops).
     (case enc_type sEncInfo of
        ENCODE \<Rightarrow>
          let P = P\<lparr>popVal := numToken sEncInfo\<rparr> in
          bindE (pi_encode p (enc_action sEncInfo) (GetOperand A P) ops) (\<lambda>ops.
          bindE (DecrEncodingStack (paramStack P) (popVal P)) (\<lambda>st. Inr (P\<lparr>paramStack := st\<rparr>, ops)))
      | CSTEXPR \<Rightarrow>
          let sEncInfo = sEncInfo\<lparr>enc_index := numExprProcessed P\<rparr>; S = ps_analyzer P in
          bindE (enc_put (encStack S) i sEncInfo) (\<lambda>st.
          push_param sEncInfo (P\<lparr>numExprProcessed := numExprProcessed P + 1, ps_analyzer := S\<lparr>encStack := st\<rparr>\<rparr>) ops)
      | _ \<Rightarrow> push_param sEncInfo P ops))"

text \<open>The connected parsers in turn, until one accepts the line.\<close>

fun try_parsers :: "('tn, 'ops) parser_instance option list \<Rightarrow> nat \<Rightarrow> string \<Rightarrow> parser_state \<Rightarrow> (('tn, 'ops) parser_instance option \<times> parser_state) outcome" where
  "try_parsers [] n buffer P = Inr (None, P)"
| "try_parsers (None # ps) n buffer P = try_parsers ps n buffer P"
| "try_parsers (Some p # ps) n buffer P =
     (case pi_init p (STRASS_AXIOM P) of
        None \<Rightarrow> Inl (Fatal ''No valid value for AXIOM'')
      | Some NS \<Rightarrow>
          bindE (AnalyzeString ((pi_env p)\<lparr>axiom := NS\<rparr>) n buffer (ps_analyzer P)) (\<lambda>(failed, S).
          let P = P\<lparr>STRASS_AXIOM := Some NS, ps_analyzer := S\<rparr> in
          if failed then try_parsers ps n buffer P else Inr (Some p, P)))"

definition process_all :: "'tn air \<Rightarrow> ('tn, 'ops) parser_instance \<Rightarrow> int \<Rightarrow> int \<Rightarrow> parser_state \<times> 'ops \<Rightarrow> (parser_state \<times> 'ops) outcome" where
  "process_all A p i n = for_loop i n (\<lambda>i (P, ops). bindE (GetEncInfoIndex (encStack (ps_analyzer P)) i) (\<lambda>x. ProcessInfo A p i x (P, ops)))"

definition PARSER_parse :: "'tn air \<Rightarrow> ('tn, 'ops) parser_instance option list \<Rightarrow> nat \<Rightarrow> string \<Rightarrow> parser_state \<Rightarrow> 'ops \<Rightarrow> (PARSER_ReturnT \<times> parser_state \<times> 'ops) outcome" where
  "PARSER_parse A ParserList n buffer P ops =
     bindE (try_parsers ParserList n buffer P) (\<lambda>(found, P).
     case found of
       None \<Rightarrow> Inr (PARSER_ERR_NONFATAL, P, ops)
     | Some p \<Rightarrow>
         let P = P\<lparr>numExprProcessed := 0, paramStack := InitEncodingStack (paramStack P)\<rparr> in
         bindE (process_all A p 0 (enc_size (encStack (ps_analyzer P))) (P, ops)) (\<lambda>(P, ops). Inr (PARSER_OK, P, ops)))"

section \<open>What the actions do\<close>

text \<open>The parameters as a list, of which an action sees the last ones.\<close>

definition operand_from :: "'tn outcome list \<Rightarrow> int \<Rightarrow> int \<Rightarrow> 'tn outcome" where
  "operand_from ts k position =
     (let i = INT32 (int (length ts) - k + position) in
      if 0 \<le> i \<and> i < int (length ts) then ts ! nat i else Inl (Fatal ''Invalid stack index access in GetEncInfoIndex''))"

fun perform :: "'tn air \<Rightarrow> ('tn, 'ops) parser_instance \<Rightarrow> s_encodingInfo list \<Rightarrow> 'tn outcome list \<Rightarrow> 'ops \<Rightarrow> 'ops outcome" where
  "perform A p [] ts ops = Inr ops"
| "perform A p (x # xs) ts ops =
     (if enc_type x = ENCODE then
        bindE (pi_encode p (enc_action x) (operand_from ts (numToken x)) ops) (\<lambda>ops.
        if int (length ts) < numToken x then Inl (Fatal ''Negative encoding stack index in DecrEncodingStack'')
        else perform A p xs (take (length ts - nat (numToken x)) ts) ops)
      else perform A p xs (ts @ [new_operand A x]) ops)"

definition infos :: "s_encodingStack \<Rightarrow> int \<Rightarrow> s_encodingInfo list" where
  "infos st i = map (enc_array st) [nat i..<nat (enc_size st)]"

text \<open>The array of parameters holds the list.\<close>

definition holds :: "'tn air \<Rightarrow> s_encodingStack \<Rightarrow> 'tn outcome list \<Rightarrow> bool" where
  "holds A st ts \<longleftrightarrow> enc_size st = int (length ts) \<and> (\<forall>k < length ts. new_operand A (enc_array st k) = ts ! k)"

lemma holds_operand:
  assumes "holds A (paramStack P) ts" "length ts \<le> nat ENCODING_MAX_SIZE" "popVal P = k"
  shows "GetOperand A P = operand_from ts k"
proof
  fix position
  let ?i = "INT32 (int (length ts) - k + position)"
  have "enc_get (paramStack P) ?i = Inr (enc_array (paramStack P) (nat ?i))" if "0 \<le> ?i" "?i < int (length ts)" using that assms(2) by (simp add: enc_get_def)
  with assms show "GetOperand A P position = operand_from ts k position"
    by (auto simp: GetOperand_def operand_from_def GetEncInfoIndex_def holds_def Let_def)
qed

lemma holds_push:
  assumes "holds A (paramStack P) ts" "length ts < nat ENCODING_MAX_SIZE"
  shows "\<exists>st. push_param x P ops = Inr (P\<lparr>paramStack := st\<rparr>, ops) \<and> holds A st (ts @ [new_operand A x])"
proof -
  have "PushEncodingInfo (paramStack P) x = Inr ((paramStack P)\<lparr>enc_array := (enc_array (paramStack P))(length ts := x), enc_size := int (length ts) + 1\<rparr>)"
    using assms by (simp add: PushEncodingInfo_def enc_put_def holds_def)
  moreover have "holds A ((paramStack P)\<lparr>enc_array := (enc_array (paramStack P))(length ts := x), enc_size := int (length ts) + 1\<rparr>) (ts @ [new_operand A x])"
    using assms(1) by (auto simp: holds_def nth_append less_Suc_eq)
  ultimately show ?thesis by (auto simp: push_param_def)
qed

lemma infos_step: "0 \<le> i \<Longrightarrow> i < enc_size st \<Longrightarrow> infos st i = enc_array st (nat i) # infos st (i + 1)"
  by (simp add: infos_def upt_conv_Cons nat_add_distrib)

lemma infos_done [simp]: "enc_size st \<le> i \<Longrightarrow> infos st i = []"
  by (simp add: infos_def)

lemma process_step:
  assumes "0 \<le> i" "i < enc_size (encStack (ps_analyzer P))" "enc_size (encStack (ps_analyzer P)) \<le> ENCODING_MAX_SIZE"
  shows "process_all A p i (enc_size (encStack (ps_analyzer P))) (P, ops)
    = bindE (ProcessInfo A p i (enc_array (encStack (ps_analyzer P)) (nat i)) (P, ops)) (process_all A p (i + 1) (enc_size (encStack (ps_analyzer P))))"
  using assms by (simp add: process_all_def for_loop_step GetEncInfoIndex_def enc_get_def)

text \<open>A token becomes a parameter, and what is still to be processed stays as it is.\<close>

lemma ProcessInfo_token:
  assumes "enc_type x \<noteq> ENCODE" "holds A (paramStack P) ts" "int (length ts) \<le> i" "0 \<le> i" "i < ENCODING_MAX_SIZE"
  shows "\<exists>P'. ProcessInfo A p i x (P, ops) = Inr (P', ops) \<and> holds A (paramStack P') (ts @ [new_operand A x])
    \<and> enc_size (encStack (ps_analyzer P')) = enc_size (encStack (ps_analyzer P)) \<and> infos (encStack (ps_analyzer P')) (i + 1) = infos (encStack (ps_analyzer P)) (i + 1)"
proof (cases "enc_type x = CSTEXPR")
  have len: "length ts < nat ENCODING_MAX_SIZE" using assms(3,5) by linarith
  case True
  let ?x = "x\<lparr>enc_index := numExprProcessed P\<rparr>" and ?S = "ps_analyzer P"
  let ?P = "P\<lparr>numExprProcessed := numExprProcessed P + 1, ps_analyzer := ?S\<lparr>encStack := (encStack ?S)\<lparr>enc_array := (enc_array (encStack ?S))(nat i := ?x)\<rparr>\<rparr>\<rparr>"
  have "new_operand A ?x = new_operand A x" by (cases "enc_type x") (simp_all add: new_operand_def)
  with holds_push [of A ?P ts ?x ops] assms len obtain st where st: "push_param ?x ?P ops = Inr (?P\<lparr>paramStack := st\<rparr>, ops)" "holds A st (ts @ [new_operand A x])" by auto
  moreover have "ProcessInfo A p i x (P, ops) = push_param ?x ?P ops" using True assms(4,5) by (simp add: ProcessInfo_def enc_put_def Let_def)
  ultimately show ?thesis using assms(4) by (intro exI [of _ "?P\<lparr>paramStack := st\<rparr>"]) (auto simp: infos_def)
next
  have len: "length ts < nat ENCODING_MAX_SIZE" using assms(3,5) by linarith
  case False
  then have "ProcessInfo A p i x (P, ops) = push_param x P ops" using assms(1) by (cases "enc_type x") (simp_all add: ProcessInfo_def)
  with holds_push [of A P ts x ops] assms len obtain st where "ProcessInfo A p i x (P, ops) = Inr (P\<lparr>paramStack := st\<rparr>, ops)" "holds A st (ts @ [new_operand A x])" by auto
  then show ?thesis by (intro exI [of _ "P\<lparr>paramStack := st\<rparr>"]) simp
qed

lemma ProcessInfo_action:
  assumes "enc_type x = ENCODE" "0 \<le> numToken x" "holds A (paramStack P) ts" "length ts \<le> nat ENCODING_MAX_SIZE"
  shows "ProcessInfo A p i x (P, ops) = bindE (pi_encode p (enc_action x) (operand_from ts (numToken x)) ops) (\<lambda>ops.
    if int (length ts) < numToken x then Inl (Fatal ''Negative encoding stack index in DecrEncodingStack'')
    else Inr (P\<lparr>popVal := numToken x, paramStack := (paramStack P)\<lparr>enc_size := int (length ts) - numToken x\<rparr>\<rparr>, ops))"
proof -
  have "GetOperand A (P\<lparr>popVal := numToken x\<rparr>) = operand_from ts (numToken x)" using assms(3,4) by (intro holds_operand) simp_all
  with assms(1,3) show ?thesis by (simp add: ProcessInfo_def DecrEncodingStack_def holds_def Let_def)
qed

lemma process_all_performs:
  assumes "n = enc_size (encStack (ps_analyzer P))" "0 \<le> i" "i \<le> n" "n \<le> ENCODING_MAX_SIZE" "holds A (paramStack P) ts" "int (length ts) \<le> i"
    and "\<forall>x \<in> set (infos (encStack (ps_analyzer P)) i). enc_type x = ENCODE \<longrightarrow> 0 \<le> numToken x"
  shows "bindE (process_all A p i n (P, ops)) (\<lambda>(P, ops). Inr ops) = perform A p (infos (encStack (ps_analyzer P)) i) ts ops"
  using assms
proof (induction "nat (n - i)" arbitrary: i P ts ops)
  case 0
  then show ?case by (simp add: process_all_def)
next
  case (Suc k)
  let ?st = "encStack (ps_analyzer P)"
  let ?x = "enc_array ?st (nat i)"
  have i: "i < n" "k = nat (n - (i + 1))" using Suc.hyps(2) by simp_all
  have split: "infos ?st i = ?x # infos ?st (i + 1)" using Suc.prems i by (intro infos_step) simp_all
  have st: "process_all A p i n (P, ops) = bindE (ProcessInfo A p i ?x (P, ops)) (process_all A p (i + 1) n)"
    using Suc.prems i by (simp add: process_step)
  show ?case
  proof (cases "enc_type ?x = ENCODE")
    case True
    then have "0 \<le> numToken ?x" using Suc.prems(7) split by simp
    note act = ProcessInfo_action [OF True this Suc.prems(5), of p i ops]
    have len: "length ts \<le> nat ENCODING_MAX_SIZE" using Suc.prems(3,4,6) by simp
    let ?P = "P\<lparr>popVal := numToken ?x, paramStack := (paramStack P)\<lparr>enc_size := int (length ts) - numToken ?x\<rparr>\<rparr>"
    have "bindE (process_all A p (i + 1) n (?P, ops')) (\<lambda>(P, ops). Inr ops) = perform A p (infos ?st (i + 1)) (take (length ts - nat (numToken ?x)) ts) ops'"
      if "numToken ?x \<le> int (length ts)" for ops'
    proof -
      have "holds A (paramStack ?P) (take (length ts - nat (numToken ?x)) ts)" using Suc.prems(5) that \<open>0 \<le> numToken ?x\<close> by (auto simp: holds_def)
      with Suc.hyps(1) [OF i(2), of ?P "take (length ts - nat (numToken ?x)) ts" ops'] Suc.prems i split \<open>0 \<le> numToken ?x\<close> show ?thesis by simp
    qed
    with True act len show ?thesis unfolding st split by (cases "pi_encode p (enc_action ?x) (operand_from ts (numToken ?x)) ops") simp_all
  next
    case False
    have "i < ENCODING_MAX_SIZE" using Suc.prems(4) i by simp
    from ProcessInfo_token [OF False Suc.prems(5,6,2) this, of p ops] obtain P' where P': "ProcessInfo A p i ?x (P, ops) = Inr (P', ops)"
      "holds A (paramStack P') (ts @ [new_operand A ?x])" "enc_size (encStack (ps_analyzer P')) = enc_size ?st" "infos (encStack (ps_analyzer P')) (i + 1) = infos ?st (i + 1)" by blast
    with Suc.hyps(1) [OF i(2), of P' "ts @ [new_operand A ?x]" ops] Suc.prems i split False st show ?thesis by simp
  qed
qed

section \<open>Accepted lines\<close>

definition pops :: "item \<Rightarrow> bool" where
  "pops x = (case x of Act_Item c k \<Rightarrow> 0 \<le> k | _ \<Rightarrow> True)"

text \<open>Tables in which no action takes a negative number of parameters.\<close>

definition instance_tables :: "parser_env \<Rightarrow> bool" where
  "instance_tables env \<longleftrightarrow> parser_tables env (axiom env) \<and> (\<forall>NS \<in> insert (axiom env) (set (semTable env)). \<forall>row \<in> set NS. 0 \<le> ns_semInfo row)"

definition instance_ok :: "('tn, 'ops) parser_instance \<Rightarrow> bool" where
  "instance_ok p \<longleftrightarrow> (\<forall>a NS. pi_init p a = Some NS \<longrightarrow> instance_tables ((pi_env p)\<lparr>axiom := NS\<rparr>))"

lemma acts_pops: "table_read NS i = Inr row \<Longrightarrow> \<forall>row \<in> set NS. 0 \<le> ns_semInfo row \<Longrightarrow> list_all pops (acts row)"
  by (auto simp: acts_def pops_def dest: table_read_mem)

lemma derives_pops:
  assumes sem: "\<forall>NS \<in> set (semTable env). \<forall>row \<in> set NS. 0 \<le> ns_semInfo row"
  shows "derives env L NS i b e xs \<Longrightarrow> \<forall>row \<in> set NS. 0 \<le> ns_semInfo row \<Longrightarrow> list_all pops xs"
    and "repeats env L NS k b e xs \<Longrightarrow> \<forall>row \<in> set NS. 0 \<le> ns_semInfo row \<Longrightarrow> list_all pops xs"
proof (induction rule: derives_repeats.inducts)
  case (ntr NS i row NS' b e xs)
  then show ?case using sem table_read_mem [of "semTable env" "ns_info row" NS'] by (auto simp: acts_pops)
qed (auto simp: acts_pops pops_def)

lemma seg_infos: "seg st 0 (enc_size st) = map item_of (infos st 0)"
  by (simp add: seg_def infos_def)

lemma infos_pops:
  assumes "list_all pops (map item_of (infos st 0))"
  shows "\<forall>x \<in> set (infos st 0). enc_type x = ENCODE \<longrightarrow> 0 \<le> numToken x"
proof (intro ballI impI)
  fix x assume x: "x \<in> set (infos st 0)" "enc_type x = ENCODE"
  from assms x(1) have "pops (item_of x)" unfolding list_all_iff by (metis image_eqI list.set_map)
  with x(2) show "0 \<le> numToken x" by (simp add: pops_def item_of_def)
qed

lemma AnalyzeString_size:
  assumes t: "parser_tables env (axiom env)" and res: "AnalyzeString env n buffer S = Inr (False, S')"
  shows "0 \<le> enc_size (encStack S') \<and> enc_size (encStack S') \<le> ENCODING_MAX_SIZE"
proof -
  let ?L = "CopyStringToLine buffer"
  let ?I = "InitContextStack (S\<lparr>charIndex := 0, errorIndex := 0, encStack := InitEncodingStack (encStack S), the_line := ?L\<rparr>)"
  from res obtain U V where U: "SkipSpace ?I = Inr U" and V: "SyntaxAnalysis env n (axiom env) 0 U = Inr (False, V)" and E: "IdentEOL V = Inr (False, S')"
    by (auto simp: AnalyzeString_def Let_def bindE_eq_Inr split: if_splits)
  have "ready ?L ?I" by (simp add: ready_def InitContextStack_def InitEncodingStack_def ENCODING_MAX_SIZE_def CopyStringToLine_no_null)
  from sound_callD(2) [OF SyntaxAnalysis_sound [OF t] SkipSpace_Inr(3) [OF U this] V] E show ?thesis by (auto simp: ready_def IdentEOL_def bindE_eq_Inr)
qed

lemma try_parsers_found:
  "try_parsers ps n buffer P = Inr (Some p, P') \<Longrightarrow>
    \<exists>a NS S. Some p \<in> set ps \<and> pi_init p a = Some NS \<and> AnalyzeString ((pi_env p)\<lparr>axiom := NS\<rparr>) n buffer S = Inr (False, ps_analyzer P')"
proof (induction ps n buffer P rule: try_parsers.induct)
  case (3 q ps n buffer P)
  then obtain NS failed S where NS: "pi_init q (STRASS_AXIOM P) = Some NS" "AnalyzeString ((pi_env q)\<lparr>axiom := NS\<rparr>) n buffer (ps_analyzer P) = Inr (failed, S)"
    "(let P = P\<lparr>STRASS_AXIOM := Some NS, ps_analyzer := S\<rparr> in if failed then try_parsers ps n buffer P else Inr (Some q, P)) = Inr (Some p, P')"
    by (auto simp: bindE_eq_Inr split: option.splits)
  show ?case
  proof (cases failed)
    case True
    with "3.IH" [OF NS(1,2) refl refl True] NS(3) show ?thesis by (auto simp: Let_def)
  next
    case False
    with NS(3) have "q = p" "ps_analyzer P' = S" by (auto simp: Let_def)
    with NS(1,2) False show ?thesis by (auto intro: exI [of _ "STRASS_AXIOM P"])
  qed
qed auto

lemma PARSER_parse_performs:
  assumes ok: "\<forall>p. Some p \<in> set ParserList \<longrightarrow> instance_ok p" and res: "PARSER_parse A ParserList n buffer P ops = Inr (r, P', ops')"
  defines "L \<equiv> CopyStringToLine buffer"
  shows "r = PARSER_ERR_NONFATAL \<and> ops' = ops \<or> r = PARSER_OK \<and> (\<exists>p NS e xs. Some p \<in> set ParserList
    \<and> derives ((pi_env p)\<lparr>axiom := NS\<rparr>) L NS 0 (blanks_end L 0) e (map item_of xs) \<and> (\<forall>c \<in> set (drop e L). space_char c) \<and> perform A p xs [] ops = Inr ops')"
proof -
  from res obtain found Q where Q: "try_parsers ParserList n buffer P = Inr (found, Q)" by (auto simp: PARSER_parse_def bindE_eq_Inr)
  show ?thesis
  proof (cases found)
    case None
    with res Q show ?thesis by (auto simp: PARSER_parse_def)
  next
    case (Some p)
    let ?st = "encStack (ps_analyzer Q)" and ?Q = "Q\<lparr>numExprProcessed := 0, paramStack := InitEncodingStack (paramStack Q)\<rparr>"
    from Q Some try_parsers_found obtain a NS S where p: "Some p \<in> set ParserList" "pi_init p a = Some NS"
      and S: "AnalyzeString ((pi_env p)\<lparr>axiom := NS\<rparr>) n buffer S = Inr (False, ps_analyzer Q)" by blast
    let ?env = "(pi_env p)\<lparr>axiom := NS\<rparr>"
    have t: "parser_tables ?env (axiom ?env)" "\<forall>NS' \<in> insert NS (set (semTable ?env)). \<forall>row \<in> set NS'. 0 \<le> ns_semInfo row"
      using ok p by (auto simp: instance_ok_def instance_tables_def)
    from AnalyzeString_derives [OF t(1) S] obtain e where e: "derives ?env L NS 0 (blanks_end L 0) e (map item_of (infos ?st 0))" "\<forall>c \<in> set (drop e L). space_char c"
      by (auto simp: seg_infos L_def)
    have "list_all pops (map item_of (infos ?st 0))" by (rule derives_pops(1) [OF _ e(1)]) (use t(2) in auto)
    note nonneg = infos_pops [OF this] and sz = AnalyzeString_size [OF t(1) S]
    have r: "r = PARSER_OK" "bindE (process_all A p 0 (enc_size ?st) (?Q, ops)) (\<lambda>(P, ops). Inr ops) = Inr ops'"
      using res Q Some by (auto simp: PARSER_parse_def Let_def bindE_eq_Inr)
    have "holds A (paramStack ?Q) []" by (simp add: holds_def InitEncodingStack_def)
    with process_all_performs [of "enc_size ?st" ?Q 0 A "[]" p ops] r(2) nonneg sz have "perform A p (infos ?st 0) [] ops = Inr ops'" by simp
    with r(1) p(1) e show ?thesis by blast
  qed
qed

section \<open>A sample\<close>

definition sample_air :: "(int \<times> int \<times> int) air" where
  "sample_air = \<lparr>air_new_tn_reg = (\<lambda>c s v. (c, s, v)), air_new_tn_reloc = (\<lambda>a b c d. (- 1, c, d)), air_new_tn_imm = (\<lambda>v. (- 2, 0, v))\<rparr>"

definition sample_instance :: "(int \<times> int \<times> int, (int \<times> (int \<times> int \<times> int) list) list) parser_instance" where
  "sample_instance = \<lparr>pi_env = sample_env [''add'', ''reg''] [], pi_init = (\<lambda>a. Some sample_list),
     pi_encode = (\<lambda>c operand ops. if c = 8 then bindE (operand 0) (\<lambda>t. Inr (ops @ [(c, [t])])) else Inr (ops @ [(c, [])]))\<rparr>"

definition sample_state :: parser_state where
  "sample_state = \<lparr>ps_analyzer = sample_start, STRASS_AXIOM = None, paramStack = encStack sample_start, numExprProcessed = 0, popVal = 0\<rparr>"

lemma sample_instance_ok: "instance_ok sample_instance"
proof -
  have "(sample_env [''add'', ''reg''] [])\<lparr>axiom := sample_list\<rparr> = sample_env [''add'', ''reg''] sample_list" by (simp add: sample_env_def)
  with sample_tables [of "[''add'', ''reg'']"] show ?thesis
    by (auto simp: instance_ok_def instance_tables_def sample_instance_def) (auto simp: sample_env_def sample_list_def sample_insn_def)
qed

end
