(* ===== verification/Spec2Isabelle.thy ===== *)
theory Spec2Isabelle
  imports Bitset_Iterate Bitset_Fused Priority_Queue_Ops Leb128 Omp_Ordered Parser_Process
begin

text \<open>
  Verification of the C core of the Path64 compiler: data structures on which the optimiser rests
  (\<^verbatim>\<open>src/src/common/util\<close>), the LEB128 codecs of the object-file tools (\<^verbatim>\<open>src/src/libelfutil\<close>), the loop scheduler of the OpenMP run time
  (\<^verbatim>\<open>src/src/libopenmp\<close>) and the assembler parser with the generator of its tables (\<^verbatim>\<open>src/src/common/targ_info/parser\<close>).

  \<^bold>\<open>The program.\<close>  The back end keeps its data-flow facts in bit sets and its work lists in priority queues; both
  allocate from memory pools.  The writers and readers of debugging information encode numbers in LEB128.  A program compiled with OpenMP calls the
  run time for the iterations of its parallel loops.  The parser generator reads the syntax of an instruction set and writes tables, which the assembler
  parser interprets.

  \<^bold>\<open>The theories.\<close>
  \<^item> \<open>Path64_Prelude\<close>: results of computations that may fail (\<open>outcome\<close>, \<open>bindE\<close>; a failed assertion, a fatal error and an access out of
    bounds or through a null pointer are values), total correctness (\<open>returnsE\<close>), counting loops, C's division, conversions to 32-bit integers and printing, and
    lemmas on words and bits.
  \<^item> \<open>Mempool\<close>: the allocation macros of \<^verbatim>\<open>mempool.h\<close>.
  \<^item> \<open>Bitset_Rep\<close>, \<open>Bitset_Create\<close>, \<open>Bitset_Choose\<close>, \<open>Bitset_Ops\<close>, \<open>Bitset_Fused\<close>, \<open>Bitset_Test\<close>, \<open>Bitset_Iterate\<close>: all of \<^verbatim>\<open>bitset.c\<close>.  The record \<open>BS\<close> is the array of words with its length
    word; \<open>BS_ok\<close> is the invariant and \<open>BS_elems\<close> the abstraction to a set of integers.  Each operation is refined to its
    set operation.  Some routines work on words and on bytes of the same memory, in the byte order of a little-endian host.  The locale
    \<open>member_iterator\<close> is the contract of the documented iteration loops, interpreted for a set and for the intersection of two.
  \<^item> \<open>Priority_Queue\<close>, \<open>Priority_Queue_Ops\<close>: all of \<^verbatim>\<open>priority_queue.c\<close>.  The record \<open>PRQ\<close> is the heap with the
    functions of the client; \<open>PRQ_invar\<close> is the heap invariant and \<open>PRQ_elements\<close> the multiset of elements.  The locale \<open>priority_queue\<close> is the
    abstract queue, in which filling and emptying a queue is shown to sort.
  \<^item> \<open>Leb128\<close>: the eight encoders and decoders, at their widths.  \<open>uleb\<close>, \<open>sleb\<close>, \<open>uleb_value\<close> and \<open>sleb_value\<close> are the
    algorithms of the DWARF document on unbounded numbers.
  \<^item> \<open>Omp_Loop\<close>, \<open>Omp_Static\<close>, \<open>Omp_Schedule\<close>, \<open>Omp_Dynamic\<close>, \<open>Omp_Next\<close>, \<open>Omp_Ordered\<close>: \<^verbatim>\<open>schedule.c\<close> and \<^verbatim>\<open>loop.c\<close>.  \<open>pmp_loop\<close>, \<open>pmp_thread\<close> and \<open>pmp_param\<close>
    are the structures of the same names, as far as scheduling uses them.  Static scheduling is a function of the thread; dynamic and guided
    scheduling are the relation \<open>omp_step\<close>, whose steps are the accesses of the threads to the shared loop, with the invariants \<open>omp_team\<close> and \<open>omp_inv\<close>
    and the measure \<open>omp_rank\<close>; ordered regions are the relation \<open>ordered_step\<close> of threads that wait for their tickets.  \<open>Ranked_Steps\<close> is the locale of step relations with an
    invariant and a measure, interpreted for both.
  \<^item> \<open>Gensyn_Avl\<close>, \<open>Gensyn_Table\<close>: \<^verbatim>\<open>avl.c\<close> and \<^verbatim>\<open>table.c\<close>, the string tables.  \<open>AVL_invar\<close> is the invariant of the trees and \<open>strings\<close> their contents in order.  The locale
    \<open>string_table\<close> is the contract of a table, interpreted for the tree and for the four tables of the generator.
  \<^item> \<open>Gensyn_Arbsem\<close>, \<open>Gensyn_Nodes\<close>: \<^verbatim>\<open>arbsem.c\<close>.  A rule is a tree of type \<open>noeudSEM\<close>; the sorted array of rules is the map \<open>rules\<close>; \<open>represents\<close> says that an
    array of \<^verbatim>\<open>PARSER_nodeSemT\<close> holds a tree, read with the macros of \<^verbatim>\<open>parser/inc/analyzer.h\<close>.
  \<^item> \<open>Gensyn_Actions\<close>, \<open>Gensyn_Formats\<close>: the actions of \<^verbatim>\<open>action0.c\<close>, with \<^verbatim>\<open>encinfo.c\<close>, \<^verbatim>\<open>lname.c\<close>, \<^verbatim>\<open>format.c\<close> and \<^verbatim>\<open>groups.c\<close>.  The record \<open>gensyn\<close> is the state that they change and
    \<open>gensyn_ok\<close> its invariant.
  \<^item> \<open>Gensyn_Lexer\<close>, \<open>Gensyn_Syntax\<close>, \<open>Gensyn_Analysis\<close>: the lexer \<^verbatim>\<open>analex0.c\<close> and the syntax analyser \<^verbatim>\<open>anasynt0.c\<close>, with its \<^verbatim>\<open>main\<close>.  The record \<open>generator\<close> adds the input to the state of the
    actions; the functions of the analyser are sequences and loops of steps.  \<open>analyser_step\<close> and \<open>reading_step\<close> say what a step keeps and that it reads, from which the loops are shown to end.
  \<^item> \<open>Parser_Stack\<close>, \<open>Parser_Lexemes\<close>, \<open>Parser_Analyzer\<close>: the assembler parser, \<^verbatim>\<open>parser/src/opndstck.c\<close>, \<^verbatim>\<open>ctxstck.c\<close> and \<^verbatim>\<open>analyzer.c\<close>.  The record \<open>analyzer\<close> is the global state; a pointer into
    the line is an index.  \<open>parser_env\<close> has the tables of the generated file and the functions of the client, which parses registers and expressions.  The code is that of the build for the GNU assembler (\<^verbatim>\<open>_FOR_GAS\<close>).
  \<^item> \<open>Parser_Grammar\<close>, \<open>Parser_Lexing\<close>, \<open>Parser_Sound\<close>, \<open>Parser_Ends\<close>: \<open>derives\<close> is what the arrays mean, without contexts and stacks; the recognisers find the lexemes of that meaning, every node of
    \<^verbatim>\<open>SyntaxAnalysis\<close> keeps what was on the stack (\<open>kept\<close>) and adds the items of a derivation, and arrays of finite depth (\<open>nested\<close>) make it end.
  \<^item> \<open>Parser_Generated\<close>: \<open>generated\<close> says that the tables of the parser are those that the generator has written; \<open>describes\<close> is what the trees of the rules mean.
  \<^item> \<open>Parser_Process\<close>: \<^verbatim>\<open>PARSER_parse\<close> of \<^verbatim>\<open>parser.c\<close>, which tries the connected parsers and processes the stack of the one that accepts; \<open>perform\<close> is what the actions do, on a list of operands.

  \<^bold>\<open>The properties.\<close>  C1 to C13: the bit sets are sets, whatever their storage; the iteration loops end; the misuses that are
  caught and those that are not.  C14 to C18: the priority queue is a priority queue.  C19 to C22: LEB128 round trips, equivalence of the unrolled decoders with the
  loop, shortest encodings.  C23 to C29: every iteration of a parallel loop is executed exactly once, and every run of the scheduler ends.  C30 to C32: ordered regions are
  executed in order, and when they hang.  C33 to C36: the tables of the parser generator, that it ends on every grammar, and that what it writes is what the parser reads.  C37 to
  C40: what the assembler parser accepts is derived by its arrays, and described by the grammar when the arrays are generated; it ends; and it performs the actions of what it has accepted.

  \<^bold>\<open>Bounds.\<close>  Lengths and elements of bit sets and indices of queues are \<^verbatim>\<open>INT32\<close>, with the conversions where the source has them; the
  properties hold for elements below \<open>2 ^ 30\<close> and queues below \<open>2 ^ 30\<close> elements, beyond which the index arithmetic of the code overflows.
  The LEB128 routines work on words.  Loop bounds of the OpenMP run time are \<^verbatim>\<open>int64_t\<close> in the source and integers here: the source assumes
  that they do not overflow.  Rules of the parser generator have at most \<open>2 ^ 15\<close> nodes, and strings fewer than 256 characters; counters of table entries are integers.  Two functions have fuel: \<open>schedule_all\<close>, which repeats the calls
  of a thread, and C29 says how much is enough; and \<open>SyntaxAnalysis\<close>, which calls itself on arrays that may be recursive, and C38 says how much is enough.  Every other loop of the code has a termination proof.

  \<^bold>\<open>Not modelled.\<close>  Pointers and aliasing: a set, a queue or a tree is a value, and an operation that updates its argument returns the
  new value; results are not claimed for calls whose arguments overlap other than as the code says.  The block lists of \<^verbatim>\<open>memory.c\<close>: an allocation gives memory of
  the size asked for, with arbitrary content unless the pool zeroes it.  Of the OpenMP run time, the waiting loops of \<^verbatim>\<open>__pmp_loop_alloc\<close>, profiling,
  teams, locks and threads; the schedules are verified for a loop that all threads have reached.  Of the parser generator, its command line, and how it writes formats, groupings, classes
  and encoding actions, with the fixed text of \<^verbatim>\<open>GenCode\<close>.  Of the assembler parser, the connection of extensions and the debugging output; the generated actions, the library of instructions and the
  functions of its client are parameters, and C37, C39 and C40 assume of the client that it reads no more than the text that it is given.  The converse of C37 does not hold: a repeated node takes all that it can, so a
  derivation that repeats it less often is not found.  The rest of the compiler: the C++ back end,
  the front ends, the driver, the Fortran run-time libraries, and the third-party code in the tree (the GNU compiler, ELF and DWARF libraries).
\<close>

section \<open>Bit sets\<close>

text \<open>
  C1.  \<^verbatim>\<open>BS_RangeD\<close> returns, for a well-formed set, a well-formed set with exactly the elements
  \<open>low .. high\<close>, growing the set when it has a pool to do so; no byte or word is accessed out of bounds.
\<close>

theorem BS_RangeD_correct:
  assumes "BS_ok bs" "0 \<le> low" "low \<le> high + 1" "high < 2 ^ 30"
    and "pool \<noteq> Bad_Pool \<or> high < 32 * BS_word_count bs"
  shows "returnsE (BS_RangeD bs low high pool)
           (\<lambda>r. BS_ok r \<and> BS_elems r = {low..high} \<and> BS_word_count bs \<le> BS_word_count r)"
  using BS_RangeD_spec [OF assms] by (simp add: BS_is_def)

theorem BS_RangeD_correct_witness:
  "returnsE (BS_RangeD \<lparr>BS_word_count = 1, BS_words = [5]\<rparr> 3 70 (Mem_Pool False (\<lambda>n. 7)))
     (\<lambda>r. BS_ok r \<and> BS_elems r = {3..70} \<and> 1 \<le> BS_word_count r)"
  using BS_RangeD_correct [of "\<lparr>BS_word_count = 1, BS_words = [5]\<rparr>" 3 70 "Mem_Pool False (\<lambda>n. 7)"]
  by (simp add: BS_ok_def)

text \<open>
  C2.  The loop \<^verbatim>\<open>for (elt = BS_Choose(set); elt != BS_CHOOSE_FAILURE; elt = BS_Choose_Next(set, elt))\<close> ends after one round
  for each member and visits the members in increasing order, each once; the loop with
  \<^verbatim>\<open>BS_Intersection_Choose\<close> and \<^verbatim>\<open>BS_Intersection_Choose_Next\<close> does so for the members of an intersection.
\<close>

theorem BS_Choose_loop:
  assumes "BS_ok set1" "BS_ok set2"
  shows "members.visit (card (BS_elems set1)) set1 = Inr (sorted_list_of_set (BS_elems set1))
    \<and> common.visit (card (BS_elems set1 \<inter> BS_elems set2)) (set1, set2)
           = Inr (sorted_list_of_set (BS_elems set1 \<inter> BS_elems set2))"
  using members.visit_sorted [OF assms(1) order_refl] common.visit_sorted [of "(set1, set2)", OF _ order_refl] assms
  by simp

theorem BS_Choose_loop_witness:
  "(let set1 = \<lparr>BS_word_count = 1, BS_words = [13]\<rparr>; set2 = \<lparr>BS_word_count = 2, BS_words = [7, 1]\<rparr> in
    members.visit (card (BS_elems set1)) set1 = Inr (sorted_list_of_set (BS_elems set1))
    \<and> common.visit (card (BS_elems set1 \<inter> BS_elems set2)) (set1, set2)
           = Inr (sorted_list_of_set (BS_elems set1 \<inter> BS_elems set2)))"
  using BS_Choose_loop [of "\<lparr>BS_word_count = 1, BS_words = [13]\<rparr>" "\<lparr>BS_word_count = 2, BS_words = [7, 1]\<rparr>"]
  by (simp add: BS_ok_def)

text \<open>
  C3.  The operations that build a new set from two sets, whatever their sizes, refine the operations on sets of
  integers: difference, intersection and union.
\<close>

theorem BS_binary_operations:
  assumes "BS_ok set1" "BS_ok set2" "pool \<noteq> Bad_Pool"
  shows "returnsE (BS_Difference set1 set2 pool) (\<lambda>r. BS_ok r \<and> BS_elems r = BS_elems set1 - BS_elems set2)
    \<and> returnsE (BS_Intersection set1 set2 pool) (\<lambda>r. BS_ok r \<and> BS_elems r = BS_elems set1 \<inter> BS_elems set2)
    \<and> returnsE (BS_Union set1 set2 pool) (\<lambda>r. BS_ok r \<and> BS_elems r = BS_elems set1 \<union> BS_elems set2)"
  using BS_Difference_spec [OF assms] BS_Intersection_spec [OF assms] BS_Union_spec [OF assms] by (simp add: BS_is_def)

theorem BS_binary_operations_witness:
  "(let set1 = \<lparr>BS_word_count = 1, BS_words = [13]\<rparr>; set2 = \<lparr>BS_word_count = 2, BS_words = [7, 1]\<rparr>;
        pool = Mem_Pool False (\<lambda>n. 99) in
    returnsE (BS_Difference set1 set2 pool) (\<lambda>r. BS_ok r \<and> BS_elems r = BS_elems set1 - BS_elems set2)
    \<and> returnsE (BS_Intersection set1 set2 pool) (\<lambda>r. BS_ok r \<and> BS_elems r = BS_elems set1 \<inter> BS_elems set2)
    \<and> returnsE (BS_Union set1 set2 pool) (\<lambda>r. BS_ok r \<and> BS_elems r = BS_elems set1 \<union> BS_elems set2))"
  using BS_binary_operations [of "\<lparr>BS_word_count = 1, BS_words = [13]\<rparr>" "\<lparr>BS_word_count = 2, BS_words = [7, 1]\<rparr>"
      "Mem_Pool False (\<lambda>n. 99)"]
  by (simp add: BS_ok_def)

text \<open>
  C4.  The destructive operations give the set that the operation on sets of integers gives;
  \<^verbatim>\<open>BS_UnionD\<close> and \<^verbatim>\<open>BS_UnionD_Intersection\<close> grow their first argument when it is too small, and never shrink it.
\<close>

theorem BS_destructive_operations:
  assumes "BS_ok set1" "BS_ok set2" "BS_ok set3" "pool \<noteq> Bad_Pool" "BS_word_count set2 \<le> 2 ^ 25"
  shows "returnsE (BS_DifferenceD set1 set2) (\<lambda>r. BS_ok r \<and> BS_elems r = BS_elems set1 - BS_elems set2)
    \<and> returnsE (BS_IntersectionD set1 set2) (\<lambda>r. BS_ok r \<and> BS_elems r = BS_elems set1 \<inter> BS_elems set2)
    \<and> returnsE (BS_UnionD set1 set2 pool) (\<lambda>r. BS_ok r \<and> BS_elems r = BS_elems set1 \<union> BS_elems set2
        \<and> BS_word_count set1 \<le> BS_word_count r)
    \<and> returnsE (BS_UnionD_Intersection set1 set2 set3 pool) (\<lambda>r. BS_ok r
        \<and> BS_elems r = BS_elems set1 \<union> (BS_elems set2 \<inter> BS_elems set3) \<and> BS_word_count set1 \<le> BS_word_count r)"
proof (intro conjI)
  show "returnsE (BS_DifferenceD set1 set2) (\<lambda>r. BS_ok r \<and> BS_elems r = BS_elems set1 - BS_elems set2)"
    by (rule returnsE_mono [OF BS_DifferenceD_spec [OF assms(1,2)]]) (simp add: BS_is_def)
  show "returnsE (BS_IntersectionD set1 set2) (\<lambda>r. BS_ok r \<and> BS_elems r = BS_elems set1 \<inter> BS_elems set2)"
    by (rule returnsE_mono [OF BS_IntersectionD_spec [OF assms(1,2)]]) (simp add: BS_is_def)
  show "returnsE (BS_UnionD set1 set2 pool) (\<lambda>r. BS_ok r \<and> BS_elems r = BS_elems set1 \<union> BS_elems set2
      \<and> BS_word_count set1 \<le> BS_word_count r)"
    using BS_UnionD_spec [of set1 set2 pool] assms by (simp add: BS_is_def conj_assoc)
  show "returnsE (BS_UnionD_Intersection set1 set2 set3 pool) (\<lambda>r. BS_ok r
      \<and> BS_elems r = BS_elems set1 \<union> (BS_elems set2 \<inter> BS_elems set3) \<and> BS_word_count set1 \<le> BS_word_count r)"
    using BS_UnionD_Intersection_spec [of set1 set2 set3 pool] assms by (simp add: BS_is_def conj_assoc min_le_iff_disj)
qed

theorem BS_destructive_operations_witness:
  "(let set1 = \<lparr>BS_word_count = 1, BS_words = [13]\<rparr>; set2 = \<lparr>BS_word_count = 2, BS_words = [7, 1]\<rparr>;
        set3 = \<lparr>BS_word_count = 3, BS_words = [0, 1, 6]\<rparr>; pool = Mem_Pool False (\<lambda>n. 99) in
    returnsE (BS_DifferenceD set1 set2) (\<lambda>r. BS_ok r \<and> BS_elems r = BS_elems set1 - BS_elems set2)
    \<and> returnsE (BS_UnionD_Intersection set1 set2 set3 pool) (\<lambda>r. BS_ok r
        \<and> BS_elems r = BS_elems set1 \<union> (BS_elems set2 \<inter> BS_elems set3) \<and> 1 \<le> BS_word_count r))"
  using BS_destructive_operations [of "\<lparr>BS_word_count = 1, BS_words = [13]\<rparr>" "\<lparr>BS_word_count = 2, BS_words = [7, 1]\<rparr>"
      "\<lparr>BS_word_count = 3, BS_words = [0, 1, 6]\<rparr>" "Mem_Pool False (\<lambda>n. 99)"]
  by (simp add: BS_ok_def)

text \<open>C5.  \<^verbatim>\<open>BS_Size\<close>, which adds table entries byte by byte, is the number of members.\<close>

theorem BS_Size_is_card:
  assumes "BS_ok bs"
  shows "BS_Size bs = Inr (int (card (BS_elems bs)))"
  using assms by (rule BS_Size_spec)

theorem BS_Size_is_card_witness:
  "BS_Size \<lparr>BS_word_count = 2, BS_words = [7, 0x80000001]\<rparr>
     = Inr (int (card (BS_elems \<lparr>BS_word_count = 2, BS_words = [7, 0x80000001]\<rparr>)))"
  using BS_Size_is_card [of "\<lparr>BS_word_count = 2, BS_words = [7, 0x80000001]\<rparr>"] by (simp add: BS_ok_def)

text \<open>
  C6.  The predicates decide emptiness, inclusion, equality, intersection and membership of the sets of integers, for
  sets of any sizes, and so do not depend on the storage that two representations of a set have.
\<close>

theorem BS_predicates_decide:
  assumes "BS_ok set1" "BS_ok set2" "0 \<le> x" "x < 2 ^ 31"
  shows "BS_EmptyP set1 = Inr (BS_elems set1 = {})
    \<and> BS_ContainsP set1 set2 = Inr (BS_elems set2 \<subseteq> BS_elems set1)
    \<and> BS_EqualP set1 set2 = Inr (BS_elems set1 = BS_elems set2)
    \<and> BS_IntersectsP set1 set2 = Inr (BS_elems set1 \<inter> BS_elems set2 \<noteq> {})
    \<and> BS_MemberP set1 x = Inr (x \<in> BS_elems set1)
    \<and> BS_Intersection_MemberP set1 set2 x = Inr (x \<in> BS_elems set1 \<inter> BS_elems set2)"
  using assms by (simp add: BS_EmptyP_spec BS_ContainsP_spec BS_EqualP_spec BS_IntersectsP_spec BS_MemberP_spec
      BS_Intersection_MemberP_spec)

theorem BS_predicates_decide_witness:
  "(let set1 = \<lparr>BS_word_count = 1, BS_words = [13]\<rparr>; set2 = \<lparr>BS_word_count = 2, BS_words = [13, 0]\<rparr> in
    BS_EqualP set1 set2 = Inr (BS_elems set1 = BS_elems set2) \<and> BS_MemberP set1 3 = Inr (3 \<in> BS_elems set1))"
  using BS_predicates_decide [of "\<lparr>BS_word_count = 1, BS_words = [13]\<rparr>" "\<lparr>BS_word_count = 2, BS_words = [13, 0]\<rparr>" 3]
  by (simp add: BS_ok_def)

text \<open>
  C7.  Insert and look up: after \<^verbatim>\<open>BS_Union1D\<close> of \<open>x\<close>, \<^verbatim>\<open>BS_MemberP\<close> answers yes for \<open>x\<close> and as before for any other
  element; \<^verbatim>\<open>BS_Difference1D\<close> of \<open>x\<close> after that gives back the members other than \<open>x\<close>.
\<close>

theorem BS_insert_lookup:
  assumes "BS_ok bs" "0 \<le> x" "x < 2 ^ 30" "0 \<le> y" "y < 2 ^ 31" "pool \<noteq> Bad_Pool"
  shows "bindE (BS_Union1D bs x pool) (\<lambda>bs. BS_MemberP bs y) = (if y = x then Inr True else BS_MemberP bs y)
    \<and> returnsE (bindE (BS_Union1D bs x pool) (\<lambda>bs. BS_Difference1D bs x)) (\<lambda>r. BS_ok r \<and> BS_elems r = BS_elems bs - {x})"
proof -
  obtain r where r: "BS_Union1D bs x pool = Inr r" "BS_ok r" "BS_elems r = insert x (BS_elems bs)"
    using BS_Union1D_spec [of bs x pool] assms by (auto simp: BS_is_def elim: returnsE_E)
  have x: "x < 2 ^ 31" using assms(3) by simp
  have "returnsE (BS_Difference1D r x) (\<lambda>r'. BS_ok r' \<and> BS_elems r' = BS_elems bs - {x})"
    by (rule returnsE_mono [OF BS_Difference1D_spec [OF r(2) assms(2) x]]) (auto simp: BS_is_def r(3))
  moreover have "BS_MemberP r y = (if y = x then Inr True else BS_MemberP bs y)"
    using r assms by (simp add: BS_MemberP_spec)
  ultimately show ?thesis by (simp add: r(1))
qed

theorem BS_insert_lookup_witness:
  "bindE (BS_Union1D \<lparr>BS_word_count = 1, BS_words = [13]\<rparr> 40 (Mem_Pool True (\<lambda>n. 0))) (\<lambda>bs. BS_MemberP bs 40) = Inr True"
  using BS_insert_lookup [of "\<lparr>BS_word_count = 1, BS_words = [13]\<rparr>" 40 40 "Mem_Pool True (\<lambda>n. 0)"] by (simp add: BS_ok_def)

text \<open>
  C8.  \<^verbatim>\<open>BS_CopyD\<close> makes its first argument a copy of its second, whatever the sizes of the two, growing it when the
  second is larger and clearing what it has beyond it when the second is smaller.
\<close>

theorem BS_CopyD_copies:
  assumes "BS_ok set1" "BS_ok set2" "pool \<noteq> Bad_Pool \<or> BS_word_count set2 \<le> BS_word_count set1" "BS_word_count set2 \<le> 2 ^ 25"
  shows "returnsE (BS_CopyD set1 set2 pool) (\<lambda>r. BS_ok r \<and> BS_elems r = BS_elems set2 \<and> BS_EqualP r set2 = Inr True)"
  by (rule returnsE_mono [OF BS_CopyD_spec [OF assms]]) (simp add: BS_is_def BS_EqualP_spec assms(2))

theorem BS_CopyD_copies_witness:
  "returnsE (BS_CopyD \<lparr>BS_word_count = 3, BS_words = [1, 2, 3]\<rparr> \<lparr>BS_word_count = 1, BS_words = [13]\<rparr> Bad_Pool)
     (\<lambda>r. BS_EqualP r \<lparr>BS_word_count = 1, BS_words = [13]\<rparr> = Inr True)"
  by (rule returnsE_mono [OF BS_CopyD_copies [of "\<lparr>BS_word_count = 3, BS_words = [1, 2, 3]\<rparr>"]]) (simp_all add: BS_ok_def)

text \<open>
  C9.  \<^verbatim>\<open>BS_UniverseD\<close> never grows its set: it passes \<^verbatim>\<open>&bad_pool\<close> on instead of the pool it was given, so a
  universe that does not fit fails for every pool.
\<close>

theorem BS_UniverseD_never_grows:
  assumes "BS_ok bs" "32 * BS_word_count bs < sz" "sz \<le> 2 ^ 30"
  shows "BS_UniverseD bs sz pool = Inl (Assertion ''Shouldn't be allocating.'')"
  using assms by (rule BS_UniverseD_no_growth)

theorem BS_UniverseD_never_grows_witness:
  "BS_UniverseD \<lparr>BS_word_count = 1, BS_words = [0]\<rparr> 33 (Mem_Pool True (\<lambda>n. 0)) = Inl (Assertion ''Shouldn't be allocating.'')"
  using BS_UniverseD_never_grows [of "\<lparr>BS_word_count = 1, BS_words = [0]\<rparr>" 33] by (simp add: BS_ok_def)



text \<open>
  C11.  The fused operations of data-flow analysis on sets of equal storage: the result of each is that of the set
  operations it fuses.  A result larger than the operands keeps what it has beyond them.
\<close>

theorem BS_fused_transfer:
  assumes "BS_same_size n [set1, set2, set3, set4, set5, set6]" "BS_can_hold result n pool" "BS_word_count result \<le> n"
  shows "returnsE (BS_2_1_Minus_3_Or_R result set1 set2 set3 pool) (\<lambda>r. BS_ok r
      \<and> BS_elems r = (BS_elems set2 - BS_elems set1) \<union> BS_elems set3)
    \<and> returnsE (BS_2_1_Minus_3_Or_4_And_R result set1 set2 set3 set4 pool) (\<lambda>r. BS_ok r
      \<and> BS_elems r = ((BS_elems set2 - BS_elems set1) \<union> BS_elems set3) \<inter> BS_elems set4)
    \<and> returnsE (BS_2_1_Minus_3_Or_4_And_5_And_6_And_R result set1 set2 set3 set4 set5 set6 pool) (\<lambda>r. BS_ok r
      \<and> BS_elems r = ((BS_elems set2 - BS_elems set1) \<union> BS_elems set3) \<inter> BS_elems set4 \<inter> BS_elems set5 \<inter> BS_elems set6)"
proof -
  have empty: "{x \<in> BS_elems result. 32 * n \<le> x} = {}"
    using BS_elems_bound [of _ result] assms(2,3) by (fastforce simp: BS_can_hold_def BS_ok_def)
  show ?thesis
    using BS_2_1_Minus_3_Or_R_spec [of n set1 set2 set3 result pool]
      BS_2_1_Minus_3_Or_4_And_R_spec [of n set1 set2 set3 set4 result pool]
      BS_2_1_Minus_3_Or_4_And_5_And_6_And_R_spec [of n set1 set2 set3 set4 set5 set6 result pool] assms
    by (simp add: empty BS_is_def BS_same_size_def)
qed

theorem BS_fused_transfer_witness:
  "(let s = \<lparr>BS_word_count = 1, BS_words = [13]\<rparr>; t = \<lparr>BS_word_count = 1, BS_words = [7]\<rparr> in
    returnsE (BS_2_1_Minus_3_Or_R s s t s Bad_Pool) (\<lambda>r. BS_ok r \<and> BS_elems r = (BS_elems t - BS_elems s) \<union> BS_elems s))"
  using BS_fused_transfer [of 1 "\<lparr>BS_word_count = 1, BS_words = [13]\<rparr>" "\<lparr>BS_word_count = 1, BS_words = [7]\<rparr>"
      "\<lparr>BS_word_count = 1, BS_words = [13]\<rparr>" "\<lparr>BS_word_count = 1, BS_words = [7]\<rparr>" "\<lparr>BS_word_count = 1, BS_words = [7]\<rparr>"
      "\<lparr>BS_word_count = 1, BS_words = [7]\<rparr>" "\<lparr>BS_word_count = 1, BS_words = [13]\<rparr>" Bad_Pool]
  by (simp add: BS_ok_def BS_same_size_def BS_can_hold_def)

text \<open>
  C12.  The fused operations that update their first argument: the members it had, and those of the set operations on
  the others.
\<close>

theorem BS_fused_update:
  assumes "BS_same_size n [set2, set3, set4, set5]" "BS_can_hold set1 n pool"
  shows "returnsE (BS_3_2_Minus_1_Or_D set1 set2 set3 pool) (\<lambda>r. BS_ok r
      \<and> BS_elems r = BS_elems set1 \<union> (BS_elems set3 - BS_elems set2))
    \<and> returnsE (BS_3_2_Minus_4_Or_1_Or_D set1 set2 set3 set4 pool) (\<lambda>r. BS_ok r
      \<and> BS_elems r = BS_elems set1 \<union> ((BS_elems set3 - BS_elems set2) \<union> BS_elems set4))
    \<and> returnsE (BS_3_2_Minus_4_Or_5_Or_1_Or_D set1 set2 set3 set4 set5 pool) (\<lambda>r. BS_ok r
      \<and> BS_elems r = BS_elems set1 \<union> ((BS_elems set3 - BS_elems set2) \<union> BS_elems set4 \<union> BS_elems set5))
    \<and> returnsE (BS_2_3_Minus_4_Minus_1_Or_D set1 set2 set3 set4 pool) (\<lambda>r. BS_ok r
      \<and> BS_elems r = BS_elems set1 \<union> (BS_elems set2 - BS_elems set3 - BS_elems set4))
    \<and> returnsE (BS_3_Not_4_Or_2_And_1_Or_D set1 set2 set3 set4 pool) (\<lambda>r. BS_ok r
      \<and> BS_elems r = BS_elems set1 \<union> (BS_elems set2 - (BS_elems set3 - BS_elems set4)))
    \<and> returnsE (BS_4_3_Minus_2_Not_Or_1_And_D set1 set2 set3 set4 pool) (\<lambda>r. BS_ok r
      \<and> BS_elems r = BS_elems set1 - (BS_elems set2 - (BS_elems set4 - BS_elems set3)))"
  using BS_3_2_Minus_1_Or_D_spec [of n set2 set3 set1 pool] BS_3_2_Minus_4_Or_1_Or_D_spec [of n set2 set3 set4 set1 pool]
    BS_3_2_Minus_4_Or_5_Or_1_Or_D_spec [of n set2 set3 set4 set5 set1 pool]
    BS_2_3_Minus_4_Minus_1_Or_D_spec [of n set2 set3 set4 set1 pool]
    BS_3_Not_4_Or_2_And_1_Or_D_spec [of n set2 set3 set4 set1 pool]
    BS_4_3_Minus_2_Not_Or_1_And_D_spec [of n set2 set3 set4 set1 pool] assms
  by (simp add: BS_is_def BS_same_size_def)

theorem BS_fused_update_witness:
  "(let s = \<lparr>BS_word_count = 1, BS_words = [13]\<rparr>; t = \<lparr>BS_word_count = 1, BS_words = [7]\<rparr> in
    returnsE (BS_3_2_Minus_1_Or_D s t s Bad_Pool) (\<lambda>r. BS_ok r \<and> BS_elems r = BS_elems s \<union> (BS_elems s - BS_elems t)))"
  using BS_fused_update [of 1 "\<lparr>BS_word_count = 1, BS_words = [7]\<rparr>" "\<lparr>BS_word_count = 1, BS_words = [13]\<rparr>"
      "\<lparr>BS_word_count = 1, BS_words = [13]\<rparr>" "\<lparr>BS_word_count = 1, BS_words = [7]\<rparr>" "\<lparr>BS_word_count = 1, BS_words = [13]\<rparr>" Bad_Pool]
  by (simp add: BS_ok_def BS_same_size_def BS_can_hold_def)

text \<open>
  C13.  \<^verbatim>\<open>BS_Print\<close> writes, between braces, the maximal ranges of consecutive members in increasing order, and together
  the ranges cover exactly the set.
\<close>

theorem BS_Print_ranges:
  assumes "BS_ok bs"
  shows "\<exists>rs. BS_Print (Some bs) = Inr (''{'' @ print_ranges True rs @ ''}'') \<and> maximal_ranges rs \<and> covered rs = BS_elems bs"
  using assms by (rule BS_Print_spec)

theorem BS_Print_ranges_witness:
  "\<exists>rs. BS_Print (Some \<lparr>BS_word_count = 1, BS_words = [13]\<rparr>) = Inr (''{'' @ print_ranges True rs @ ''}'')
     \<and> maximal_ranges rs \<and> covered rs = BS_elems \<lparr>BS_word_count = 1, BS_words = [13]\<rparr>"
  using BS_Print_ranges [of "\<lparr>BS_word_count = 1, BS_words = [13]\<rparr>"] by (simp add: BS_ok_def)

text \<open>
  \<^verbatim>\<open>BS_Choose_Range\<close> gives the least member in \<open>low .. high\<close>, and \<^verbatim>\<open>BS_CHOOSE_FAILURE\<close> exactly when there is none.
\<close>

theorem BS_Choose_Range_least:
  assumes "BS_ok bs" "0 \<le> low" "low \<le> high + 1" "high < 2 ^ 31"
  shows "returnsE (BS_Choose_Range bs low high) (\<lambda>r.
    if BS_elems bs \<inter> {low..high} = {} then r = BS_CHOOSE_FAILURE
    else r \<in> BS_elems bs \<inter> {low..high} \<and> (\<forall>x \<in> BS_elems bs \<inter> {low..high}. r \<le> x))"
  using BS_Choose_Range_spec [OF assms] unfolding chosen_def .

section \<open>Priority queues\<close>

text \<open>A full queue of the integers 3 and 5, least first, for the witnesses; its client stores no positions.\<close>

definition example_queue :: "(int, unit) prq_state" where
  "example_queue = (\<lparr>PRQ_comparison_fn = (\<lambda>_ x y. x < y), PRQ_mem_pool = Mem_Pool False (\<lambda>n. 0), PRQ_size = 2,
     PRQ_allocated_size = 2, PRQ_expansion_factor = 200, PRQ_get_index_fn = None, PRQ_set_index_fn = None,
     PRQ_heap_vector = [3, 5]\<rparr>, ())"

lemma example_queue_invar: "PRQ_invar example_queue" "PRQ_elements (fst example_queue) = {#3, 5#}"
  by (auto simp: example_queue_def PRQ_invar_def PRQ_wf_def client_ok_def precedence_def indexed_but_def ordered_def
      ith_def PRQ_elements_def)

text \<open>
  C14.  \<^verbatim>\<open>PRQ_Insert\<close> keeps the invariant (heap order, right array bounds, right stored positions) and adds the element,
  expanding the array when it is full, whatever the expansion factor and the overflow of its product with the size.
  When positions are stored in the elements, the element must be new.
\<close>

theorem PRQ_Insert_correct:
  assumes "PRQ_invar st" "PRQ_size (fst st) < 2 ^ 30 - 1"
    and "PRQ_get_index_fn (fst st) \<noteq> None \<Longrightarrow> x \<notin># PRQ_elements (fst st)"
  shows "returnsE (PRQ_Insert zero st x)
           (\<lambda>st'. PRQ_invar st' \<and> PRQ_elements (fst st') = add_mset x (PRQ_elements (fst st)))"
  by (rule returnsE_mono [OF PRQ_Insert_spec [OF assms]]) (simp_all add: PRQ_becomes_def)

theorem PRQ_Insert_correct_witness:
  "returnsE (PRQ_Insert 0 example_queue 4) (\<lambda>st'. PRQ_invar st' \<and> PRQ_elements (fst st') = {#3, 4, 5#})"
proof -
  have "PRQ_size (fst example_queue) < 2 ^ 30 - 1" "PRQ_get_index_fn (fst example_queue) = None"
    by (simp_all add: example_queue_def)
  with PRQ_Insert_correct [OF example_queue_invar(1), of 4 0] show ?thesis
    by (simp add: example_queue_invar(2) add_mset_commute)
qed

text \<open>
  C15.  \<^verbatim>\<open>PRQ_Delete_Top\<close> on a queue that is not empty removes and returns an element that no other precedes, and keeps
  the invariant; \<^verbatim>\<open>PRQ_Top\<close> returns such an element.
\<close>

theorem PRQ_Delete_Top_correct:
  assumes "PRQ_invar st" "PRQ_size (fst st) < 2 ^ 30" "PRQ_elements (fst st) \<noteq> {#}"
  shows "returnsE (PRQ_Delete_Top st) (\<lambda>(st', x). PRQ_invar st' \<and> add_mset x (PRQ_elements (fst st')) = PRQ_elements (fst st)
        \<and> (\<forall>y \<in># PRQ_elements (fst st). \<not> PRQ_comparison_fn (fst st) (snd st) y x))
    \<and> returnsE (PRQ_Top (fst st)) (\<lambda>x. x \<in># PRQ_elements (fst st)
        \<and> (\<forall>y \<in># PRQ_elements (fst st). \<not> PRQ_comparison_fn (fst st) (snd st) y x))"
proof
  show "returnsE (PRQ_Delete_Top st) (\<lambda>(st', x). PRQ_invar st' \<and> add_mset x (PRQ_elements (fst st')) = PRQ_elements (fst st)
      \<and> (\<forall>y \<in># PRQ_elements (fst st). \<not> PRQ_comparison_fn (fst st) (snd st) y x))"
    by (rule returnsE_mono [OF PRQ_Delete_Top_spec [OF assms]]) (auto simp: PRQ_becomes_def)
qed (rule PRQ_Top_spec [OF assms(1,3)])

theorem PRQ_Delete_Top_correct_witness:
  "returnsE (PRQ_Delete_Top example_queue) (\<lambda>(st', x). PRQ_invar st' \<and> add_mset x (PRQ_elements (fst st')) = {#3, 5#})"
proof -
  have "PRQ_size (fst example_queue) < 2 ^ 30" by (simp add: example_queue_def)
  from PRQ_Delete_Top_correct [OF example_queue_invar(1) this] show ?thesis
    unfolding example_queue_invar(2) by (auto elim!: returnsE_mono)
qed

text \<open>
  C16.  \<^verbatim>\<open>PRQ_Remove\<close> of an element of the queue takes out one occurrence of it and keeps the invariant, both when the
  position is read from the element and when it is searched for.
\<close>

theorem PRQ_Remove_correct:
  assumes "PRQ_invar st" "PRQ_size (fst st) < 2 ^ 30" "x \<in># PRQ_elements (fst st)"
  shows "returnsE (PRQ_Remove st x)
           (\<lambda>st'. PRQ_invar st' \<and> add_mset x (PRQ_elements (fst st')) = PRQ_elements (fst st))"
  by (rule returnsE_mono [OF PRQ_Remove_spec [OF assms]]) (simp add: PRQ_becomes_def assms(3))

theorem PRQ_Remove_correct_witness:
  "returnsE (PRQ_Remove example_queue 3) (\<lambda>st'. PRQ_invar st' \<and> add_mset 3 (PRQ_elements (fst st')) = {#3, 5#})"
  using PRQ_Remove_correct [OF example_queue_invar(1), of 3] by (simp add: example_queue_invar(2)) (simp add: example_queue_def)

text \<open>
  C17.  \<^verbatim>\<open>PRQ_Update\<close> restores the invariant after the client changed the precedence of one element (from that in the
  memory \<open>m0\<close> to that in the memory \<open>m\<close>) and keeps the elements.
\<close>

theorem PRQ_Update_correct:
  assumes "PRQ_invar (prq, m0)" "PRQ_wf (prq, m)" "PRQ_size prq < 2 ^ 30" "count (PRQ_elements prq) x = 1"
    and "\<And>y z. y \<noteq> x \<Longrightarrow> z \<noteq> x \<Longrightarrow> PRQ_comparison_fn prq m y z = PRQ_comparison_fn prq m0 y z"
  shows "returnsE (PRQ_Update (prq, m) x) (\<lambda>st'. PRQ_invar st' \<and> PRQ_elements (fst st') = PRQ_elements prq)"
  by (rule returnsE_mono [OF PRQ_Update_spec [OF assms]]) (simp_all add: PRQ_becomes_def)

text \<open>A queue of two elements whose precedence is in the client's memory, in order for the first memory only.\<close>

definition example_keyed :: "(nat, nat \<Rightarrow> int) PRQ" where
  "example_keyed = \<lparr>PRQ_comparison_fn = (\<lambda>m x y. m x < m y), PRQ_mem_pool = Mem_Pool False (\<lambda>n. 0), PRQ_size = 2,
     PRQ_allocated_size = 2, PRQ_expansion_factor = 200, PRQ_get_index_fn = None, PRQ_set_index_fn = None,
     PRQ_heap_vector = [0, 1]\<rparr>"

theorem PRQ_Update_correct_witness:
  "returnsE (PRQ_Update (example_keyed, (\<lambda>x. if x = 1 then 2 else 7)) 1) (\<lambda>st'. PRQ_invar st' \<and> PRQ_elements (fst st') = {#0, 1#})"
proof -
  have "PRQ_invar (example_keyed, (\<lambda>x. if x = 1 then 9 else 7))" "PRQ_wf (example_keyed, (\<lambda>x. if x = 1 then 2 else 7))"
    by (auto simp: example_keyed_def PRQ_invar_def PRQ_wf_def client_ok_def precedence_def indexed_but_def ordered_def ith_def)
  from PRQ_Update_correct [OF this, of 1] show ?thesis by (simp add: example_keyed_def PRQ_elements_def)
qed

text \<open>
  On an empty queue \<^verbatim>\<open>PRQ_Top\<close>, \<^verbatim>\<open>PRQ_Delete_Top\<close>, \<^verbatim>\<open>PRQ_Remove\<close> and \<^verbatim>\<open>PRQ_Update\<close> stop with an assertion, and the last two
  also for an element that is not in the queue, when it has to be searched for.
\<close>

theorem PRQ_misuse_is_caught:
  assumes "PRQ_wf st" "PRQ_elements (fst st) = {#} \<or> x \<notin># PRQ_elements (fst st) \<and> PRQ_get_index_fn (fst st) = None"
  shows "\<not> returnsE (PRQ_Remove st x) P \<and> \<not> returnsE (PRQ_Update st x) P
    \<and> (PRQ_elements (fst st) = {#} \<longrightarrow> PRQ_Top (fst st) = Inl (Assertion ''Topping empty queue'')
         \<and> PRQ_Delete_Top st = Inl (Assertion ''Deleting from empty heap''))"
proof -
  have "int (size (PRQ_elements (fst st))) = PRQ_size (fst st)" using assms(1) by (rule PRQ_elements_size)
  then have "PRQ_elements (fst st) = {#} \<longleftrightarrow> PRQ_size (fst st) \<le> 0" by (auto simp flip: size_eq_0_iff_empty)
  then show ?thesis
    using assms(2) PRQ_absent_errors [OF assms(1), of x] by (cases "PRQ_size (fst st) \<le> 0") (auto simp: PRQ_empty_errors)
qed

text \<open>
  C18.  A queue that is initialised, filled with the elements of a list and emptied again gives the elements of
  the list in the order of precedence, and is empty then.
\<close>

theorem PRQ_sorts:
  fixes zero :: 'a
  assumes "pool \<noteq> Bad_Pool" "initial_size < 2 ^ 31" "precedence (before m)" "length xs < 2 ^ 30"
  shows "returnsE (bindE (PRQ_Initialize zero before None None pool initial_size expansion_factor) (\<lambda>prq.
      bindE (prq.insert_all zero (prq, m) xs) (\<lambda>st. prq.drain (length xs) st)))
    (\<lambda>(st, ys). mset ys = mset xs \<and> sorted_wrt (\<lambda>x y. \<not> before m y x) ys \<and> PRQ_elements (fst st) = {#})"
proof -
  obtain prq where prq: "PRQ_Initialize zero before None None pool initial_size expansion_factor = Inr prq"
    "PRQ_invar (prq, m)" "PRQ_elements prq = {#}" "PRQ_comparison_fn prq = before" "PRQ_get_index_fn prq = None"
    using PRQ_Initialize_spec [of pool initial_size before m None None zero expansion_factor] assms(1-3)
    by (auto elim: returnsE_E)
  have "PRQ_fits (prq, m) (PRQ_elements (fst (prq, m)) + mset xs)" using prq assms(4) by (simp add: PRQ_fits_def)
  then obtain st where st: "prq.insert_all zero (prq, m) xs = Inr st" "PRQ_invar st" "PRQ_elements (fst st) = mset xs"
    "before_in st = before m" "PRQ_fits st (PRQ_elements (fst st))"
    using prq.insert_all_elements [OF prq(2), of xs zero] prq(3,4) by (auto elim!: returnsE_E)
  from prq.drain_sorted [OF st(2,5), of "length xs"] st(3,4) show ?thesis
    by (auto simp: prq(1) st(1) elim: returnsE_mono)
qed

theorem PRQ_sorts_witness:
  "returnsE (bindE (PRQ_Initialize 0 (\<lambda>_ x y. x < y) None None (Mem_Pool False (\<lambda>n. 0)) 1 150) (\<lambda>prq.
      bindE (prq.insert_all 0 (prq, ()) [4, 1, 3 :: int]) (\<lambda>st. prq.drain (length [4, 1, 3 :: int]) st)))
    (\<lambda>(st, ys). mset ys = mset [4, 1, 3] \<and> sorted_wrt (\<lambda>x y. \<not> y < x) ys \<and> PRQ_elements (fst st) = {#})"
  by (rule PRQ_sorts [of "Mem_Pool False (\<lambda>n. 0)" 1 "\<lambda>_ x y. x < y" "()" "[4, 1, 3 :: int]" 0 150])
    (simp_all add: precedence_def)

section \<open>LEB128\<close>

text \<open>
  C19.  Round trip of unsigned numbers: into a buffer of the documented size (5 bytes for 32 bits, 10 for 64) the encoder writes
  within bounds, leaves the rest of the buffer alone, and the decoder reads back the number and the same length.
\<close>

theorem leb128_unsigned_roundtrip:
  "(5 \<le> length buffer \<longrightarrow> returnsE (leb128_unsigned_encode32 m buffer) (\<lambda>(k, buffer'). k \<le> 5
      \<and> length buffer' = length buffer \<and> drop k buffer' = drop k buffer \<and> leb128_unsigned_decode32 buffer' = Inr (k, m)))
   \<and> (10 \<le> length buffer \<longrightarrow> returnsE (leb128_unsigned_encode64 n buffer) (\<lambda>(k, buffer'). k \<le> 10
      \<and> length buffer' = length buffer \<and> drop k buffer' = drop k buffer \<and> leb128_unsigned_decode64 buffer' = Inr (k, n)))"
proof (intro conjI impI)
  have fits: "length (uleb (unat m)) \<le> 5" "length (uleb (unat n)) \<le> 10"
    using unsigned_fits [of 5 m] unsigned_fits [of 10 n] by simp_all
  show "returnsE (leb128_unsigned_encode32 m buffer) (\<lambda>(k, buffer'). k \<le> 5
      \<and> length buffer' = length buffer \<and> drop k buffer' = drop k buffer \<and> leb128_unsigned_decode32 buffer' = Inr (k, m))"
    if "5 \<le> length buffer"
    by (rule returnsE_mono [OF leb128_encode_specs(1) [OF that]])
      (use that fits(1) in \<open>auto simp: writes_def leb128_unsigned_decode32_spec leb_bytes_uleb uleb_value_uleb\<close>)
  show "returnsE (leb128_unsigned_encode64 n buffer) (\<lambda>(k, buffer'). k \<le> 10
      \<and> length buffer' = length buffer \<and> drop k buffer' = drop k buffer \<and> leb128_unsigned_decode64 buffer' = Inr (k, n))"
    if "10 \<le> length buffer"
    by (rule returnsE_mono [OF leb128_encode_specs(2) [OF that]])
      (use that fits(2) in \<open>auto simp: writes_def leb128_unsigned_decode64_spec leb_bytes_uleb uleb_value_uleb\<close>)
qed

theorem leb128_unsigned_roundtrip_witness:
  "returnsE (leb128_unsigned_encode32 624485 [0, 0, 0, 0, 0, 9]) (\<lambda>(k, buffer'). k \<le> 5
      \<and> drop k buffer' = drop k [0, 0, 0, 0, 0, 9] \<and> leb128_unsigned_decode32 buffer' = Inr (k, 624485))"
proof -
  have "returnsE (leb128_unsigned_encode32 624485 [0, 0, 0, 0, 0, 9]) (\<lambda>(k, buffer'). k \<le> 5
      \<and> length buffer' = length [0, 0, 0, 0, 0, 9 :: 8 word] \<and> drop k buffer' = drop k [0, 0, 0, 0, 0, 9]
      \<and> leb128_unsigned_decode32 buffer' = Inr (k, 624485))"
    using leb128_unsigned_roundtrip [of "[0, 0, 0, 0, 0, 9]" 624485] by simp
  then show ?thesis by (rule returnsE_mono) auto
qed

text \<open>
  C20.  Round trip of signed numbers, with the sign extended from the last byte read (or, for 9 and 10 bytes of a
  64-bit number, from the one bit that is left, or not at all).
\<close>

theorem leb128_signed_roundtrip:
  "(5 \<le> length buffer \<longrightarrow> returnsE (leb128_signed_encode32 m buffer) (\<lambda>(k, buffer'). k \<le> 5
      \<and> length buffer' = length buffer \<and> drop k buffer' = drop k buffer \<and> leb128_signed_decode32 buffer' = Inr (k, m)))
   \<and> (10 \<le> length buffer \<longrightarrow> returnsE (leb128_signed_encode64 n buffer) (\<lambda>(k, buffer'). k \<le> 10
      \<and> length buffer' = length buffer \<and> drop k buffer' = drop k buffer \<and> leb128_signed_decode64 buffer' = Inr (k, n)))"
proof (intro conjI impI)
  have fits: "length (sleb (sint m)) \<le> 5" "length (sleb (sint n)) \<le> 10"
    using signed_fits [of 5 m] signed_fits [of 10 n] by simp_all
  show "returnsE (leb128_signed_encode32 m buffer) (\<lambda>(k, buffer'). k \<le> 5
      \<and> length buffer' = length buffer \<and> drop k buffer' = drop k buffer \<and> leb128_signed_decode32 buffer' = Inr (k, m))"
    if "5 \<le> length buffer"
    by (rule returnsE_mono [OF leb128_encode_specs(3) [OF that]])
      (use that fits(1) in \<open>auto simp: writes_def leb128_signed_decode32_spec leb_bytes_sleb sleb_value_sleb\<close>)
  show "returnsE (leb128_signed_encode64 n buffer) (\<lambda>(k, buffer'). k \<le> 10
      \<and> length buffer' = length buffer \<and> drop k buffer' = drop k buffer \<and> leb128_signed_decode64 buffer' = Inr (k, n))"
    if "10 \<le> length buffer"
    by (rule returnsE_mono [OF leb128_encode_specs(4) [OF that]])
      (use that fits(2) in \<open>auto simp: writes_def leb128_signed_decode64_spec leb_bytes_sleb sleb_value_sleb\<close>)
qed

theorem leb128_signed_roundtrip_witness:
  "returnsE (leb128_signed_encode32 (- 123456) [0, 0, 0, 0, 0, 9]) (\<lambda>(k, buffer'). k \<le> 5
      \<and> drop k buffer' = drop k [0, 0, 0, 0, 0, 9] \<and> leb128_signed_decode32 buffer' = Inr (k, - 123456))"
proof -
  have "returnsE (leb128_signed_encode32 (- 123456) [0, 0, 0, 0, 0, 9]) (\<lambda>(k, buffer'). k \<le> 5
      \<and> length buffer' = length [0, 0, 0, 0, 0, 9 :: 8 word] \<and> drop k buffer' = drop k [0, 0, 0, 0, 0, 9]
      \<and> leb128_signed_decode32 buffer' = Inr (k, - 123456))"
    using leb128_signed_roundtrip [of "[0, 0, 0, 0, 0, 9]" "- 123456"] by simp
  then show ?thesis by (rule returnsE_mono) auto
qed




section \<open>OpenMP loop scheduling\<close>



text \<open>
  C24.  With fair static scheduling and fewer iterations than threads, a thread without an iteration fails the assertion
  \<^verbatim>\<open>chunk != 0\<close> of the analyser when checking is on.
\<close>

theorem static_fair_small_loop_fails:
  assumes "runs param L" "static_fair param" "trips L \<le> t" "t < team_size"
  shows "pmp_static_init param team_size t PMP_SCHED_STATIC_EVEN (loop_lower L) (loop_upper L) (loop_inc L) ch loop
    = Inl (Assertion ''inc != 0 && chunk != 0'')"
  using assms by (rule pmp_static_init_fair_small)

theorem static_fair_small_loop_fails_witness:
  "pmp_static_init example_param 4 3 PMP_SCHED_STATIC_EVEN 0 1 1 0 (example_loop 0 1 1) = Inl (Assertion ''inc != 0 && chunk != 0'')"
  using static_fair_small_loop_fails [of example_param "example_loop 0 1 1" 3 4 0 "example_loop 0 1 1"]
  by (simp add: example_defs)









text \<open>
  A guided schedule chosen at run time ignores the chunk size that was chosen with it: the least chunk is computed from the
  argument of the call before the run-time chunk replaces it, and the run-time chunk is then overwritten by the initial guess.
\<close>

theorem runtime_guided_ignores_chunk:
  assumes "runtime_schedule param = PMP_SCHED_GUIDED"
  shows "scheduler_parameters (param\<lparr>runtime_chunk := c\<rparr>) team_size PMP_SCHED_RUNTIME lower upper inc chunk
    = scheduler_parameters param team_size PMP_SCHED_RUNTIME lower upper inc chunk"
  using assms by (simp add: scheduler_parameters_def pmp_sched_defs Let_def)



text \<open>
  C30.  Ordered regions are executed in the order of the loop, whatever chunks the threads have and however they interleave, when every iteration
  executes one: at any time the iterations executed are the first ones of the loop, in order, and no two threads are inside a region.
\<close>

theorem ordered_regions_in_order:
  assumes "ordered_start team_size s" "(ordered_step team_size (\<lambda>_. True) ^^ n) s s'"
  defines "L \<equiv> ord_loop s"
  shows "executed s' = take (length (executed s')) (loop_values (loop_inc L) (loop_lower L) (loop_upper L))
    \<and> (\<forall>t \<in> {0..<team_size}. \<forall>u \<in> {0..<team_size}. inside (workers s' t) \<and> inside (workers s' u) \<longrightarrow> t = u)"
proof -
  have L: "ordered_loop L" and T: "1 < team_size" using assms(1) by (simp_all add: L_def ordered_start_loop) (simp add: ordered_start_def Let_def)
  from ordered.run_inv(1) [OF assms(2), of L] ordered_start_inv [OF assms(1)] L T have inv: "ordered_inv team_size L s'" by (simp add: L_def)
  from ordered_inv_prefix [OF inv L] ordered_inv_exclusive [OF inv L] show ?thesis by blast
qed

theorem ordered_regions_in_order_witness:
  "\<exists>s'. (ordered_step 2 (\<lambda>_. True) ^^ 1) example_ordered s'
    \<and> executed s' = take (length (executed s')) (loop_values 1 0 3)"
proof -
  have "\<exists>s'. (ordered_step 2 (\<lambda>_. True) ^^ 1) example_ordered s'"
    unfolding relpowp_1
    using ordered_step.fetch [of 0 2 "workers example_ordered 0" example_ordered 0 1 "[]"] by (auto simp: example_ordered_def)
  then obtain s' where run: "(ordered_step 2 (\<lambda>_. True) ^^ 1) example_ordered s'" by blast
  from ordered_regions_in_order [OF example_ordered_start run] run show ?thesis
    by (intro exI [of _ s']) (simp add: example_ordered_def example_loop_def)
qed

text \<open>
  C31.  Ordered loops do not hang when every iteration executes its region: every run has at most two steps for each iteration and each chunk, and
  as long as an iteration is left, some thread can go on; so a run that cannot go on has executed the whole loop in order.
\<close>

theorem ordered_loop_ends:
  assumes "ordered_start team_size s" "(ordered_step team_size (\<lambda>_. True) ^^ n) s s'"
  defines "L \<equiv> ord_loop s"
  shows "int n \<le> 2 * trips L + 2 * (\<Sum>t \<in> {0..<team_size}. int (length (chunks_left (workers s t))))
    \<and> ((\<nexists>s''. ordered_step team_size (\<lambda>_. True) s' s'') \<longrightarrow> executed s' = loop_values (loop_inc L) (loop_lower L) (loop_upper L))"
proof -
  have L: "ordered_loop L" and T: "1 < team_size" using assms(1) by (simp_all add: L_def ordered_start_loop) (simp add: ordered_start_def Let_def)
  have inv0: "ordered_inv team_size L s" unfolding L_def by (rule ordered_start_inv [OF assms(1)])
  with ordered.run_inv(1) [OF assms(2), of L] L T have inv: "ordered_inv team_size L s'" by simp
  have rank: "int n \<le> ordered_rank team_size (loop_inc L) s" using ordered.run_bound [OF assms(2), of L] inv0 L T by simp
  have "executed s' = loop_values (loop_inc L) (loop_lower L) (loop_upper L)" if "\<nexists>s''. ordered_step team_size (\<lambda>_. True) s' s''"
  proof -
    have "trips L \<le> int (length (executed s'))" using ordered_progress [OF inv L T] that by (meson not_le)
    with ordered_inv_prefix [OF inv L] loop_values_length [of L] L show ?thesis by (simp add: ordered_loop_def)
  qed
  with rank ordered_start_rank [OF assms(1)] show ?thesis by (simp add: L_def)
qed

theorem ordered_loop_ends_witness:
  "\<exists>n s'. (ordered_step 2 (\<lambda>_. True) ^^ n) example_ordered s' \<and> executed s' = loop_values 1 0 3"
proof -
  from ordered.run_end [of 2 "ord_loop example_ordered" example_ordered] ordered_start_inv [OF example_ordered_start]
    ordered_start_loop [OF example_ordered_start]
  obtain n s' where "(ordered_step 2 (\<lambda>_. True) ^^ n) example_ordered s'" "\<nexists>s''. ordered_step 2 (\<lambda>_. True) s' s''" by auto
  with ordered_loop_ends [OF example_ordered_start, of n s'] show ?thesis
    by (auto simp: example_ordered_def example_loop_def)
qed

text \<open>
  C32.  An iteration that does not execute the ordered construct stops the loop: if iteration \<open>j\<close> of the chunk \<open>a .. b - 1\<close> skips it, no
  iteration of a later chunk ever gets into its region, so its thread waits for ever.
\<close>

theorem ordered_skip_blocks:
  assumes "ordered_start team_size s" "(ordered_step team_size needs)\<^sup>*\<^sup>* s s'"
    and "0 \<le> a" "a \<le> j" "j < b" "\<not> needs (loop_lower (ord_loop s) + j * loop_inc (ord_loop s))"
    and "\<And>t bounds. t \<in> {0..<team_size} \<Longrightarrow> bounds \<in> set (chunks_left (workers s t)) \<Longrightarrow> \<exists>c e. chunk_at (ord_loop s) a b c e bounds"
  shows "\<forall>i \<in> set (executed s'). \<exists>k < b. i = loop_lower (ord_loop s) + k * loop_inc (ord_loop s)"
proof -
  have "a < b" using assms(4,5) by simp
  from skip_start [OF assms(1,3) this assms(7)] have "skip_inv team_size (ord_loop s) a b j s" .
  moreover have "1 < team_size" using assms(1) by (simp add: ordered_start_def Let_def)
  ultimately have "skip_inv team_size (ord_loop s) a b j s'"
    using skip_inv_run [OF assms(2) _ ordered_start_loop [OF assms(1)] assms(4,5) _ assms(6)] by blast
  then show ?thesis by (simp add: skip_inv_def)
qed

theorem ordered_skip_blocks_witness:
  "{s. (ordered_step 2 (\<lambda>i. i \<noteq> 0))\<^sup>*\<^sup>* example_ordered s \<and> 2 \<in> set (executed s)} = {}"
proof -
  have chunks: "chunk_at (ord_loop example_ordered) 0 2 0 2 (0, 1)" "chunk_at (ord_loop example_ordered) 0 2 2 4 (2, 3)"
    by (auto simp: example_ordered_def example_loop_def chunk_at_def ends_def within_def)
  have "bounds = (0, 1) \<or> bounds = (2, 3)" if "bounds \<in> set (chunks_left (workers example_ordered t))" for t bounds
    using that by (auto simp: example_ordered_def split: if_splits)
  with chunks have all: "\<exists>c e. chunk_at (ord_loop example_ordered) 0 2 c e bounds"
    if "t \<in> {0..<2}" "bounds \<in> set (chunks_left (workers example_ordered t))" for t bounds using that by metis
  have loop: "loop_lower (ord_loop example_ordered) = 0" "loop_inc (ord_loop example_ordered) = 1"
    by (simp_all add: example_ordered_def example_loop_def)
  have "2 \<notin> set (executed s)" if "(ordered_step 2 (\<lambda>i. i \<noteq> 0))\<^sup>*\<^sup>* example_ordered s" for s
  proof -
    have "\<forall>i \<in> set (executed s). \<exists>k < 2. i = loop_lower (ord_loop example_ordered) + k * loop_inc (ord_loop example_ordered)"
      by (rule ordered_skip_blocks [OF example_ordered_start that, where j = 0 and a = 0]) (use all loop in simp_all)
    then show ?thesis by (auto simp: loop)
  qed
  then show ?thesis by blast
qed


section \<open>The parser generator\<close>

text \<open>
  C33.  \<^verbatim>\<open>AVLadd\<close> keeps the strings of a table in an AVL tree whose balance fields are right.  A string that is not in the table is added with the index
  \<open>- 1\<close>, a string that is in it gives the token it has, and a string of 256 characters or more overruns the token.  The descent to a new string passes at
  most \<open>2 * log\<^sub>2 (n + 1) + 1\<close> nodes of a table of \<open>n\<close> strings.
\<close>

theorem AVLadd_correct:
  assumes "AVL_invar R"
  shows "(if MAX_SEM_LEN \<le> length val then AVLadd val R = Inl Out_Of_Bounds
     else if val \<in> set (strings R) then returnsE (AVLadd val R) (\<lambda>(tk, R'). R' = R \<and> tk \<in> set (tokens R) \<and> valStr tk = val)
     else returnsE (AVLadd val R) (\<lambda>(tk, R'). tk = \<lparr>valStr = val, indStr = - 1\<rparr> \<and> AVL_invar R' \<and> set (tokens R') = insert tk (set (tokens R))))
    \<and> (\<forall>p a. AVL_descend val R [] [] = Inr (p, a) \<longrightarrow> 2 ^ (length p div 2) \<le> length (strings R) + 1)"
proof (intro conjI allI impI)
  show "if MAX_SEM_LEN \<le> length val then AVLadd val R = Inl Out_Of_Bounds
     else if val \<in> set (strings R) then returnsE (AVLadd val R) (\<lambda>(tk, R'). R' = R \<and> tk \<in> set (tokens R) \<and> valStr tk = val)
     else returnsE (AVLadd val R) (\<lambda>(tk, R'). tk = \<lparr>valStr = val, indStr = - 1\<rparr> \<and> AVL_invar R' \<and> set (tokens R') = insert tk (set (tokens R)))"
    using AVLadd_overflow [of val R] AVLadd_old [OF assms, of val] AVLadd_new [OF assms, of val] by (auto elim: returnsE_mono)
  show "2 ^ (length p div 2) \<le> length (strings R) + 1" if "AVL_descend val R [] [] = Inr (p, a)" for p a
    by (rule AVL_descend_bound [OF assms that])
qed

theorem AVLadd_correct_witness:
  "returnsE (AVLadd ''jmp'' (AVL (- 1) \<lparr>valStr = ''add'', indStr = - 1\<rparr> NULL (AVL 0 \<lparr>valStr = ''sub'', indStr = - 1\<rparr> NULL NULL)))
     (\<lambda>(tk, R'). tk = \<lparr>valStr = ''jmp'', indStr = - 1\<rparr> \<and> AVL_invar R' \<and> set (tokens R') = {tk, \<lparr>valStr = ''add'', indStr = - 1\<rparr>, \<lparr>valStr = ''sub'', indStr = - 1\<rparr>})"
proof -
  let ?R = "AVL (- 1) \<lparr>valStr = ''add'', indStr = - 1\<rparr> NULL (AVL 0 \<lparr>valStr = ''sub'', indStr = - 1\<rparr> NULL NULL)"
  have "AVL_invar ?R" by (simp add: AVL_invar_def less_char_def)
  from AVLadd_correct [OF this, of "''jmp''"] show ?thesis by (auto simp: MAX_SEM_LEN_def elim: returnsE_mono)
qed

text \<open>
  The index of a terminal is its place in the generated \<^verbatim>\<open>stringTable\<close>: when the terminals \<open>ss\<close> have been added, the numbering gives the distinct
  strings of \<open>ss\<close> the numbers from 0 in their order, and the rows of the printed table are these strings in the same order, each followed by its number, with the size after them.
\<close>

theorem terminal_table_indices:
  assumes "\<forall>s \<in> set ss. length s < MAX_SEM_LEN" "ss \<noteq> []"
  defines "names \<equiv> sorted_list_of_set (set ss)"
  shows "returnsE (terms.add_all ss InitAllTables) (\<lambda>(tks, T). map valStr tks = ss
    \<and> map (\<lambda>tk. (valStr tk, indStr tk)) (tokens (termTable (AssignTermIndex T))) = zip names (map int [0..<length names])
    \<and> PrintTermTable T = ''static PARSER_stringT stringTable[] = {'' @ NL
        @ concat (map (\<lambda>i. display_entry 8 (TAB @ QUOTE @ ''%s'' @ QUOTE) i (names ! i)) [0..<length names])
        @ ''  /* '' @ print_int (int (length names) - 1) @ '' */'' @ NL @ ''} ;'' @ NL @ NL
        @ ''static PARSER_u16T stringTableSize = '' @ print_int (int (length names)) @ '' ;'' @ NL @ NL)"
  using terminals_numbered [OF assms(1)]
proof (rule returnsE_mono)
  fix r assume r: "case r of (tks, T) \<Rightarrow> tables_ok T \<and> map valStr tks = ss \<and> strings (termTable T) = sorted_list_of_set (set ss) \<and> set (tokens (termTable T)) = set tks"
  obtain tks T where T: "r = (tks, T)" by (cases r)
  have "names \<noteq> []" using assms(2) by (simp add: names_def)
  with r T PrintTermTable_rows [of T] assignAVLindex_zip [of "termTable T"]
  show "case r of (tks, T) \<Rightarrow> map valStr tks = ss
    \<and> map (\<lambda>tk. (valStr tk, indStr tk)) (tokens (termTable (AssignTermIndex T))) = zip names (map int [0..<length names])
    \<and> PrintTermTable T = ''static PARSER_stringT stringTable[] = {'' @ NL
        @ concat (map (\<lambda>i. display_entry 8 (TAB @ QUOTE @ ''%s'' @ QUOTE) i (names ! i)) [0..<length names])
        @ ''  /* '' @ print_int (int (length names) - 1) @ '' */'' @ NL @ ''} ;'' @ NL @ NL
        @ ''static PARSER_u16T stringTableSize = '' @ print_int (int (length names)) @ '' ;'' @ NL @ NL"
    by (simp add: names_def AssignTermIndex_def)
qed

text \<open>
  C34.  The table of rules is a map from names to trees: \<^verbatim>\<open>AjoutAct\<close> defines a rule or adds an alternative to it and keeps the table sorted, the bisection of
  \<^verbatim>\<open>RechAct\<close> then finds every rule, and \<^verbatim>\<open>TouteRegleDefinie\<close> answers yes when every non-terminal but \<^verbatim>\<open>__GLOBDECL\<close> has a rule, and otherwise names
  those without one.
\<close>

theorem rule_table_is_map:
  assumes "actions_ok S" "Action \<noteq> NULL_SEM" "length nom < MAX_SEM_LEN"
  shows "returnsE (AjoutAct nom Action fresh S) (\<lambda>S'. actions_ok S'
    \<and> returnsE (extended (rules S nom) Action) (\<lambda>t. rules S' = (rules S)(nom \<mapsto> t))
    \<and> (\<forall>x. returnsE (RechAct x S') (\<lambda>(t, ind). t = sem_of (rules S' x)))
    \<and> (\<forall>T. TouteRegleDefinie T S' = Inr ((\<forall>x \<in> set (strings (nontermTable T)). x \<in> dom (rules S') \<or> x = ''__GLOBDECL''),
         filter (\<lambda>x. x \<notin> dom (rules S') \<and> x \<noteq> ''__GLOBDECL'') (strings (nontermTable T)))))"
  using AjoutAct_spec [OF assms, of fresh]
  by (rule returnsE_mono) (simp add: RechAct_rules TouteRegleDefinie_spec undefined_rule_def [abs_def])

theorem rule_table_is_map_witness:
  "returnsE (AjoutAct ''op'' (GenSEM ELTER (Some (Term_Ref ''add''))) ([], NULL_SEM)
      \<lparr>Axiome = True, PileSEM = [], TabACT = [(''insn'', GenSEM EMPTY None), (''reg'', GenSEM EMPTY None)]\<rparr>)
     (\<lambda>S'. actions_ok S' \<and> rules S' ''op'' = Some (GenSEM ELTER (Some (Term_Ref ''add''))))"
proof -
  let ?S = "\<lparr>Axiome = True, PileSEM = [], TabACT = [(''insn'', GenSEM EMPTY None), (''reg'', GenSEM EMPTY None)]\<rparr>"
  have S: "actions_ok ?S" "GenSEM ELTER (Some (Term_Ref ''add'')) \<noteq> NULL_SEM" "length ''op'' < MAX_SEM_LEN"
    by (simp_all add: actions_ok_def GenSEM_def less_char_def MAX_SEM_LEN_def)
  have "rules ?S ''op'' = None" by (simp add: rules_def)
  with rule_table_is_map [OF S, of "([], NULL_SEM)"] show ?thesis by (auto simp: extended_def elim!: returnsE_mono)
qed

text \<open>
  C35.  The array that the generator writes for a rule of at most \<open>2 ^ 15\<close> nodes holds the tree of the rule: the parser, going from node to node with
  \<^verbatim>\<open>GETLEFTNODE\<close> and \<^verbatim>\<open>GETRIGHTNODE\<close>, finds the states, the tokens and the actions of the tree.  Beyond, a right child with a number of \<open>2 ^ 15\<close> or more is
  looked for at a negative index.
\<close>

theorem rule_array_roundtrip:
  assumes "sem_ok T t" "sem_size t \<le> 2 ^ 15"
  shows "(\<exists>rows. print_rule T (nom, t) = Inr ((nom, fst (SetPrefixIndex t 0)), array_text nom rows)
      \<and> length rows = sem_size t \<and> represents T rows 0 t)
    \<and> (\<forall>l r s. 0 \<le> semIndex l \<and> semIndex l < 2 ^ 15 \<and> 2 ^ 15 \<le> semIndex r \<and> semIndex r < 2 ^ 16 \<and> l \<noteq> NULL_SEM \<and> r \<noteq> NULL_SEM \<longrightarrow>
         returnsE (node_row T (SEM CONCAT s (- 1) 0 None l r)) (\<lambda>row. GETRIGHTNODE row < 0))"
proof (intro conjI allI impI)
  fix l r s assume lr: "0 \<le> semIndex l \<and> semIndex l < 2 ^ 15 \<and> 2 ^ 15 \<le> semIndex r \<and> semIndex r < 2 ^ 16 \<and> l \<noteq> NULL_SEM \<and> r \<noteq> NULL_SEM"
  have "binary CONCAT" by (simp add: binary_def)
  with lr show "returnsE (node_row T (SEM CONCAT s (- 1) 0 None l r)) (\<lambda>row. GETRIGHTNODE row < 0)"
    by (simp add: node_row_def node_info_binary GETRIGHTNODE_pair [of "semIndex l" "semIndex r"])
qed (rule print_rule_written [OF assms])

theorem rule_array_roundtrip_witness:
  "\<exists>rows. length rows = 3 \<and>
     represents (InitAllTables\<lparr>termTable := AVL 0 \<lparr>valStr = ''add'', indStr = 0\<rparr> NULL NULL\<rparr>) rows 0
       (SEM CONCAT (- 1) 7 0 None (GenSEM ELTER (Some (Term_Ref ''add''))) (GenSEM ELTER (Some (Term_Ref ''add''))))"
proof -
  let ?T = "InitAllTables\<lparr>termTable := AVL 0 \<lparr>valStr = ''add'', indStr = 0\<rparr> NULL NULL\<rparr>"
  let ?t = "SEM CONCAT (- 1) 7 0 None (GenSEM ELTER (Some (Term_Ref ''add''))) (GenSEM ELTER (Some (Term_Ref ''add'')))"
  have size: "sem_size ?t = 3" by (simp add: GenSEM_def)
  have "sem_ok ?T ?t"
    by (simp add: GenSEM_def unary_def binary_def leaf_ok_def leaf_value_def indexed_def table_index_def)
  then have "\<exists>rows. print_rule ?T (''insn'', ?t) = Inr ((''insn'', fst (SetPrefixIndex ?t 0)), array_text ''insn'' rows)
      \<and> length rows = sem_size ?t \<and> represents ?T rows 0 ?t"
    by (rule rule_array_roundtrip [THEN conjunct1]) (unfold size, simp)
  then show ?thesis unfolding size by blast
qed

text \<open>
  C36.  On files whose comments are closed, the generator never loops for ever: it ends with an error message or with its tables.  Its tables are then well-formed, and every tree in its table
  of rules has one child below optional and repeated nodes, two below the other operators, and leaves that point into the table of their kind.  When
  \<^verbatim>\<open>TouteRegleDefinie\<close> answers yes, every non-terminal that a rule calls has a rule; and when no rule is empty or larger than \<open>2 ^ 15\<close> nodes, all rules are
  written, with arrays that hold their trees.
\<close>

theorem generator_well_formed:
  assumes "\<forall>file \<in> set files. comments_closed file"
  shows "case main_parse fresh files of
      Inl e \<Rightarrow> e \<noteq> Diverges
    | Inr (complete, S) \<Rightarrow>
        gensyn_ok (gs S)
        \<and> (complete \<longrightarrow> (\<forall>t \<in> ran (rules (sem (gs S))). \<forall>x \<in> calls t. x \<in> dom (rules (sem (gs S))) \<or> x = ''__GLOBDECL''))
        \<and> ((\<forall>(nom, t) \<in> set (TabACT (sem (gs S))). \<not> has_empty t \<and> sem_size t \<le> 2 ^ 15) \<longrightarrow>
          (\<exists>arrays. list_all2 (\<lambda>rows (nom, t). represents (numbered (tables (gs S))) rows 0 t) arrays (TabACT (sem (gs S)))
            \<and> print_all_rules (numbered (tables (gs S))) (TabACT (sem (gs S)))
                = Inr (map (\<lambda>(nom, t). (nom, fst (SetPrefixIndex t 0))) (TabACT (sem (gs S))),
                    concat (map2 (\<lambda>rows (nom, t). array_text nom rows) arrays (TabACT (sem (gs S)))))))"
proof (cases "main_parse fresh files")
  case (Inl e)
  with main_parse_good(1) [OF assms, of fresh] show ?thesis by simp
next
  case (Inr r)
  obtain complete S where r: "r = (complete, S)" by (cases r)
  from main_parse_good(2) [OF assms Inr [unfolded r]] rules_written [of "gs S"] show ?thesis unfolding Inr r sum.case prod.case by blast
qed

theorem generator_well_formed_witness:
  "\<exists>S. main_parse (\<lambda>G. ([], NULL_SEM)) [''insn:'' @ NL @ ''.Sy:add <$reg>'' @ NL @ ''.Act:{x}''] = Inr (True, S) \<and> gensyn_ok (gs S)
     \<and> map fst (TabACT (sem (gs S))) = [''insn'']"
proof -
  let ?file = "''insn:'' @ NL @ ''.Sy:add <$reg>'' @ NL @ ''.Act:{x}''"
  have closed: "\<forall>file \<in> set [?file]. comments_closed file" by code_simp
  have "case main_parse (\<lambda>G. ([], NULL_SEM)) [?file] of
      Inl e \<Rightarrow> False | Inr (complete, S) \<Rightarrow> complete \<and> map fst (TabACT (sem (gs S))) = [''insn'']" by code_simp
  with generator_well_formed [OF closed, of "\<lambda>G. ([], NULL_SEM)"] show ?thesis by (auto split: sum.splits)
qed

section \<open>Assembler parser\<close>

text \<open>
  C37.  A line that the assembler parser accepts is derived by the first array of its tables, between the spaces at its beginning and those at its end; and whatever alternatives
  have been tried before and given up, its stack then holds the tokens and the actions of that derivation, in order, and nothing else.  The tables have no ranges, and the
  client's parsers of registers and expressions read at most their argument.
\<close>

theorem parser_accepts_derivations:
  assumes "parser_tables env (axiom env)" "AnalyzeString env n buffer S = Inr (False, S')"
  shows "\<exists>e \<le> length (CopyStringToLine buffer).
      derives env (CopyStringToLine buffer) (axiom env) 0 (blanks_end (CopyStringToLine buffer) 0) e (seg (encStack S') 0 (enc_size (encStack S')))
      \<and> (\<forall>c \<in> set (drop e (CopyStringToLine buffer)). space_char c)"
  by (rule AnalyzeString_derives [OF assms])

theorem parser_accepts_derivations_witness:
  "\<exists>e. derives (sample_env [''add'', ''reg''] sample_list) '' add add r1 '' sample_list 0 1 e
     [Token_Item REGISTER \<lparr>str_buf = 9, str_length = 2\<rparr> 1 1 2, Act_Item 8 1, Act_Item 5 0]"
proof -
  let ?env = "sample_env [''add'', ''reg''] sample_list" and ?line = "'' add add r1 // x''"
  have run: "case AnalyzeString ?env 40 ?line sample_start of Inl e \<Rightarrow> False | Inr (err, S) \<Rightarrow> \<not> err \<and>
      seg (encStack S) 0 (enc_size (encStack S)) = [Token_Item REGISTER \<lparr>str_buf = 9, str_length = 2\<rparr> 1 1 2, Act_Item 8 1, Act_Item 5 0]" by code_simp
  then obtain S where S: "AnalyzeString ?env 40 ?line sample_start = Inr (False, S)"
    "seg (encStack S) 0 (enc_size (encStack S)) = [Token_Item REGISTER \<lparr>str_buf = 9, str_length = 2\<rparr> 1 1 2, Act_Item 8 1, Act_Item 5 0]"
    by (auto split: sum.splits)
  have L: "CopyStringToLine ?line = '' add add r1 ''" "blanks_end '' add add r1 '' 0 = 1" by code_simp+
  have "axiom ?env = sample_list" by (simp add: sample_env_def)
  with parser_accepts_derivations [OF sample_tables S(1), unfolded L S(2)] show ?thesis by auto
qed

text \<open>
  C38.  The parser ends on every line when its arrays call each other to a finite depth and what they repeat is not empty: calls deeper than that depth and the length of the line are
  never made, loops have at most as many rounds, and more of either would not change the result.
\<close>

theorem parser_ends:
  assumes "parser_tables env (axiom env)" "nested env d (axiom env) 0" "d + length (CopyStringToLine buffer) < n" "n \<le> n'"
  shows "AnalyzeString env n buffer S \<noteq> Inl Diverges \<and> AnalyzeString env n' buffer S = AnalyzeString env n buffer S"
  using AnalyzeString_ends [OF assms(1-3), of S] AnalyzeString_refined [OF assms(4), of env buffer S] by (simp add: refined_def halts_def)

theorem parser_ends_witness:
  "AnalyzeString (sample_env [''add'', ''reg''] sample_list) 1000 ''add add'' sample_start \<noteq> Inl Diverges"
proof -
  let ?env = "sample_env [''add'', ''reg''] sample_list"
  have "axiom ?env = sample_list" by (simp add: sample_env_def)
  moreover have "nested ?env 8 sample_list 0" by code_simp
  moreover have "8 + length (CopyStringToLine ''add add'') < 20" by code_simp
  ultimately show ?thesis using parser_ends [where env = ?env and d = 8 and buffer = "''add add''" and n = 20 and n' = 1000 and S = sample_start, OF sample_tables] by simp
qed





end
